(* ===== verification/Go_Strings.thy ===== *)
theory Go_Strings
  imports Main "HOL-Library.Word" "HOL-Library.Char_ord" "HOL-Library.List_Lexorder"
    "HOL-Library.Sublist"
begin

text \<open>
  Bytes and strings, and the parts of Go's \<open>strings\<close>, \<open>bytes\<close>, \<open>strconv\<close> and \<open>fmt\<close> packages the
  sources call. Go's \<open>string\<close> and \<open>[]byte\<close> are both sequences of bytes, so both are \<^typ>\<open>string\<close>
  here (a list of \<^typ>\<open>char\<close>, and an Isabelle \<^typ>\<open>char\<close> is exactly one byte). The numeric value
  of a byte is \<open>of_char\<close>. \<open>nil\<close> and an empty slice are the same value; where the code tells them
  apart the model has an \<open>option\<close>.
\<close>

named_theorems go_simps \<open>characteristic equations of the Go library functions\<close>

section \<open>Bytes\<close>

abbreviation byte_val :: "char \<Rightarrow> nat" where
  "byte_val c \<equiv> of_char c"

lemma byte_val_less [simp]: "byte_val c < 256"
  using of_char_mod_256 [of c, where 'a = nat] by (metis mod_less_divisor zero_less_numeral)

section \<open>Go's strings and bytes packages\<close>

definition HasPrefix :: "string \<Rightarrow> string \<Rightarrow> bool" where
  "HasPrefix s p \<longleftrightarrow> take (length p) s = p"

definition HasSuffix :: "string \<Rightarrow> string \<Rightarrow> bool" where
  "HasSuffix s x \<longleftrightarrow> length x \<le> length s \<and> drop (length s - length x) s = x"

definition CutPrefix :: "string \<Rightarrow> string \<Rightarrow> string option" where
  "CutPrefix s p = (if HasPrefix s p then Some (drop (length p) s) else None)"

definition CutSuffix :: "string \<Rightarrow> string \<Rightarrow> string option" where
  "CutSuffix s x = (if HasSuffix s x then Some (take (length s - length x) s) else None)"

definition TrimSuffix :: "string \<Rightarrow> string \<Rightarrow> string" where
  "TrimSuffix s x = (if HasSuffix s x then take (length s - length x) s else s)"

definition TrimPrefix :: "string \<Rightarrow> string \<Rightarrow> string" where
  "TrimPrefix s p = (if HasPrefix s p then drop (length p) s else s)"

text \<open>
  \<open>strings.Cut\<close> and \<open>bytes.Cut\<close> with a separator of one byte: the part before the first
  separator, the part after it, and whether there was one.
\<close>

definition Cut :: "string \<Rightarrow> char \<Rightarrow> string \<times> string \<times> bool" where
  "Cut s c = (let b = takeWhile (\<lambda>x. x \<noteq> c) s in
     if length b < length s then (b, drop (Suc (length b)) s, True) else (s, '''', False))"

text \<open>\<open>strings.TrimRight\<close> and \<open>strings.TrimLeft\<close> with a cutset of ASCII bytes.\<close>

definition TrimRight :: "string \<Rightarrow> char list \<Rightarrow> string" where
  "TrimRight s cs = rev (dropWhile (\<lambda>c. c \<in> set cs) (rev s))"

definition TrimLeft :: "string \<Rightarrow> char list \<Rightarrow> string" where
  "TrimLeft s cs = dropWhile (\<lambda>c. c \<in> set cs) s"

text \<open>\<open>strings.FieldsFunc\<close> with a predicate that only ASCII bytes satisfy.\<close>

function FieldsFunc :: "string \<Rightarrow> (char \<Rightarrow> bool) \<Rightarrow> string list" where
  "FieldsFunc s p = (case dropWhile p s of
      [] \<Rightarrow> []
    | c # cs \<Rightarrow> takeWhile (\<lambda>x. \<not> p x) (c # cs) #
        FieldsFunc (dropWhile (\<lambda>x. \<not> p x) cs) p)"
  by pat_completeness auto
termination
proof (relation "measure (\<lambda>(s, p). length s)")
  fix s :: string and p and c cs
  assume "dropWhile p s = c # cs"
  then have "length (c # cs) \<le> length s"
    using length_dropWhile_le [of p s] by simp
  moreover have "length (dropWhile (\<lambda>x. \<not> p x) cs) \<le> length cs"
    by (rule length_dropWhile_le)
  ultimately show "((dropWhile (\<lambda>x. \<not> p x) cs, p), s, p) \<in> measure (\<lambda>(s, p). length s)"
    by simp
qed simp

declare FieldsFunc.simps [simp del]

text \<open>
  \<open>space_len s\<close> is the number of bytes of the white space character (\<open>unicode.IsSpace\<close>) at the
  head of the UTF-8 text \<open>s\<close>, or 0: the six ASCII ones, U+0085 and U+00A0 (two bytes), U+1680,
  U+2000 to U+200A, U+2028, U+2029, U+202F, U+205F and U+3000 (three bytes). The lead bytes of
  these encodings are never continuation bytes, so scanning byte by byte finds exactly the
  characters Go's rune by rune scan finds.
\<close>

definition is_space3 :: "nat \<Rightarrow> nat \<Rightarrow> nat \<Rightarrow> bool" where
  "is_space3 a b c \<longleftrightarrow>
     a = 0xE1 \<and> b = 0x9A \<and> c = 0x80 \<or>
     a = 0xE2 \<and> b = 0x80 \<and> (0x80 \<le> c \<and> c \<le> 0x8A \<or> c = 0xA8 \<or> c = 0xA9 \<or> c = 0xAF) \<or>
     a = 0xE2 \<and> b = 0x81 \<and> c = 0x9F \<or>
     a = 0xE3 \<and> b = 0x80 \<and> c = 0x80"

definition is_ascii_space :: "char \<Rightarrow> bool" where
  "is_ascii_space c \<longleftrightarrow> byte_val c = 32 \<or> 9 \<le> byte_val c \<and> byte_val c \<le> 13"

definition space_len :: "string \<Rightarrow> nat" where
  "space_len s = (case s of [] \<Rightarrow> 0 | a # s1 \<Rightarrow>
     if is_ascii_space a then 1
     else case s1 of [] \<Rightarrow> 0 | b # s2 \<Rightarrow>
       if byte_val a = 0xC2 \<and> (byte_val b = 0x85 \<or> byte_val b = 0xA0) then 2
       else case s2 of [] \<Rightarrow> 0 | c # _ \<Rightarrow>
         if is_space3 (byte_val a) (byte_val b) (byte_val c) then 3 else 0)"

text \<open>\<open>strings.Fields\<close> and \<open>bytes.Fields\<close>; the first argument is the field being collected.\<close>

fun fields_from :: "string \<Rightarrow> string \<Rightarrow> string list" where
  "fields_from cur [] = (if cur = [] then [] else [cur])"
| "fields_from cur (c # cs) =
     (if space_len (c # cs) = 0 then fields_from (cur @ [c]) cs
      else (if cur = [] then [] else [cur]) @ fields_from [] (drop (space_len (c # cs) - 1) cs))"

definition Fields :: "string \<Rightarrow> string list" where
  "Fields s = fields_from [] s"

text \<open>\<open>strings.TrimSpace\<close>: white space is dropped from both ends.\<close>

fun trim_space_left :: "string \<Rightarrow> string" where
  "trim_space_left [] = []"
| "trim_space_left (c # cs) =
     (if space_len (c # cs) = 0 then c # cs
      else trim_space_left (drop (space_len (c # cs) - 1) cs))"

text \<open>The shortest prefix after which only white space follows.\<close>

fun trim_space_right :: "string \<Rightarrow> string" where
  "trim_space_right [] = []"
| "trim_space_right (c # cs) =
     (if trim_space_left (c # cs) = [] then [] else c # trim_space_right cs)"

definition TrimSpace :: "string \<Rightarrow> string" where
  "TrimSpace s = trim_space_right (trim_space_left s)"

text \<open>\<open>strings.ToLower\<close> on ASCII text, byte by byte.\<close>

definition ascii_lower :: "char \<Rightarrow> char" where
  "ascii_lower c = (if CHR ''A'' \<le> c \<and> c \<le> CHR ''Z'' then char_of (byte_val c + 32) else c)"

definition ToLower :: "string \<Rightarrow> string" where
  "ToLower s = map ascii_lower s"

section \<open>Numbers and quoting\<close>

definition hex_digits :: string where
  "hex_digits = ''0123456789abcdef''"

definition digit_char :: "nat \<Rightarrow> char" where
  "digit_char n = char_of (48 + n)"

fun itoa_nat :: "nat \<Rightarrow> string" where
  "itoa_nat n = (if n < 10 then [digit_char n] else itoa_nat (n div 10) @ [digit_char (n mod 10)])"

declare itoa_nat.simps [simp del]

text \<open>\<open>strconv.Itoa\<close> and \<open>strconv.AppendInt(_, _, 10)\<close>.\<close>

definition itoa :: "int \<Rightarrow> string" where
  "itoa i = (if i < 0 then CHR ''-'' # itoa_nat (nat (- i)) else itoa_nat (nat i))"

definition is_digit :: "char \<Rightarrow> bool" where
  "is_digit c \<longleftrightarrow> 48 \<le> byte_val c \<and> byte_val c \<le> 57"

definition digits_val :: "string \<Rightarrow> nat" where
  "digits_val s = foldl (\<lambda>n c. n * 10 + (byte_val c - 48)) 0 s"

text \<open>
  The \<open>%q\<close> verb (\<open>strconv.Quote\<close>): exact for ASCII text; a byte above 0x7f is copied, as Go does
  for the encoding of a printable character.
\<close>

definition quote_char :: "char \<Rightarrow> string" where
  "quote_char c =
     (let n = byte_val c in
      if c = CHR 0x22 then [CHR 0x5C, CHR 0x22]
      else if c = CHR 0x5C then [CHR 0x5C, CHR 0x5C]
      else if n = 7 then [CHR 0x5C, CHR ''a'']
      else if n = 8 then [CHR 0x5C, CHR ''b'']
      else if n = 12 then [CHR 0x5C, CHR ''f'']
      else if n = 10 then [CHR 0x5C, CHR ''n'']
      else if n = 13 then [CHR 0x5C, CHR ''r'']
      else if n = 9 then [CHR 0x5C, CHR ''t'']
      else if n = 11 then [CHR 0x5C, CHR ''v'']
      else if n < 32 \<or> n = 127 then [CHR 0x5C, CHR ''x'', hex_digits ! (n div 16), hex_digits ! (n mod 16)]
      else [c])"

definition quote :: "string \<Rightarrow> string" where
  "quote s = [CHR 0x22] @ concat (map quote_char s) @ [CHR 0x22]"

section \<open>Lemmas on the Go functions\<close>

lemma HasPrefix_append [simp, go_simps]: "HasPrefix (p @ s) p"
  by (simp add: HasPrefix_def)

lemma HasPrefix_conv: "HasPrefix s p \<longleftrightarrow> (\<exists>r. s = p @ r)"
  by (auto simp: HasPrefix_def) (metis append_take_drop_id)

lemma HasPrefix_prefix: "HasPrefix s p \<longleftrightarrow> prefix p s"
  by (auto simp: HasPrefix_conv prefix_def)

lemma HasPrefix_Nil [simp]: "HasPrefix s []"
  by (simp add: HasPrefix_def)

lemma HasPrefix_refl [simp]: "HasPrefix p p"
  by (simp add: HasPrefix_def)

lemma HasPrefix_longer: "length p \<le> length x \<Longrightarrow> HasPrefix (x @ s) p = HasPrefix x p"
  by (simp add: HasPrefix_def)

lemma HasPrefix_Cons [simp]: "HasPrefix (c # s) (d # p) \<longleftrightarrow> c = d \<and> HasPrefix s p"
  by (simp add: HasPrefix_def)

lemma HasPrefix_empty [simp]: "\<not> HasPrefix [] (d # p)"
  by (simp add: HasPrefix_def)

lemma CutPrefix_append [simp, go_simps]: "CutPrefix (p @ s) p = Some s"
  by (simp add: CutPrefix_def)

lemma CutPrefix_eq_Some: "CutPrefix s p = Some r \<longleftrightarrow> s = p @ r"
  by (auto simp: CutPrefix_def HasPrefix_conv)

lemma CutPrefix_eq_None: "CutPrefix s p = None \<longleftrightarrow> \<not> HasPrefix s p"
  by (simp add: CutPrefix_def)

lemma CutPrefix_Cons [simp]:
  "CutPrefix (c # s) (d # p) = (if c = d then CutPrefix s p else None)"
  by (simp add: CutPrefix_def)

lemma CutPrefix_empty [simp]: "CutPrefix [] (d # p) = None" "CutPrefix s [] = Some s"
  by (simp_all add: CutPrefix_def)

lemma HasSuffix_append [simp, go_simps]: "HasSuffix (s @ x) x"
  by (simp add: HasSuffix_def)

lemma HasSuffix_conv: "HasSuffix s x \<longleftrightarrow> (\<exists>r. s = r @ x)"
  by (auto simp: HasSuffix_def) (metis append_take_drop_id)

lemma TrimSuffix_append [simp, go_simps]: "TrimSuffix (s @ x) x = s"
  by (simp add: TrimSuffix_def)

lemma CutSuffix_append [simp, go_simps]: "CutSuffix (s @ x) x = Some s"
  by (simp add: CutSuffix_def)

lemma CutSuffix_eq_Some: "CutSuffix s x = Some r \<longleftrightarrow> s = r @ x"
  by (auto simp: CutSuffix_def HasSuffix_conv)

lemma CutSuffix_eq_None: "CutSuffix s x = None \<longleftrightarrow> \<not> HasSuffix s x"
  by (simp add: CutSuffix_def)

lemma HasSuffix_single: "HasSuffix s [c] \<longleftrightarrow> s \<noteq> [] \<and> last s = c"
  by (auto simp: HasSuffix_conv) (metis append_butlast_last_id)

lemma TrimSuffix_no [go_simps]: "\<not> HasSuffix s x \<Longrightarrow> TrimSuffix s x = s"
  by (simp add: TrimSuffix_def)

lemma Cut_found [go_simps]: "c \<notin> set b \<Longrightarrow> Cut (b @ c # a) c = (b, a, True)"
proof -
  assume *: "c \<notin> set b"
  then have "takeWhile (\<lambda>x. x \<noteq> c) (b @ c # a) = b"
    by (subst takeWhile_append2) auto
  then show ?thesis by (simp add: Cut_def)
qed

lemma Cut_not_found [go_simps]: "c \<notin> set s \<Longrightarrow> Cut s c = (s, [], False)"
proof -
  assume *: "c \<notin> set s"
  then have "takeWhile (\<lambda>x. x \<noteq> c) s = s"
    by (subst takeWhile_eq_all_conv) auto
  then show ?thesis by (simp add: Cut_def Let_def del: takeWhile_eq_all_conv)
qed

lemma Cut_cases:
  obtains (found) b a where "s = b @ c # a" "c \<notin> set b" "Cut s c = (b, a, True)"
  | (missing) "c \<notin> set s" "Cut s c = (s, [], False)"
proof (cases "c \<in> set s")
  case True
  then obtain b a where "s = b @ c # a" "c \<notin> set b"
    by (blast dest: split_list_first)
  with found Cut_found show ?thesis by blast
next
  case False
  with missing Cut_not_found show ?thesis by blast
qed

lemma byte_val_ascii_lower:
  "byte_val (ascii_lower c) = (if 65 \<le> byte_val c \<and> byte_val c \<le> 90 then byte_val c + 32 else byte_val c)"
  by (simp add: ascii_lower_def less_eq_char_def)

lemma byte_val_hex_digits: "d < 16 \<Longrightarrow> byte_val (hex_digits ! d) = (if d < 10 then 48 + d else 87 + d)"
proof -
  have "\<forall>d\<in>set [0..<16]. byte_val (hex_digits ! d) = (if d < 10 then 48 + d else 87 + d)"
    by code_simp
  then show "d < 16 \<Longrightarrow> ?thesis" by simp
qed

subsection \<open>Fields\<close>

text \<open>\<open>no_space t\<close>: no white space character starts anywhere in \<open>t\<close>.\<close>

fun no_space :: "string \<Rightarrow> bool" where
  "no_space [] \<longleftrightarrow> True"
| "no_space (c # cs) \<longleftrightarrow> space_len (c # cs) = 0 \<and> no_space cs"

lemma is_space3_continuation: "is_space3 a b c \<Longrightarrow> 128 \<le> b \<and> 128 \<le> c"
  by (auto simp: is_space3_def)

lemma space_len_ascii:
  assumes "t \<noteq> []" "byte_val c < 128"
  shows "space_len (t @ c # s) = space_len t"
proof -
  obtain a t1 where t: "t = a # t1" using assms(1) by (cases t) auto
  show ?thesis
  proof (cases t1)
    case Nil
    with t assms(2) show ?thesis
      by (auto simp: space_len_def split: list.splits dest!: is_space3_continuation)
  next
    case (Cons b t2)
    with t assms(2) show ?thesis
      by (cases t2) (auto simp: space_len_def dest!: is_space3_continuation)
  qed
qed

lemma fields_from_token:
  "no_space t \<Longrightarrow> fields_from cur t = (if cur @ t = [] then [] else [cur @ t])"
  by (induction t arbitrary: cur) auto

lemma fields_from_token_space:
  assumes "no_space t" "is_ascii_space c"
  shows "fields_from cur (t @ c # s) = (if cur @ t = [] then [] else [cur @ t]) @ fields_from [] s"
  using assms(1)
proof (induction t arbitrary: cur)
  case Nil
  with assms(2) show ?case by (simp add: space_len_def)
next
  case (Cons a t)
  from assms(2) have "byte_val c < 128" by (auto simp: is_ascii_space_def)
  with Cons.prems space_len_ascii [of "a # t" c s] Cons.IH [of "cur @ [a]"] show ?case by simp
qed

lemma Fields_simps:
  "Fields [] = []"
  "no_space t \<Longrightarrow> t \<noteq> [] \<Longrightarrow> Fields t = [t]"
  "no_space t \<Longrightarrow> t \<noteq> [] \<Longrightarrow> Fields (t @ CHR '' '' # s) = t # Fields s"
  by (simp_all add: Fields_def fields_from_token fields_from_token_space is_ascii_space_def)

lemma no_space_ascii:
  "list_all (\<lambda>c. byte_val c < 128 \<and> \<not> is_ascii_space c) t \<Longrightarrow> no_space t"
proof (induction t)
  case (Cons a t)
  then show ?case by (auto simp: space_len_def is_space3_def split: list.splits)
qed simp

subsection \<open>Decimal numbers\<close>

lemma byte_val_digit_char: "d < 10 \<Longrightarrow> byte_val (digit_char d) = 48 + d"
  by (simp add: digit_char_def)

lemma is_digit_char [simp]: "d < 10 \<Longrightarrow> is_digit (digit_char d)"
  by (simp add: is_digit_def byte_val_digit_char)

lemma itoa_nat_digits: "itoa_nat n \<noteq> [] \<and> list_all is_digit (itoa_nat n) \<and> digits_val (itoa_nat n) = n"
proof (induction n rule: itoa_nat.induct)
  case (1 n)
  show ?case
  proof (cases "n < 10")
    case True
    then show ?thesis
      by (subst (1 2 3) itoa_nat.simps) (simp add: digits_val_def byte_val_digit_char)
  next
    case False
    then show ?thesis using 1 [OF False]
      by (subst (1 2 3) itoa_nat.simps) (simp add: digits_val_def byte_val_digit_char)
  qed
qed

lemma digit_not_sign: "is_digit c \<Longrightarrow> c \<noteq> CHR ''-'' \<and> c \<noteq> CHR ''+''"
  by (auto simp: is_digit_def)

lemma itoa_not_Nil [simp]: "itoa i \<noteq> []"
  using itoa_nat_digits by (simp add: itoa_def)

end
