(* ===== verification/Go_Prelude.thy ===== *)
theory Go_Prelude
  imports URL_Redact
begin

text \<open>
  Errors, and the sequencing of fallible commands, that every component of the model shares.

  \<^item> \<open>go_error\<close> is the tree an error value of Go is. A sentinel (\<open>errors.New\<close> bound to
    a package variable) is compared by identity, \<open>fmt.Errorf\<close> with one \<open>%w\<close> verb wraps another
    error between two pieces of text (\<open>Wrapf2\<close>: two verbs, two errors), \<open>Join\<close> is \<open>errors.Join\<close> of two
    errors, \<open>SchemeError\<close> a sentinel of a transport with its generic parent
    (\<open>src/transport/errors.go\<close>) and \<open>ProtocolError\<close> the error type of that name of the root package and of each
    transport. \<open>errors_Is\<close> walks the tree as \<open>errors.Is\<close> does.
  \<^item> A fallible function returns \<open>go_error + 'a\<close>, a fallible command on a mutable object
    returns \<open>go_error option\<close> with the object's new state. \<open>after\<close> is the
    \<open>if err := ...; err != nil { return err }\<close> idiom of the writers.
\<close>

section \<open>Errors\<close>

datatype ErrPackage = lsremote | httpt | ssht | filet | gitt

datatype go_error =
    io_EOF
  | io_ErrUnexpectedEOF
  | os_ErrNotExist
  | Sentinel string
  | New string
  | Wrapf string go_error string
  | Wrapf2 string go_error string go_error string
  | Join go_error go_error
  | SchemeError (se_Parent: go_error) (se_Msg: string)
  | ProtocolError (pe_package: ErrPackage) (pe_URL: string) (pe_Op: string) (pe_Version: "int option")
      (pe_Server: string) (pe_Err: "go_error option") (pe_Status: int)

text \<open>
  The text of the \<open>ProtocolError\<close> of a package (\<open>src/errors.go\<close>, \<open>src/transport/<scheme>/errors.go\<close>), from
  the text of its cause. The types of the transports have no version, and only HTTP's has a status.
\<close>

definition protocol_error_text ::
  "ErrPackage \<Rightarrow> string \<Rightarrow> string \<Rightarrow> string \<Rightarrow> string option \<Rightarrow> int \<Rightarrow> string" where
  "protocol_error_text pkg url op server cause status =
     (if pkg = lsremote then
        ''lsremote:'' @ (if op = [] then [] else '' '' @ op @ '':'') @ '' '' @
        (case cause of Some c \<Rightarrow> c | None \<Rightarrow> ''<nil cause>'') @
        (if url = [] then [] else '' (URL '' @ RedactURL url @ '')'') @
        (if status = 0 then [] else '' [status '' @ itoa status @ '']'') @
        (if server = [] then [] else '' [server: '' @ server @ '']'')
      else
        (case pkg of httpt \<Rightarrow> ''transport/http:'' | ssht \<Rightarrow> ''transport/ssh:'' | filet \<Rightarrow> ''transport/file:''
           | _ \<Rightarrow> ''transport/git'') @
        (if op = [] then [] else if pkg = gitt then '': '' @ op else '' '' @ op) @
        (if url = [] then [] else '' '' @ url) @
        (if pkg = httpt \<and> status \<noteq> 0 then '': HTTP '' @ itoa status else []) @
        (case cause of Some c \<Rightarrow> if c = [] then [] else '': '' @ c
           | None \<Rightarrow> if server = [] then [] else '': '' @ server))"

primrec error_text :: "go_error \<Rightarrow> string" where
  "error_text io_EOF = ''EOF''"
| "error_text io_ErrUnexpectedEOF = ''unexpected EOF''"
| "error_text os_ErrNotExist = ''file does not exist''"
| "error_text (Sentinel s) = s"
| "error_text (New s) = s"
| "error_text (Wrapf a e b) = a @ error_text e @ b"
| "error_text (Wrapf2 a e b f c) = a @ error_text e @ b @ error_text f @ c"
| "error_text (Join e f) = error_text e @ [CHR 0x0A] @ error_text f"
| "error_text (SchemeError p m) = m"
| "error_text (ProtocolError pkg url op version server err status) =
     protocol_error_text pkg url op server (map_option error_text err) status"

fun errors_Is :: "go_error \<Rightarrow> go_error \<Rightarrow> bool" where
  "errors_Is (Wrapf a e b) t \<longleftrightarrow> Wrapf a e b = t \<or> errors_Is e t"
| "errors_Is (Wrapf2 a e b f c) t \<longleftrightarrow> Wrapf2 a e b f c = t \<or> errors_Is e t \<or> errors_Is f t"
| "errors_Is (Join e f) t \<longleftrightarrow> Join e f = t \<or> errors_Is e t \<or> errors_Is f t"
| "errors_Is (SchemeError p m) t \<longleftrightarrow> SchemeError p m = t \<or> t = p"
| "errors_Is (ProtocolError pkg url op version server (Some e) status) t \<longleftrightarrow>
     ProtocolError pkg url op version server (Some e) status = t \<or> errors_Is e t"
| "errors_Is e t \<longleftrightarrow> e = t"

text \<open>\<open>errors.As\<close> for the \<open>ProtocolError\<close> type of a package: the first one in depth-first order.\<close>

fun errors_As :: "ErrPackage \<Rightarrow> go_error \<Rightarrow> go_error option" where
  "errors_As pkg (Wrapf a e b) = errors_As pkg e"
| "errors_As pkg (Wrapf2 a e b f c) = (case errors_As pkg e of None \<Rightarrow> errors_As pkg f | Some r \<Rightarrow> Some r)"
| "errors_As pkg (Join e f) = (case errors_As pkg e of None \<Rightarrow> errors_As pkg f | Some r \<Rightarrow> Some r)"
| "errors_As pkg (ProtocolError pkg' url op version server err status) =
     (if pkg' = pkg then Some (ProtocolError pkg' url op version server err status)
      else case err of None \<Rightarrow> None | Some e \<Rightarrow> errors_As pkg e)"
| "errors_As pkg e = None"

lemma errors_Is_refl [simp]: "errors_Is e e"
  by (cases "(e, e)" rule: errors_Is.cases) auto

lemma errors_Is_Wrapf [simp]: "errors_Is e t \<Longrightarrow> errors_Is (Wrapf a e b) t"
  by simp

section \<open>Sequencing of fallible commands\<close>

definition after ::
  "go_error option \<times> 'w \<Rightarrow> ('w \<Rightarrow> go_error option \<times> 'w) \<Rightarrow> go_error option \<times> 'w" where
  "after r k = (case r of (Some e, w) \<Rightarrow> (Some e, w) | (None, w) \<Rightarrow> k w)"

lemma after_simps [simp]:
  "after (None, w) k = k w"
  "after (Some e, w) k = (Some e, w)"
  by (simp_all add: after_def)

lemma after_assoc: "after (after r f) g = after r (\<lambda>w. after (f w) g)"
  by (simp add: after_def split: prod.splits option.splits)

lemma after_cong:
  "r = r' \<Longrightarrow> (\<And>w. r' = (None, w) \<Longrightarrow> k w = k' w) \<Longrightarrow> after r k = after r' k'"
  by (auto simp: after_def split: prod.splits option.splits)

text \<open>\<open>wrap_err\<close> is \<open>if err != nil { return fmt.Errorf("<text>: %w", err) }\<close>.\<close>

definition wrap_err :: "string \<Rightarrow> go_error option \<times> 'w \<Rightarrow> go_error option \<times> 'w" where
  "wrap_err msg r = (case r of (Some e, w) \<Rightarrow> (Some (Wrapf msg e ''''), w) | (None, w) \<Rightarrow> (None, w))"

lemma wrap_err_simps [simp]:
  "wrap_err msg (None, w) = (None, w)"
  "wrap_err msg (Some e, w) = (Some (Wrapf msg e ''''), w)"
  by (simp_all add: wrap_err_def)

text \<open>The loop \<open>for _, x := range xs { if err := f(x); err != nil { return err } }\<close>.\<close>

fun for_each :: "('a \<Rightarrow> 'w \<Rightarrow> go_error option \<times> 'w) \<Rightarrow> 'a list \<Rightarrow> 'w \<Rightarrow> go_error option \<times> 'w" where
  "for_each f [] w = (None, w)"
| "for_each f (x # xs) w = after (f x w) (for_each f xs)"

lemma after_skip [simp]: "after r (\<lambda>w. (None, w)) = r"
  by (auto simp: after_def split: prod.splits option.splits)

lemma for_each_eta [simp]:
  "for_each f [] = (\<lambda>w. (None, w))"
  "for_each f (x # xs) = (\<lambda>w. after (f x w) (for_each f xs))"
  by (rule ext, simp)+

lemma for_each_map: "for_each f (map g xs) w = for_each (\<lambda>x. f (g x)) xs w"
  by (induction xs arbitrary: w) (auto intro: after_cong)

lemma for_each_append: "for_each f (xs @ ys) w = after (for_each f xs w) (for_each f ys)"
  by (induction xs arbitrary: w) (auto simp: after_assoc intro: after_cong)

section \<open>Parsing of decimal numbers\<close>

text \<open>
  \<open>strconv.ParseInt(s, 10, 64)\<close>: an optional sign, then one or more decimal digits (base 10
  admits no underscores), in the range of an int64; otherwise an error.
\<close>

definition ErrSyntax :: go_error where
  "ErrSyntax = Sentinel ''invalid syntax''"

definition ErrRange :: go_error where
  "ErrRange = Sentinel ''value out of range''"

definition ParseInt :: "string \<Rightarrow> go_error + int" where
  "ParseInt s =
     (let neg = HasPrefix s ''-'';
          d = (if neg \<or> HasPrefix s ''+'' then drop 1 s else s)
      in if d = [] \<or> \<not> list_all is_digit d then Inl (Wrapf ''strconv.ParseInt: parsing: '' ErrSyntax '''')
         else if neg then
           (if digits_val d \<le> 2 ^ 63 then Inr (- int (digits_val d))
            else Inl (Wrapf ''strconv.ParseInt: parsing: '' ErrRange ''''))
         else
           (if digits_val d < 2 ^ 63 then Inr (int (digits_val d))
            else Inl (Wrapf ''strconv.ParseInt: parsing: '' ErrRange '''')))"

lemma ParseInt_itoa:
  assumes "- (2 ^ 63) \<le> i" "i < 2 ^ 63"
  shows "ParseInt (itoa i) = Inr i"
proof (cases "i < 0")
  case True
  then show ?thesis using assms itoa_nat_digits [of "nat (- i)"]
    by (auto simp: ParseInt_def itoa_def Let_def)
next
  case False
  obtain c cs where c: "itoa_nat (nat i) = c # cs" using itoa_nat_digits [of "nat i"] by (cases "itoa_nat (nat i)") auto
  moreover from c have "is_digit c" using itoa_nat_digits [of "nat i"] by simp
  ultimately show ?thesis using False assms itoa_nat_digits [of "nat i"] digit_not_sign [of c]
    by (auto simp: ParseInt_def itoa_def Let_def)
qed

end
