(* ===== verification/Pktline.thy ===== *)
theory Pktline
  imports Go_Prelude
begin

unbundle bit_operations_syntax

text \<open>
  The pkt-line codec (\<open>src/pktline\<close>): the wire format of every Git smart protocol message.

  \<^item> \<open>Source\<close> is the \<open>io.Reader\<close> a \<open>Reader\<close> pulls from: the bytes that are still to come and the
    error that follows them (\<open>io.EOF\<close> for a clean close). \<open>Sink\<close> is the \<open>io.Writer\<close> a \<open>Writer\<close>
    writes to: what it has accepted, how many more bytes it accepts, and the error after that.
  \<^item> A tracer is the list of events it has received, with the direction and URL fixed by the
    option that installed it.
  \<^item> The scratch buffers of Reader and Writer are not state of the model: \<open>Packet.Data\<close> is a value.
    Every caller in the modelled packages uses the payload before its next \<open>ReadPacket\<close>.

  The lemmas: the length prefix round trips; writing then reading is the identity at any point
  of a stream (locale \<open>codec\<close>, interpreted here for packets); a read either fails without an
  event or yields one packet, one event and exactly the unread rest; a write either leaves a
  whole packet on the wire with one event or reports an error and no event.
\<close>

section \<open>Byte streams\<close>

record Source =
  src_rest :: string
  src_end :: go_error

record Sink =
  snk_out :: string
  snk_room :: "nat option"
  snk_err :: go_error

text \<open>\<open>io.ReadFull\<close>: the bytes read, the error if there are fewer than wanted, the new state.\<close>

definition io_ReadFull :: "Source \<Rightarrow> nat \<Rightarrow> string \<times> go_error option \<times> Source" where
  "io_ReadFull s n =
     (if n \<le> length (src_rest s)
      then (take n (src_rest s), None, s\<lparr>src_rest := drop n (src_rest s)\<rparr>)
      else (src_rest s,
            Some (if src_rest s \<noteq> [] \<and> src_end s = io_EOF then io_ErrUnexpectedEOF else src_end s),
            s\<lparr>src_rest := []\<rparr>))"

text \<open>\<open>io.Writer.Write\<close>: all of it, or the prefix that fits and an error.\<close>

definition io_Write :: "Sink \<Rightarrow> string \<Rightarrow> go_error option \<times> Sink" where
  "io_Write s p = (case snk_room s of
      None \<Rightarrow> (None, s\<lparr>snk_out := snk_out s @ p\<rparr>)
    | Some r \<Rightarrow>
        if length p \<le> r then (None, s\<lparr>snk_out := snk_out s @ p, snk_room := Some (r - length p)\<rparr>)
        else (Some (snk_err s), s\<lparr>snk_out := snk_out s @ take r p, snk_room := Some 0\<rparr>))"

section \<open>Packets and trace events\<close>

datatype Kind = Data | Flush | Delim | ResponseEnd

record Packet =
  pkt_Kind :: Kind
  pkt_Data :: string

datatype PacketKind = PacketData | PacketFlush | PacketDelim | PacketResponseEnd

datatype Direction = DirectionInbound | DirectionOutbound

record PacketEvent =
  ev_URL :: string
  ev_Bytes :: string
  ev_Direction :: Direction
  ev_Kind :: PacketKind

record Tracer =
  tr_Direction :: Direction
  tr_URL :: string
  tr_events :: "PacketEvent list"

fun kindToTracerKind :: "Kind \<Rightarrow> PacketKind" where
  "kindToTracerKind Data = PacketData"
| "kindToTracerKind Flush = PacketFlush"
| "kindToTracerKind Delim = PacketDelim"
| "kindToTracerKind ResponseEnd = PacketResponseEnd"

text \<open>The shared body of \<open>Reader.emit\<close> and \<open>Writer.emit\<close>; \<open>None\<close> is a nil tracer.\<close>

definition emit :: "Tracer option \<Rightarrow> Kind \<Rightarrow> string \<Rightarrow> Tracer option" where
  "emit t k payload = map_option (\<lambda>t. t\<lparr>tr_events := tr_events t @
      [\<lparr>ev_URL = tr_URL t, ev_Bytes = payload, ev_Direction = tr_Direction t,
        ev_Kind = kindToTracerKind k\<rparr>]\<rparr>) t"

record Reader =
  rd_src :: Source
  rd_tracer :: "Tracer option"

record Writer =
  wr_dst :: Sink
  wr_tracer :: "Tracer option"

definition NewReader :: "Source \<Rightarrow> Reader" where
  "NewReader s = \<lparr>rd_src = s, rd_tracer = None\<rparr>"

definition WithReaderTracerURL :: "Direction \<Rightarrow> string \<Rightarrow> Reader \<Rightarrow> Reader" where
  "WithReaderTracerURL dir url r =
     r\<lparr>rd_tracer := Some \<lparr>tr_Direction = dir, tr_URL = url, tr_events = []\<rparr>\<rparr>"

definition NewWriter :: "Sink \<Rightarrow> Writer" where
  "NewWriter s = \<lparr>wr_dst = s, wr_tracer = None\<rparr>"

definition WithWriterTracerURL :: "Direction \<Rightarrow> string \<Rightarrow> Writer \<Rightarrow> Writer" where
  "WithWriterTracerURL dir url w =
     w\<lparr>wr_tracer := Some \<lparr>tr_Direction = dir, tr_URL = url, tr_events = []\<rparr>\<rparr>"

section \<open>Errors and limits\<close>

definition ErrInvalidHex :: go_error where
  "ErrInvalidHex = Sentinel ''pktline: invalid hex byte in length prefix''"

definition ErrInvalidLength :: go_error where
  "ErrInvalidLength = Sentinel ''pktline: invalid length prefix''"

definition ErrPayloadTooLarge :: go_error where
  "ErrPayloadTooLarge = Sentinel ''pktline: payload exceeds MaxPayload''"

definition MaxPayload :: nat where
  "MaxPayload = 65516"

section \<open>The length prefix\<close>

definition hexval :: "char \<Rightarrow> nat option" where
  "hexval c =
     (if CHR ''0'' \<le> c \<and> c \<le> CHR ''9'' then Some (byte_val c - byte_val CHR ''0'')
      else if CHR ''a'' \<le> c \<and> c \<le> CHR ''f'' then Some (byte_val c - byte_val CHR ''a'' + 10)
      else if CHR ''A'' \<le> c \<and> c \<le> CHR ''F'' then Some (byte_val c - byte_val CHR ''A'' + 10)
      else None)"

fun parseHexLength_loop :: "nat \<Rightarrow> string \<Rightarrow> go_error + nat" where
  "parseHexLength_loop v [] = Inr v"
| "parseHexLength_loop v (c # cs) = (case hexval c of
      None \<Rightarrow> Inl (Wrapf '''' ErrInvalidHex
        ('': 0x'' @ [hex_digits ! (byte_val c div 16), hex_digits ! (byte_val c mod 16)]))
    | Some n \<Rightarrow> parseHexLength_loop (push_bit 4 v OR n) cs)"

definition parseHexLength :: "string \<Rightarrow> go_error + nat" where
  "parseHexLength b = parseHexLength_loop 0 b"

definition encodeHexLength :: "nat \<Rightarrow> string" where
  "encodeHexLength v =
     [hex_digits ! (drop_bit 12 v AND 15), hex_digits ! (drop_bit 8 v AND 15),
      hex_digits ! (drop_bit 4 v AND 15), hex_digits ! (v AND 15)]"

section \<open>Reading\<close>

definition control_packet :: "Kind \<Rightarrow> Packet" where
  "control_packet k = \<lparr>pkt_Kind = k, pkt_Data = ''''\<rparr>"

definition data_packet :: "string \<Rightarrow> Packet" where
  "data_packet p = \<lparr>pkt_Kind = Data, pkt_Data = p\<rparr>"

text \<open>The second half of \<open>readPacket\<close>, from the decoded length prefix on.\<close>

definition readPacket_body :: "Reader \<Rightarrow> nat \<Rightarrow> (go_error + Packet) \<times> Reader" where
  "readPacket_body r len =
     (if len = 0 then (Inr (control_packet Flush), r)
      else if len = 1 then (Inr (control_packet Delim), r)
      else if len = 2 then (Inr (control_packet ResponseEnd), r)
      else if len < 4 then (Inl (Wrapf [] ErrInvalidLength ('': '' @ itoa_nat len)), r)
      else if MaxPayload < len - 4 then
        (Inl (Wrapf [] ErrPayloadTooLarge ('': '' @ itoa_nat (len - 4) @ '' > '' @ itoa_nat MaxPayload)), r)
      else case io_ReadFull (rd_src r) (len - 4) of
          (p, Some e, s) \<Rightarrow>
            (Inl (if errors_Is e io_EOF then io_ErrUnexpectedEOF else e), r\<lparr>rd_src := s\<rparr>)
        | (p, None, s) \<Rightarrow> (Inr (data_packet p), r\<lparr>rd_src := s\<rparr>))"

definition readPacket :: "Reader \<Rightarrow> (go_error + Packet) \<times> Reader" where
  "readPacket r = (case io_ReadFull (rd_src r) 4 of
      (hdr, Some e, s) \<Rightarrow> (Inl e, r\<lparr>rd_src := s\<rparr>)
    | (hdr, None, s) \<Rightarrow> (case parseHexLength hdr of
          Inl e \<Rightarrow> (Inl e, r\<lparr>rd_src := s\<rparr>)
        | Inr len \<Rightarrow> readPacket_body (r\<lparr>rd_src := s\<rparr>) len))"

definition ReadPacket :: "Reader \<Rightarrow> (go_error + Packet) \<times> Reader" where
  "ReadPacket r = (case readPacket r of
      (Inl e, r) \<Rightarrow> (Inl e, r)
    | (Inr p, r) \<Rightarrow> (Inr p, r\<lparr>rd_tracer := emit (rd_tracer r) (pkt_Kind p) (pkt_Data p)\<rparr>))"

section \<open>Writing\<close>

definition payload_error :: "nat \<Rightarrow> go_error" where
  "payload_error n = Wrapf '''' ErrPayloadTooLarge ('': '' @ itoa_nat n @ '' > '' @ itoa_nat MaxPayload)"

text \<open>The common tail of the writers: one \<open>Write\<close> of the whole packet, then one event.\<close>

definition write_and_emit :: "Writer \<Rightarrow> string \<Rightarrow> Kind \<Rightarrow> string \<Rightarrow> go_error option \<times> Writer" where
  "write_and_emit w out k payload = (case io_Write (wr_dst w) out of
      (Some e, d) \<Rightarrow> (Some e, w\<lparr>wr_dst := d\<rparr>)
    | (None, d) \<Rightarrow> (None, w\<lparr>wr_dst := d, wr_tracer := emit (wr_tracer w) k payload\<rparr>))"

definition WritePacket :: "Writer \<Rightarrow> string \<Rightarrow> go_error option \<times> Writer" where
  "WritePacket w p =
     (if MaxPayload < length p then (Some (payload_error (length p)), w)
      else write_and_emit w (encodeHexLength (4 + length p) @ p) Data p)"

definition WriteLine :: "Writer \<Rightarrow> string \<Rightarrow> go_error option \<times> Writer" where
  "WriteLine w s =
     (let payloadLen = length s + 1 in
      if MaxPayload < payloadLen then (Some (payload_error payloadLen), w)
      else write_and_emit w (encodeHexLength (4 + payloadLen) @ s @ [CHR 0x0A]) Data (s @ [CHR 0x0A]))"

definition WriteLineParts :: "Writer \<Rightarrow> string list \<Rightarrow> go_error option \<times> Writer" where
  "WriteLineParts w parts =
     (let payloadLen = foldl (\<lambda>n p. n + length p) 1 parts in
      if MaxPayload < payloadLen then (Some (payload_error payloadLen), w)
      else write_and_emit w (encodeHexLength (4 + payloadLen) @ concat parts @ [CHR 0x0A])
             Data (concat parts @ [CHR 0x0A]))"

definition writeControl :: "Writer \<Rightarrow> string \<Rightarrow> Kind \<Rightarrow> go_error option \<times> Writer" where
  "writeControl w s k = write_and_emit w s k ''''"

definition WriteFlush :: "Writer \<Rightarrow> go_error option \<times> Writer" where
  "WriteFlush w = writeControl w ''0000'' Flush"

definition WriteDelim :: "Writer \<Rightarrow> go_error option \<times> Writer" where
  "WriteDelim w = writeControl w ''0001'' Delim"

definition WriteResponseEnd :: "Writer \<Rightarrow> go_error option \<times> Writer" where
  "WriteResponseEnd w = writeControl w ''0002'' ResponseEnd"

section \<open>The packets of a stream\<close>

fun encode_packet :: "Packet \<Rightarrow> string" where
  "encode_packet p = (case pkt_Kind p of
      Data \<Rightarrow> encodeHexLength (4 + length (pkt_Data p)) @ pkt_Data p
    | Flush \<Rightarrow> ''0000''
    | Delim \<Rightarrow> ''0001''
    | ResponseEnd \<Rightarrow> ''0002'')"

declare encode_packet.simps [simp del]

definition stream :: "Packet list \<Rightarrow> string" where
  "stream ps = concat (map encode_packet ps)"

definition wf_packet :: "Packet \<Rightarrow> bool" where
  "wf_packet p \<longleftrightarrow>
     (if pkt_Kind p = Data then length (pkt_Data p) \<le> MaxPayload else pkt_Data p = [])"

abbreviation line_packet :: "string \<Rightarrow> Packet" where
  "line_packet s \<equiv> data_packet (s @ [CHR 0x0A])"

abbreviation flush_packet :: Packet where
  "flush_packet \<equiv> control_packet Flush"

abbreviation delim_packet :: Packet where
  "delim_packet \<equiv> control_packet Delim"

lemma packet_simps [simp]:
  "pkt_Kind (data_packet d) = Data" "pkt_Data (data_packet d) = d"
  "pkt_Kind (control_packet k) = k" "pkt_Data (control_packet k) = []"
  by (simp_all add: data_packet_def control_packet_def)

lemma packet_eq_simps [simp]:
  "data_packet d = data_packet d' \<longleftrightarrow> d = d'"
  "control_packet k = control_packet k' \<longleftrightarrow> k = k'"
  by (auto simp: data_packet_def control_packet_def)

lemma wf_packet_simps [simp]:
  "wf_packet (data_packet d) \<longleftrightarrow> length d \<le> MaxPayload"
  "k \<noteq> Data \<Longrightarrow> wf_packet (control_packet k)"
  by (simp_all add: wf_packet_def)

lemma wf_packet_cases [consumes 1, case_names data control]:
  assumes "wf_packet p"
  obtains (data) d where "p = data_packet d" "length d \<le> MaxPayload"
  | (control) k where "k \<noteq> Data" "p = control_packet k"
proof (cases "pkt_Kind p = Data")
  case True
  then have "p = data_packet (pkt_Data p)" by (simp add: data_packet_def)
  moreover from True assms have "length (pkt_Data p) \<le> MaxPayload" by (simp add: wf_packet_def)
  ultimately show ?thesis by (rule data)
next
  case False
  with assms have "p = control_packet (pkt_Kind p)" by (simp add: control_packet_def wf_packet_def)
  with False control show ?thesis by blast
qed

lemma stream_simps [simp]:
  "stream [] = []"
  "stream (p # ps) = encode_packet p @ stream ps"
  "stream (ps @ qs) = stream ps @ stream qs"
  by (simp_all add: stream_def)

subsection \<open>The length prefix round trips\<close>

lemma push_bit_or_eq: "n < 2 ^ k \<Longrightarrow> push_bit k v OR n = v * 2 ^ k + (n :: nat)"
proof -
  assume n: "n < 2 ^ k"
  then have t: "take_bit k n = n" by (simp add: take_bit_eq_mod)
  have "push_bit k v AND take_bit k n = 0"
    by (rule bit_eqI) (auto simp: bit_simps)
  then have "push_bit k v + n = push_bit k v OR n" by (simp add: t disjunctive_add_eq_or)
  then show ?thesis by (simp add: push_bit_eq_mult mult.commute)
qed

lemma and_15: "(v :: nat) AND 15 = v mod 16"
  using take_bit_eq_mask [of 4 v] by (simp add: take_bit_eq_mod mask_eq_exp_minus_1)

lemma hexval_hex_digits: "n < 16 \<Longrightarrow> hexval (hex_digits ! n) = Some n"
proof -
  have "\<forall>n\<in>set [0..<16]. hexval (hex_digits ! n) = Some n"
    by code_simp
  then show "n < 16 \<Longrightarrow> hexval (hex_digits ! n) = Some n" by simp
qed

lemma hexval_less: "hexval c = Some n \<Longrightarrow> n < 16"
  by (auto simp: hexval_def less_eq_char_def split: if_splits)

lemma parseHexLength_loop_step:
  "n < 16 \<Longrightarrow> parseHexLength_loop v (hex_digits ! n # cs) = parseHexLength_loop (v * 16 + n) cs"
  by (simp add: hexval_hex_digits push_bit_or_eq [where k = 4, simplified])

lemma length_encodeHexLength [simp]: "length (encodeHexLength v) = 4"
  by (simp add: encodeHexLength_def)

lemma parse_encodeHexLength: "v < 65536 \<Longrightarrow> parseHexLength (encodeHexLength v) = Inr v"
proof -
  assume v: "v < 65536"
  have 1: "v div 4096 mod 16 * 16 + v div 256 mod 16 = v div 256"
    using v by (simp add: div_mult2_eq [of v 256 16, simplified]) 
  have 2: "v div 256 * 16 + v div 16 mod 16 = v div 16"
    by (simp add: div_mult2_eq [of v 16 16, simplified])
  show ?thesis
    by (simp add: parseHexLength_def encodeHexLength_def and_15 drop_bit_eq_div 1 2
        parseHexLength_loop_step del: parseHexLength_loop.simps(2))
qed

lemma parseHexLength_bound:
  "parseHexLength_loop v cs = Inr n \<Longrightarrow> n < (v + 1) * 16 ^ length cs"
proof (induction cs arbitrary: v)
  case (Cons c cs)
  then obtain d where d: "hexval c = Some d"
    and n: "parseHexLength_loop (push_bit 4 v OR d) cs = Inr n"
    by (auto split: option.splits)
  from d have "d < 16" by (rule hexval_less)
  then have eq: "push_bit 4 v OR d = v * 16 + d" by (simp add: push_bit_or_eq [where k = 4, simplified])
  from Cons.IH [OF n] have "n < (v * 16 + d + 1) * 16 ^ length cs" by (simp add: eq)
  also have "\<dots> \<le> ((v + 1) * 16) * 16 ^ length cs"
    using \<open>d < 16\<close> by (intro mult_right_mono) auto
  finally show ?case by (simp add: algebra_simps)
qed simp

lemma parseHexLength_less:
  "parseHexLength cs = Inr n \<Longrightarrow> length cs = 4 \<Longrightarrow> n < 65536"
  using parseHexLength_bound [of 0 cs n] by (simp add: parseHexLength_def)

lemma parseHexLength_control:
  "parseHexLength ''0000'' = Inr 0" "parseHexLength ''0001'' = Inr 1" "parseHexLength ''0002'' = Inr 2"
  by code_simp+

subsection \<open>Reading consumes exactly one packet\<close>

lemma io_ReadFull_append [simp]:
  "length p = n \<Longrightarrow> io_ReadFull (s\<lparr>src_rest := p @ rest\<rparr>) n = (p, None, s\<lparr>src_rest := rest\<rparr>)"
  by (simp add: io_ReadFull_def)

lemma readPacket_header:
  assumes "src_rest (rd_src r) = hdr @ rest" "length hdr = 4" "parseHexLength hdr = Inr n"
  shows "readPacket r = readPacket_body (r\<lparr>rd_src := (rd_src r)\<lparr>src_rest := rest\<rparr>\<rparr>) n"
  using assms by (simp add: readPacket_def io_ReadFull_def)

lemma readPacket_encode:
  assumes "wf_packet p" "src_rest (rd_src r) = encode_packet p @ rest"
  shows "readPacket r = (Inr p, r\<lparr>rd_src := (rd_src r)\<lparr>src_rest := rest\<rparr>\<rparr>)"
  using assms(1)
proof (cases rule: wf_packet_cases)
  case (data d)
  then have "4 + length d < 65536" by (simp add: MaxPayload_def)
  then have "parseHexLength (encodeHexLength (4 + length d)) = Inr (4 + length d)"
    by (rule parse_encodeHexLength)
  moreover have "src_rest (rd_src r) = encodeHexLength (4 + length d) @ d @ rest"
    using assms(2) data by (simp add: encode_packet.simps)
  ultimately have "readPacket r =
      readPacket_body (r\<lparr>rd_src := (rd_src r)\<lparr>src_rest := d @ rest\<rparr>\<rparr>) (4 + length d)"
    by (intro readPacket_header) auto
  with data show ?thesis by (simp add: readPacket_body_def)
next
  case (control k)
  have "readPacket r = readPacket_body (r\<lparr>rd_src := (rd_src r)\<lparr>src_rest := rest\<rparr>\<rparr>)
      (case k of Flush \<Rightarrow> 0 | Delim \<Rightarrow> 1 | ResponseEnd \<Rightarrow> 2)"
    using assms(2) control parseHexLength_control
    by (intro readPacket_header [of _ "encode_packet p"]) (auto simp: encode_packet.simps split: Kind.splits)
  with control show ?thesis by (cases k) (simp_all add: readPacket_body_def)
qed

definition consume :: "Reader \<Rightarrow> Packet \<Rightarrow> string \<Rightarrow> Reader" where
  "consume r p rest = r\<lparr>rd_src := (rd_src r)\<lparr>src_rest := rest\<rparr>,
     rd_tracer := emit (rd_tracer r) (pkt_Kind p) (pkt_Data p)\<rparr>"

lemma ReadPacket_encode:
  assumes "wf_packet p" "src_rest (rd_src r) = encode_packet p @ rest"
  shows "ReadPacket r = (Inr p, consume r p rest)"
  using readPacket_encode [OF assms] by (simp add: ReadPacket_def consume_def)

lemma io_ReadFull_Some: 
  "io_ReadFull s n = (p, Some e, s') \<Longrightarrow>
     s' = s\<lparr>src_rest := []\<rparr> \<and> length (src_rest s) < n \<and>
     e = (if src_rest s \<noteq> [] \<and> src_end s = io_EOF then io_ErrUnexpectedEOF else src_end s)"
  by (auto simp: io_ReadFull_def split: if_splits)

lemma io_ReadFull_None:
  assumes "io_ReadFull s n = (p, None, s')"
  obtains rest where "length p = n" "src_rest s = p @ rest" "s' = s\<lparr>src_rest := rest\<rparr>"
  using assms that [of "drop n (src_rest s)"] by (auto simp: io_ReadFull_def split: if_splits)

text \<open>The number in the length prefix of a packet.\<close>

definition packet_length :: "Packet \<Rightarrow> nat" where
  "packet_length p = (case pkt_Kind p of
      Data \<Rightarrow> 4 + length (pkt_Data p) | Flush \<Rightarrow> 0 | Delim \<Rightarrow> 1 | ResponseEnd \<Rightarrow> 2)"

text \<open>What a successful read did: the packet is well formed and only its bytes are gone.\<close>

lemma readPacket_Inr:
  assumes "readPacket r = (Inr p, r')"
  obtains hdr n rest where
    "length hdr = 4" "parseHexLength hdr = Inr n" "wf_packet p"
    "src_rest (rd_src r) = hdr @ pkt_Data p @ rest" "n = packet_length p"
    "r' = r\<lparr>rd_src := (rd_src r)\<lparr>src_rest := rest\<rparr>\<rparr>"
proof -
  from assms obtain hdr s n where hdr: "io_ReadFull (rd_src r) 4 = (hdr, None, s)"
    and n: "parseHexLength hdr = Inr n" and body: "readPacket_body (r\<lparr>rd_src := s\<rparr>) n = (Inr p, r')"
    by (auto simp: readPacket_def split: prod.splits option.splits sum.splits)
  from hdr obtain rest where rest: "length hdr = 4" "src_rest (rd_src r) = hdr @ rest"
    and s: "s = (rd_src r)\<lparr>src_rest := rest\<rparr>"
    by (rule io_ReadFull_None)
  consider (control) "n = packet_length p" "pkt_Kind p \<noteq> Data" "pkt_Data p = []" "r' = r\<lparr>rd_src := s\<rparr>"
    | (data) d s' where "\<not> n < 4" "n - 4 \<le> MaxPayload" "io_ReadFull s (n - 4) = (d, None, s')"
        "p = data_packet d" "r' = r\<lparr>rd_src := s'\<rparr>"
    using body by (auto simp: readPacket_body_def packet_length_def split: if_splits prod.splits option.splits)
  then show thesis
  proof cases
    case control
    with rest n s that [of hdr n rest] show thesis by (simp add: wf_packet_def)
  next
    case data
    from data(3) obtain rest' where len: "length d = n - 4" and d: "src_rest s = d @ rest'"
      and s': "s' = s\<lparr>src_rest := rest'\<rparr>"
      by (rule io_ReadFull_None)
    show thesis
    proof (rule that)
      show "src_rest (rd_src r) = hdr @ pkt_Data p @ rest'" using rest d s data(4) by simp
      show "r' = r\<lparr>rd_src := (rd_src r)\<lparr>src_rest := rest'\<rparr>\<rparr>" using data(5) s' s by simp
    qed (use rest n len data in \<open>simp_all add: packet_length_def\<close>)
  qed
qed

lemma ReadPacket_Inr:
  assumes "ReadPacket r = (Inr p, r')"
  obtains hdr rest where "wf_packet p" "length hdr = 4" "parseHexLength hdr = Inr (packet_length p)"
    "src_rest (rd_src r) = hdr @ pkt_Data p @ rest" "r' = consume r p rest"
proof -
  obtain r1 where r1: "readPacket r = (Inr p, r1)"
    and r': "r' = r1\<lparr>rd_tracer := emit (rd_tracer r1) (pkt_Kind p) (pkt_Data p)\<rparr>"
    using assms by (auto simp: ReadPacket_def split: prod.splits sum.splits)
  from r1 obtain hdr n rest where "length hdr = 4" "wf_packet p"
    "parseHexLength hdr = Inr n" "n = packet_length p" "src_rest (rd_src r) = hdr @ pkt_Data p @ rest"
    "r1 = r\<lparr>rd_src := (rd_src r)\<lparr>src_rest := rest\<rparr>\<rparr>"
    by (rule readPacket_Inr)
  with r' that [of hdr rest] show thesis by (simp add: consume_def)
qed

lemma ReadPacket_decreases:
  "ReadPacket r = (Inr p, r') \<Longrightarrow> length (src_rest (rd_src r')) < length (src_rest (rd_src r))"
  by (erule ReadPacket_Inr) (simp add: consume_def)

lemma ReadPacket_Inl_tracer: "ReadPacket r = (Inl e, r') \<Longrightarrow> rd_tracer r' = rd_tracer r"
  by (auto simp: ReadPacket_def readPacket_def readPacket_body_def
      split: prod.splits sum.splits option.splits if_splits)

subsection \<open>The abstract view of a packet source\<close>

text \<open>
  A packet source is what a decoder sees: the packets still to come and the error after the last
  one. Both \<open>Reader\<close> and the server's \<open>argsReader\<close> provide it, and every decoder of the library
  is refined against it.
\<close>

fun scan :: "('a \<Rightarrow> Packet \<Rightarrow> 'b + 'a) \<Rightarrow> 'b \<Rightarrow> 'a \<Rightarrow> Packet list \<Rightarrow> 'b \<times> Packet list option" where
  "scan step fin a [] = (fin, None)"
| "scan step fin a (p # ps) = (case step a p of Inl b \<Rightarrow> (b, Some ps) | Inr a' \<Rightarrow> scan step fin a' ps)"

locale packet_source =
  fixes read :: "'r \<Rightarrow> (go_error + Packet) \<times> 'r"
    and pending :: "'r \<Rightarrow> Packet list \<times> go_error"
  assumes read_packet: "read r = (Inr p, r') \<Longrightarrow> pending r = (p # fst (pending r'), snd (pending r'))"
    and read_error: "read r = (Inl e, r') \<Longrightarrow> pending r = ([], e)"
begin

lemma next_packet:
  assumes "pending r = (p # ps, e)"
  obtains r' where "read r = (Inr p, r')" "pending r' = (ps, e)"
proof (cases "read r")
  case (Pair x r')
  then show thesis
  proof (cases x)
    case (Inl e')
    with Pair read_error [of r e' r'] assms show thesis by simp
  next
    case (Inr q)
    with Pair read_packet [of r q r'] assms that show thesis
      by (metis fst_conv list.inject prod.inject prod.collapse)
  qed
qed

lemma last_error:
  assumes "pending r = ([], e)"
  obtains r' where "read r = (Inl e, r')"
proof (cases "read r")
  case (Pair x r')
  then show thesis
  proof (cases x)
    case (Inl e')
    with Pair read_error [of r e' r'] assms that show thesis by simp
  next
    case (Inr q)
    with Pair read_packet [of r q r'] assms show thesis by simp
  qed
qed

text \<open>
  The shape of every decoding loop: read a packet, stop with a result or go on with a new
  accumulator; \<open>fin\<close> makes the result of a read error. Such a loop is the fold \<open>scan\<close> over the pending
  packets, and what it leaves unread is what \<open>scan\<close> leaves.
\<close>

lemma loop_refines:
  assumes L: "\<And>r a. L r a = (case read r of
      (Inl e, r') \<Rightarrow> (fin e, r')
    | (Inr p, r') \<Rightarrow> (case step a p of Inl b \<Rightarrow> (b, r') | Inr a' \<Rightarrow> L r' a'))"
    and "pending r = (ps, e)"
  shows "fst (L r a) = fst (scan step (fin e) a ps)"
    and "snd (scan step (fin e) a ps) = Some rest \<Longrightarrow> pending (snd (L r a)) = (rest, e)"
proof -
  have "fst (L r a) = fst (scan step (fin e) a ps) \<and>
      (snd (scan step (fin e) a ps) = Some rest \<longrightarrow> pending (snd (L r a)) = (rest, e))"
    using assms(2)
  proof (induction ps arbitrary: r a)
    case Nil
    then obtain r' where "read r = (Inl e, r')" by (rule last_error)
    then show ?case by (subst (1 2) L) simp
  next
    case (Cons p ps)
    from Cons.prems obtain r' where r': "read r = (Inr p, r')" "pending r' = (ps, e)"
      by (rule next_packet)
    show ?case
    proof (cases "step a p")
      case (Inl b)
      with r' show ?thesis by (subst (1 2) L) simp
    next
      case (Inr a')
      with r' have "L r a = L r' a'" by (subst L) simp
      with Inr Cons.IH [OF r'(2)] show ?thesis by simp
    qed
  qed
  then show "fst (L r a) = fst (scan step (fin e) a ps)"
    and "snd (scan step (fin e) a ps) = Some rest \<Longrightarrow> pending (snd (L r a)) = (rest, e)" by blast+
qed

end

function pending :: "Reader \<Rightarrow> Packet list \<times> go_error" where
  "pending r = (case ReadPacket r of
      (Inl e, _) \<Rightarrow> ([], e)
    | (Inr p, r') \<Rightarrow> (case pending r' of (ps, e) \<Rightarrow> (p # ps, e)))"
  by pat_completeness auto
termination
  by (relation "measure (\<lambda>r. length (src_rest (rd_src r)))") (auto dest: ReadPacket_decreases sym)

declare pending.simps [simp del]

interpretation reader: packet_source ReadPacket pending
proof
  fix r p r' assume "ReadPacket r = (Inr p, r')"
  then show "pending r = (p # fst (pending r'), snd (pending r'))"
    by (subst pending.simps) (simp split: prod.splits)
next
  fix r e r' assume "ReadPacket r = (Inl e, r')"
  then show "pending r = ([], e)"
    by (subst pending.simps) simp
qed

text \<open>The bytes of well-formed packets are read back as these packets, whatever follows.\<close>

lemma pending_stream:
  assumes "list_all wf_packet ps" "src_rest (rd_src r) = stream ps @ rest"
  shows "\<exists>r'. pending r = (ps @ fst (pending r'), snd (pending r')) \<and>
    rd_src r' = (rd_src r)\<lparr>src_rest := rest\<rparr>"
  using assms
proof (induction ps arbitrary: r)
  case Nil
  then show ?case by (intro exI [of _ r]) auto
next
  case (Cons p ps)
  then have "ReadPacket r = (Inr p, consume r p (stream ps @ rest))" (is "_ = (_, ?r)")
    by (intro ReadPacket_encode) auto
  moreover from Cons have "\<exists>r'. pending ?r = (ps @ fst (pending r'), snd (pending r')) \<and>
      rd_src r' = (rd_src ?r)\<lparr>src_rest := rest\<rparr>"
    by (intro Cons.IH) (auto simp: consume_def)
  ultimately show ?case by (auto simp: consume_def dest!: reader.read_packet)
qed

lemma ReadPacket_end:
  "src_rest (rd_src r) = [] \<Longrightarrow> ReadPacket r = (Inl (src_end (rd_src r)), r)"
  by (simp add: ReadPacket_def readPacket_def io_ReadFull_def)

lemma pending_whole_stream:
  assumes "list_all wf_packet ps" "src_rest (rd_src r) = stream ps"
  shows "pending r = (ps, src_end (rd_src r))"
proof -
  from pending_stream [of ps r "[]"] assms obtain r' where
    r': "pending r = (ps @ fst (pending r'), snd (pending r'))"
      "rd_src r' = (rd_src r)\<lparr>src_rest := []\<rparr>" by auto
  then have "pending r' = ([], src_end (rd_src r))"
    using ReadPacket_end [of r'] by (auto dest: reader.read_error)
  with r' show ?thesis by simp
qed

subsection \<open>The abstract view of a writer\<close>

text \<open>\<open>send ps w\<close> is \<open>w\<close> after the packets \<open>ps\<close> went out whole, each with its event.\<close>

definition send :: "Packet list \<Rightarrow> Writer \<Rightarrow> Writer" where
  "send ps w = w\<lparr>wr_dst := (wr_dst w)\<lparr>snk_out := snk_out (wr_dst w) @ stream ps\<rparr>,
     wr_tracer := fold (\<lambda>p t. emit t (pkt_Kind p) (pkt_Data p)) ps (wr_tracer w)\<rparr>"

definition unbounded :: "Writer \<Rightarrow> bool" where
  "unbounded w \<longleftrightarrow> snk_room (wr_dst w) = None"

lemma send_simps [simp]:
  "send [] w = w"
  "send ps (send qs w) = send (qs @ ps) w"
  "unbounded (send ps w) = unbounded w"
  "snk_out (wr_dst (send ps w)) = snk_out (wr_dst w) @ stream ps"
  by (simp_all add: send_def unbounded_def)

lemma write_and_emit_unbounded:
  assumes "unbounded w" "out = encode_packet p" "k = pkt_Kind p" "d = pkt_Data p"
  shows "write_and_emit w out k d = (None, send [p] w)"
  using assms by (simp add: write_and_emit_def io_Write_def unbounded_def send_def)

lemma WritePacket_send [simp]:
  "unbounded w \<Longrightarrow> length d \<le> MaxPayload \<Longrightarrow> WritePacket w d = (None, send [data_packet d] w)"
  by (simp add: WritePacket_def write_and_emit_unbounded encode_packet.simps)

lemma WritePacket_too_large [simp]:
  "MaxPayload < length d \<Longrightarrow> WritePacket w d = (Some (payload_error (length d)), w)"
  by (simp add: WritePacket_def)

lemma foldl_length: "foldl (\<lambda>n p. n + length p) k ps = k + length (concat ps)"
  by (induction ps arbitrary: k) auto

lemma WriteLineParts_WritePacket: "WriteLineParts w parts = WritePacket w (concat parts @ [CHR 0x0A])"
  by (simp add: WriteLineParts_def WritePacket_def foldl_length Let_def add.commute)

lemma WriteLine_WritePacket: "WriteLine w s = WritePacket w (s @ [CHR 0x0A])"
  by (simp add: WriteLine_def WritePacket_def Let_def)

lemma WriteFlush_send [simp]: "unbounded w \<Longrightarrow> WriteFlush w = (None, send [flush_packet] w)"
  and WriteDelim_send [simp]: "unbounded w \<Longrightarrow> WriteDelim w = (None, send [delim_packet] w)"
  and WriteResponseEnd_send [simp]:
    "unbounded w \<Longrightarrow> WriteResponseEnd w = (None, send [control_packet ResponseEnd] w)"
  by (simp_all add: WriteFlush_def WriteDelim_def WriteResponseEnd_def writeControl_def
      write_and_emit_unbounded encode_packet.simps)

subsection \<open>Failures and case\<close>

lemma parseHexLength_loop_Inl:
  "parseHexLength_loop v cs = Inl e \<Longrightarrow> errors_Is e ErrInvalidHex \<and> (\<exists>c\<in>set cs. hexval c = None)"
  by (induction cs arbitrary: v) (auto simp: ErrInvalidHex_def split: option.splits)

lemma readPacket_body_Inl:
  assumes "readPacket_body r n = (Inl e, r')" "src_end (rd_src r) = io_EOF"
  obtains "n = 3" "errors_Is e ErrInvalidLength"
    | "MaxPayload + 4 < n" "errors_Is e ErrPayloadTooLarge"
    | "4 \<le> n" "n \<le> MaxPayload + 4" "length (src_rest (rd_src r)) < n - 4" "e = io_ErrUnexpectedEOF"
proof (cases "n < 4")
  case True
  then have "n = 0 \<or> n = 1 \<or> n = 2 \<or> n = 3" by auto
  with assms(1) that(1) show thesis by (auto simp: readPacket_body_def)
next
  case False
  show thesis
  proof (cases "MaxPayload < n - 4")
    case True
    with False assms(1) that(2) show thesis by (auto simp: readPacket_body_def)
  next
    case small: False
    with False assms(1) have "\<not> n - 4 \<le> length (src_rest (rd_src r))"
      by (auto simp: readPacket_body_def io_ReadFull_def)
    moreover from this small False assms have "e = io_ErrUnexpectedEOF"
      by (simp add: readPacket_body_def io_ReadFull_def split: if_splits)
    ultimately show thesis using False small by (intro that(3)) auto
  qed
qed

lemma hexval_lower: "hexval c = Some d \<longleftrightarrow> d < 16 \<and> ascii_lower c = hex_digits ! d"
proof -
  have "hexval c = Some d \<longleftrightarrow> d < 16 \<and> byte_val (ascii_lower c) = byte_val (hex_digits ! d)"
    by (auto simp: hexval_def less_eq_char_def byte_val_ascii_lower byte_val_hex_digits
        simp del: of_char_eq_iff split: if_splits)
  then show ?thesis by simp
qed

lemma hexval_ascii_lower [simp]: "hexval (ascii_lower c) = hexval c"
proof -
  have "byte_val (ascii_lower (ascii_lower c)) = byte_val (ascii_lower c)"
    by (simp add: byte_val_ascii_lower del: of_char_eq_iff)
  then have "hexval (ascii_lower c) = Some d \<longleftrightarrow> hexval c = Some d" for d
    by (simp add: hexval_lower)
  then show ?thesis by (metis not_None_eq)
qed

lemma parseHexLength_loop_lower:
  "parseHexLength_loop v cs = Inr n \<Longrightarrow>
     \<exists>ds. list_all (\<lambda>d. d < 16) ds \<and> map ascii_lower cs = map ((!) hex_digits) ds \<and>
       n = foldl (\<lambda>v d. v * 16 + d) v ds"
proof (induction cs arbitrary: v)
  case (Cons c cs)
  then obtain d where d: "hexval c = Some d" and n: "parseHexLength_loop (push_bit 4 v OR d) cs = Inr n"
    by (auto split: option.splits)
  from Cons.IH [OF n] d hexval_less [OF d] obtain ds where
    "list_all (\<lambda>d. d < 16) ds" "map ascii_lower cs = map ((!) hex_digits) ds"
    "n = foldl (\<lambda>v d. v * 16 + d) (v * 16 + d) ds"
    by (auto simp: push_bit_or_eq [where k = 4, simplified])
  with d show ?case by (intro exI [of _ "d # ds"]) (simp add: hexval_lower)
qed simp

lemma parseHexLength_loop_cong:
  "map hexval cs = map hexval cs' \<Longrightarrow>
   parseHexLength_loop v cs = Inr n \<Longrightarrow> parseHexLength_loop v cs' = Inr n"
  by (induction cs arbitrary: cs' v) (auto simp: Cons_eq_map_conv split: option.splits)

lemma base16_digit: "d < 16 \<Longrightarrow> (v * 16 + d) div 16 = v \<and> (v * 16 + d) mod 16 = (d :: nat)"
  by simp

lemma length4: "length xs = 4 \<longleftrightarrow> (\<exists>a b c d. xs = [a, b, c, d])"
  by (auto simp: length_Suc_conv numeral_eq_Suc)

subsection \<open>Writing a sequence of packets\<close>

definition write_packet :: "Packet \<Rightarrow> Writer \<Rightarrow> go_error option \<times> Writer" where
  "write_packet p w = (case pkt_Kind p of
      Data \<Rightarrow> WritePacket w (pkt_Data p)
    | Flush \<Rightarrow> WriteFlush w
    | Delim \<Rightarrow> WriteDelim w
    | ResponseEnd \<Rightarrow> WriteResponseEnd w)"

lemma write_packet_send [simp]:
  "unbounded w \<Longrightarrow> wf_packet p \<Longrightarrow> write_packet p w = (None, send [p] w)"
  by (erule wf_packet_cases) (auto simp: write_packet_def split: Kind.splits)

lemma write_packets_send:
  "unbounded w \<Longrightarrow> list_all wf_packet ps \<Longrightarrow> for_each write_packet ps w = (None, send ps w)"
  by (induction ps arbitrary: w) auto

abbreviation empty_sink :: Sink where
  "empty_sink \<equiv> \<lparr>snk_out = [], snk_room = None, snk_err = io_EOF\<rparr>"

abbreviation source_of :: "string \<Rightarrow> Source" where
  "source_of s \<equiv> \<lparr>src_rest = s, src_end = io_EOF\<rparr>"

lemma unbounded_NewWriter [simp]: "unbounded (NewWriter empty_sink)"
  by (simp add: NewWriter_def unbounded_def)

lemma NewWriter_out [simp]: "snk_out (wr_dst (NewWriter empty_sink)) = []"
  by (simp add: NewWriter_def)

lemma pending_NewReader [simp]:
  "list_all wf_packet ps \<Longrightarrow> pending (NewReader (source_of (stream ps))) = (ps, io_EOF)"
  by (simp add: pending_whole_stream NewReader_def)

subsection \<open>Failing sinks\<close>

text \<open>
  \<open>wire_cmd f\<close>: the command \<open>f\<close> only appends to the wire, and what it leaves on a sink that fails
  is a prefix of what it would leave on a sink that never does. The writers have this property and
  sequencing keeps it, so every encoder built from them has it.
\<close>

named_theorems wire_intros \<open>commands that write prefixes of their whole output\<close>

definition heal :: "Writer \<Rightarrow> Writer" where
  "heal w = w\<lparr>wr_dst := (wr_dst w)\<lparr>snk_room := None\<rparr>\<rparr>"

definition wire_out :: "Writer \<Rightarrow> string" where
  "wire_out w = snk_out (wr_dst w)"

definition wire_cmd :: "(Writer \<Rightarrow> go_error option \<times> Writer) \<Rightarrow> bool" where
  "wire_cmd f \<longleftrightarrow> (\<forall>w. prefix (wire_out w) (wire_out (snd (f w))) \<and>
     prefix (wire_out (snd (f w))) (wire_out (snd (f (heal w)))) \<and>
     (fst (f w) = None \<longrightarrow> f (heal w) = (None, heal (snd (f w)))))"

lemma wire_out_heal [simp]: "wire_out (heal w) = wire_out w"
  by (simp add: wire_out_def heal_def)

lemma unbounded_heal [simp]: "unbounded (heal w)"
  by (simp add: unbounded_def heal_def)

lemma wire_cmd_skip [wire_intros]: "wire_cmd (\<lambda>w. (None, w))" "wire_cmd (\<lambda>w. (Some e, w))"
  by (simp_all add: wire_cmd_def)

lemma wire_cmd_write_and_emit [wire_intros]: "wire_cmd (\<lambda>w. write_and_emit w out k d)"
  by (auto simp: wire_cmd_def write_and_emit_def io_Write_def wire_out_def heal_def take_is_prefix
      split: option.splits)

lemma wire_cmd_after [wire_intros]:
  assumes f: "wire_cmd f" and k: "wire_cmd k"
  shows "wire_cmd (\<lambda>w. after (f w) k)"
  unfolding wire_cmd_def
proof (intro allI)
  fix w
  obtain e w' where fw: "f w = (e, w')" by fastforce
  obtain e2 w2 where fh: "f (heal w) = (e2, w2)" by fastforce
  from f fw fh have f': "prefix (wire_out w) (wire_out w')" "prefix (wire_out w') (wire_out w2)"
    "e = None \<Longrightarrow> e2 = None \<and> w2 = heal w'"
    unfolding wire_cmd_def by (metis fst_conv snd_conv prod.inject)+
  have kp: "prefix (wire_out w) (wire_out (snd (k w)))" for w using k by (simp add: wire_cmd_def)
  show "prefix (wire_out w) (wire_out (snd (after (f w) k))) \<and>
     prefix (wire_out (snd (after (f w) k))) (wire_out (snd (after (f (heal w)) k))) \<and>
     (fst (after (f w) k) = None \<longrightarrow> after (f (heal w)) k = (None, heal (snd (after (f w) k))))"
  proof (cases e)
    case None
    with f' fw fh kp [of w'] k show ?thesis
      unfolding wire_cmd_def by (auto intro: prefix_order.trans)
  next
    case (Some x)
    with f' fw fh kp [of w2] show ?thesis
      by (cases e2) (auto intro: prefix_order.trans)
  qed
qed

lemma wire_cmd_wrap_err [wire_intros]: "wire_cmd f \<Longrightarrow> wire_cmd (\<lambda>w. wrap_err msg (f w))"
proof -
  have "snd (wrap_err msg r) = snd r" "fst (wrap_err msg r) = None \<longleftrightarrow> fst r = None" for r :: "_ \<times> Writer"
    by (auto simp: wrap_err_def split: prod.splits option.splits)
  then show "wire_cmd f \<Longrightarrow> wire_cmd (\<lambda>w. wrap_err msg (f w))"
    by (auto simp: wire_cmd_def)
qed

lemma wire_cmd_if [wire_intros]:
  "(b \<Longrightarrow> wire_cmd f) \<Longrightarrow> (\<not> b \<Longrightarrow> wire_cmd g) \<Longrightarrow> wire_cmd (\<lambda>w. if b then f w else g w)"
  by (cases b) simp_all

lemma wire_cmd_for_each [wire_intros]:
  "(\<And>x. x \<in> set xs \<Longrightarrow> wire_cmd (f x)) \<Longrightarrow> wire_cmd (for_each f xs)"
proof (induction xs)
  case Nil
  then show ?case by (simp add: wire_cmd_skip flip: for_each.simps(1) [abs_def])
next
  case (Cons x xs)
  then have "wire_cmd (\<lambda>w. after (f x w) (for_each f xs))" by (intro wire_intros) auto
  then show ?case by (simp add: wire_cmd_def)
qed

lemma wire_cmd_writers [wire_intros]:
  "wire_cmd (\<lambda>w. WritePacket w d)" "wire_cmd (\<lambda>w. WriteLine w s)" "wire_cmd (\<lambda>w. WriteLineParts w ps)"
  "wire_cmd WriteFlush" "wire_cmd WriteDelim" "wire_cmd WriteResponseEnd"
  unfolding WriteLineParts_WritePacket WriteLine_WritePacket WritePacket_def
    WriteFlush_def [abs_def] WriteDelim_def [abs_def] WriteResponseEnd_def [abs_def] writeControl_def
  by (intro wire_intros)+

section \<open>Properties\<close>

text \<open>C2: Any sequence of well-formed packets written to a healthy sink is read back as exactly
  these packets, followed by a clean end of stream.\<close>

theorem packets_round_trip:
  assumes "list_all wf_packet ps"
    and "for_each write_packet ps (NewWriter empty_sink) = (err, w)"
  shows "err = None \<and> pending (NewReader (source_of (snk_out (wr_dst w)))) = (ps, io_EOF)"
  using assms by (auto simp: write_packets_send)

theorem packets_round_trip_witness:
  "pending (NewReader (source_of ''0009hello00010000'')) =
     ([data_packet ''hello'', delim_packet, flush_packet], io_EOF)"
proof -
  let ?ps = "[data_packet ''hello'', delim_packet, flush_packet]"
  have ps: "list_all wf_packet ?ps" by (simp add: MaxPayload_def)
  then have w: "for_each write_packet ?ps (NewWriter empty_sink) = (None, send ?ps (NewWriter empty_sink))"
    by (intro write_packets_send) auto
  have "stream ?ps = ''0009hello00010000''"
    by code_simp
  with packets_round_trip [OF ps w] show ?thesis by simp
qed

text \<open>A successful read yields a well-formed packet, consumes exactly the four bytes of its
  length prefix and its payload, and delivers exactly one trace event.\<close>

theorem ReadPacket_frames:
  assumes "ReadPacket r = (Inr p, r')"
  shows "wf_packet p \<and> rd_tracer r' = emit (rd_tracer r) (pkt_Kind p) (pkt_Data p) \<and>
    (\<exists>hdr. length hdr = 4 \<and> parseHexLength hdr = Inr (packet_length p) \<and>
      src_rest (rd_src r) = hdr @ pkt_Data p @ src_rest (rd_src r'))"
  using assms by (rule ReadPacket_Inr) (auto simp: consume_def)

theorem ReadPacket_frames_witness:
  "wf_packet (data_packet ''hi'')"
proof -
  have "ReadPacket (NewReader \<lparr>src_rest = ''0006hi0000'', src_end = io_EOF\<rparr>) =
      (Inr (data_packet ''hi''), NewReader \<lparr>src_rest = ''0000'', src_end = io_EOF\<rparr>)"
    by (simp add: ReadPacket_def readPacket_def readPacket_body_def io_ReadFull_def NewReader_def emit_def
       parseHexLength_def hexval_def MaxPayload_def)
  from ReadPacket_frames [OF this] show ?thesis by simp
qed

text \<open>C26: A failed read on a stream that ends cleanly delivers no event and is classified exactly:
  end of file only between packets, unexpected end of file for a truncated prefix or payload, and
  the three codec sentinels for a bad digit, the reserved length 3 and an oversized length.\<close>

theorem ReadPacket_errors:
  assumes "ReadPacket r = (Inl e, r')" and "src_end (rd_src r) = io_EOF"
    and s: "s = src_rest (rd_src r)"
  shows "rd_tracer r' = rd_tracer r \<and>
    (e = io_EOF \<and> s = [] \<or>
     e = io_ErrUnexpectedEOF \<and> 0 < length s \<and> length s < 4 \<or>
     (\<exists>hdr rest. s = hdr @ rest \<and> length hdr = 4 \<and>
       (errors_Is e ErrInvalidHex \<and> (\<exists>c\<in>set hdr. hexval c = None) \<or>
        errors_Is e ErrInvalidLength \<and> parseHexLength hdr = Inr 3 \<or>
        (\<exists>n. parseHexLength hdr = Inr n \<and>
          (errors_Is e ErrPayloadTooLarge \<and> MaxPayload + 4 < n \<or>
           e = io_ErrUnexpectedEOF \<and> 4 \<le> n \<and> n \<le> MaxPayload + 4 \<and> length rest < n - 4)))))"
proof (cases "length s < 4")
  case True
  then have "ReadPacket r = (Inl (if s = [] then io_EOF else io_ErrUnexpectedEOF), r\<lparr>rd_src := (rd_src r)\<lparr>src_rest := []\<rparr>\<rparr>)"
    using assms(2) by (auto simp: ReadPacket_def readPacket_def io_ReadFull_def s)
  with assms(1) True show ?thesis by auto
next
  case False
  then obtain hdr rest where hr: "s = hdr @ rest" "length hdr = 4"
    by (metis append_take_drop_id length_take min.absorb2 not_less)
  show ?thesis
  proof (cases "parseHexLength hdr")
    case (Inl e')
    then have "readPacket r = (Inl e', r\<lparr>rd_src := (rd_src r)\<lparr>src_rest := rest\<rparr>\<rparr>)"
      using hr by (simp add: readPacket_def io_ReadFull_def s [symmetric])
    with assms(1) parseHexLength_loop_Inl [of 0 hdr e'] Inl hr show ?thesis
      by (auto simp: ReadPacket_def parseHexLength_def)
  next
    case (Inr n)
    let ?r = "r\<lparr>rd_src := (rd_src r)\<lparr>src_rest := rest\<rparr>\<rparr>"
    have "readPacket r = readPacket_body ?r n"
      using hr Inr by (intro readPacket_header) (simp_all add: s)
    with assms(1) have body: "readPacket_body ?r n = (Inl e, r')"
      by (auto simp: ReadPacket_def split: prod.splits sum.splits)
    have tr: "rd_tracer r' = rd_tracer r" using assms(1) by (rule ReadPacket_Inl_tracer)
    have src: "src_end (rd_src ?r) = io_EOF" using assms(2) by simp
    note hr' = hr Inr tr
    from body src show ?thesis
    proof (cases rule: readPacket_body_Inl)
      case 1
      with hr' show ?thesis by blast
    next
      case 2
      with hr' show ?thesis by blast
    next
      case 3
      then have "length rest < n - 4" by simp
      with 3 hr' show ?thesis by blast
    qed
  qed
qed

theorem ReadPacket_errors_witness:
  "fst (ReadPacket (NewReader (source_of ''00''))) = Inl io_ErrUnexpectedEOF \<and>
   length ''00'' < (4 :: nat)"
proof -
  have r: "ReadPacket (NewReader (source_of ''00'')) =
      (Inl io_ErrUnexpectedEOF, NewReader (source_of []))"
    by (simp add: ReadPacket_def readPacket_def io_ReadFull_def NewReader_def)
  from ReadPacket_errors [OF r _ refl] r show ?thesis by (simp add: NewReader_def)
qed

text \<open>A write either puts the whole packet on the wire and delivers one event, or reports the
  sink's error (a proper prefix of the packet may be out) or the size error (nothing is out), and
  delivers no event.\<close>

theorem WritePacket_atomic:
  "case WritePacket w d of
     (None, w') \<Rightarrow> length d \<le> MaxPayload \<and>
       snk_out (wr_dst w') = snk_out (wr_dst w) @ encode_packet (data_packet d) \<and>
       wr_tracer w' = emit (wr_tracer w) Data d
   | (Some e, w') \<Rightarrow> wr_tracer w' = wr_tracer w \<and>
       (if MaxPayload < length d then w' = w \<and> errors_Is e ErrPayloadTooLarge
        else e = snk_err (wr_dst w) \<and>
          (\<exists>k < length d + 4. snk_out (wr_dst w') =
              snk_out (wr_dst w) @ take k (encode_packet (data_packet d))))"
  by (auto simp: WritePacket_def payload_error_def write_and_emit_def io_Write_def encode_packet.simps
      not_le add.commute split: option.splits)

text \<open>A length prefix decodes to a number exactly when it is that number's encoding, up to the
  case of its hexadecimal digits.\<close>

theorem parseHexLength_inverts_encode:
  assumes "length cs = 4"
  shows "parseHexLength cs = Inr n \<longleftrightarrow> n < 65536 \<and> map ascii_lower cs = encodeHexLength n"
proof
  assume p: "parseHexLength cs = Inr n"
  then obtain ds where ds: "list_all (\<lambda>d. d < 16) ds" "map ascii_lower cs = map ((!) hex_digits) ds"
    "n = foldl (\<lambda>v d. v * 16 + d) 0 ds"
    unfolding parseHexLength_def by (metis parseHexLength_loop_lower)
  have "length ds = 4" using assms ds(2) by (metis length_map)
  then obtain d1 d2 d3 d4 where "ds = [d1, d2, d3, d4]" by (auto simp: length4)
  with ds have n: "n = ((d1 * 16 + d2) * 16 + d3) * 16 + d4"
    and d: "d1 < 16" "d2 < 16" "d3 < 16" "d4 < 16" by simp_all
  have "n div 16 = (d1 * 16 + d2) * 16 + d3" "n mod 16 = d4"
    unfolding n using base16_digit [OF d(4)] by blast+
  moreover from this have "n div 16 div 16 = d1 * 16 + d2" "n div 16 mod 16 = d3"
    using base16_digit [OF d(3), of "d1 * 16 + d2"] by metis+
  moreover from this have "n div 16 div 16 div 16 = d1" "n div 16 div 16 mod 16 = d2"
    using base16_digit [OF d(2), of d1] by metis+
  ultimately have "n div 4096 mod 16 = d1" "n div 256 mod 16 = d2" "n div 16 mod 16 = d3" "n mod 16 = d4"
    using d div_mult2_eq [of n 16 16] div_mult2_eq [of n "16 * 16" 16] by simp_all
  then have "encodeHexLength n = map ((!) hex_digits) ds"
    using \<open>ds = _\<close> by (simp add: encodeHexLength_def and_15 drop_bit_eq_div)
  with p ds(2) assms parseHexLength_less show "n < 65536 \<and> map ascii_lower cs = encodeHexLength n"
    by auto
next
  assume n: "n < 65536 \<and> map ascii_lower cs = encodeHexLength n"
  have "map hexval cs = map hexval (map ascii_lower cs)" by (simp add: hexval_ascii_lower)
  also have "\<dots> = map hexval (encodeHexLength n)" using n by simp
  finally have "map hexval cs = map hexval (encodeHexLength n)" .
  with n parse_encodeHexLength [of n] show "parseHexLength cs = Inr n"
    unfolding parseHexLength_def by (metis parseHexLength_loop_cong)
qed

theorem parseHexLength_inverts_encode_witness: "parseHexLength ''FfF0'' = Inr 65520"
proof -
  have "map ascii_lower ''FfF0'' = encodeHexLength 65520"
    by (simp add: encodeHexLength_def and_15 drop_bit_eq_div hex_digits_def ascii_lower_def
        char_of_eq_iff)
  then show ?thesis
    using parseHexLength_inverts_encode [of "''FfF0''" 65520] by simp
qed

text \<open>The three data writers agree: a line is its parts joined, with one line feed.\<close>

theorem line_writers_agree:
  "WriteLineParts w parts = WritePacket w (concat parts @ [CHR 0x0A]) \<and>
   WriteLine w (concat parts) = WriteLineParts w parts"
  by (simp add: WriteLineParts_WritePacket WriteLine_WritePacket)

end
