(* ===== verification/Wire_Types.thy ===== *)
theory Wire_Types
  imports Pktline
begin

text \<open>
  The raw values of the wire package (\<open>src/internal/wire/types.go\<close>, \<open>args.go\<close>, \<open>caps_parse.go\<close>,
  \<open>err_packet.go\<close>, \<open>errors.go\<close>) and the protocol version (\<open>src/transport/protocol.go\<close>): capability
  lists with their lookups, the capability parser, the \<open>ERR\<close> packet test.

  The lemmas: the lookups agree with the list of all values of a name; a capability list that is
  printed with single separators parses back to itself, whatever its order and duplicates.
\<close>

section \<open>Values\<close>

type_synonym ProtocolVersion = int

definition ProtocolV0 :: ProtocolVersion where "ProtocolV0 = 0"

definition ProtocolV1 :: ProtocolVersion where "ProtocolV1 = 1"

definition ProtocolV2 :: ProtocolVersion where "ProtocolV2 = 2"

lemma ProtocolVersion_distinct [simp]:
  "ProtocolV0 \<noteq> ProtocolV1" "ProtocolV0 \<noteq> ProtocolV2" "ProtocolV1 \<noteq> ProtocolV2"
  "ProtocolV1 \<noteq> ProtocolV0" "ProtocolV2 \<noteq> ProtocolV0" "ProtocolV2 \<noteq> ProtocolV1"
  by (simp_all add: ProtocolV0_def ProtocolV1_def ProtocolV2_def)

definition ProtocolVersion_String :: "ProtocolVersion \<Rightarrow> string" where
  "ProtocolVersion_String v =
     (if v = ProtocolV0 then ''v0'' else if v = ProtocolV1 then ''v1''
      else if v = ProtocolV2 then ''v2'' else ''unknown('' @ itoa v @ '')'')"

record RawCapability =
  cap_Name :: string
  cap_Value :: string

type_synonym RawCapabilities = "RawCapability list"

record RawRef =
  ref_OID :: string
  ref_Name :: string
  ref_Peeled :: string
  ref_Symref :: string
  ref_Unborn :: bool

definition empty_RawRef :: RawRef where
  "empty_RawRef = \<lparr>ref_OID = [], ref_Name = [], ref_Peeled = [], ref_Symref = [], ref_Unborn = False\<rparr>"

record RawObjectInfo =
  oi_OID :: string
  oi_Size :: int

record Advertisement =
  ad_Version :: ProtocolVersion
  ad_Caps :: RawCapabilities
  ad_Refs :: "RawRef list"

record RefsArgs =
  ra_Prefixes :: "string list"
  ra_Peel :: bool
  ra_Symrefs :: bool
  ra_Unborn :: bool

record ObjectInfoArgs =
  oa_Size :: bool

definition DefaultUserAgent :: string where
  "DefaultUserAgent = ''lsremote/0''"

definition wire_ErrUnsupportedProtocol :: go_error where
  "wire_ErrUnsupportedProtocol = Sentinel ''wire: unsupported protocol version''"

definition ErrServerRefused :: go_error where
  "ErrServerRefused = Sentinel ''wire: server refused''"

section \<open>Capability lists\<close>

fun caps_Get :: "RawCapabilities \<Rightarrow> string \<Rightarrow> string \<times> bool" where
  "caps_Get [] name = ([], False)"
| "caps_Get (rc # c) name = (if cap_Name rc = name then (cap_Value rc, True) else caps_Get c name)"

fun caps_All :: "RawCapabilities \<Rightarrow> string \<Rightarrow> string list" where
  "caps_All [] name = []"
| "caps_All (rc # c) name =
     (if cap_Name rc = name then cap_Value rc # caps_All c name else caps_All c name)"

fun caps_Has :: "RawCapabilities \<Rightarrow> string \<Rightarrow> bool" where
  "caps_Has [] name = False"
| "caps_Has (rc # c) name = (if cap_Name rc = name then True else caps_Has c name)"

definition caps_Names :: "RawCapabilities \<Rightarrow> string list" where
  "caps_Names c = map cap_Name c"

definition isWireSpace :: "char \<Rightarrow> bool" where
  "isWireSpace r \<longleftrightarrow> r = CHR '' '' \<or> r = CHR 0x09 \<or> r = CHR 0x0A"

definition parse_capability :: "string \<Rightarrow> RawCapability" where
  "parse_capability tok = (case Cut tok (CHR ''='') of (name, value, hasEq) \<Rightarrow>
     \<lparr>cap_Name = name, cap_Value = (if hasEq then value else [])\<rparr>)"

definition ParseCapabilities :: "string \<Rightarrow> RawCapabilities" where
  "ParseCapabilities s = (if s = [] then [] else map parse_capability (FieldsFunc s isWireSpace))"

section \<open>Server errors\<close>

definition CheckERRPacket :: "string \<Rightarrow> go_error option" where
  "CheckERRPacket payload = (case CutPrefix payload ''ERR '' of
      None \<Rightarrow> None
    | Some msg \<Rightarrow> Some (Wrapf [] ErrServerRefused ('': '' @ TrimSuffix msg [CHR 0x0A])))"

section \<open>Lemmas\<close>

lemma caps_Get_All:
  "caps_Get c name = (case caps_All c name of [] \<Rightarrow> ([], False) | v # _ \<Rightarrow> (v, True))"
  by (induction c) auto

lemma caps_Has_All: "caps_Has c name \<longleftrightarrow> caps_All c name \<noteq> []"
  by (induction c) auto

lemma caps_All_append [simp]: "caps_All (c @ d) name = caps_All c name @ caps_All d name"
  by (induction c) auto

lemma caps_All_Names: "caps_All c name \<noteq> [] \<longleftrightarrow> name \<in> set (caps_Names c)"
  by (induction c) (auto simp: caps_Names_def)

lemma CheckERRPacket_None: "CheckERRPacket s = None \<longleftrightarrow> \<not> HasPrefix s ''ERR ''"
  by (simp add: CheckERRPacket_def CutPrefix_def)

lemma CheckERRPacket_refused: "CheckERRPacket s = Some e \<Longrightarrow> errors_Is e ErrServerRefused"
  by (auto simp: CheckERRPacket_def split: option.splits)

subsection \<open>Printing and parsing capability lists\<close>

text \<open>A capability as a token: \<open>name\<close>, or \<open>name=value\<close> when the value is not empty.\<close>

definition show_capability :: "RawCapability \<Rightarrow> string" where
  "show_capability rc = cap_Name rc @ (if cap_Value rc = [] then [] else CHR ''='' # cap_Value rc)"

definition wf_capability :: "RawCapability \<Rightarrow> bool" where
  "wf_capability rc \<longleftrightarrow> show_capability rc \<noteq> [] \<and> CHR ''='' \<notin> set (cap_Name rc) \<and>
     list_all (\<lambda>c. \<not> isWireSpace c) (show_capability rc)"

fun join_with :: "string \<Rightarrow> string list \<Rightarrow> string" where
  "join_with sep [] = []"
| "join_with sep [s] = s"
| "join_with sep (s # t # ts) = s @ sep @ join_with sep (t # ts)"

lemma parse_show_capability:
  assumes "CHR ''='' \<notin> set (cap_Name rc)"
  shows "parse_capability (show_capability rc) = rc"
  using assms by (simp add: parse_capability_def show_capability_def Cut_found Cut_not_found)

lemma FieldsFunc_sep: "p c \<Longrightarrow> FieldsFunc (c # s) p = FieldsFunc s p"
  by (subst (1 2) FieldsFunc.simps) simp

lemma FieldsFunc_Nil [simp]: "FieldsFunc [] p = []"
  by (subst FieldsFunc.simps) simp

lemma FieldsFunc_token:
  assumes "tok \<noteq> []" "list_all (\<lambda>c. \<not> p c) tok" "s = [] \<or> p (hd s)"
  shows "FieldsFunc (tok @ s) p = tok # FieldsFunc s p"
proof -
  obtain c cs where tok: "tok = c # cs" using assms(1) by (cases tok) auto
  with assms(2) have c: "\<not> p c" and cs: "\<forall>x\<in>set cs. \<not> p x" by (auto simp: list_all_iff)
  from assms(3) have "takeWhile (\<lambda>x. \<not> p x) s = []" "dropWhile (\<lambda>x. \<not> p x) s = s"
    by (cases s; simp)+
  with c cs tok show ?thesis
    by (subst FieldsFunc.simps) simp
qed

lemma FieldsFunc_tokens:
  assumes "list_all (\<lambda>t. t \<noteq> [] \<and> list_all (\<lambda>c. \<not> p c) t) ts" "p sep"
  shows "FieldsFunc (join_with [sep] ts) p = ts"
  using assms
proof (induction "[sep]" ts rule: join_with.induct)
  case (2 s)
  then show ?case using FieldsFunc_token [of s p "[]"] by simp
next
  case (3 s t ts)
  then show ?case
    using FieldsFunc_token [of s p "sep # join_with [sep] (t # ts)"] by (simp add: FieldsFunc_sep)
qed simp

lemma FieldsFunc_fields: "t \<in> set (FieldsFunc s p) \<Longrightarrow> t \<noteq> [] \<and> list_all (\<lambda>c. \<not> p c) t"
proof (induction s p rule: FieldsFunc.induct)
  case (1 s p)
  show ?case
  proof (cases "dropWhile p s")
    case Nil
    with 1(2) show ?thesis by (subst (asm) FieldsFunc.simps) simp
  next
    case (Cons c cs)
    then have c: "\<not> p c" by (metis dropWhile_eq_Cons_conv)
    from 1(2) Cons consider "t = takeWhile (\<lambda>x. \<not> p x) (c # cs)"
      | "t \<in> set (FieldsFunc (dropWhile (\<lambda>x. \<not> p x) cs) p)"
      by (subst (asm) FieldsFunc.simps) auto
    then show ?thesis
    proof cases
      case 1
      with c show ?thesis by (auto simp: list_all_iff dest: set_takeWhileD)
    next
      case 2
      with 1(1) [OF Cons] show ?thesis by simp
    qed
  qed
qed

lemma ParseCapabilities_single:
  "wf_capability rc \<Longrightarrow> ParseCapabilities (show_capability rc) = [rc]"
  using FieldsFunc_token [of "show_capability rc" isWireSpace "[]"]
  by (simp add: wf_capability_def ParseCapabilities_def parse_show_capability)

lemma parse_capability_clean:
  assumes "list_all (\<lambda>c. \<not> isWireSpace c) t"
  shows "CHR ''='' \<notin> set (cap_Name (parse_capability t)) \<and>
    list_all (\<lambda>c. \<not> isWireSpace c) (cap_Name (parse_capability t) @ cap_Value (parse_capability t))"
  using assms by (cases t "CHR ''=''" rule: Cut_cases) (auto simp: parse_capability_def)

section \<open>Properties\<close>

text \<open>A capability list printed as tokens with one white space byte between them parses back to
  the same list: order, duplicates and values are kept.\<close>

theorem ParseCapabilities_round_trip:
  assumes "list_all wf_capability cs" "isWireSpace sep"
  shows "ParseCapabilities (join_with [sep] (map show_capability cs)) = cs"
proof -
  have "FieldsFunc (join_with [sep] (map show_capability cs)) isWireSpace = map show_capability cs"
    using assms by (intro FieldsFunc_tokens) (auto simp: list_all_iff wf_capability_def)
  moreover have "map parse_capability (map show_capability cs) = cs"
    using assms(1) by (induction cs) (auto simp: wf_capability_def parse_show_capability)
  ultimately show ?thesis by (auto simp: ParseCapabilities_def)
qed

theorem ParseCapabilities_round_trip_witness:
  "ParseCapabilities ''agent=git/2 symref=a:b symref=c:d x'' =
     [\<lparr>cap_Name = ''agent'', cap_Value = ''git/2''\<rparr>, \<lparr>cap_Name = ''symref'', cap_Value = ''a:b''\<rparr>,
      \<lparr>cap_Name = ''symref'', cap_Value = ''c:d''\<rparr>, \<lparr>cap_Name = ''x'', cap_Value = []\<rparr>]"
  using ParseCapabilities_round_trip
    [of "[\<lparr>cap_Name = ''agent'', cap_Value = ''git/2''\<rparr>, \<lparr>cap_Name = ''symref'', cap_Value = ''a:b''\<rparr>,
      \<lparr>cap_Name = ''symref'', cap_Value = ''c:d''\<rparr>, \<lparr>cap_Name = ''x'', cap_Value = []\<rparr>]" "CHR '' ''"]
  by (simp add: wf_capability_def show_capability_def isWireSpace_def)

text \<open>On every input the capability parser yields names without an equals sign, and neither
  names nor values contain a separator; and the three lookups agree with the list of all values.\<close>

theorem ParseCapabilities_clean:
  "list_all (\<lambda>rc. CHR ''='' \<notin> set (cap_Name rc) \<and>
      list_all (\<lambda>c. \<not> isWireSpace c) (cap_Name rc @ cap_Value rc)) (ParseCapabilities s) \<and>
   caps_Get (ParseCapabilities s) name =
     (case caps_All (ParseCapabilities s) name of [] \<Rightarrow> ([], False) | v # _ \<Rightarrow> (v, True)) \<and>
   caps_Has (ParseCapabilities s) name = (name \<in> set (caps_Names (ParseCapabilities s)))"
proof -
  have "list_all (\<lambda>rc. CHR ''='' \<notin> set (cap_Name rc) \<and>
      list_all (\<lambda>c. \<not> isWireSpace c) (cap_Name rc @ cap_Value rc)) (ParseCapabilities s)"
    using parse_capability_clean FieldsFunc_fields [where s = s and p = isWireSpace]
    by (fastforce simp: ParseCapabilities_def list_all_iff)
  then show ?thesis
    by (simp add: caps_Get_All caps_Has_All caps_All_Names)
qed

end
