(* ===== verification/Wire_Requests.thy ===== *)
theory Wire_Requests
  imports Wire_Types Transport_URL
begin

text \<open>
  The client's requests (\<open>src/internal/wire/command_request.go\<close>, \<open>caps_echo.go\<close>, the encoders of
  \<open>refs_v2.go\<close> and \<open>object_info.go\<close>, \<open>initial_request.go\<close>).

  Each encoder is the code's sequence of pkt-line writes on a \<open>Writer\<close>. The lemmas give, for every
  encoder, the packets it sends on a healthy sink; the properties say which they are and when the
  \<open>unborn\<close> argument is withheld, and that a failing sink only ever holds a prefix of the frame.
\<close>

section \<open>Encoders\<close>

definition writeLine :: "Writer \<Rightarrow> string \<Rightarrow> go_error option \<times> Writer" where
  "writeLine w s = WriteLine w s"

definition writeCapabilityEcho :: "Writer \<Rightarrow> RawCapabilities \<Rightarrow> string \<Rightarrow> go_error option \<times> Writer" where
  "writeCapabilityEcho w caps userAgent =
     after
       (if caps_Has caps ''agent'' then
          (let ua = (if userAgent = [] then DefaultUserAgent else userAgent)
           in WriteLineParts w [''agent='', ua])
        else (None, w))
       (\<lambda>w. case caps_Get caps ''object-format'' of (v, ok) \<Rightarrow>
          if ok \<and> v \<noteq> [] then WriteLineParts w [''object-format='', v] else (None, w))"

definition EncodeV2CommandRequest ::
  "Writer \<Rightarrow> string \<Rightarrow> string list \<Rightarrow> string list \<Rightarrow> go_error option \<times> Writer" where
  "EncodeV2CommandRequest w name args caps =
     after (WriteLineParts w [''command='', name]) (\<lambda>w.
     after (for_each (\<lambda>c w. writeLine w c) caps w) (\<lambda>w.
     after (WriteDelim w) (\<lambda>w.
     after (for_each (\<lambda>a w. writeLine w a) args w) WriteFlush)))"

definition lsRefsSupportsUnborn :: "RawCapabilities \<Rightarrow> bool" where
  "lsRefsSupportsUnborn caps \<longleftrightarrow>
     list_ex (\<lambda>v. list_ex (\<lambda>sub. cap_Name sub = ''unborn'') (ParseCapabilities v)) (caps_All caps ''ls-refs'')"

text \<open>
  \<open>EncodeLSRefs\<close> also returns the \<open>CapabilityDropEvent\<close>s it emitted (command and argument).
\<close>

definition EncodeLSRefs ::
  "Writer \<Rightarrow> RefsArgs \<Rightarrow> RawCapabilities \<Rightarrow> string \<Rightarrow> (go_error option \<times> Writer) \<times> (string \<times> string) list" where
  "EncodeLSRefs w args caps userAgent =
     (let head = after (writeLine w ''command=ls-refs'') (\<lambda>w.
                 after (writeCapabilityEcho w caps userAgent) (\<lambda>w.
                 after (WriteDelim w) (\<lambda>w.
                 after (if ra_Peel args then writeLine w ''peel'' else (None, w)) (\<lambda>w.
                 if ra_Symrefs args then writeLine w ''symrefs'' else (None, w)))));
          drop_unborn = ra_Unborn args \<and> \<not> lsRefsSupportsUnborn caps
      in (after head (\<lambda>w.
          after (if ra_Unborn args \<and> lsRefsSupportsUnborn caps then writeLine w ''unborn'' else (None, w)) (\<lambda>w.
          after (for_each (\<lambda>p w. WriteLineParts w [''ref-prefix '', p]) (ra_Prefixes args) w)
          WriteFlush)),
          if fst head = None \<and> drop_unborn then [(''ls-refs'', ''unborn'')] else []))"

definition EncodeObjectInfo ::
  "Writer \<Rightarrow> string list \<Rightarrow> ObjectInfoArgs \<Rightarrow> RawCapabilities \<Rightarrow> string \<Rightarrow> go_error option \<times> Writer" where
  "EncodeObjectInfo w oids args caps userAgent =
     after (writeLine w ''command=object-info'') (\<lambda>w.
     after (writeCapabilityEcho w caps userAgent) (\<lambda>w.
     after (WriteDelim w) (\<lambda>w.
     after (if oa_Size args then writeLine w ''size'' else (None, w)) (\<lambda>w.
     after (for_each (\<lambda>oid w. WriteLineParts w [''oid '', oid]) oids w)
     WriteFlush))))"

definition HTTPProtocolHeader :: "ProtocolVersion option \<Rightarrow> string" where
  "HTTPProtocolHeader v = (case v of None \<Rightarrow> ''version=2'' | Some v \<Rightarrow> ''version='' @ itoa v)"

definition hostParameter :: "URL \<Rightarrow> string" where
  "hostParameter u =
     (if url_Port u = [] then url_Host u
      else if CHR '':'' \<in> set (url_Host u) then ''['' @ url_Host u @ '']:'' @ url_Port u
      else url_Host u @ '':'' @ url_Port u)"

definition WriteStreamRequest ::
  "Writer \<Rightarrow> URL \<Rightarrow> ProtocolVersion option \<Rightarrow> go_error option \<times> Writer" where
  "WriteStreamRequest w u v =
     (let version = (case v of None \<Rightarrow> ProtocolV2 | Some v \<Rightarrow> v);
          b = ''git-upload-pack '' @ url_Path u @ [CHR 0x00] @ ''host='' @ hostParameter u @ [CHR 0x00];
          b = (if 0 < version then b @ [CHR 0x00] @ ''version='' @ itoa version @ [CHR 0x00] else b)
      in WritePacket w b)"

section \<open>The frames\<close>

definition fits_line :: "string \<Rightarrow> bool" where
  "fits_line s \<longleftrightarrow> length s + 1 \<le> MaxPayload"

lemma writeLine_send [simp]:
  "unbounded w \<Longrightarrow> fits_line s \<Longrightarrow> writeLine w s = (None, send [line_packet s] w)"
  by (simp add: writeLine_def WriteLine_WritePacket fits_line_def)

lemma WriteLineParts_send [simp]:
  "unbounded w \<Longrightarrow> fits_line (concat ps) \<Longrightarrow> WriteLineParts w ps = (None, send [line_packet (concat ps)] w)"
  by (simp add: WriteLineParts_WritePacket fits_line_def)

lemma for_each_send:
  assumes "unbounded w" "\<And>x w. x \<in> set xs \<Longrightarrow> unbounded w \<Longrightarrow> f x w = (None, send (g x) w)"
  shows "for_each f xs w = (None, send (concat (map g xs)) w)"
  using assms by (induction xs arbitrary: w) auto

definition echo_lines :: "RawCapabilities \<Rightarrow> string \<Rightarrow> string list" where
  "echo_lines caps ua =
     (if caps_Has caps ''agent'' then [''agent='' @ (if ua = [] then DefaultUserAgent else ua)] else []) @
     (case caps_All caps ''object-format'' of
        [] \<Rightarrow> [] | v # _ \<Rightarrow> if v = [] then [] else [''object-format='' @ v])"

definition ls_refs_lines :: "RefsArgs \<Rightarrow> bool \<Rightarrow> string list" where
  "ls_refs_lines args unborn_ok =
     (if ra_Peel args then [''peel''] else []) @
     (if ra_Symrefs args then [''symrefs''] else []) @
     (if ra_Unborn args \<and> unborn_ok then [''unborn''] else []) @
     map (\<lambda>p. ''ref-prefix '' @ p) (ra_Prefixes args)"

definition object_info_lines :: "ObjectInfoArgs \<Rightarrow> string list \<Rightarrow> string list" where
  "object_info_lines args oids =
     (if oa_Size args then [''size''] else []) @ map (\<lambda>oid. ''oid '' @ oid) oids"

text \<open>A v2 request frame: command line, capability lines, delimiter, argument lines, flush.\<close>

definition request_frame :: "string \<Rightarrow> string list \<Rightarrow> string list \<Rightarrow> Packet list" where
  "request_frame name caps args =
     map line_packet ((''command='' @ name) # caps) @ [delim_packet] @ map line_packet args @ [flush_packet]"

lemma fits_line_consts [simp]:
  "fits_line ''command=ls-refs''" "fits_line ''command=object-info''" "fits_line ''peel''"
  "fits_line ''symrefs''" "fits_line ''unborn''" "fits_line ''size''"
  by (simp_all add: fits_line_def MaxPayload_def)

lemma list_all_wf_lines [simp]:
  "list_all wf_packet (map line_packet ls) \<longleftrightarrow> list_all fits_line ls"
  by (induction ls) (auto simp: fits_line_def)

lemma wf_request_frame:
  "list_all fits_line ((''command='' @ name) # caps @ args) \<Longrightarrow> list_all wf_packet (request_frame name caps args)"
  by (simp add: request_frame_def) (simp add: fits_line_def)

lemma map_line_singletons [simp]: "concat (map (\<lambda>x. [f x]) xs) = map f xs"
  by (induction xs) auto

lemma writeCapabilityEcho_send [simp]:
  assumes "unbounded w" "list_all fits_line (echo_lines caps ua)"
  shows "writeCapabilityEcho w caps ua = (None, send (map line_packet (echo_lines caps ua)) w)"
  using assms
  by (auto simp: writeCapabilityEcho_def echo_lines_def Let_def caps_Get_All split: list.splits)

lemma EncodeV2CommandRequest_send:
  assumes "unbounded w" "list_all fits_line ((''command='' @ name) # caps @ args)"
  shows "EncodeV2CommandRequest w name args caps = (None, send (request_frame name caps args) w)"
  using assms
  by (simp add: EncodeV2CommandRequest_def request_frame_def list_all_iff
      for_each_send [where g = "\<lambda>c. [line_packet c]"])

lemma EncodeLSRefs_send:
  assumes "unbounded w" "list_all fits_line (echo_lines caps ua)"
    and "list_all fits_line (map (\<lambda>p. ''ref-prefix '' @ p) (ra_Prefixes args))"
  shows "EncodeLSRefs w args caps ua =
    ((None, send (request_frame ''ls-refs'' (echo_lines caps ua)
        (ls_refs_lines args (lsRefsSupportsUnborn caps))) w),
     if ra_Unborn args \<and> \<not> lsRefsSupportsUnborn caps then [(''ls-refs'', ''unborn'')] else [])"
proof -
  have pre: "for_each (\<lambda>p w. WriteLineParts w [''ref-prefix '', p]) (ra_Prefixes args) w' =
      (None, send (map (\<lambda>p. line_packet (''ref-prefix '' @ p)) (ra_Prefixes args)) w')"
    if "unbounded w'" for w'
    using assms(3) that
      for_each_send [where g = "\<lambda>p. [line_packet (''ref-prefix '' @ p)]"
        and f = "\<lambda>p w. WriteLineParts w [''ref-prefix '', p]" and xs = "ra_Prefixes args" and w = w']
    by (simp add: list_all_iff)
  show ?thesis
    using assms(1,2)
    by (simp add: EncodeLSRefs_def pre request_frame_def ls_refs_lines_def Let_def comp_def)
qed

lemma EncodeObjectInfo_send:
  assumes "unbounded w" "list_all fits_line (echo_lines caps ua)"
    and "list_all fits_line (map (\<lambda>oid. ''oid '' @ oid) oids)"
  shows "EncodeObjectInfo w oids args caps ua =
    (None, send (request_frame ''object-info'' (echo_lines caps ua) (object_info_lines args oids)) w)"
proof -
  have pre: "for_each (\<lambda>oid w. WriteLineParts w [''oid '', oid]) oids w' =
      (None, send (map (\<lambda>oid. line_packet (''oid '' @ oid)) oids) w')"
    if "unbounded w'" for w'
    using assms(3) that
      for_each_send [where g = "\<lambda>oid. [line_packet (''oid '' @ oid)]"
        and f = "\<lambda>oid w. WriteLineParts w [''oid '', oid]" and xs = oids and w = w']
    by (simp add: list_all_iff)
  show ?thesis
    using assms(1,2)
    by (simp add: EncodeObjectInfo_def pre request_frame_def object_info_lines_def comp_def)
qed

section \<open>The encoders as generic requests\<close>

lemma WriteLineParts_writeLine: "WriteLineParts w [a, b] = writeLine w (a @ b)"
  by (simp add: writeLine_def WriteLine_WritePacket WriteLineParts_WritePacket)

lemma writeCapabilityEcho_lines:
  "writeCapabilityEcho w caps ua = for_each (\<lambda>s w. writeLine w s) (echo_lines caps ua) w"
  by (auto simp: writeCapabilityEcho_def echo_lines_def caps_Get_All for_each_append
      WriteLineParts_writeLine Let_def split: list.splits intro: after_cong)

lemma EncodeLSRefs_generic:
  "fst (EncodeLSRefs w args caps ua) =
   EncodeV2CommandRequest w ''ls-refs'' (ls_refs_lines args (lsRefsSupportsUnborn caps)) (echo_lines caps ua)"
  by (cases "ra_Peel args"; cases "ra_Symrefs args"; cases "ra_Unborn args"; cases "lsRefsSupportsUnborn caps")
    (simp_all add: EncodeLSRefs_def EncodeV2CommandRequest_def ls_refs_lines_def Let_def after_assoc
      writeCapabilityEcho_lines WriteLineParts_writeLine for_each_map)

lemma EncodeObjectInfo_generic:
  "EncodeObjectInfo w oids args caps ua =
   EncodeV2CommandRequest w ''object-info'' (object_info_lines args oids) (echo_lines caps ua)"
  by (cases "oa_Size args")
    (simp_all add: EncodeObjectInfo_def EncodeV2CommandRequest_def object_info_lines_def after_assoc
      writeCapabilityEcho_lines WriteLineParts_writeLine for_each_map)

lemma wire_cmd_writeLine [wire_intros]: "wire_cmd (\<lambda>w. writeLine w s)"
  unfolding writeLine_def by (rule wire_intros)

lemma wire_cmd_EncodeV2CommandRequest [wire_intros]:
  "wire_cmd (\<lambda>w. EncodeV2CommandRequest w name args caps)"
  unfolding EncodeV2CommandRequest_def by (intro wire_intros)

section \<open>Properties\<close>

text \<open>The two discovery encoders are instances of the generic v2 request encoder on every
  writer, failing ones included: the same lines in the same order and the same errors; \<open>unborn\<close> is
  among the arguments exactly when the caller wants it and the server advertised it.\<close>

theorem discovery_encoders_generic:
  "fst (EncodeLSRefs w args caps ua) =
     EncodeV2CommandRequest w ''ls-refs'' (ls_refs_lines args (lsRefsSupportsUnborn caps)) (echo_lines caps ua) \<and>
   EncodeObjectInfo w oids oargs caps ua =
     EncodeV2CommandRequest w ''object-info'' (object_info_lines oargs oids) (echo_lines caps ua)"
  by (simp add: EncodeLSRefs_generic EncodeObjectInfo_generic)

text \<open>On a healthy sink and with lines that fit a pkt-line, the \<open>ls-refs\<close> request is exactly the
  frame command, capability echo, delimiter, arguments, flush; the \<open>unborn\<close> argument of a caller
  whose server did not advertise it is left out and reported as one drop event.\<close>

theorem EncodeLSRefs_frame:
  assumes "unbounded w" "list_all fits_line (echo_lines caps ua)"
    and "list_all fits_line (map (\<lambda>p. ''ref-prefix '' @ p) (ra_Prefixes args))"
  shows "EncodeLSRefs w args caps ua =
    ((None, send (request_frame ''ls-refs'' (echo_lines caps ua)
        (ls_refs_lines args (lsRefsSupportsUnborn caps))) w),
     if ra_Unborn args \<and> \<not> lsRefsSupportsUnborn caps then [(''ls-refs'', ''unborn'')] else [])"
  using assms by (rule EncodeLSRefs_send)

theorem EncodeLSRefs_frame_witness:
  "\<exists>w. EncodeLSRefs (NewWriter empty_sink)
      \<lparr>ra_Prefixes = [''refs/heads/''], ra_Peel = True, ra_Symrefs = False, ra_Unborn = True\<rparr>
      [\<lparr>cap_Name = ''agent'', cap_Value = ''git/2''\<rparr>, \<lparr>cap_Name = ''ls-refs'', cap_Value = []\<rparr>] [] =
    ((None, w), [(''ls-refs'', ''unborn'')]) \<and>
    snk_out (wr_dst w) = stream [line_packet ''command=ls-refs'', line_packet ''agent=lsremote/0'',
      delim_packet, line_packet ''peel'', line_packet ''ref-prefix refs/heads/'', flush_packet]"
  using EncodeLSRefs_frame [of "NewWriter empty_sink"
      "[\<lparr>cap_Name = ''agent'', cap_Value = ''git/2''\<rparr>, \<lparr>cap_Name = ''ls-refs'', cap_Value = []\<rparr>]" "[]"
      "\<lparr>ra_Prefixes = [''refs/heads/''], ra_Peel = True, ra_Symrefs = False, ra_Unborn = True\<rparr>"]
  by (simp add: echo_lines_def fits_line_def MaxPayload_def DefaultUserAgent_def request_frame_def
      ls_refs_lines_def lsRefsSupportsUnborn_def ParseCapabilities_def del: stream_simps(2,3))

text \<open>Whatever sink an encoder writes to, the bytes it leaves there are a prefix of the frame it
  leaves on a healthy sink, and a report of success means the whole frame is out.\<close>

theorem request_prefix:
  "prefix (wire_out (snd (EncodeV2CommandRequest w name args caps)))
     (wire_out (snd (EncodeV2CommandRequest (heal w) name args caps))) \<and>
   (fst (EncodeV2CommandRequest w name args caps) = None \<longrightarrow>
     EncodeV2CommandRequest (heal w) name args caps =
       (None, heal (snd (EncodeV2CommandRequest w name args caps))))"
  using wire_cmd_EncodeV2CommandRequest [of name args caps] by (simp add: wire_cmd_def)

theorem request_prefix_witness:
  "fst (EncodeV2CommandRequest (NewWriter (empty_sink\<lparr>snk_room := Some 100\<rparr>)) ''x'' [] []) = None \<and>
   EncodeV2CommandRequest (heal (NewWriter (empty_sink\<lparr>snk_room := Some 100\<rparr>))) ''x'' [] [] =
     (None, heal (snd (EncodeV2CommandRequest (NewWriter (empty_sink\<lparr>snk_room := Some 100\<rparr>)) ''x'' [] [])))"
proof -
  have "fst (EncodeV2CommandRequest (NewWriter (empty_sink\<lparr>snk_room := Some 100\<rparr>)) ''x'' [] []) = None"
    by (simp add: EncodeV2CommandRequest_def WriteLineParts_def write_and_emit_def io_Write_def
        NewWriter_def MaxPayload_def WriteDelim_def WriteFlush_def writeControl_def)
  with request_prefix [of "NewWriter (empty_sink\<lparr>snk_room := Some 100\<rparr>)" "''x''" "[]" "[]"]
  show ?thesis by blast
qed

text \<open>The request that opens a git daemon session is one packet: command, path and host, each
  with its NUL, and a version trailer exactly for versions above zero; no version asks for 2.\<close>

theorem WriteStreamRequest_packet:
  assumes "unbounded w"
    and "length (url_Path u) + length (hostParameter u) + length (itoa (case v of None \<Rightarrow> 2 | Some x \<Rightarrow> x)) \<le> 65000"
  shows "WriteStreamRequest w u v = (None, send [data_packet
     (''git-upload-pack '' @ url_Path u @ [CHR 0x00] @ ''host='' @ hostParameter u @ [CHR 0x00] @
      (case v of
         None \<Rightarrow> [CHR 0x00] @ ''version=2'' @ [CHR 0x00]
       | Some x \<Rightarrow> if x \<le> ProtocolV0 then [] else [CHR 0x00] @ ''version='' @ itoa x @ [CHR 0x00]))] w)"
proof -
  have "itoa 2 = ''2''" by (simp add: itoa_def itoa_nat.simps digit_char_def char_of_eq_iff)
  with assms show ?thesis
    by (auto simp: WriteStreamRequest_def Let_def ProtocolV2_def ProtocolV0_def MaxPayload_def split: option.splits)
qed

theorem WriteStreamRequest_packet_witness:
  "WriteStreamRequest (NewWriter empty_sink) \<lparr>url_Scheme = ''git'', url_User = [], url_Host = ''::1'',
      url_Port = ''9418'', url_Path = ''/r.git'', url_Raw = []\<rparr> (Some ProtocolV0) =
    (None, send [data_packet (''git-upload-pack /r.git'' @ [CHR 0x00] @ ''host=[::1]:9418'' @ [CHR 0x00])]
       (NewWriter empty_sink))"
  using WriteStreamRequest_packet [of "NewWriter empty_sink" "\<lparr>url_Scheme = ''git'', url_User = [],
      url_Host = ''::1'', url_Port = ''9418'', url_Path = ''/r.git'', url_Raw = []\<rparr>" "Some ProtocolV0"]
  by (simp add: hostParameter_def ProtocolV0_def itoa_def itoa_nat.simps)

end
