(* ===== verification/Wire_Advertisement.thy ===== *)
theory Wire_Advertisement
  imports Wire_Types
begin

text \<open>
  The client's decoder of the initial advertisement (\<open>src/internal/wire/advertisement.go\<close>,
  \<open>refs_v0.go\<close>): the discrimination of protocol versions on the first packet, the v2 capability
  list, the v0/v1 reference list with its peeled lines, and the symref annotation.

  The loops are modelled on \<open>Reader\<close> and refined against the packets it will deliver
  (\<open>reader.loop_refines\<close>), so the properties are about packet lists.
\<close>

section \<open>Definitions\<close>

definition eof_unexpected :: "go_error \<Rightarrow> go_error" where
  "eof_unexpected e = (if errors_Is e io_EOF then io_ErrUnexpectedEOF else e)"

function readV2Capabilities_loop ::
  "Reader \<Rightarrow> RawCapabilities \<Rightarrow> (go_error + RawCapabilities) \<times> Reader" where
  "readV2Capabilities_loop r caps = (case ReadPacket r of
      (Inl e, r') \<Rightarrow> (Inl (eof_unexpected e), r')
    | (Inr p, r') \<Rightarrow>
        if pkt_Kind p = Flush then (Inr caps, r')
        else if pkt_Kind p \<noteq> Data then
          (Inl (New ''wire: unexpected control packet in v2 capability list''), r')
        else readV2Capabilities_loop r' (caps @ ParseCapabilities (TrimSuffix (pkt_Data p) [CHR 0x0A])))"
  by pat_completeness auto
termination
  by (relation "measure (\<lambda>(r, _). length (src_rest (rd_src r)))") (auto dest: ReadPacket_decreases sym)

declare readV2Capabilities_loop.simps [simp del]

definition readV2Capabilities :: "Reader \<Rightarrow> (go_error + RawCapabilities) \<times> Reader" where
  "readV2Capabilities r = readV2Capabilities_loop r []"

definition peeledSuffix :: string where
  "peeledSuffix = ''^{}''"

definition emptyRepoRefname :: string where
  "emptyRepoRefname = ''capabilities'' @ peeledSuffix"

definition shallowPrefix :: string where
  "shallowPrefix = ''shallow ''"

definition isAllZero :: "string \<Rightarrow> bool" where
  "isAllZero b \<longleftrightarrow> b \<noteq> [] \<and> list_all (\<lambda>c. c = CHR ''0'') b"

definition parseFirstRefLine :: "string \<Rightarrow> go_error + (RawCapabilities \<times> RawRef option)" where
  "parseFirstRefLine payload =
     (let line = TrimSuffix payload [CHR 0x0A] in
      case Cut line (CHR '' '') of (oid, rest, ok) \<Rightarrow>
      if \<not> ok then Inl (New (''wire: malformed first ref line '' @ quote line @ '': missing space''))
      else case Cut rest (CHR 0x00) of (name, capList, ok) \<Rightarrow>
      if \<not> ok then Inl (New (''wire: malformed first ref line '' @ quote line @ '': missing NUL before caps''))
      else let caps = ParseCapabilities capList in
        if name = emptyRepoRefname \<and> isAllZero oid then Inr (caps, None)
        else if HasSuffix name peeledSuffix then
          Inl (New (''wire: first ref line '' @ quote line @ '' carries peeled marker without preceding ref''))
        else Inr (caps, Some (empty_RawRef\<lparr>ref_OID := oid, ref_Name := name\<rparr>)))"

text \<open>One symref capability: the first ref of that name gets the target.\<close>

fun set_symref :: "RawRef list \<Rightarrow> string \<Rightarrow> string \<Rightarrow> RawRef list" where
  "set_symref [] name target = []"
| "set_symref (r # rs) name target =
     (if ref_Name r = name then r\<lparr>ref_Symref := target\<rparr> # rs else r # set_symref rs name target)"

definition apply_symref :: "RawRef list \<Rightarrow> string \<Rightarrow> RawRef list" where
  "apply_symref refs val = (case Cut val (CHR '':'') of (name, target, ok) \<Rightarrow>
     if \<not> ok \<or> name = [] \<or> target = [] then refs else set_symref refs name target)"

definition applySymrefs :: "RawRef list \<Rightarrow> RawCapabilities \<Rightarrow> RawRef list" where
  "applySymrefs refs caps = foldl apply_symref refs (caps_All caps ''symref'')"

text \<open>The body of the ref loop of \<open>parseV0Advertisement\<close> for one data packet.\<close>

definition v0_ref_line :: "RawRef list \<Rightarrow> string \<Rightarrow> go_error + RawRef list" where
  "v0_ref_line refs data =
     (let line = TrimSuffix data [CHR 0x0A] in
      if HasPrefix line shallowPrefix then Inr refs
      else case Cut line (CHR '' '') of (oid, name, ok) \<Rightarrow>
      if \<not> ok then Inl (New (''wire: malformed ref line '' @ quote line @ '': missing space''))
      else case CutSuffix name peeledSuffix of
        Some peeledName \<Rightarrow>
          (if refs = [] then Inl (New (''wire: peeled marker '' @ quote line @ '' has no preceding ref''))
           else let prev = last refs in
             if ref_Name prev \<noteq> peeledName then
               Inl (New (''wire: peeled marker for '' @ quote peeledName @
                 '' does not match preceding ref '' @ quote (ref_Name prev)))
             else if ref_Peeled prev \<noteq> [] then
               Inl (New (''wire: duplicate peeled marker for ref '' @ quote (ref_Name prev)))
             else Inr (butlast refs @ [prev\<lparr>ref_Peeled := oid\<rparr>]))
      | None \<Rightarrow> Inr (refs @ [empty_RawRef\<lparr>ref_OID := oid, ref_Name := name\<rparr>]))"

function parseV0_loop ::
  "Reader \<Rightarrow> RawRef list \<Rightarrow> (go_error + RawRef list) \<times> Reader" where
  "parseV0_loop r refs = (case ReadPacket r of
      (Inl e, r') \<Rightarrow> (Inl (eof_unexpected e), r')
    | (Inr p, r') \<Rightarrow>
        if pkt_Kind p = Flush then (Inr refs, r')
        else if pkt_Kind p \<noteq> Data then
          (Inl (New ''wire: unexpected control packet in v0/v1 advertisement''), r')
        else case v0_ref_line refs (pkt_Data p) of
            Inl e \<Rightarrow> (Inl e, r')
          | Inr refs' \<Rightarrow> parseV0_loop r' refs')"
  by pat_completeness auto
termination
  by (relation "measure (\<lambda>(r, _). length (src_rest (rd_src r)))") (auto dest: ReadPacket_decreases sym)

declare parseV0_loop.simps [simp del]

definition parseV0Advertisement ::
  "Packet \<Rightarrow> Reader \<Rightarrow> ProtocolVersion \<Rightarrow> (go_error + Advertisement) \<times> Reader" where
  "parseV0Advertisement first r version = (case parseFirstRefLine (pkt_Data first) of
      Inl e \<Rightarrow> (Inl e, r)
    | Inr (caps, firstRef) \<Rightarrow>
        (case parseV0_loop r (case firstRef of None \<Rightarrow> [] | Some ref \<Rightarrow> [ref]) of
           (Inl e, r') \<Rightarrow> (Inl e, r')
         | (Inr refs, r') \<Rightarrow>
             (Inr \<lparr>ad_Version = version, ad_Caps = caps, ad_Refs = applySymrefs refs caps\<rparr>, r')))"

definition dispatchAdvertisement :: "Packet \<Rightarrow> Reader \<Rightarrow> (go_error + Advertisement) \<times> Reader" where
  "dispatchAdvertisement first r =
     (if pkt_Kind first \<noteq> Data then
        (Inr \<lparr>ad_Version = ProtocolV0, ad_Caps = [], ad_Refs = []\<rparr>, r)
      else case CutPrefix (TrimSuffix (pkt_Data first) [CHR 0x0A]) ''version '' of
        None \<Rightarrow> parseV0Advertisement first r ProtocolV0
      | Some rest \<Rightarrow>
          if rest = ''2'' then
            (case readV2Capabilities r of
               (Inl e, r') \<Rightarrow> (Inl e, r')
             | (Inr caps, r') \<Rightarrow> (Inr \<lparr>ad_Version = ProtocolV2, ad_Caps = caps, ad_Refs = []\<rparr>, r'))
          else if rest = ''1'' then
            (case ReadPacket r of
               (Inl e, r') \<Rightarrow> (Inl (eof_unexpected e), r')
             | (Inr next, r') \<Rightarrow> parseV0Advertisement next r' ProtocolV1)
          else if rest = ''0'' then
            (Inl (Wrapf ''wire: server explicitly announced version 0: '' wire_ErrUnsupportedProtocol []), r)
          else
            (Inl (Wrapf (''wire: server announced unknown protocol version '' @ quote rest @ '': '')
               wire_ErrUnsupportedProtocol []), r))"

definition ParseAdvertisement ::
  "Reader \<Rightarrow> ProtocolVersion option \<Rightarrow> (go_error + Advertisement) \<times> Reader" where
  "ParseAdvertisement r want = (case ReadPacket r of
      (Inl e, r') \<Rightarrow> (Inl (eof_unexpected e), r')
    | (Inr first, r') \<Rightarrow> (case dispatchAdvertisement first r' of
          (Inl e, r'') \<Rightarrow> (Inl e, r'')
        | (Inr ad, r'') \<Rightarrow>
            if want \<noteq> None \<and> ad_Version ad \<noteq> the want then
              (Inl (Wrapf (''wire: server negotiated '' @ ProtocolVersion_String (ad_Version ad) @
                 '', caller required '' @ ProtocolVersion_String (the want) @ '': '')
                 wire_ErrUnsupportedProtocol []), r'')
            else (Inr ad, r'')))"

section \<open>Refinement of the loops\<close>

definition v2_caps_step :: "RawCapabilities \<Rightarrow> Packet \<Rightarrow> (go_error + RawCapabilities) + RawCapabilities" where
  "v2_caps_step caps p =
     (if pkt_Kind p = Flush then Inl (Inr caps)
      else if pkt_Kind p \<noteq> Data then
        Inl (Inl (New ''wire: unexpected control packet in v2 capability list''))
      else Inr (caps @ ParseCapabilities (TrimSuffix (pkt_Data p) [CHR 0x0A])))"

definition v0_ref_step :: "RawRef list \<Rightarrow> Packet \<Rightarrow> (go_error + RawRef list) + RawRef list" where
  "v0_ref_step refs p =
     (if pkt_Kind p = Flush then Inl (Inr refs)
      else if pkt_Kind p \<noteq> Data then
        Inl (Inl (New ''wire: unexpected control packet in v0/v1 advertisement''))
      else case v0_ref_line refs (pkt_Data p) of Inl e \<Rightarrow> Inl (Inl e) | Inr refs' \<Rightarrow> Inr refs')"

lemma readV2Capabilities_loop_step:
  "readV2Capabilities_loop r caps = (case ReadPacket r of
      (Inl e, r') \<Rightarrow> (Inl (eof_unexpected e), r')
    | (Inr p, r') \<Rightarrow> (case v2_caps_step caps p of
        Inl b \<Rightarrow> (b, r') | Inr caps' \<Rightarrow> readV2Capabilities_loop r' caps'))"
  by (subst readV2Capabilities_loop.simps) (auto simp: v2_caps_step_def split: prod.splits sum.splits)

lemma parseV0_loop_step:
  "parseV0_loop r refs = (case ReadPacket r of
      (Inl e, r') \<Rightarrow> (Inl (eof_unexpected e), r')
    | (Inr p, r') \<Rightarrow> (case v0_ref_step refs p of
        Inl b \<Rightarrow> (b, r') | Inr refs' \<Rightarrow> parseV0_loop r' refs'))"
  by (subst parseV0_loop.simps) (auto simp: v0_ref_step_def split: prod.splits sum.splits)

lemmas readV2Capabilities_refines =
  reader.loop_refines [where fin = "\<lambda>e. Inl (eof_unexpected e)" and step = v2_caps_step,
    OF readV2Capabilities_loop_step]

lemmas parseV0_refines =
  reader.loop_refines [where fin = "\<lambda>e. Inl (eof_unexpected e)" and step = v0_ref_step,
    OF parseV0_loop_step]

lemma loop_results:
  assumes "pending r = (ps, e)"
  shows "fst (readV2Capabilities_loop r caps) = fst (scan v2_caps_step (Inl (eof_unexpected e)) caps ps)"
    and "fst (parseV0_loop r refs) = fst (scan v0_ref_step (Inl (eof_unexpected e)) refs ps)"
    and "snd (scan v2_caps_step (Inl (eof_unexpected e)) caps ps) = Some rest \<Longrightarrow>
      pending (snd (readV2Capabilities_loop r caps)) = (rest, e)"
    and "snd (scan v0_ref_step (Inl (eof_unexpected e)) refs ps) = Some rest \<Longrightarrow>
      pending (snd (parseV0_loop r refs)) = (rest, e)"
  using readV2Capabilities_refines [OF assms] parseV0_refines [OF assms] by blast+

section \<open>The listing as packets\<close>

text \<open>The lines of a v0 listing: one per ref, and one more for a ref with a peeled id.\<close>

definition v0_lines :: "RawRef \<Rightarrow> string list" where
  "v0_lines r = (ref_OID r @ '' '' @ ref_Name r) #
     (if ref_Peeled r = [] then [] else [ref_Peeled r @ '' '' @ ref_Name r @ peeledSuffix])"

definition wf_v0_ref :: "RawRef \<Rightarrow> bool" where
  "wf_v0_ref r \<longleftrightarrow> CHR '' '' \<notin> set (ref_OID r) \<and> CHR '' '' \<notin> set (ref_Peeled r) \<and>
     ref_OID r \<noteq> ''shallow'' \<and> ref_OID r \<noteq> ''version'' \<and> ref_Peeled r \<noteq> ''shallow'' \<and>
     CHR 0x00 \<notin> set (ref_Name r) \<and> \<not> HasSuffix (ref_Name r) peeledSuffix \<and>
     ref_Symref r = [] \<and> \<not> ref_Unborn r"

definition is_shallow_line :: "string \<Rightarrow> bool" where
  "is_shallow_line l \<longleftrightarrow> HasPrefix l shallowPrefix"

lemma HasPrefix_shallow:
  assumes "CHR '' '' \<notin> set oid"
  shows "HasPrefix (oid @ '' '' @ name) shallowPrefix \<longleftrightarrow> oid = ''shallow''"
proof
  assume "HasPrefix (oid @ '' '' @ name) shallowPrefix"
  then obtain r where "oid @ CHR '' '' # name = ''shallow'' @ CHR '' '' # r"
    by (auto simp: HasPrefix_conv shallowPrefix_def)
  with assms show "oid = ''shallow''"
    using Cut_found [of "CHR '' ''" oid name] Cut_found [of "CHR '' ''" "''shallow''" r] by simp
qed (simp add: shallowPrefix_def)

lemma v0_ref_line_ref:
  assumes "CHR '' '' \<notin> set oid" "oid \<noteq> ''shallow''" "\<not> HasSuffix name peeledSuffix"
  shows "v0_ref_line refs (oid @ CHR '' '' # name @ [CHR 0x0A]) =
    Inr (refs @ [empty_RawRef\<lparr>ref_OID := oid, ref_Name := name\<rparr>])"
  using assms HasPrefix_shallow [of oid name] TrimSuffix_append [of "oid @ CHR '' '' # name" "[CHR 0x0A]"]
  by (simp add: v0_ref_line_def Cut_found CutSuffix_def)

lemma v0_ref_line_peeled:
  assumes "CHR '' '' \<notin> set oid" "oid \<noteq> ''shallow''" "ref_Peeled r = []"
  shows "v0_ref_line (refs @ [r]) (oid @ CHR '' '' # ref_Name r @ peeledSuffix @ [CHR 0x0A]) =
    Inr (refs @ [r\<lparr>ref_Peeled := oid\<rparr>])"
  using assms HasPrefix_shallow [of oid "ref_Name r @ peeledSuffix"]
    TrimSuffix_append [of "oid @ CHR '' '' # ref_Name r @ peeledSuffix" "[CHR 0x0A]"]
  by (simp add: v0_ref_line_def Cut_found Let_def)

lemma v0_step_line: "v0_ref_line refs d = Inr refs' \<Longrightarrow> v0_ref_step refs (data_packet d) = Inr refs'"
  by (simp add: v0_ref_step_def)

lemma scan_v0_rest_of_ref:
  assumes "wf_v0_ref r"
  shows "scan v0_ref_step fin (refs @ [r\<lparr>ref_Peeled := []\<rparr>])
      (map line_packet (tl (v0_lines r)) @ ps) = scan v0_ref_step fin (refs @ [r]) ps"
  using assms v0_step_line [OF v0_ref_line_peeled [of "ref_Peeled r" "r\<lparr>ref_Peeled := []\<rparr>" refs]]
  by (cases r; cases "ref_Peeled r = []") (auto simp: v0_lines_def wf_v0_ref_def)

lemma scan_v0_ref:
  assumes "wf_v0_ref r"
  shows "scan v0_ref_step fin refs (map line_packet (v0_lines r) @ ps) = scan v0_ref_step fin (refs @ [r]) ps"
proof -
  have "v0_ref_step refs (line_packet (ref_OID r @ '' '' @ ref_Name r)) = Inr (refs @ [r\<lparr>ref_Peeled := []\<rparr>])"
    using assms v0_step_line [OF v0_ref_line_ref [of "ref_OID r" "ref_Name r" refs]]
    by (cases r) (simp add: wf_v0_ref_def empty_RawRef_def)
  then show ?thesis
    using scan_v0_rest_of_ref [OF assms, of fin refs ps] by (simp add: v0_lines_def)
qed

lemma scan_v0_refs:
  "list_all wf_v0_ref rs \<Longrightarrow>
   scan v0_ref_step fin refs (map line_packet (concat (map v0_lines rs)) @ flush_packet # ps) =
     (Inr (refs @ rs), Some ps)"
  by (induction rs arbitrary: refs) (auto simp: scan_v0_ref v0_ref_step_def)

lemma scan_v2_caps:
  "list_all wf_capability cs \<Longrightarrow>
   scan v2_caps_step fin caps (map (\<lambda>c. line_packet (show_capability c)) cs @ flush_packet # ps) =
     (Inr (caps @ cs), Some ps)"
  by (induction cs arbitrary: caps) (auto simp: v2_caps_step_def ParseCapabilities_single)

text \<open>
  The packets of a whole v0/v1 listing: the first ref carries the capabilities after a NUL, and an
  empty repository lists the one line \<open>0..0 capabilities^{}\<close>.
\<close>

definition caps_text :: "RawCapabilities \<Rightarrow> string" where
  "caps_text cs = join_with '' '' (map show_capability cs)"

definition first_line :: "string \<Rightarrow> string \<Rightarrow> RawCapabilities \<Rightarrow> Packet" where
  "first_line oid name caps = line_packet (oid @ '' '' @ name @ [CHR 0x00] @ caps_text caps)"

definition v0_listing :: "string \<Rightarrow> RawCapabilities \<Rightarrow> RawRef list \<Rightarrow> Packet list" where
  "v0_listing zeros caps refs = (case refs of
      [] \<Rightarrow> [first_line zeros emptyRepoRefname caps, flush_packet]
    | r # rs \<Rightarrow> first_line (ref_OID r) (ref_Name r) caps #
        map line_packet (tl (v0_lines r) @ concat (map v0_lines rs)) @ [flush_packet])"

lemma isAllZero_facts:
  assumes "isAllZero zeros"
  shows "CHR '' '' \<notin> set zeros" "zeros \<noteq> ''version''"
proof -
  from assms have z: "\<forall>c\<in>set zeros. c = CHR ''0''" by (simp add: isAllZero_def list_all_iff)
  show "CHR '' '' \<notin> set zeros"
  proof
    assume "CHR '' '' \<in> set zeros"
    with z have "CHR '' '' = CHR ''0''" by blast
    then show False by simp
  qed
  show "zeros \<noteq> ''version''"
  proof
    assume "zeros = ''version''"
    then have "CHR ''v'' \<in> set zeros" by simp
    with z have "CHR ''v'' = CHR ''0''" by blast
    then show False by simp
  qed
qed

lemma parse_caps_text: "list_all wf_capability cs \<Longrightarrow> ParseCapabilities (caps_text cs) = cs"
proof -
  assume *: "list_all wf_capability cs"
  then have "FieldsFunc (caps_text cs) isWireSpace = map show_capability cs"
    unfolding caps_text_def by (intro FieldsFunc_tokens) (auto simp: list_all_iff wf_capability_def isWireSpace_def)
  moreover from * have "map parse_capability (map show_capability cs) = cs"
    by (induction cs) (auto simp: wf_capability_def parse_show_capability)
  ultimately show ?thesis by (auto simp: ParseCapabilities_def)
qed

lemma parseFirstRefLine_line:
  assumes "CHR '' '' \<notin> set oid" "CHR 0x00 \<notin> set name" "list_all wf_capability caps"
  shows "parseFirstRefLine (oid @ '' '' @ name @ [CHR 0x00] @ caps_text caps @ [CHR 0x0A]) =
    (if name = emptyRepoRefname \<and> isAllZero oid then Inr (caps, None)
     else if HasSuffix name peeledSuffix then
       Inl (New (''wire: first ref line '' @ quote (oid @ '' '' @ name @ [CHR 0x00] @ caps_text caps) @
         '' carries peeled marker without preceding ref''))
     else Inr (caps, Some (empty_RawRef\<lparr>ref_OID := oid, ref_Name := name\<rparr>)))"
  using assms TrimSuffix_append [of "oid @ '' '' @ name @ [CHR 0x00] @ caps_text caps" "[CHR 0x0A]"]
  by (simp add: parseFirstRefLine_def Cut_found parse_caps_text Let_def)

lemma parseV0Advertisement_listing:
  assumes "list_all wf_capability caps" "list_all wf_v0_ref refs" "isAllZero zeros"
    and "pending r = (tl (v0_listing zeros caps refs) @ ps, e)"
  shows "fst (parseV0Advertisement (hd (v0_listing zeros caps refs)) r v) =
      Inr \<lparr>ad_Version = v, ad_Caps = caps, ad_Refs = applySymrefs refs caps\<rparr>"
    and "pending (snd (parseV0Advertisement (hd (v0_listing zeros caps refs)) r v)) = (ps, e)"
proof -
  have "fst (parseV0Advertisement (hd (v0_listing zeros caps refs)) r v) =
      Inr \<lparr>ad_Version = v, ad_Caps = caps, ad_Refs = applySymrefs refs caps\<rparr> \<and>
    pending (snd (parseV0Advertisement (hd (v0_listing zeros caps refs)) r v)) = (ps, e)"
  proof (cases refs)
    case Nil
    have "CHR 0x00 \<notin> set emptyRepoRefname" by (simp add: emptyRepoRefname_def peeledSuffix_def)
    then have "parseFirstRefLine (pkt_Data (hd (v0_listing zeros caps refs))) = Inr (caps, None)"
      using assms(1,3) isAllZero_facts [OF assms(3)] Nil
      by (simp add: v0_listing_def first_line_def parseFirstRefLine_line [of zeros, simplified])
    moreover from assms(4) Nil have "pending r = (flush_packet # ps, e)" by (simp add: v0_listing_def)
    from loop_results(2,4) [OF this] scan_v0_refs [of "[]" _ "[]" ps]
    have "fst (parseV0_loop r []) = Inr []" "pending (snd (parseV0_loop r [])) = (ps, e)" by simp_all
    ultimately show ?thesis using Nil
      by (auto simp: parseV0Advertisement_def split: prod.splits)
  next
    case (Cons x xs)
    with assms(2) have x: "wf_v0_ref x" and xs: "list_all wf_v0_ref xs" by simp_all
    have "parseFirstRefLine (pkt_Data (hd (v0_listing zeros caps refs))) =
        Inr (caps, Some (x\<lparr>ref_Peeled := []\<rparr>))"
    proof -
      have "ref_Name x \<noteq> emptyRepoRefname"
        using x HasSuffix_append [of "''capabilities''" peeledSuffix]
        unfolding wf_v0_ref_def emptyRepoRefname_def by metis
      moreover have "empty_RawRef\<lparr>ref_OID := ref_OID x, ref_Name := ref_Name x\<rparr> = x\<lparr>ref_Peeled := []\<rparr>"
        using x by (cases x) (simp add: wf_v0_ref_def empty_RawRef_def)
      ultimately show ?thesis
        using x assms(1) Cons
        by (simp add: v0_listing_def first_line_def wf_v0_ref_def
            parseFirstRefLine_line [of "ref_OID x", simplified])
    qed
    moreover have p: "pending r = (map line_packet (tl (v0_lines x)) @
        map line_packet (concat (map v0_lines xs)) @ flush_packet # ps, e)"
      using assms(4) Cons by (simp add: v0_listing_def)
    have "scan v0_ref_step f [x\<lparr>ref_Peeled := []\<rparr>] (map line_packet (tl (v0_lines x)) @
        map line_packet (concat (map v0_lines xs)) @ flush_packet # ps) = (Inr (x # xs), Some ps)" for f
      using scan_v0_rest_of_ref [OF x, of f "[]"] scan_v0_refs [OF xs, of f "[x]" ps] by simp
    with loop_results(2,4) [OF p, of "[x\<lparr>ref_Peeled := []\<rparr>]"]
    have "fst (parseV0_loop r [x\<lparr>ref_Peeled := []\<rparr>]) = Inr (x # xs)"
      "pending (snd (parseV0_loop r [x\<lparr>ref_Peeled := []\<rparr>])) = (ps, e)" by simp_all
    ultimately show ?thesis using Cons
      by (auto simp: parseV0Advertisement_def split: prod.splits)
  qed
  then show "fst (parseV0Advertisement (hd (v0_listing zeros caps refs)) r v) =
      Inr \<lparr>ad_Version = v, ad_Caps = caps, ad_Refs = applySymrefs refs caps\<rparr>"
    and "pending (snd (parseV0Advertisement (hd (v0_listing zeros caps refs)) r v)) = (ps, e)" by blast+
qed

definition version_mismatch :: "ProtocolVersion \<Rightarrow> ProtocolVersion \<Rightarrow> go_error" where
  "version_mismatch v w = Wrapf (''wire: server negotiated '' @ ProtocolVersion_String v @
     '', caller required '' @ ProtocolVersion_String w @ '': '') wire_ErrUnsupportedProtocol []"

definition accept_version ::
  "ProtocolVersion option \<Rightarrow> Advertisement \<Rightarrow> go_error + Advertisement" where
  "accept_version want ad = (case want of
      Some w \<Rightarrow> if ad_Version ad = w then Inr ad else Inl (version_mismatch (ad_Version ad) w)
    | None \<Rightarrow> Inr ad)"

lemma ParseAdvertisement_first:
  assumes "pending r = (p # ps, e)"
  obtains r' where "pending r' = (ps, e)"
    "ParseAdvertisement r want = (case dispatchAdvertisement p r' of
        (Inl e, r'') \<Rightarrow> (Inl e, r'') | (Inr ad, r'') \<Rightarrow> (accept_version want ad, r''))"
proof -
  obtain r' where "ReadPacket r = (Inr p, r')" "pending r' = (ps, e)"
    using assms by (rule reader.next_packet)
  then show thesis
    by (intro that [of r']) (auto simp: ParseAdvertisement_def accept_version_def version_mismatch_def
        split: prod.splits sum.splits option.splits)
qed

lemma dispatch_v2:
  assumes "list_all wf_capability cs"
    and "pending r = (map (\<lambda>c. line_packet (show_capability c)) cs @ flush_packet # ps, e)"
  obtains r' where "pending r' = (ps, e)"
    "dispatchAdvertisement (line_packet ''version 2'') r =
      (Inr \<lparr>ad_Version = ProtocolV2, ad_Caps = cs, ad_Refs = []\<rparr>, r')"
proof -
  have r: "fst (readV2Capabilities_loop r []) = Inr cs" "pending (snd (readV2Capabilities_loop r [])) = (ps, e)"
    using loop_results(1,3) [OF assms(2), of "[]"] scan_v2_caps [OF assms(1), of _ "[]" ps] by simp_all
  obtain r' where r': "readV2Capabilities r = (Inr cs, r')" "pending r' = (ps, e)"
    using r unfolding readV2Capabilities_def by (metis prod.collapse)
  have "TrimSuffix (''version 2'' @ [CHR 0x0A]) [CHR 0x0A] = ''version 2''"
    by (rule TrimSuffix_append)
  then have "CutPrefix (TrimSuffix (pkt_Data (line_packet ''version 2'')) [CHR 0x0A]) ''version '' = Some ''2''"
    unfolding packet_simps by (simp only: CutPrefix_Cons CutPrefix_empty if_True refl)
  with r'(1) have "dispatchAdvertisement (line_packet ''version 2'') r =
      (Inr \<lparr>ad_Version = ProtocolV2, ad_Caps = cs, ad_Refs = []\<rparr>, r')"
    by (simp only: dispatchAdvertisement_def packet_simps if_False option.case prod.case sum.case
        refl if_True simp_thms)
  with r'(2) show thesis by (rule that)
qed

lemma first_line_not_version:
  assumes "CHR '' '' \<notin> set oid" "oid \<noteq> ''version''"
  shows "CutPrefix (TrimSuffix (oid @ CHR '' '' # s @ [CHR 0x0A]) [CHR 0x0A]) ''version '' = None"
proof -
  have "CHR '' '' \<notin> set ''version''" by simp
  have "oid @ CHR '' '' # s \<noteq> ''version'' @ CHR '' '' # r" for r
    using assms Cut_found [of "CHR '' ''" oid s] Cut_found [OF \<open>CHR '' '' \<notin> set ''version''\<close>, of r] by auto
  then have "\<not> HasPrefix (oid @ CHR '' '' # s) ''version ''"
    by (auto simp: HasPrefix_conv)
  then show ?thesis
    using TrimSuffix_append [of "oid @ CHR '' '' # s" "[CHR 0x0A]"] by (simp add: CutPrefix_eq_None)
qed

lemma dispatch_v0_v1:
  assumes "list_all wf_capability caps" "list_all wf_v0_ref refs" "isAllZero zeros"
    and "pending r = (tl (v0_listing zeros caps refs) @ ps, e)"
  obtains r' where "pending r' = (ps, e)"
    "dispatchAdvertisement (hd (v0_listing zeros caps refs)) r =
      (Inr \<lparr>ad_Version = ProtocolV0, ad_Caps = caps, ad_Refs = applySymrefs refs caps\<rparr>, r')"
proof -
  obtain oid name where hd: "hd (v0_listing zeros caps refs) = first_line oid name caps"
    and oid: "CHR '' '' \<notin> set oid" "oid \<noteq> ''version''"
  proof (cases refs)
    case Nil
    show thesis
      using isAllZero_facts [OF assms(3)] by (intro that [of zeros emptyRepoRefname]) (simp_all add: Nil v0_listing_def)
  next
    case (Cons x xs)
    with assms(2) show thesis by (intro that [of "ref_OID x" "ref_Name x"]) (simp_all add: v0_listing_def wf_v0_ref_def)
  qed
  have "CutPrefix (TrimSuffix (pkt_Data (first_line oid name caps)) [CHR 0x0A]) ''version '' = None"
    using first_line_not_version [OF oid, of "name @ [CHR 0x00] @ caps_text caps"] by (simp add: first_line_def)
  then have "dispatchAdvertisement (hd (v0_listing zeros caps refs)) r =
      parseV0Advertisement (hd (v0_listing zeros caps refs)) r ProtocolV0"
    unfolding hd by (simp add: dispatchAdvertisement_def) (simp add: first_line_def)
  with parseV0Advertisement_listing [OF assms, of ProtocolV0] that show thesis
    by (metis prod.collapse)
qed

section \<open>What a listing that was accepted said\<close>

lemma TrimSuffix_lf_split: "HasPrefix (TrimSuffix d [CHR 0x0A]) [c] \<Longrightarrow> HasPrefix d [c]"
  by (cases d; cases "tl d") (auto simp: TrimSuffix_def HasPrefix_def HasSuffix_def split: if_splits)

lemma v0_ref_line_exact:
  assumes "v0_ref_line refs d = Inr refs'" "\<not> HasPrefix d '' ''"
  shows "concat (map v0_lines refs') = concat (map v0_lines refs) @
    (if is_shallow_line (TrimSuffix d [CHR 0x0A]) then [] else [TrimSuffix d [CHR 0x0A]])"
proof (cases "is_shallow_line (TrimSuffix d [CHR 0x0A])")
  case True
  with assms(1) show ?thesis by (simp add: v0_ref_line_def is_shallow_line_def)
next
  case False
  let ?l = "TrimSuffix d [CHR 0x0A]"
  from False have l: "\<not> HasPrefix ?l shallowPrefix" by (simp add: is_shallow_line_def)
  with assms(1) obtain oid name where cut: "?l = oid @ CHR '' '' # name" "Cut ?l (CHR '' '') = (oid, name, True)"
    by (cases ?l "CHR '' ''" rule: Cut_cases) (auto simp: v0_ref_line_def Let_def)
  have oid: "oid \<noteq> []"
    using assms(2) TrimSuffix_lf_split [of d "CHR '' ''"] cut(1) by auto
  show ?thesis
  proof (cases "CutSuffix name peeledSuffix")
    case None
    with assms(1) l cut(2) have "refs' = refs @ [empty_RawRef\<lparr>ref_OID := oid, ref_Name := name\<rparr>]"
      by (simp add: v0_ref_line_def)
    with cut(1) False show ?thesis by (simp add: v0_lines_def empty_RawRef_def)
  next
    case (Some base)
    with assms(1) l cut(2) have "refs \<noteq> []" "ref_Name (last refs) = base" "ref_Peeled (last refs) = []"
      and refs': "refs' = butlast refs @ [(last refs)\<lparr>ref_Peeled := oid\<rparr>]"
      by (auto simp: v0_ref_line_def Let_def split: if_splits)
    then obtain rs r where r: "refs = rs @ [r]" "ref_Name r = base" "ref_Peeled r = []"
      by (metis append_butlast_last_id)
    from Some have "name = base @ peeledSuffix" by (simp add: CutSuffix_eq_Some)
    with r refs' oid cut(1) False show ?thesis by (simp add: v0_lines_def)
  qed
qed

lemma scan_v0_exact:
  assumes "scan v0_ref_step (Inl f) refs ps = (Inr refs', Some rest)"
    and "list_all (\<lambda>p. \<not> HasPrefix (pkt_Data p) '' '') ps"
  obtains ds where "list_all (\<lambda>p. pkt_Kind p = Data) ds" "\<exists>p. pkt_Kind p = Flush \<and> ps = ds @ p # rest"
    "concat (map v0_lines refs') = concat (map v0_lines refs) @
      filter (\<lambda>l. \<not> is_shallow_line l) (map (\<lambda>p. TrimSuffix (pkt_Data p) [CHR 0x0A]) ds)"
  using assms
proof (induction ps arbitrary: refs thesis)
  case (Cons p ps)
  consider (flush) "pkt_Kind p = Flush" "refs' = refs" "ps = rest"
    | (line) refs1 where "pkt_Kind p = Data" "v0_ref_line refs (pkt_Data p) = Inr refs1"
        "scan v0_ref_step (Inl f) refs1 ps = (Inr refs', Some rest)"
    using Cons.prems(2) by (auto simp: v0_ref_step_def [of refs p] split: if_splits sum.splits)
  then show ?case
  proof cases
    case flush
    then show ?thesis by (intro Cons.prems(1) [of "[]"]) auto
  next
    case line
    from Cons.prems(3) have no: "\<not> HasPrefix (pkt_Data p) '' ''" by simp
    from Cons.IH [OF _ line(3)] Cons.prems(3) obtain ds where
      "list_all (\<lambda>p. pkt_Kind p = Data) ds" "\<exists>p. pkt_Kind p = Flush \<and> ps = ds @ p # rest"
      "concat (map v0_lines refs') = concat (map v0_lines refs1) @
        filter (\<lambda>l. \<not> is_shallow_line l) (map (\<lambda>p. TrimSuffix (pkt_Data p) [CHR 0x0A]) ds)" by auto
    with line v0_ref_line_exact [OF line(2) no] show ?thesis
      by (intro Cons.prems(1) [of "p # ds"]) auto
  qed
qed simp

lemma set_symref_names [simp]: "map ref_Name (set_symref refs name target) = map ref_Name refs"
  by (induction refs) auto

lemma v0_lines_set_symref [simp]: "map v0_lines (set_symref refs name target) = map v0_lines refs"
  by (induction refs) (auto simp: v0_lines_def)

lemma v0_lines_applySymrefs [simp]: "map v0_lines (applySymrefs refs caps) = map v0_lines refs"
proof -
  have "map v0_lines (foldl apply_symref refs vs) = map v0_lines refs" for vs
    by (induction vs arbitrary: refs) (auto simp: apply_symref_def split: prod.splits)
  then show ?thesis by (simp add: applySymrefs_def)
qed

lemma eof_unexpected_not_EOF [simp]: "\<not> errors_Is (eof_unexpected e) io_EOF"
  by (simp add: eof_unexpected_def)

lemma parse_loops_not_EOF:
  "fst (readV2Capabilities r) = Inl e \<Longrightarrow> \<not> errors_Is e io_EOF"
  "fst (parseV0_loop r refs) = Inl e \<Longrightarrow> \<not> errors_Is e io_EOF"
proof -
  have "fst (scan v2_caps_step (Inl (eof_unexpected f)) caps ps) = Inl e \<Longrightarrow> \<not> errors_Is e io_EOF" for f caps ps
    by (induction ps arbitrary: caps) (auto simp: v2_caps_step_def split: if_splits)
  then show "fst (readV2Capabilities r) = Inl e \<Longrightarrow> \<not> errors_Is e io_EOF"
    unfolding readV2Capabilities_def by (metis loop_results(1) prod.collapse)
  have line: "v0_ref_line refs d = Inl e \<Longrightarrow> \<not> errors_Is e io_EOF" for refs d
    by (auto simp: v0_ref_line_def Let_def split: prod.splits option.splits if_splits)
  have "fst (scan v0_ref_step (Inl (eof_unexpected f)) refs ps) = Inl e \<Longrightarrow> \<not> errors_Is e io_EOF" for f ps
  proof (induction ps arbitrary: refs)
    case (Cons p ps)
    then show ?case by (auto simp: v0_ref_step_def [of refs p] dest: line split: if_splits sum.splits)
  qed auto
  then show "fst (parseV0_loop r refs) = Inl e \<Longrightarrow> \<not> errors_Is e io_EOF"
    by (metis loop_results(2) prod.collapse)
qed

lemma parse_loops_Pair_not_EOF:
  "readV2Capabilities r = (Inl e, r') \<Longrightarrow> \<not> errors_Is e io_EOF"
  "parseV0_loop r refs = (Inl e, r') \<Longrightarrow> \<not> errors_Is e io_EOF"
  by (drule arg_cong [where f = fst], simp add: parse_loops_not_EOF)+

lemma parseFirstRefLine_Inl: "parseFirstRefLine d = Inl e \<Longrightarrow> \<not> errors_Is e io_EOF"
  by (auto simp: parseFirstRefLine_def Let_def split: prod.splits if_splits)

lemma parseV0Advertisement_not_EOF:
  "parseV0Advertisement p r v = (Inl e, r') \<Longrightarrow> \<not> errors_Is e io_EOF"
  by (auto simp: parseV0Advertisement_def dest: parseFirstRefLine_Inl parse_loops_Pair_not_EOF
      split: sum.splits prod.splits)

lemma dispatchAdvertisement_not_EOF:
  "dispatchAdvertisement p r = (Inl e, r') \<Longrightarrow> \<not> errors_Is e io_EOF"
  by (auto simp: dispatchAdvertisement_def wire_ErrUnsupportedProtocol_def
      dest: parseV0Advertisement_not_EOF parse_loops_Pair_not_EOF
      split: sum.splits prod.splits option.splits if_splits)

section \<open>Properties\<close>

text \<open>A v2 capability advertisement is decoded to exactly the capabilities that were sent, each in
  its own packet, in order; the reader is left behind the flush; a caller who requires another
  protocol version gets the unsupported-protocol error instead.\<close>

theorem ParseAdvertisement_v2:
  assumes "list_all wf_capability cs"
    and "pending r = (line_packet ''version 2'' #
      map (\<lambda>c. line_packet (show_capability c)) cs @ flush_packet # ps, e)"
  shows "fst (ParseAdvertisement r want) =
      accept_version want \<lparr>ad_Version = ProtocolV2, ad_Caps = cs, ad_Refs = []\<rparr> \<and>
    pending (snd (ParseAdvertisement r want)) = (ps, e)"
proof -
  obtain r1 where r1: "pending r1 = (map (\<lambda>c. line_packet (show_capability c)) cs @ flush_packet # ps, e)"
    "ParseAdvertisement r want = (case dispatchAdvertisement (line_packet ''version 2'') r1 of
        (Inl e, r'') \<Rightarrow> (Inl e, r'') | (Inr ad, r'') \<Rightarrow> (accept_version want ad, r''))"
    using assms(2) by (rule ParseAdvertisement_first)
  obtain r2 where "pending r2 = (ps, e)" "dispatchAdvertisement (line_packet ''version 2'') r1 =
      (Inr \<lparr>ad_Version = ProtocolV2, ad_Caps = cs, ad_Refs = []\<rparr>, r2)"
    using assms(1) r1(1) by (rule dispatch_v2)
  with r1(2) show ?thesis by simp
qed

theorem ParseAdvertisement_v2_witness:
  "let r = NewReader (source_of (stream [line_packet ''version 2'', line_packet ''agent=git/2'',
       line_packet ''object-info'', flush_packet, line_packet ''x'']));
     caps = [\<lparr>cap_Name = ''agent'', cap_Value = ''git/2''\<rparr>, \<lparr>cap_Name = ''object-info'', cap_Value = []\<rparr>]
   in fst (ParseAdvertisement r None) = Inr \<lparr>ad_Version = ProtocolV2, ad_Caps = caps, ad_Refs = []\<rparr> \<and>
     (\<exists>e. fst (ParseAdvertisement r (Some ProtocolV1)) = Inl e \<and> errors_Is e wire_ErrUnsupportedProtocol)"
  (is "let r = ?r; caps = ?caps in _")
proof -
  have p: "pending ?r = (line_packet ''version 2'' # map (\<lambda>c. line_packet (show_capability c)) ?caps @
      flush_packet # [line_packet ''x''], io_EOF)"
    by (subst pending_NewReader) (simp_all add: MaxPayload_def show_capability_def)
  have wf: "list_all wf_capability ?caps"
    by (simp add: wf_capability_def show_capability_def isWireSpace_def)
  show ?thesis
    using ParseAdvertisement_v2 [OF wf p, of None] ParseAdvertisement_v2 [OF wf p, of "Some ProtocolV1"]
    by (simp add: Let_def accept_version_def version_mismatch_def del: stream_simps)
qed



lemma scan_Inr:
  "fst (scan step (Inl f) a ps) = Inr b \<Longrightarrow> \<exists>rest. scan step (Inl f) a ps = (Inr b, Some rest)"
  by (induction ps arbitrary: a) (auto split: sum.splits)

lemma scan_data_fails:
  assumes "list_all (\<lambda>p. pkt_Kind p = Data) ps"
  shows "\<exists>e. fst (scan v2_caps_step (Inl f) caps ps) = Inl e"
    and "\<exists>e. fst (scan v0_ref_step (Inl f) refs ps) = Inl e"
  using assms
  by (induction ps arbitrary: caps refs) (auto simp: v2_caps_step_def v0_ref_step_def split: sum.splits)

lemma parseV0Advertisement_data_fails:
  assumes "pending r = (ps, f)" "list_all (\<lambda>p. pkt_Kind p = Data) ps"
  shows "\<exists>e r'. parseV0Advertisement p r v = (Inl e, r')"
proof -
  have "\<exists>e r'. parseV0_loop r refs = (Inl e, r')" for refs
    using scan_data_fails(2) [OF assms(2), of "eof_unexpected f" refs] loop_results(2) [OF assms(1), of refs]
    by (metis prod.collapse)
  then show ?thesis
    by (auto simp: parseV0Advertisement_def split: sum.splits prod.splits) (metis Inl_Inr_False prod.inject)+
qed

lemma dispatchAdvertisement_data_fails:
  assumes "pending r = (ps, f)" "list_all (\<lambda>p. pkt_Kind p = Data) ps" "pkt_Kind p = Data"
  shows "\<exists>e r'. dispatchAdvertisement p r = (Inl e, r')"
proof (cases "CutPrefix (TrimSuffix (pkt_Data p) [CHR 0x0A]) ''version ''")
  case None
  with assms(3) parseV0Advertisement_data_fails [OF assms(1,2)] show ?thesis
    by (simp add: dispatchAdvertisement_def)
next
  case (Some rest)
  have two: "\<exists>e r'. readV2Capabilities r = (Inl e, r')"
    using scan_data_fails(1) [OF assms(2), of "eof_unexpected f" "[]"] loop_results(1) [OF assms(1), of "[]"]
    unfolding readV2Capabilities_def by (metis prod.collapse)
  have one: "\<exists>e r'. (case ReadPacket r of (Inl e, r') \<Rightarrow> (Inl (eof_unexpected e), r')
      | (Inr next, r') \<Rightarrow> parseV0Advertisement next r' ProtocolV1) = (Inl e, r')"
  proof (cases ps)
    case Nil
    with assms(1) obtain r' where "ReadPacket r = (Inl f, r')" by (blast elim: reader.last_error)
    then show ?thesis by simp
  next
    case (Cons q qs)
    with assms(1) obtain r' where "ReadPacket r = (Inr q, r')" "pending r' = (qs, f)"
      by (blast elim: reader.next_packet)
    with Cons assms(2) parseV0Advertisement_data_fails [of r' qs f] show ?thesis by simp
  qed
  from Some assms(3) one two show ?thesis
    by (auto simp: dispatchAdvertisement_def)
qed

text \<open>An advertisement that breaks off before its flush packet is never accepted, whatever
  arrived before, and the error is never a plain end of file.\<close>

theorem ParseAdvertisement_truncated:
  assumes "pending r = (ps, e)" "list_all (\<lambda>p. pkt_Kind p = Data) ps"
  shows "\<exists>err. fst (ParseAdvertisement r want) = Inl err \<and> \<not> errors_Is err io_EOF"
proof (cases ps)
  case Nil
  with assms(1) obtain r' where "ReadPacket r = (Inl e, r')" by (blast elim: reader.last_error)
  then show ?thesis by (simp add: ParseAdvertisement_def)
next
  case (Cons p qs)
  with assms(1) have "pending r = (p # qs, e)" by simp
  then obtain r1 where r1: "pending r1 = (qs, e)"
    "ParseAdvertisement r want = (case dispatchAdvertisement p r1 of
        (Inl e, r'') \<Rightarrow> (Inl e, r'') | (Inr ad, r'') \<Rightarrow> (accept_version want ad, r''))"
    by (rule ParseAdvertisement_first)
  moreover obtain err r2 where "dispatchAdvertisement p r1 = (Inl err, r2)"
    using dispatchAdvertisement_data_fails [OF r1(1), of p] Cons assms(2) by (simp, blast)
  ultimately show ?thesis using dispatchAdvertisement_not_EOF [of p r1 err r2] by simp
qed

theorem ParseAdvertisement_truncated_witness:
  "\<exists>err. fst (ParseAdvertisement (NewReader (source_of (stream [line_packet ''version 2'', line_packet ''agent'']))) None)
     = Inl err \<and> \<not> errors_Is err io_EOF"
  by (rule ParseAdvertisement_truncated [OF pending_NewReader]) (simp_all add: MaxPayload_def)

lemma parseFirstRefLine_Inr:
  assumes "parseFirstRefLine d = Inr (caps, fr)"
  shows "\<exists>oid name caplist. TrimSuffix d [CHR 0x0A] = oid @ '' '' @ name @ [CHR 0x00] @ caplist \<and>
    caps = ParseCapabilities caplist \<and>
    concat (map v0_lines (case fr of None \<Rightarrow> [] | Some ref \<Rightarrow> [ref])) =
      (if name = emptyRepoRefname \<and> isAllZero oid then [] else [oid @ '' '' @ name])"
proof (cases "TrimSuffix d [CHR 0x0A]" "CHR '' ''" rule: Cut_cases)
  case (found oid rest)
  show ?thesis
  proof (cases rest "CHR 0x00" rule: Cut_cases)
    case cut: (found name caplist)
    from assms found(3) cut(3) have "caps = ParseCapabilities caplist"
      "concat (map v0_lines (case fr of None \<Rightarrow> [] | Some ref \<Rightarrow> [ref])) =
        (if name = emptyRepoRefname \<and> isAllZero oid then [] else [oid @ '' '' @ name])"
      by (auto simp: parseFirstRefLine_def v0_lines_def empty_RawRef_def Let_def split: if_splits)
    with found(1) cut(1) show ?thesis by auto
  next
    case missing
    with assms found(3) show ?thesis by (simp add: parseFirstRefLine_def)
  qed
next
  case missing
  with assms show ?thesis by (simp add: parseFirstRefLine_def)
qed

text \<open>Whatever a v0 or v1 listing that was accepted looked like, the refs reproduce its lines one
  by one: the first line up to the NUL, then every line up to the flush except the shallow ones, each
  peeled line right behind the ref it names. (No line starts with a space, that is, ids are not empty.)\<close>

theorem parseV0Advertisement_exact:
  assumes "parseV0Advertisement first r v = (Inr ad, r')" "pending r = (ps, e)"
    and "list_all (\<lambda>p. \<not> HasPrefix (pkt_Data p) '' '') ps"
  shows "\<exists>oid name caplist ds fl rest.
    TrimSuffix (pkt_Data first) [CHR 0x0A] = oid @ '' '' @ name @ [CHR 0x00] @ caplist \<and>
    ad_Version ad = v \<and> ad_Caps ad = ParseCapabilities caplist \<and>
    ps = ds @ fl # rest \<and> pkt_Kind fl = Flush \<and> pending r' = (rest, e) \<and>
    concat (map v0_lines (ad_Refs ad)) =
      (if name = emptyRepoRefname \<and> isAllZero oid then [] else [oid @ '' '' @ name]) @
      filter (\<lambda>l. \<not> is_shallow_line l) (map (\<lambda>p. TrimSuffix (pkt_Data p) [CHR 0x0A]) ds)"
proof -
  obtain caps fr refs where first: "parseFirstRefLine (pkt_Data first) = Inr (caps, fr)"
    and loop: "parseV0_loop r (case fr of None \<Rightarrow> [] | Some ref \<Rightarrow> [ref]) = (Inr refs, r')"
    and ad: "ad = \<lparr>ad_Version = v, ad_Caps = caps, ad_Refs = applySymrefs refs caps\<rparr>"
    using assms(1) by (auto simp: parseV0Advertisement_def split: sum.splits prod.splits)
  from loop obtain rest where scan: "scan v0_ref_step (Inl (eof_unexpected e))
      (case fr of None \<Rightarrow> [] | Some ref \<Rightarrow> [ref]) ps = (Inr refs, Some rest)"
    using loop_results(2) [OF assms(2)] by (metis fst_conv scan_Inr)
  with loop have p: "pending r' = (rest, e)"
    using loop_results(4) [OF assms(2)] by (metis snd_conv)
  from scan_v0_exact [OF scan assms(3)] obtain ds fl where ds: "pkt_Kind fl = Flush" "ps = ds @ fl # rest"
    "concat (map v0_lines refs) = concat (map v0_lines (case fr of None \<Rightarrow> [] | Some ref \<Rightarrow> [ref])) @
      filter (\<lambda>l. \<not> is_shallow_line l) (map (\<lambda>p. TrimSuffix (pkt_Data p) [CHR 0x0A]) ds)" by blast
  from parseFirstRefLine_Inr [OF first] obtain oid name caplist where
    "TrimSuffix (pkt_Data first) [CHR 0x0A] = oid @ '' '' @ name @ [CHR 0x00] @ caplist"
    "caps = ParseCapabilities caplist"
    "concat (map v0_lines (case fr of None \<Rightarrow> [] | Some ref \<Rightarrow> [ref])) =
      (if name = emptyRepoRefname \<and> isAllZero oid then [] else [oid @ '' '' @ name])" by blast
  with ad p ds show ?thesis
    by (intro exI [of _ oid] exI [of _ name] exI [of _ caplist] exI [of _ ds] exI [of _ fl] exI [of _ rest]) simp
qed

theorem parseV0Advertisement_exact_witness:
  "let tag = empty_RawRef\<lparr>ref_OID := ''1a'', ref_Name := ''t'', ref_Peeled := ''2b''\<rparr>;
       r = NewReader (source_of (stream [line_packet ''shallow 3c'', line_packet ''2b t^{}'', flush_packet]))
   in \<exists>ad r'. parseV0Advertisement (data_packet (''1a t'' @ [CHR 0x00])) r ProtocolV0 = (Inr ad, r') \<and>
     concat (map v0_lines (ad_Refs ad)) = [''1a t'', ''2b t^{}'']"
proof -
  let ?ps = "[line_packet ''shallow 3c'', line_packet ''2b t^{}'', flush_packet]"
  let ?r = "NewReader (source_of (stream ?ps))"
  let ?first = "data_packet (''1a t'' @ [CHR 0x00])"
  have p: "pending ?r = (?ps, io_EOF)" by (rule pending_NewReader) (simp add: MaxPayload_def)
  have scan: "scan v0_ref_step (Inl (eof_unexpected io_EOF)) [empty_RawRef\<lparr>ref_OID := ''1a'', ref_Name := ''t''\<rparr>] ?ps =
      (Inr [empty_RawRef\<lparr>ref_OID := ''1a'', ref_Name := ''t'', ref_Peeled := ''2b''\<rparr>], Some [])"
    by (simp add: v0_ref_step_def v0_ref_line_def TrimSuffix_def HasSuffix_def HasPrefix_def shallowPrefix_def
        Cut_def CutSuffix_def peeledSuffix_def empty_RawRef_def Let_def)
  have first: "parseFirstRefLine (pkt_Data ?first) = Inr ([], Some (empty_RawRef\<lparr>ref_OID := ''1a'', ref_Name := ''t''\<rparr>))"
    by (simp add: parseFirstRefLine_def TrimSuffix_def HasSuffix_def Cut_def ParseCapabilities_def Let_def
        emptyRepoRefname_def peeledSuffix_def)
  obtain refs r' where loop: "parseV0_loop ?r [empty_RawRef\<lparr>ref_OID := ''1a'', ref_Name := ''t''\<rparr>] = (Inr refs, r')"
    using loop_results(2) [OF p, of "[empty_RawRef\<lparr>ref_OID := ''1a'', ref_Name := ''t''\<rparr>]"]
    unfolding scan by (metis fst_conv prod.collapse)
  obtain ad where run: "parseV0Advertisement ?first ?r ProtocolV0 = (Inr ad, r')"
    using loop unfolding parseV0Advertisement_def first by simp
  have "list_all (\<lambda>p. \<not> HasPrefix (pkt_Data p) '' '') ?ps" by simp
  from parseV0Advertisement_exact [OF run p this] obtain oid name caplist ds fl rest where ex:
    "TrimSuffix (pkt_Data ?first) [CHR 0x0A] = oid @ '' '' @ name @ [CHR 0x00] @ caplist"
    "?ps = ds @ fl # rest" "pkt_Kind fl = Flush"
    "concat (map v0_lines (ad_Refs ad)) =
      (if name = emptyRepoRefname \<and> isAllZero oid then [] else [oid @ '' '' @ name]) @
      filter (\<lambda>l. \<not> is_shallow_line l) (map (\<lambda>p. TrimSuffix (pkt_Data p) [CHR 0x0A]) ds)" by blast
  have "oid = ''1a'' \<and> name = ''t''"
    using ex(1) by (auto simp: TrimSuffix_def HasSuffix_def Cons_eq_append_conv)
  moreover have "ds = [line_packet ''shallow 3c'', line_packet ''2b t^{}'']"
    using ex(2,3) by (auto simp: Cons_eq_append_conv)
  ultimately have "concat (map v0_lines (ad_Refs ad)) = [''1a t'', ''2b t^{}'']"
    using ex(4) by (simp add: emptyRepoRefname_def isAllZero_def is_shallow_line_def shallowPrefix_def
        TrimSuffix_def HasSuffix_def)
  with run show ?thesis unfolding Let_def by blast
qed

end
