(* ===== verification/Wire_Responses.thy ===== *)
theory Wire_Responses
  imports Wire_Advertisement
begin

text \<open>
  The client's decoders of the v2 command responses: \<open>DecodeLSRefs\<close> and \<open>parseLSRefsLine\<close>
  (\<open>src/internal/wire/refs_v2.go\<close>), \<open>DecodeObjectInfo\<close>, \<open>looksLikeObjectInfoOIDLine\<close> and
  \<open>parseObjectInfoLine\<close> (\<open>src/internal/wire/object_info.go\<close>).

  \<open>DecodeLSRefs\<close> is a push iterator, so it is modelled with its consumer: \<open>yield\<close> takes a value and the
  consumer's state and says whether to go on. The lemmas reduce it to the items of the pending packets
  (\<open>ls_refs_items\<close>), whatever the consumer; the properties show that what a server lists is what the
  consumer sees, that an error ends the sequence, and that object-info rows decode to the sizes sent.
\<close>

section \<open>The \<open>ls-refs\<close> response\<close>

text \<open>A \<open>Kind\<close> printed with \<open>%v\<close> is its number.\<close>

fun Kind_num :: "Kind \<Rightarrow> nat" where
  "Kind_num Data = 0"
| "Kind_num Flush = 1"
| "Kind_num Delim = 2"
| "Kind_num ResponseEnd = 3"

definition unexpected_control :: "Kind \<Rightarrow> string \<Rightarrow> go_error" where
  "unexpected_control k what = New (''wire: unexpected control packet '' @ itoa_nat (Kind_num k) @ '' in '' @ what @ '' response'')"

definition unborn_attr :: "RawRef \<Rightarrow> string \<Rightarrow> RawRef" where
  "unborn_attr ref tok = (case CutPrefix tok ''symref-target:'' of
      Some t \<Rightarrow> ref\<lparr>ref_Symref := t\<rparr>
    | None \<Rightarrow> ref)"

definition ref_attr :: "RawRef \<Rightarrow> string \<Rightarrow> RawRef" where
  "ref_attr ref tok = (case CutPrefix tok ''peeled:'' of
      Some t \<Rightarrow> ref\<lparr>ref_Peeled := t\<rparr>
    | None \<Rightarrow> (case CutPrefix tok ''symref-target:'' of
        Some t \<Rightarrow> ref\<lparr>ref_Symref := t\<rparr>
      | None \<Rightarrow> ref))"

definition parseLSRefsLine :: "string \<Rightarrow> go_error + RawRef" where
  "parseLSRefsLine line = (case Fields line of
      tok0 # tok1 # toks \<Rightarrow>
        if tok0 = ''unborn'' then
          Inr (foldl unborn_attr (empty_RawRef\<lparr>ref_Name := tok1, ref_Unborn := True\<rparr>) toks)
        else Inr (foldl ref_attr (empty_RawRef\<lparr>ref_OID := tok0, ref_Name := tok1\<rparr>) toks)
    | _ \<Rightarrow> Inl (New ''wire: malformed ls-refs ref line: expected at least 2 fields''))"

function DecodeLSRefs ::
  "(RawRef \<times> go_error option \<Rightarrow> 's \<Rightarrow> bool \<times> 's) \<Rightarrow> Reader \<Rightarrow> 's \<Rightarrow> 's \<times> Reader" where
  "DecodeLSRefs yield r s = (case ReadPacket r of
      (Inl e, r') \<Rightarrow> (snd (yield (empty_RawRef, Some (eof_unexpected e)) s), r')
    | (Inr p, r') \<Rightarrow>
        if pkt_Kind p = Flush then (s, r')
        else if pkt_Kind p = Delim \<or> pkt_Kind p = ResponseEnd then
          (snd (yield (empty_RawRef, Some (unexpected_control (pkt_Kind p) ''ls-refs'')) s), r')
        else let line = TrimSuffix (pkt_Data p) [CHR 0x0A] in
          case CheckERRPacket line of
            Some e \<Rightarrow> (snd (yield (empty_RawRef, Some e) s), r')
          | None \<Rightarrow> (case parseLSRefsLine line of
              Inl e \<Rightarrow> (snd (yield (empty_RawRef, Some e) s), r')
            | Inr ref \<Rightarrow> (case yield (ref, None) s of (go_on, s') \<Rightarrow>
                if go_on then DecodeLSRefs yield r' s' else (s', r'))))"
  by pat_completeness auto
termination
  by (relation "measure (\<lambda>(_, r, _). length (src_rest (rd_src r)))") (auto dest: ReadPacket_decreases sym)

declare DecodeLSRefs.simps [simp del]

section \<open>The \<open>object-info\<close> response\<close>

definition is_lower_hex :: "char \<Rightarrow> bool" where
  "is_lower_hex c \<longleftrightarrow> CHR ''0'' \<le> c \<and> c \<le> CHR ''9'' \<or> CHR ''a'' \<le> c \<and> c \<le> CHR ''f''"

definition looksLikeObjectInfoOIDLine :: "string \<Rightarrow> bool" where
  "looksLikeObjectInfoOIDLine line = (case Cut line (CHR '' '') of (tok, _, _) \<Rightarrow>
     if length tok \<noteq> 40 \<and> length tok \<noteq> 64 then False else list_all is_lower_hex tok)"

text \<open>The row and the drop flag, or an error.\<close>

definition parseObjectInfoLine :: "string \<Rightarrow> bool \<Rightarrow> go_error + (RawObjectInfo \<times> bool)" where
  "parseObjectInfoLine line wantSize = (case Cut line (CHR '' '') of (oid, tail, hasSpace) \<Rightarrow>
     if oid = [] then Inr (\<lparr>oi_OID = [], oi_Size = 0\<rparr>, True)
     else if \<not> hasSpace then
       (if wantSize then Inr (\<lparr>oi_OID = [], oi_Size = 0\<rparr>, True)
        else Inr (\<lparr>oi_OID = oid, oi_Size = 0\<rparr>, False))
     else if tail = [] then Inr (\<lparr>oi_OID = [], oi_Size = 0\<rparr>, True)
     else if \<not> wantSize then Inr (\<lparr>oi_OID = oid, oi_Size = 0\<rparr>, False)
     else case ParseInt tail of
         Inl e \<Rightarrow> Inl (Wrapf (''wire: malformed object-info size '' @ quote tail @ '': '') e [])
       | Inr sz \<Rightarrow> Inr (\<lparr>oi_OID = oid, oi_Size = sz\<rparr>, False))"

text \<open>One row added to the rows so far; the body of the loop for a data packet.\<close>

definition object_info_row :: "bool \<Rightarrow> RawObjectInfo list \<Rightarrow> string \<Rightarrow> go_error + RawObjectInfo list" where
  "object_info_row wantSize infos line = (case CheckERRPacket line of
      Some e \<Rightarrow> Inl e
    | None \<Rightarrow> (case parseObjectInfoLine line wantSize of
        Inl e \<Rightarrow> Inl e
      | Inr (info, skip) \<Rightarrow> Inr (if skip then infos else infos @ [info])))"

function DecodeObjectInfo_loop ::
  "bool \<Rightarrow> Reader \<Rightarrow> RawObjectInfo list \<Rightarrow> (go_error + RawObjectInfo list) \<times> Reader" where
  "DecodeObjectInfo_loop wantSize r infos = (case ReadPacket r of
      (Inl e, r') \<Rightarrow> (Inl (eof_unexpected e), r')
    | (Inr p, r') \<Rightarrow>
        if pkt_Kind p = Flush then (Inr infos, r')
        else if pkt_Kind p = Delim \<or> pkt_Kind p = ResponseEnd then
          (Inl (unexpected_control (pkt_Kind p) ''object-info''), r')
        else case object_info_row wantSize infos (TrimSuffix (pkt_Data p) [CHR 0x0A]) of
            Inl e \<Rightarrow> (Inl e, r')
          | Inr infos' \<Rightarrow> DecodeObjectInfo_loop wantSize r' infos')"
  by pat_completeness auto
termination
  by (relation "measure (\<lambda>(_, r, _). length (src_rest (rd_src r)))") (auto dest: ReadPacket_decreases sym)

declare DecodeObjectInfo_loop.simps [simp del]

definition DecodeObjectInfo :: "Reader \<Rightarrow> (go_error + RawObjectInfo list) \<times> Reader" where
  "DecodeObjectInfo r = (case ReadPacket r of
      (Inl e, r') \<Rightarrow> (Inl (eof_unexpected e), r')
    | (Inr p, r') \<Rightarrow>
        if pkt_Kind p = Flush then (Inr [], r')
        else if pkt_Kind p = Delim \<or> pkt_Kind p = ResponseEnd then
          (Inl (unexpected_control (pkt_Kind p) ''object-info''), r')
        else let firstLine = TrimSuffix (pkt_Data p) [CHR 0x0A] in
          case CheckERRPacket firstLine of
            Some e \<Rightarrow> (Inl e, r')
          | None \<Rightarrow>
              if looksLikeObjectInfoOIDLine firstLine then
                (case parseObjectInfoLine firstLine False of
                   Inl e \<Rightarrow> (Inl e, r')
                 | Inr (info, skip) \<Rightarrow> DecodeObjectInfo_loop False r' (if skip then [] else [info]))
              else DecodeObjectInfo_loop (''size'' \<in> set (Fields firstLine)) r' [])"

section \<open>The items of a response\<close>

text \<open>What \<open>DecodeLSRefs\<close> yields for pending packets, and a consumer fed with items.\<close>

fun ls_refs_items :: "go_error \<Rightarrow> Packet list \<Rightarrow> (RawRef \<times> go_error option) list" where
  "ls_refs_items e [] = [(empty_RawRef, Some (eof_unexpected e))]"
| "ls_refs_items e (p # ps) =
     (if pkt_Kind p = Flush then []
      else if pkt_Kind p \<noteq> Data then [(empty_RawRef, Some (unexpected_control (pkt_Kind p) ''ls-refs''))]
      else case CheckERRPacket (TrimSuffix (pkt_Data p) [CHR 0x0A]) of
        Some e' \<Rightarrow> [(empty_RawRef, Some e')]
      | None \<Rightarrow> (case parseLSRefsLine (TrimSuffix (pkt_Data p) [CHR 0x0A]) of
          Inl e' \<Rightarrow> [(empty_RawRef, Some e')]
        | Inr ref \<Rightarrow> (ref, None) # ls_refs_items e ps))"

fun feed :: "('x \<Rightarrow> 's \<Rightarrow> bool \<times> 's) \<Rightarrow> 'x list \<Rightarrow> 's \<Rightarrow> 's" where
  "feed yield [] s = s"
| "feed yield (x # xs) s = (case yield x s of (go_on, s') \<Rightarrow> if go_on then feed yield xs s' else s')"

text \<open>The consumer that collects everything.\<close>

definition collect :: "'x \<Rightarrow> 'x list \<Rightarrow> bool \<times> 'x list" where
  "collect x s = (True, s @ [x])"

lemma feed_collect [simp]: "feed collect xs s = s @ xs"
  by (induction xs arbitrary: s) (auto simp: collect_def)

lemma feed_single: "feed yield [x] s = snd (yield x s)"
  by (simp split: prod.splits)

lemma Kind_not_Data: "k \<noteq> Flush \<Longrightarrow> k = Delim \<or> k = ResponseEnd \<longleftrightarrow> k \<noteq> Data"
  by (cases k) auto

lemma DecodeLSRefs_items:
  assumes "pending r = (ps, e)"
  shows "fst (DecodeLSRefs yield r s) = feed yield (ls_refs_items e ps) s"
  using assms
proof (induction ps arbitrary: r s)
  case Nil
  then obtain r' where "ReadPacket r = (Inl e, r')" by (rule reader.last_error)
  then show ?case by (subst DecodeLSRefs.simps) (simp split: prod.splits)
next
  case (Cons p ps)
  then obtain r' where r': "ReadPacket r = (Inr p, r')" "pending r' = (ps, e)"
    by (blast elim: reader.next_packet)
  from Cons.IH [OF r'(2)] show ?case
    by (subst DecodeLSRefs.simps)
      (auto simp: r'(1) Kind_not_Data feed_single Let_def split: option.splits sum.splits prod.splits)
qed

lemma ls_refs_items_error_last:
  "list_all (\<lambda>x. snd x = None) (butlast (ls_refs_items e ps))"
  by (induction ps) (auto split: option.splits sum.splits)

subsection \<open>Rows that were printed\<close>

definition v2_ref_tokens :: "RawRef \<Rightarrow> string list" where
  "v2_ref_tokens r = [if ref_Unborn r then ''unborn'' else ref_OID r, ref_Name r] @
     (if ref_Symref r = [] then [] else [''symref-target:'' @ ref_Symref r]) @
     (if ref_Peeled r = [] then [] else [''peeled:'' @ ref_Peeled r])"

definition v2_ref_line :: "RawRef \<Rightarrow> string" where
  "v2_ref_line r = join_with '' '' (v2_ref_tokens r)"

definition wf_v2_ref :: "RawRef \<Rightarrow> bool" where
  "wf_v2_ref r \<longleftrightarrow> list_all (\<lambda>t. t \<noteq> [] \<and> no_space t) (v2_ref_tokens r) \<and>
     (if ref_Unborn r then ref_OID r = [] \<and> ref_Peeled r = []
      else ref_OID r \<noteq> ''unborn'' \<and> \<not> HasPrefix (ref_OID r @ '' '') ''ERR '')"

lemma Fields_join:
  "list_all (\<lambda>t. t \<noteq> [] \<and> no_space t) ts \<Longrightarrow> Fields (join_with '' '' ts) = ts"
  by (induction "'' ''" ts rule: join_with.induct) (auto simp: Fields_simps)

lemma parse_v2_ref_line:
  assumes "wf_v2_ref r"
  shows "parseLSRefsLine (v2_ref_line r) = Inr r"
proof -
  from assms have "Fields (v2_ref_line r) = v2_ref_tokens r"
    unfolding v2_ref_line_def by (intro Fields_join) (simp add: wf_v2_ref_def)
  with assms show ?thesis
    by (cases r) (auto simp: parseLSRefsLine_def v2_ref_tokens_def wf_v2_ref_def empty_RawRef_def
        unborn_attr_def ref_attr_def)
qed

lemma v2_ref_line_not_ERR:
  assumes "wf_v2_ref r"
  shows "CheckERRPacket (v2_ref_line r) = None"
proof -
  obtain s where s: "v2_ref_line r = (if ref_Unborn r then ''unborn'' else ref_OID r) @ CHR '' '' # s"
    by (simp add: v2_ref_line_def v2_ref_tokens_def)
  have "\<not> HasPrefix (oid @ CHR '' '' # s) ''ERR ''"
    if "CHR '' '' \<notin> set oid" "\<not> HasPrefix (oid @ '' '') ''ERR ''" for oid
  proof
    assume "HasPrefix (oid @ CHR '' '' # s) ''ERR ''"
    then obtain q where q: "oid @ CHR '' '' # s = ''ERR'' @ CHR '' '' # q" by (auto simp: HasPrefix_conv)
    have "CHR '' '' \<notin> set ''ERR''" by simp
    with q that(1) have "oid = ''ERR''" using Cut_found by (metis prod.inject)
    with that(2) show False by simp
  qed
  moreover have "CHR '' '' \<notin> set t" if "no_space t" for t
    using that
  proof (induction t)
    case (Cons c cs)
    then show ?case by (auto simp: space_len_def is_ascii_space_def)
  qed simp
  ultimately show ?thesis
    using assms s by (auto simp: CheckERRPacket_None wf_v2_ref_def v2_ref_tokens_def)
qed

lemma ls_refs_items_refs:
  "list_all wf_v2_ref refs \<Longrightarrow>
   ls_refs_items e (map (\<lambda>r. line_packet (v2_ref_line r)) refs @ flush_packet # ps) =
     map (\<lambda>r. (r, None)) refs"
  by (induction refs) (auto simp: parse_v2_ref_line v2_ref_line_not_ERR)

text \<open>The packets of an object-info response for ids with their sizes (\<open>None\<close>: not in the store).\<close>

definition object_info_line :: "bool \<Rightarrow> string \<times> int option \<Rightarrow> string" where
  "object_info_line want_size row = (case row of (oid, sz) \<Rightarrow>
     oid @ (if want_size then '' '' @ (case sz of None \<Rightarrow> [] | Some n \<Rightarrow> itoa n) else []))"

definition object_info_response :: "bool \<Rightarrow> (string \<times> int option) list \<Rightarrow> Packet list" where
  "object_info_response want_size rows =
     (if rows = [] then []
      else (if want_size then [line_packet ''size''] else []) @
        map (\<lambda>row. line_packet (object_info_line want_size row)) rows) @ [flush_packet]"

definition object_info_rows :: "bool \<Rightarrow> (string \<times> int option) list \<Rightarrow> RawObjectInfo list" where
  "object_info_rows want_size rows = concat (map (\<lambda>(oid, sz).
     if want_size then (case sz of None \<Rightarrow> [] | Some n \<Rightarrow> [\<lparr>oi_OID = oid, oi_Size = n\<rparr>])
     else [\<lparr>oi_OID = oid, oi_Size = 0\<rparr>]) rows)"

definition wf_object_row :: "string \<times> int option \<Rightarrow> bool" where
  "wf_object_row row = (case row of (oid, sz) \<Rightarrow>
     (length oid = 40 \<or> length oid = 64) \<and> list_all is_lower_hex oid \<and>
     (case sz of None \<Rightarrow> True | Some n \<Rightarrow> - (2 ^ 63) \<le> n \<and> n < 2 ^ 63))"

lemma is_lower_hex_facts:
  assumes "list_all is_lower_hex oid" "oid \<noteq> []"
  shows "CHR '' '' \<notin> set oid" "\<not> HasPrefix (oid @ s) ''ERR ''"
proof -
  have *: "is_lower_hex c \<Longrightarrow> c \<noteq> CHR '' '' \<and> c \<noteq> CHR ''E''" for c
    by (auto simp: is_lower_hex_def less_eq_char_def)
  with assms show "CHR '' '' \<notin> set oid" by (auto simp: list_all_iff)
  from * assms show "\<not> HasPrefix (oid @ s) ''ERR ''" by (cases oid) auto
qed

lemma object_info_row_line:
  assumes "wf_object_row row"
  shows "object_info_row want_size infos (object_info_line want_size row) =
    Inr (infos @ object_info_rows want_size [row])"
proof -
  obtain oid sz where row: "row = (oid, sz)" by (cases row)
  with assms have oid: "oid \<noteq> []" "list_all is_lower_hex oid" by (auto simp: wf_object_row_def)
  note f = is_lower_hex_facts [OF oid(2,1)]
  from f(2) have "CheckERRPacket (object_info_line want_size row) = None"
    by (simp add: CheckERRPacket_None object_info_line_def row)
  moreover have "parseObjectInfoLine oid False = Inr (\<lparr>oi_OID = oid, oi_Size = 0\<rparr>, False)"
    using f(1) oid(1) by (simp add: parseObjectInfoLine_def Cut_not_found)
  moreover have "parseObjectInfoLine (oid @ '' '') True = Inr (\<lparr>oi_OID = [], oi_Size = 0\<rparr>, True)"
    using f(1) oid(1) Cut_found [of "CHR '' ''" oid "[]"] by (simp add: parseObjectInfoLine_def)
  moreover have "parseObjectInfoLine (oid @ '' '' @ itoa n) True = Inr (\<lparr>oi_OID = oid, oi_Size = n\<rparr>, False)"
    if "sz = Some n" for n
    using f(1) oid(1) Cut_found [of "CHR '' ''" oid "itoa n"] that assms row ParseInt_itoa [of n]
    by (simp add: parseObjectInfoLine_def wf_object_row_def)
  ultimately show ?thesis
    by (auto simp: object_info_row_def object_info_line_def object_info_rows_def row split: option.splits)
qed

lemma object_info_loop_rows:
  assumes "pending r = (map (\<lambda>row. line_packet (object_info_line want_size row)) rows @ flush_packet # ps, e)"
    and "list_all wf_object_row rows"
  shows "\<exists>r'. DecodeObjectInfo_loop want_size r infos = (Inr (infos @ object_info_rows want_size rows), r') \<and>
    pending r' = (ps, e)"
  using assms
proof (induction rows arbitrary: r infos)
  case Nil
  then obtain r' where "ReadPacket r = (Inr flush_packet, r')" "pending r' = (ps, e)"
    by (auto elim: reader.next_packet)
  then show ?case by (subst DecodeObjectInfo_loop.simps) (simp add: object_info_rows_def)
next
  case (Cons row rows)
  then obtain r1 where r1: "ReadPacket r = (Inr (line_packet (object_info_line want_size row)), r1)"
    "pending r1 = (map (\<lambda>row. line_packet (object_info_line want_size row)) rows @ flush_packet # ps, e)"
    by (auto elim: reader.next_packet)
  have "wf_object_row row" using Cons.prems(2) by simp
  from object_info_row_line [OF this] have "DecodeObjectInfo_loop want_size r infos =
      DecodeObjectInfo_loop want_size r1 (infos @ object_info_rows want_size [row])"
    by (subst DecodeObjectInfo_loop.simps) (simp add: r1(1))
  with Cons.IH [OF r1(2), of "infos @ object_info_rows want_size [row]"] Cons.prems(2)
  show ?case by (simp add: object_info_rows_def)
qed

lemma decode_object_info_response:
  assumes "list_all wf_object_row rows" "pending r = (object_info_response want_size rows @ ps, e)"
  shows "\<exists>r'. DecodeObjectInfo r = (Inr (object_info_rows want_size rows), r') \<and> pending r' = (ps, e)"
proof (cases rows)
  case Nil
  with assms(2) have "pending r = (flush_packet # ps, e)" by (simp add: object_info_response_def)
  then obtain r' where "ReadPacket r = (Inr flush_packet, r')" "pending r' = (ps, e)" by (rule reader.next_packet)
  with Nil show ?thesis by (simp add: DecodeObjectInfo_def object_info_rows_def)
next
  case (Cons row rs)
  show ?thesis
  proof (cases want_size)
    case True
    with assms(2) Cons have "pending r = (line_packet ''size'' #
        map (\<lambda>row. line_packet (object_info_line want_size row)) rows @ flush_packet # ps, e)"
      by (simp add: object_info_response_def)
    then obtain r' where r': "ReadPacket r = (Inr (line_packet ''size''), r')"
      "pending r' = (map (\<lambda>row. line_packet (object_info_line want_size row)) rows @ flush_packet # ps, e)"
      by (rule reader.next_packet)
    have "TrimSuffix (''size'' @ [CHR 0x0A]) [CHR 0x0A] = ''size''" by (rule TrimSuffix_append)
    moreover have "Fields ''size'' = [''size'']"
      by (rule Fields_simps) (simp_all add: space_len_def is_ascii_space_def is_space3_def)
    moreover have "\<not> looksLikeObjectInfoOIDLine ''size''"
      by (simp add: looksLikeObjectInfoOIDLine_def Cut_not_found)
    ultimately have "DecodeObjectInfo r = DecodeObjectInfo_loop True r' []"
      using r'(1) by (simp add: DecodeObjectInfo_def CheckERRPacket_def)
    with object_info_loop_rows [OF r'(2) assms(1), of "[]"] True show ?thesis by simp
  next
    case False
    obtain oid sz where row: "row = (oid, sz)" by (cases row)
    with assms(1) Cons have oid: "oid \<noteq> []" "list_all is_lower_hex oid" "length oid = 40 \<or> length oid = 64"
      by (auto simp: wf_object_row_def)
    note f = is_lower_hex_facts [OF oid(2,1)]
    from assms(2) Cons False have "pending r = (line_packet oid #
        map (\<lambda>row. line_packet (object_info_line want_size row)) rs @ flush_packet # ps, e)"
      by (simp add: object_info_response_def object_info_line_def row)
    then obtain r' where r': "ReadPacket r = (Inr (line_packet oid), r')"
      "pending r' = (map (\<lambda>row. line_packet (object_info_line want_size row)) rs @ flush_packet # ps, e)"
      by (rule reader.next_packet)
    have "looksLikeObjectInfoOIDLine oid"
      using oid f(1) by (auto simp: looksLikeObjectInfoOIDLine_def Cut_not_found)
    moreover have "CheckERRPacket oid = None" using f(2) [of "[]"] by (simp add: CheckERRPacket_None)
    moreover have "parseObjectInfoLine oid False = Inr (\<lparr>oi_OID = oid, oi_Size = 0\<rparr>, False)"
      using f(1) oid(1) by (simp add: parseObjectInfoLine_def Cut_not_found)
    ultimately have "DecodeObjectInfo r = DecodeObjectInfo_loop False r' [\<lparr>oi_OID = oid, oi_Size = 0\<rparr>]"
      using r'(1) by (simp add: DecodeObjectInfo_def)
    moreover from assms(1) Cons have "list_all wf_object_row rs" by simp
    ultimately show ?thesis
      using object_info_loop_rows [OF r'(2), of "[\<lparr>oi_OID = oid, oi_Size = 0\<rparr>]"] False Cons row
      by (simp add: object_info_rows_def)
  qed
qed

section \<open>Properties\<close>


text \<open>A listing of well-formed refs decodes to exactly these refs, in order, each with its symref
  target, peeled id and unborn mark, and no error.\<close>

theorem DecodeLSRefs_round_trip:
  assumes "list_all wf_v2_ref refs"
    and "pending r = (map (\<lambda>r. line_packet (v2_ref_line r)) refs @ flush_packet # ps, e)"
  shows "fst (DecodeLSRefs collect r []) = map (\<lambda>r. (r, None)) refs"
  using assms by (simp add: DecodeLSRefs_items ls_refs_items_refs)

theorem DecodeLSRefs_round_trip_witness:
  "fst (DecodeLSRefs collect (NewReader (source_of (stream
      [line_packet ''unborn HEAD symref-target:refs/heads/x'', line_packet ''1a t peeled:2b'', flush_packet]))) []) =
    [(\<lparr>ref_OID = [], ref_Name = ''HEAD'', ref_Peeled = [], ref_Symref = ''refs/heads/x'', ref_Unborn = True\<rparr>, None),
     (\<lparr>ref_OID = ''1a'', ref_Name = ''t'', ref_Peeled = ''2b'', ref_Symref = [], ref_Unborn = False\<rparr>, None)]"
proof -
  let ?h = "\<lparr>ref_OID = [], ref_Name = ''HEAD'', ref_Peeled = [], ref_Symref = ''refs/heads/x'', ref_Unborn = True\<rparr>"
  let ?t = "\<lparr>ref_OID = ''1a'', ref_Name = ''t'', ref_Peeled = ''2b'', ref_Symref = [], ref_Unborn = False\<rparr>"
  have "list_all (\<lambda>t. t \<noteq> [] \<and> no_space t) (v2_ref_tokens ?h @ v2_ref_tokens ?t)"
    by (simp add: v2_ref_tokens_def space_len_def is_ascii_space_def is_space3_def)
  then have wf: "list_all wf_v2_ref [?h, ?t]" by (simp add: wf_v2_ref_def)
  have "pending (NewReader (source_of (stream
      [line_packet ''unborn HEAD symref-target:refs/heads/x'', line_packet ''1a t peeled:2b'', flush_packet]))) =
    (map (\<lambda>r. line_packet (v2_ref_line r)) [?h, ?t] @ flush_packet # [], io_EOF)"
    by (subst pending_NewReader) (simp_all add: MaxPayload_def v2_ref_line_def v2_ref_tokens_def)
  from DecodeLSRefs_round_trip [OF wf this] show ?thesis by (simp del: stream_simps)
qed

text \<open>An object-info response decodes to the sizes it carries: with the \<open>size\<close> attribute the found
  objects with their sizes and nothing for a missing one, without it one row of size zero per id, and
  an empty list for the bare flush; the shape is recognised from the first packet.\<close>

theorem DecodeObjectInfo_round_trip:
  assumes "list_all wf_object_row rows" "pending r = (object_info_response want_size rows @ ps, e)"
  shows "fst (DecodeObjectInfo r) = Inr (object_info_rows want_size rows)"
  using decode_object_info_response [OF assms] by auto

theorem DecodeObjectInfo_round_trip_witness:
  "fst (DecodeObjectInfo (NewReader (source_of (stream [line_packet ''size'',
      line_packet (replicate 40 (CHR ''a'') @ '' 12''), line_packet (replicate 40 (CHR ''b'') @ '' ''), flush_packet])))) =
    Inr [\<lparr>oi_OID = replicate 40 (CHR ''a''), oi_Size = 12\<rparr>]"
proof -
  let ?rows = "[(replicate 40 (CHR ''a''), Some 12), (replicate 40 (CHR ''b''), None)]"
  have wf: "list_all wf_object_row ?rows"
    by (simp add: wf_object_row_def is_lower_hex_def less_eq_char_def list_all_iff)
  have twelve: "itoa 12 = ''12''"
    by (simp add: itoa_def itoa_nat.simps digit_char_def char_of_eq_iff)
  have "pending (NewReader (source_of (stream (object_info_response True ?rows)))) =
      (object_info_response True ?rows @ [], io_EOF)"
    by (subst pending_NewReader)
      (simp_all add: object_info_response_def object_info_line_def twelve MaxPayload_def)
  from DecodeObjectInfo_round_trip [OF wf this]
  show ?thesis by (simp add: object_info_response_def object_info_line_def object_info_rows_def twelve del: stream_simps)
qed

text \<open>
  The fields of a line are cut at every Unicode white space character, while the protocol separates
  them by spaces: a ref name with a no-break space (bytes C2 A0, which ref names may contain) is cut
  short, and the rest of it is ignored as an unknown attribute.
\<close>

lemma parseLSRefsLine_no_break_space:
  "parseLSRefsLine (''1a refs/heads/a'' @ [CHR 0xC2, CHR 0xA0] @ ''b'') =
    Inr (empty_RawRef\<lparr>ref_OID := ''1a'', ref_Name := ''refs/heads/a''\<rparr>)"
  by (simp add: parseLSRefsLine_def Fields_def space_len_def is_ascii_space_def is_space3_def ref_attr_def)

end
