(* ===== verification/Objfmt_Hash.thy ===== *)
theory Objfmt_Hash
  imports Pktline
begin

text \<open>
  Object ids (\<open>src/internal/objfmt/hash.go\<close>, \<open>algo.go\<close>) and the object types (\<open>objtype.go\<close>).

  The code's two array types and its type parameter \<open>H\<close> become one type of byte strings and an
  \<open>Algo\<close> argument; \<open>wf_hash a h\<close> says that \<open>h\<close> has the length the type fixes. \<open>Hex\<close> and \<open>AppendHex\<close>
  are \<open>hex.EncodeToString\<close>, \<open>ParseHexAs\<close> is \<open>hex.Decode\<close> behind a length check.

  The lemmas: printing and parsing are inverse, and parsing accepts both cases of the digits.
\<close>

section \<open>Algorithms and object types\<close>

datatype Algo = SHA1 | SHA256

primrec Algo_Size :: "Algo \<Rightarrow> nat" where
  "Algo_Size SHA1 = 20"
| "Algo_Size SHA256 = 32"

primrec Algo_String :: "Algo \<Rightarrow> string" where
  "Algo_String SHA1 = ''sha1''"
| "Algo_String SHA256 = ''sha256''"

type_synonym ObjectType = nat

definition TypeCommit :: ObjectType where "TypeCommit = 1"

definition TypeTree :: ObjectType where "TypeTree = 2"

definition TypeBlob :: ObjectType where "TypeBlob = 3"

definition TypeTag :: ObjectType where "TypeTag = 4"

definition TypeOfsDelta :: ObjectType where "TypeOfsDelta = 6"

definition TypeRefDelta :: ObjectType where "TypeRefDelta = 7"

lemmas ObjectType_defs = TypeCommit_def TypeTree_def TypeBlob_def TypeTag_def TypeOfsDelta_def TypeRefDelta_def

definition ObjectType_String :: "ObjectType \<Rightarrow> string" where
  "ObjectType_String t =
     (if t = TypeCommit then ''commit'' else if t = TypeTree then ''tree''
      else if t = TypeBlob then ''blob'' else if t = TypeTag then ''tag'' else [])"

definition IsDelta :: "ObjectType \<Rightarrow> bool" where
  "IsDelta t \<longleftrightarrow> t = TypeOfsDelta \<or> t = TypeRefDelta"

section \<open>Hashes\<close>

type_synonym Hash = string

definition wf_hash :: "Algo \<Rightarrow> Hash \<Rightarrow> bool" where
  "wf_hash a h \<longleftrightarrow> length h = Algo_Size a"

definition zero_hash :: "Algo \<Rightarrow> Hash" where
  "zero_hash a = replicate (Algo_Size a) (CHR 0x00)"

definition Hex :: "Hash \<Rightarrow> string" where
  "Hex h = concat (map (\<lambda>c. [hex_digits ! (byte_val c div 16), hex_digits ! (byte_val c mod 16)]) h)"

definition AppendHex :: "Hash \<Rightarrow> string \<Rightarrow> string" where
  "AppendHex h dst = dst @ Hex h"

definition IsZero :: "Hash \<Rightarrow> bool" where
  "IsZero h \<longleftrightarrow> list_all (\<lambda>c. c = CHR 0x00) h"

text \<open>\<open>hex.Decode\<close> on an even number of characters.\<close>

fun hex_Decode :: "string \<Rightarrow> go_error + string" where
  "hex_Decode (a # b # s) = (case (hexval a, hexval b) of
      (Some x, Some y) \<Rightarrow> (case hex_Decode s of
          Inl e \<Rightarrow> Inl e
        | Inr h \<Rightarrow> Inr (char_of (x * 16 + y) # h))
    | _ \<Rightarrow> Inl (New ''encoding/hex: invalid byte''))"
| "hex_Decode [a] = Inl (New ''encoding/hex: odd length hex string'')"
| "hex_Decode [] = Inr []"

definition ParseHexAs :: "Algo \<Rightarrow> string \<Rightarrow> go_error + Hash" where
  "ParseHexAs a s =
     (if length s \<noteq> 2 * Algo_Size a then
        Inl (New (''objfmt: '' @ Algo_String a @ '' hex '' @ quote s @ '' has length '' @
          itoa_nat (length s) @ '', want '' @ itoa_nat (2 * Algo_Size a)))
      else case hex_Decode s of
          Inl e \<Rightarrow> Inl (Wrapf (''objfmt: invalid '' @ Algo_String a @ '' hex: '') e [])
        | Inr h \<Rightarrow> Inr h)"

section \<open>Lemmas\<close>

lemma wf_zero_hash [simp]: "wf_hash a (zero_hash a)"
  by (simp add: wf_hash_def zero_hash_def)

lemma IsZero_wf: "wf_hash a h \<Longrightarrow> IsZero h \<longleftrightarrow> h = zero_hash a"
  by (auto simp: IsZero_def wf_hash_def zero_hash_def list_all_iff intro: replicate_eqI)

lemma Hex_simps [simp]: "Hex [] = []"
  "Hex (c # h) = hex_digits ! (byte_val c div 16) # hex_digits ! (byte_val c mod 16) # Hex h"
  by (simp_all add: Hex_def)

lemma length_Hex [simp]: "length (Hex h) = 2 * length h"
  by (induction h) simp_all

lemma Hex_Nil [simp]: "Hex h = [] \<longleftrightarrow> h = []"
  by (cases h) simp_all

lemma IsZero_Nil [simp]: "IsZero []"
  by (simp add: IsZero_def)

lemma byte_split: "byte_val c div 16 < 16" "byte_val c mod 16 < 16"
  using less_mult_imp_div_less [of "byte_val c" 16 16] byte_val_less [of c] by simp_all

lemma hex_Decode_Hex [simp]: "hex_Decode (Hex h) = Inr h"
  by (induction h) (simp_all add: hexval_hex_digits byte_split)

lemma hexval_ascii_lower_cong: "hexval a = Some x \<Longrightarrow> ascii_lower a = hex_digits ! x \<and> x < 16"
  by (simp add: hexval_lower)

lemma byte_of_nibbles: "x < 16 \<Longrightarrow> y < 16 \<Longrightarrow> byte_val (char_of (x * 16 + y) :: char) = x * 16 + y"
  by simp

lemma hex_Decode_Inr: "hex_Decode s = Inr h \<Longrightarrow> map ascii_lower s = Hex h \<and> length s = 2 * length h"
proof (induction s arbitrary: h rule: hex_Decode.induct)
  case (1 a b s)
  then obtain x y h' where xy: "hexval a = Some x" "hexval b = Some y" "hex_Decode s = Inr h'"
    "h = char_of (x * 16 + y) # h'"
    by (auto split: option.splits sum.splits)
  have "map ascii_lower s = Hex h' \<and> length s = 2 * length h'" using 1(1) xy(1-3) by simp
  with xy hexval_ascii_lower_cong [OF xy(1)] hexval_ascii_lower_cong [OF xy(2)] show ?case
    by (simp add: byte_of_nibbles)
qed simp_all

lemma hex_Decode_lower: "hex_Decode (map ascii_lower s) = hex_Decode s"
  by (induction s rule: hex_Decode.induct) (auto split: option.splits sum.splits)

lemma hex_Decode_iff: "hex_Decode s = Inr h \<longleftrightarrow> map ascii_lower s = Hex h"
  using hex_Decode_Inr hex_Decode_lower hex_Decode_Hex by metis

lemma ParseHexAs_Inr: "ParseHexAs a s = Inr h \<longleftrightarrow> wf_hash a h \<and> map ascii_lower s = Hex h"
proof -
  have "map ascii_lower s = Hex h \<Longrightarrow> length s = 2 * length h" by (metis length_Hex length_map)
  then show ?thesis
    by (auto simp: ParseHexAs_def wf_hash_def hex_Decode_iff [symmetric] split: sum.splits)
qed

lemma hex_digits_lower [simp]: "n < 16 \<Longrightarrow> ascii_lower (hex_digits ! n) = hex_digits ! n"
  using hexval_hex_digits hexval_lower by blast

lemma Hex_lower [simp]: "map ascii_lower (Hex h) = Hex h"
  by (induction h) (simp_all add: byte_split)

lemma ParseHexAs_Hex [simp]: "wf_hash a h \<Longrightarrow> ParseHexAs a (Hex h) = Inr h"
  by (simp add: ParseHexAs_Inr)

lemma Hex_inj: "Hex h = Hex h' \<longleftrightarrow> h = h'"
  by (metis hex_Decode_Hex sum.inject(2))

lemma Hex_chars: "c \<in> set (Hex h) \<Longrightarrow> c \<in> set hex_digits"
proof (induction h)
  case (Cons d h)
  have "hex_digits ! n \<in> set hex_digits" if "n < 16" for n
    using that by (intro nth_mem) (simp add: hex_digits_def)
  with Cons byte_split [of d] show ?case by auto
qed simp

section \<open>Properties\<close>

text \<open>Parsing accepts exactly the strings of the algorithm's length whose digits, in either case,
  are the printed form of a hash, and yields that hash; so parsing inverts printing.\<close>

theorem ParseHexAs_inverts_Hex:
  "(ParseHexAs a s = Inr h) = (wf_hash a h \<and> map ascii_lower s = Hex h)"
  by (rule ParseHexAs_Inr)

end
