(* ===== verification/Server_Advertise.thy ===== *)
theory Server_Advertise
  imports Wire_Requests Wire_Responses Objfmt_Hash
begin

text \<open>
  The in-process server's advertisements (\<open>src/internal/server/advertise.go\<close>) and the view of the
  object store it works on (\<open>src/internal/objstore/ref_backend.go\<close>: \<open>Head\<close>, \<open>RefEntry\<close>).

  \<^item> \<open>Store\<close> is what the server asks of a \<open>*objstore.Store\<close>: its algorithm, the resolved HEAD, the refs
    in the backend's order (an error ends the iteration), and the answers to \<open>Peel\<close> and
    \<open>ObjectInfo\<close>.
  \<^item> \<open>slices.SortFunc\<close> by name is \<open>sort_key\<close>: Go compares strings byte by byte, as the order on
    \<^typ>\<open>string\<close> used here does. Go's sort is not stable, so the two agree where names are distinct.

  The lemmas give the packets of each advertisement; the properties pass them through the client's
  decoder and find the store's refs, peeled ids and symbolic HEAD again.
\<close>

section \<open>The store as the server sees it\<close>

record Head =
  hd_Symref :: string
  hd_OID :: Hash
  hd_Unborn :: bool

record RefEntry =
  re_Name :: string
  re_OID :: Hash
  re_Peeled :: Hash
  re_PeelKnown :: bool

record Info =
  info_Type :: ObjectType
  info_Size :: int

record Store =
  st_Algo :: Algo
  st_Head :: "go_error + Head"
  st_IterRefs :: "(go_error + RefEntry) list"
  st_Peel :: "Hash \<Rightarrow> go_error + (Hash \<times> bool)"
  st_ObjectInfo :: "Hash \<Rightarrow> go_error + Info"

record Options =
  opt_Agent :: string
  opt_PreferredProtocol :: ProtocolVersion

section \<open>Version 2\<close>

definition v2_capabilities :: "Store \<Rightarrow> Options \<Rightarrow> string list" where
  "v2_capabilities store opts =
     (let agent = (if opt_Agent opts = [] then DefaultUserAgent else opt_Agent opts)
      in [''agent='' @ agent, ''ls-refs=unborn'', ''object-format='' @ Algo_String (st_Algo store), ''object-info''])"

definition writeV2Advertisement :: "Writer \<Rightarrow> Store \<Rightarrow> Options \<Rightarrow> go_error option \<times> Writer" where
  "writeV2Advertisement w store opts =
     after (wrap_err ''server: write v2 version line: '' (WritePacket w (''version 2'' @ [CHR 0x0A]))) (\<lambda>w.
     after (for_each (\<lambda>c w. wrap_err (''server: write v2 capability '' @ quote c @ '': '')
         (WritePacket w (c @ [CHR 0x0A]))) (v2_capabilities store opts) w) (\<lambda>w.
     wrap_err ''server: write v2 advertisement flush: '' (WriteFlush w)))"

section \<open>Version 0\<close>

definition buildV0Caps :: "Head \<Rightarrow> Algo \<Rightarrow> Options \<Rightarrow> string" where
  "buildV0Caps head algo opts =
     (if hd_Symref head \<noteq> [] then ''symref=HEAD:'' @ hd_Symref head @ '' '' else []) @
     ''object-format='' @ Algo_String algo @ '' '' @ ''agent='' @
     (if opt_Agent opts \<noteq> [] then opt_Agent opts else DefaultUserAgent)"

fun collect_refs :: "string \<Rightarrow> (RefEntry \<Rightarrow> bool) \<Rightarrow> (go_error + RefEntry) list \<Rightarrow> RefEntry list \<Rightarrow> go_error + RefEntry list" where
  "collect_refs msg keep [] refs = Inr refs"
| "collect_refs msg keep (Inl e # xs) refs = Inl (Wrapf msg e [])"
| "collect_refs msg keep (Inr entry # xs) refs =
     (if \<not> keep entry then collect_refs msg keep xs refs else collect_refs msg keep xs (refs @ [entry]))"

definition collectV0Refs :: "Store \<Rightarrow> go_error + RefEntry list" where
  "collectV0Refs store =
     (case collect_refs ''server: iterate refs: '' (\<lambda>_. True) (st_IterRefs store) [] of
        Inl e \<Rightarrow> Inl e | Inr refs \<Rightarrow> Inr (sort_key re_Name refs))"

definition refPeel :: "Store \<Rightarrow> RefEntry \<Rightarrow> go_error + (Hash \<times> bool)" where
  "refPeel store ref =
     (if re_PeelKnown ref then Inr (re_Peeled ref, \<not> IsZero (re_Peeled ref)) else st_Peel store (re_OID ref))"

text \<open>The loop over the refs; the flag is \<open>capsEmitted\<close>.\<close>

fun write_v0_refs :: "Store \<Rightarrow> string \<Rightarrow> bool \<Rightarrow> RefEntry list \<Rightarrow> Writer \<Rightarrow> go_error option \<times> Writer" where
  "write_v0_refs store caps capsEmitted [] w = (None, w)"
| "write_v0_refs store caps capsEmitted (ref # refs) w =
     after (wrap_err (''server: write v0 ref '' @ quote (re_Name ref) @ '': '')
         (WritePacket w (AppendHex (re_OID ref) [] @ '' '' @ re_Name ref @
            (if \<not> capsEmitted then [CHR 0x00] @ caps else []) @ [CHR 0x0A]))) (\<lambda>w.
     case refPeel store ref of
       Inl e \<Rightarrow> (Some (Wrapf (''server: peel ref '' @ quote (re_Name ref) @ '': '') e []), w)
     | Inr (peeled, ok) \<Rightarrow>
         after (if ok \<and> \<not> IsZero peeled then
             wrap_err (''server: write v0 peel for '' @ quote (re_Name ref) @ '': '')
               (WritePacket w (AppendHex peeled [] @ '' '' @ re_Name ref @ ''^{}'' @ [CHR 0x0A]))
           else (None, w))
         (write_v0_refs store caps True refs))"

definition writeV0Advertisement :: "Writer \<Rightarrow> Store \<Rightarrow> Options \<Rightarrow> go_error option \<times> Writer" where
  "writeV0Advertisement w store opts = (case st_Head store of
      Inl e \<Rightarrow> (Some (Wrapf ''server: resolve HEAD: '' e []), w)
    | Inr head \<Rightarrow>
        let caps = buildV0Caps head (st_Algo store) opts in
        (case collectV0Refs store of
           Inl e \<Rightarrow> (Some e, w)
         | Inr refs \<Rightarrow>
             let headValid = (\<not> hd_Unborn head \<and> (hd_Symref head \<noteq> [] \<or> \<not> IsZero (hd_OID head))) in
             if \<not> headValid \<and> refs = [] then
               after (wrap_err ''server: write v0 capabilities placeholder: ''
                   (WritePacket w (Hex (zero_hash (st_Algo store)) @ '' capabilities^{}'' @ [CHR 0x00] @ caps @ [CHR 0x0A]))) (\<lambda>w.
               wrap_err ''server: write v0 advertisement flush: '' (WriteFlush w))
             else
               after (if headValid then
                   wrap_err ''server: write v0 HEAD ref: ''
                     (WritePacket w (AppendHex (hd_OID head) [] @ '' HEAD'' @ [CHR 0x00] @ caps @ [CHR 0x0A]))
                 else (None, w)) (\<lambda>w.
               after (write_v0_refs store caps headValid refs w) (\<lambda>w.
               wrap_err ''server: write v0 advertisement flush: '' (WriteFlush w)))))"

section \<open>What is advertised\<close>

text \<open>The capabilities and refs of a store, as the client names them.\<close>

definition v2_caps :: "Store \<Rightarrow> Options \<Rightarrow> RawCapabilities" where
  "v2_caps store opts =
     [\<lparr>cap_Name = ''agent'', cap_Value = (if opt_Agent opts = [] then DefaultUserAgent else opt_Agent opts)\<rparr>,
      \<lparr>cap_Name = ''ls-refs'', cap_Value = ''unborn''\<rparr>,
      \<lparr>cap_Name = ''object-format'', cap_Value = Algo_String (st_Algo store)\<rparr>,
      \<lparr>cap_Name = ''object-info'', cap_Value = []\<rparr>]"

definition v0_caps :: "Head \<Rightarrow> Store \<Rightarrow> Options \<Rightarrow> RawCapabilities" where
  "v0_caps head store opts =
     (if hd_Symref head = [] then [] else [\<lparr>cap_Name = ''symref'', cap_Value = ''HEAD:'' @ hd_Symref head\<rparr>]) @
     [\<lparr>cap_Name = ''object-format'', cap_Value = Algo_String (st_Algo store)\<rparr>,
      \<lparr>cap_Name = ''agent'', cap_Value = (if opt_Agent opts \<noteq> [] then opt_Agent opts else DefaultUserAgent)\<rparr>]"

text \<open>The peeled id the server answers for a ref, empty where there is none.\<close>

definition peel_text :: "Store \<Rightarrow> RefEntry \<Rightarrow> string" where
  "peel_text store ref = (case refPeel store ref of
      Inl _ \<Rightarrow> [] | Inr (peeled, ok) \<Rightarrow> if ok \<and> \<not> IsZero peeled then Hex peeled else [])"

definition raw_ref :: "Store \<Rightarrow> RefEntry \<Rightarrow> RawRef" where
  "raw_ref store ref = \<lparr>ref_OID = Hex (re_OID ref), ref_Name = re_Name ref,
     ref_Peeled = peel_text store ref, ref_Symref = [], ref_Unborn = False\<rparr>"

definition head_valid :: "Head \<Rightarrow> bool" where
  "head_valid head \<longleftrightarrow> \<not> hd_Unborn head \<and> (hd_Symref head \<noteq> [] \<or> \<not> IsZero (hd_OID head))"

definition v0_refs :: "Store \<Rightarrow> Head \<Rightarrow> RefEntry list \<Rightarrow> RawRef list" where
  "v0_refs store head refs =
     (if head_valid head then [empty_RawRef\<lparr>ref_OID := Hex (hd_OID head), ref_Name := ''HEAD''\<rparr>] else []) @
     map (raw_ref store) (sort_key re_Name refs)"

section \<open>Lemmas\<close>

lemma collect_refs_Inr [simp]:
  "collect_refs msg keep (map Inr refs) acc = Inr (acc @ filter keep refs)"
  by (induction refs arbitrary: acc) auto

lemma collect_refs_Inl:
  "collect_refs msg keep (map Inr refs @ Inl e # xs) acc = Inl (Wrapf msg e [])"
  by (induction refs arbitrary: acc) auto

lemma WritePacket_line_send [simp]:
  "unbounded w \<Longrightarrow> fits_line s \<Longrightarrow> WritePacket w (s @ [CHR 0x0A]) = (None, send [line_packet s] w)"
  by (simp add: fits_line_def)

lemma for_each_lines:
  assumes "unbounded w" "list_all fits_line ls"
  shows "for_each (\<lambda>c w. wrap_err (msg c) (WritePacket w (c @ [CHR 0x0A]))) ls w =
    (None, send (map line_packet ls) w)"
  using assms by (induction ls arbitrary: w) auto

lemma show_v2_caps: "map show_capability (v2_caps store opts) = v2_capabilities store opts"
  by (simp add: v2_caps_def v2_capabilities_def show_capability_def Let_def DefaultUserAgent_def
      split: Algo.splits) (cases "st_Algo store"; simp)

lemma writeV2Advertisement_send:
  assumes "unbounded w" "list_all fits_line (v2_capabilities store opts)"
  shows "writeV2Advertisement w store opts = (None, send (line_packet ''version 2'' #
    map (\<lambda>c. line_packet (show_capability c)) (v2_caps store opts) @ [flush_packet]) w)"
proof -
  let ?v = "line_packet ''version 2''" and ?ls = "v2_capabilities store opts"
  have v: "WritePacket w (''version 2'' @ [CHR 0x0A]) = (None, send [?v] w)"
    using assms(1) by (intro WritePacket_line_send) (simp_all add: fits_line_def MaxPayload_def)
  have u: "unbounded (send [?v] w)" using assms(1) by (simp only: send_simps)
  have caps: "map (\<lambda>c. line_packet (show_capability c)) (v2_caps store opts) = map line_packet ?ls"
    unfolding show_v2_caps [symmetric] map_map comp_def ..
  have "writeV2Advertisement w store opts =
      wrap_err ''server: write v2 advertisement flush: '' (WriteFlush (send (map line_packet ?ls) (send [?v] w)))"
    unfolding writeV2Advertisement_def v wrap_err_simps after_simps for_each_lines [OF u assms(2)] ..
  also have "\<dots> = (None, send (?v # map line_packet ?ls @ [flush_packet]) w)"
    using assms(1) by (simp only: send_simps WriteFlush_send wrap_err_simps append.simps append_assoc)
  finally show ?thesis unfolding caps .
qed

lemma caps_text_v0: "caps_text (v0_caps head store opts) = buildV0Caps head (st_Algo store) opts"
  by (cases "st_Algo store")
    (simp_all add: caps_text_def v0_caps_def buildV0Caps_def show_capability_def DefaultUserAgent_def)

lemma write_v0_refs_send:
  assumes "unbounded w" "\<forall>ref\<in>set refs. \<exists>x. refPeel store ref = Inr x"
    and "list_all fits_line (concat (map (v0_lines \<circ> raw_ref store) refs))"
  shows "write_v0_refs store caps True refs w =
    (None, send (map line_packet (concat (map (v0_lines \<circ> raw_ref store) refs))) w)"
  using assms
proof (induction refs arbitrary: w)
  case (Cons ref refs)
  then obtain peeled ok where peel: "refPeel store ref = Inr (peeled, ok)" by auto
  have nz: "\<not> IsZero peeled \<Longrightarrow> Hex peeled \<noteq> []" by (cases peeled) (simp_all add: IsZero_def)
  have "WritePacket w ((Hex (re_OID ref) @ '' '' @ re_Name ref) @ [CHR 0x0A]) =
      (None, send [line_packet (Hex (re_OID ref) @ '' '' @ re_Name ref)] w)"
    using Cons.prems by (intro WritePacket_line_send) (auto simp: v0_lines_def raw_ref_def)
  moreover have "ok \<and> \<not> IsZero peeled \<Longrightarrow> unbounded w' \<Longrightarrow>
      WritePacket w' ((Hex peeled @ '' '' @ re_Name ref @ ''^{}'') @ [CHR 0x0A]) =
      (None, send [line_packet (Hex peeled @ '' '' @ re_Name ref @ ''^{}'')] w')" for w'
    using Cons.prems nz peel
    by (intro WritePacket_line_send) (auto simp: v0_lines_def raw_ref_def peel_text_def peeledSuffix_def)
  ultimately show ?case
    using Cons peel nz
    by (auto simp: AppendHex_def v0_lines_def raw_ref_def peel_text_def peeledSuffix_def)
qed simp

lemma write_v0_refs_first_send:
  assumes "unbounded w" "\<forall>ref\<in>set (ref # refs). \<exists>x. refPeel store ref = Inr x"
    and "wf_packet (first_line (Hex (re_OID ref)) (re_Name ref) caps)"
    and "list_all fits_line (tl (v0_lines (raw_ref store ref)) @ concat (map (v0_lines \<circ> raw_ref store) refs))"
  shows "write_v0_refs store (caps_text caps) False (ref # refs) w =
    (None, send (first_line (Hex (re_OID ref)) (re_Name ref) caps #
      map line_packet (tl (v0_lines (raw_ref store ref)) @ concat (map (v0_lines \<circ> raw_ref store) refs))) w)"
proof -
  obtain peeled ok where peel: "refPeel store ref = Inr (peeled, ok)" using assms(2) by auto
  have nz: "\<not> IsZero peeled \<Longrightarrow> Hex peeled \<noteq> []" by (cases peeled) (simp_all add: IsZero_def)
  have "WritePacket w (Hex (re_OID ref) @ '' '' @ re_Name ref @ [CHR 0x00] @ caps_text caps @ [CHR 0x0A]) =
      (None, send [first_line (Hex (re_OID ref)) (re_Name ref) caps] w)"
    using assms(1,3) by (simp add: first_line_def)
  moreover have "ok \<and> \<not> IsZero peeled \<Longrightarrow> unbounded w' \<Longrightarrow>
      WritePacket w' ((Hex peeled @ '' '' @ re_Name ref @ ''^{}'') @ [CHR 0x0A]) =
      (None, send [line_packet (Hex peeled @ '' '' @ re_Name ref @ ''^{}'')] w')" for w'
    using assms(4) nz peel
    by (intro WritePacket_line_send) (auto simp: v0_lines_def raw_ref_def peel_text_def peeledSuffix_def)
  ultimately show ?thesis
    using assms peel nz write_v0_refs_send [of _ refs store "caps_text caps"]
    by (auto simp: AppendHex_def v0_lines_def raw_ref_def peel_text_def peeledSuffix_def)
qed

text \<open>
  \<open>advertisable\<close>: the store answers HEAD, the refs and their peels; the ref names could be those of
  a repository (no NUL, no \<open>^{}\<close> ending, not \<open>HEAD\<close>); every capability is one token; every line fits.
\<close>

definition advertisable :: "Store \<Rightarrow> Options \<Rightarrow> Head \<Rightarrow> RefEntry list \<Rightarrow> bool" where
  "advertisable store opts head refs \<longleftrightarrow>
     st_Head store = Inr head \<and> st_IterRefs store = map Inr refs \<and>
     list_all (\<lambda>r. \<not> isl (refPeel store r)) refs \<and>
     list_all (\<lambda>r. CHR 0x00 \<notin> set (re_Name r) \<and> \<not> HasSuffix (re_Name r) peeledSuffix \<and> re_Name r \<noteq> ''HEAD'') refs \<and>
     list_all wf_capability (v0_caps head store opts) \<and>
     list_all wf_packet (v0_listing (Hex (zero_hash (st_Algo store))) (v0_caps head store opts) (v0_refs store head refs))"

lemma Hex_without: "c \<notin> set hex_digits \<Longrightarrow> c \<in> set s \<Longrightarrow> Hex h \<noteq> s"
  using Hex_chars by blast

lemma Hex_not_words:
  "CHR '' '' \<notin> set (Hex h)" "Hex h \<noteq> ''shallow''" "Hex h \<noteq> ''version''" "Hex h \<noteq> ''unborn''"
proof -
  have "CHR '' '' \<notin> set hex_digits" by (simp add: hex_digits_def)
  then show "CHR '' '' \<notin> set (Hex h)" by (rule contrapos_nn) (rule Hex_chars)
  show "Hex h \<noteq> ''shallow''" "Hex h \<noteq> ''version''"
    by (rule Hex_without [of "CHR ''s''"]; simp add: hex_digits_def)+
  show "Hex h \<noteq> ''unborn''"
    by (rule Hex_without [of "CHR ''n''"]; simp add: hex_digits_def)
qed

lemma peel_text_not_words: "CHR '' '' \<notin> set (peel_text store r)" "peel_text store r \<noteq> ''shallow''"
  using Hex_not_words by (auto simp: peel_text_def split: sum.splits)

lemma Hex_zeros: "Hex (replicate n (CHR 0x00)) = replicate (2 * n) (CHR ''0'')"
proof (induction n)
  case (Suc n)
  have "byte_val (CHR 0x00) = 0" "hex_digits ! 0 = CHR ''0''" by (simp_all add: hex_digits_def)
  with Suc show ?case by (simp only: replicate.simps Hex_simps div_0 mod_0 mult_Suc_right add_2_eq_Suc)
qed simp

lemma isAllZero_zero_hash: "isAllZero (Hex (zero_hash a))"
  by (cases a) (simp_all add: zero_hash_def Hex_zeros isAllZero_def list_all_iff)

lemma wf_v0_refs:
  assumes "advertisable store opts head refs"
  shows "list_all wf_v0_ref (v0_refs store head refs)"
proof -
  have "list_all wf_v0_ref (map (raw_ref store) (sort_key re_Name refs))"
    using assms Hex_not_words peel_text_not_words
    by (auto simp: advertisable_def list_all_iff wf_v0_ref_def raw_ref_def)
  moreover have "wf_v0_ref (empty_RawRef\<lparr>ref_OID := Hex (hd_OID head), ref_Name := ''HEAD''\<rparr>)"
    using Hex_not_words by (simp add: wf_v0_ref_def empty_RawRef_def peeledSuffix_def HasSuffix_def)
  ultimately show ?thesis by (simp add: v0_refs_def)
qed

lemma writeV0Advertisement_send:
  assumes "unbounded w" "advertisable store opts head refs"
  shows "writeV0Advertisement w store opts = (None,
    send (v0_listing (Hex (zero_hash (st_Algo store))) (v0_caps head store opts) (v0_refs store head refs)) w)"
proof -
  let ?caps = "v0_caps head store opts" and ?rs = "sort_key re_Name refs"
  let ?first = "\<lambda>oid name. first_line oid name ?caps"
  let ?lines = "\<lambda>refs. concat (map (v0_lines \<circ> raw_ref store) refs)"
  from assms(2) have st: "st_Head store = Inr head" "collectV0Refs store = Inr ?rs"
    and wf: "list_all wf_packet (v0_listing (Hex (zero_hash (st_Algo store))) ?caps (v0_refs store head refs))"
    by (simp_all add: advertisable_def collectV0Refs_def)
  from assms(2) have "\<forall>ref\<in>set ?rs. \<not> isl (refPeel store ref)" by (simp add: advertisable_def list_all_iff)
  then have peel: "\<forall>ref\<in>set ?rs. \<exists>x. refPeel store ref = Inr x"
    by (metis sum.collapse(2))
  have caps: "buildV0Caps head (st_Algo store) opts = caps_text ?caps" by (simp add: caps_text_v0)
  consider (empty) "\<not> head_valid head" "refs = []" | (head) "head_valid head"
    | (nohead) ref rs where "\<not> head_valid head" "?rs = ref # rs"
  proof (cases "head_valid head")
    case False
    show thesis
    proof (cases ?rs)
      case Nil
      then have "set refs = {}" by (metis set_sort set_empty)
      with False empty show thesis by simp
    next
      case (Cons ref rs)
      with False nohead show thesis by simp
    qed
  qed (rule head)
  then show ?thesis
  proof cases
    case empty
    then have z: "v0_listing (Hex (zero_hash (st_Algo store))) ?caps (v0_refs store head refs) =
        [?first (Hex (zero_hash (st_Algo store))) emptyRepoRefname, flush_packet]"
      by (simp add: v0_listing_def v0_refs_def)
    have "WritePacket w (Hex (zero_hash (st_Algo store)) @ '' capabilities^{}'' @ [CHR 0x00] @ caps_text ?caps @ [CHR 0x0A])
        = (None, send [?first (Hex (zero_hash (st_Algo store))) emptyRepoRefname] w)"
      using assms(1) wf unfolding z by (simp add: first_line_def emptyRepoRefname_def peeledSuffix_def)
    with empty assms(1) st show ?thesis
      unfolding z by (simp add: writeV0Advertisement_def Let_def head_valid_def caps)
  next
    case head
    have z: "v0_listing (Hex (zero_hash (st_Algo store))) ?caps (v0_refs store head refs) =
        ?first (Hex (hd_OID head)) ''HEAD'' # map line_packet (?lines ?rs) @ [flush_packet]"
    proof -
      have "tl (v0_lines (empty_RawRef\<lparr>ref_OID := Hex (hd_OID head), ref_Name := ''HEAD''\<rparr>)) = []"
        by (simp add: v0_lines_def empty_RawRef_def)
      with head show ?thesis by (simp add: v0_listing_def v0_refs_def)
    qed
    have h: "WritePacket w (AppendHex (hd_OID head) [] @ '' HEAD'' @ [CHR 0x00] @ caps_text ?caps @ [CHR 0x0A])
        = (None, send [?first (Hex (hd_OID head)) ''HEAD''] w)"
      using assms(1) wf unfolding z by (simp add: first_line_def AppendHex_def)
    from wf have "list_all fits_line (?lines ?rs)" unfolding z by simp
    with assms(1) peel have "write_v0_refs store (caps_text ?caps) True ?rs (send [?first (Hex (hd_OID head)) ''HEAD''] w)
        = (None, send (map line_packet (?lines ?rs)) (send [?first (Hex (hd_OID head)) ''HEAD''] w))"
      by (intro write_v0_refs_send) simp_all
    with head assms(1) st h show ?thesis
      unfolding z by (simp add: writeV0Advertisement_def Let_def head_valid_def caps)
  next
    case nohead
    have z: "v0_listing (Hex (zero_hash (st_Algo store))) ?caps (v0_refs store head refs) =
        ?first (Hex (re_OID ref)) (re_Name ref) # map line_packet (tl (v0_lines (raw_ref store ref)) @ ?lines rs) @ [flush_packet]"
      using nohead by (simp add: v0_listing_def v0_refs_def raw_ref_def comp_def)
    from wf have "wf_packet (?first (Hex (re_OID ref)) (re_Name ref))"
      "list_all fits_line (tl (v0_lines (raw_ref store ref)) @ ?lines rs)"
      unfolding z by simp_all
    with assms(1) peel nohead have "write_v0_refs store (caps_text ?caps) False ?rs w = (None,
        send (?first (Hex (re_OID ref)) (re_Name ref) # map line_packet (tl (v0_lines (raw_ref store ref)) @ ?lines rs)) w)"
      by (simp only: nohead(2)) (intro write_v0_refs_first_send, simp_all)
    moreover from nohead(2) have "?rs \<noteq> []" by simp
    moreover have hv: "(\<not> hd_Unborn head \<and> (hd_Symref head \<noteq> [] \<or> \<not> IsZero (hd_OID head))) = False"
      using nohead(1) unfolding head_valid_def by blast
    ultimately show ?thesis
      using assms(1) st(2)
      unfolding z writeV0Advertisement_def st(1) sum.case Let_def hv caps
      by (simp del: write_v0_refs.simps)
  qed
qed

text \<open>The symref capability names HEAD, and HEAD is listed first or not at all.\<close>

definition advertised_refs :: "Store \<Rightarrow> Head \<Rightarrow> RefEntry list \<Rightarrow> RawRef list" where
  "advertised_refs store head refs =
     (if head_valid head then
        [\<lparr>ref_OID = Hex (hd_OID head), ref_Name = ''HEAD'', ref_Peeled = [], ref_Symref = hd_Symref head, ref_Unborn = False\<rparr>]
      else []) @ map (raw_ref store) (sort_key re_Name refs)"

lemma set_symref_other: "list_all (\<lambda>r. ref_Name r \<noteq> name) rs \<Longrightarrow> set_symref rs name target = rs"
  by (induction rs) auto

lemma applySymrefs_v0:
  assumes "list_all (\<lambda>r. re_Name r \<noteq> ''HEAD'') refs"
  shows "applySymrefs (v0_refs store head refs) (v0_caps head store opts) = advertised_refs store head refs"
proof -
  have "CHR '':'' \<notin> set ''HEAD''" by simp
  then have cut: "Cut (''HEAD'' @ CHR '':'' # t) (CHR '':'') = (''HEAD'', t, True)" for t by (rule Cut_found)
  have others: "set_symref (map (raw_ref store) (sort_key re_Name refs)) ''HEAD'' t =
      map (raw_ref store) (sort_key re_Name refs)" for t
    using assms by (intro set_symref_other) (auto simp: list_all_iff raw_ref_def)
  have all: "caps_All (v0_caps head store opts) ''symref'' =
      (if hd_Symref head = [] then [] else [''HEAD'' @ CHR '':'' # hd_Symref head])"
    by (simp add: v0_caps_def)
  show ?thesis
    unfolding applySymrefs_def all
    by (simp add: apply_symref_def cut [simplified] v0_refs_def advertised_refs_def empty_RawRef_def others)
qed

lemma v2_caps_unborn: "lsRefsSupportsUnborn (v2_caps store opts)"
proof -
  have "ParseCapabilities ''unborn'' = [\<lparr>cap_Name = ''unborn'', cap_Value = []\<rparr>]"
    using ParseCapabilities_single [of "\<lparr>cap_Name = ''unborn'', cap_Value = []\<rparr>"]
    by (simp add: wf_capability_def show_capability_def isWireSpace_def)
  then show ?thesis by (simp add: lsRefsSupportsUnborn_def v2_caps_def)
qed

lemma wf_v2_caps:
  assumes "list_all (\<lambda>c. \<not> isWireSpace c) (opt_Agent opts)"
  shows "list_all wf_capability (v2_caps store opts)"
  using assms by (cases "st_Algo store")
    (auto simp: v2_caps_def wf_capability_def show_capability_def isWireSpace_def DefaultUserAgent_def)

lemma fits_v2_capabilities:
  assumes "length (opt_Agent opts) \<le> 65000"
  shows "list_all fits_line (v2_capabilities store opts)"
  using assms by (cases "st_Algo store")
    (auto simp: v2_capabilities_def fits_line_def MaxPayload_def DefaultUserAgent_def)

section \<open>Properties\<close>

text \<open>C23: What the server advertises over protocol v2 the client decodes to the agent, \<open>ls-refs=unborn\<close>,
  the store's object format and \<open>object-info\<close>; in particular the client may ask for unborn HEADs.\<close>

theorem v2_advertisement_round_trip:
  assumes "list_all (\<lambda>c. \<not> isWireSpace c) (opt_Agent opts)" "length (opt_Agent opts) \<le> 65000"
  shows "fst (writeV2Advertisement (NewWriter empty_sink) store opts) = None \<and>
    fst (ParseAdvertisement (NewReader (source_of (snk_out (wr_dst (snd
        (writeV2Advertisement (NewWriter empty_sink) store opts)))))) (Some ProtocolV2)) =
      Inr \<lparr>ad_Version = ProtocolV2, ad_Caps = v2_caps store opts, ad_Refs = []\<rparr> \<and>
    lsRefsSupportsUnborn (v2_caps store opts)"
proof -
  let ?ps = "line_packet ''version 2'' # map (\<lambda>c. line_packet (show_capability c)) (v2_caps store opts) @ [flush_packet]"
  note caps = wf_v2_caps [OF assms(1)] and fits = fits_v2_capabilities [OF assms(2)]
  note sent = writeV2Advertisement_send [OF unbounded_NewWriter fits]
  have lines: "map (\<lambda>c. line_packet (show_capability c)) (v2_caps store opts) =
      map line_packet (v2_capabilities store opts)"
    unfolding show_v2_caps [symmetric] map_map comp_def ..
  have "list_all wf_packet ?ps"
    unfolding lines using fits by (simp add: MaxPayload_def)
  then have "pending (NewReader (source_of (stream ?ps))) = (?ps, io_EOF)" by (rule pending_NewReader)
  then obtain r1 where r1: "pending r1 = (map (\<lambda>c. line_packet (show_capability c)) (v2_caps store opts) @ flush_packet # [], io_EOF)"
    "ParseAdvertisement (NewReader (source_of (stream ?ps))) (Some ProtocolV2) =
      (case dispatchAdvertisement (line_packet ''version 2'') r1 of
        (Inl e, r'') \<Rightarrow> (Inl e, r'') | (Inr ad, r'') \<Rightarrow> (accept_version (Some ProtocolV2) ad, r''))"
    by (rule ParseAdvertisement_first)
  obtain r2 where "dispatchAdvertisement (line_packet ''version 2'') r1 =
      (Inr \<lparr>ad_Version = ProtocolV2, ad_Caps = v2_caps store opts, ad_Refs = []\<rparr>, r2)"
    using caps r1(1) by (rule dispatch_v2)
  with r1(2) have "fst (ParseAdvertisement (NewReader (source_of (stream ?ps))) (Some ProtocolV2)) =
      Inr \<lparr>ad_Version = ProtocolV2, ad_Caps = v2_caps store opts, ad_Refs = []\<rparr>"
    by (simp add: accept_version_def del: stream_simps)
  moreover have "lsRefsSupportsUnborn (v2_caps store opts)" by (rule v2_caps_unborn)
  ultimately show ?thesis
    unfolding sent fst_conv snd_conv send_simps NewWriter_out append.simps(1) by blast
qed

theorem v2_advertisement_round_trip_witness:
  "fst (ParseAdvertisement (NewReader (source_of (snk_out (wr_dst (snd (writeV2Advertisement (NewWriter empty_sink)
      \<lparr>st_Algo = SHA256, st_Head = Inl io_EOF, st_IterRefs = [], st_Peel = (\<lambda>_. Inl io_EOF), st_ObjectInfo = (\<lambda>_. Inl io_EOF)\<rparr>
      \<lparr>opt_Agent = ''x/1'', opt_PreferredProtocol = ProtocolV2\<rparr>)))))) (Some ProtocolV2)) =
    Inr \<lparr>ad_Version = ProtocolV2, ad_Caps = [\<lparr>cap_Name = ''agent'', cap_Value = ''x/1''\<rparr>,
      \<lparr>cap_Name = ''ls-refs'', cap_Value = ''unborn''\<rparr>, \<lparr>cap_Name = ''object-format'', cap_Value = ''sha256''\<rparr>,
      \<lparr>cap_Name = ''object-info'', cap_Value = []\<rparr>], ad_Refs = []\<rparr>"
  using v2_advertisement_round_trip [of "\<lparr>opt_Agent = ''x/1'', opt_PreferredProtocol = ProtocolV2\<rparr>"]
  by (simp add: isWireSpace_def v2_caps_def)

text \<open>C7: What the server advertises over protocol v0 the client decodes to the store's state: HEAD with
  its symbolic target if it is valid, then every ref in name order with its id and peeled id, and the
  capabilities; an empty store gives no refs.\<close>

theorem v0_advertisement_round_trip:
  assumes "advertisable store opts head refs"
  shows "fst (writeV0Advertisement (NewWriter empty_sink) store opts) = None \<and>
    fst (ParseAdvertisement (NewReader (source_of (snk_out (wr_dst (snd
        (writeV0Advertisement (NewWriter empty_sink) store opts)))))) None) =
      Inr \<lparr>ad_Version = ProtocolV0, ad_Caps = v0_caps head store opts, ad_Refs = advertised_refs store head refs\<rparr>"
proof -
  let ?ps = "v0_listing (Hex (zero_hash (st_Algo store))) (v0_caps head store opts) (v0_refs store head refs)"
  note sent = writeV0Advertisement_send [OF unbounded_NewWriter assms]
  from assms have "list_all wf_packet ?ps" by (simp add: advertisable_def)
  then have p: "pending (NewReader (source_of (stream ?ps))) = (?ps, io_EOF)" by (rule pending_NewReader)
  then have "pending (NewReader (source_of (stream ?ps))) = (hd ?ps # tl ?ps @ [], io_EOF)"
    by (simp add: v0_listing_def del: stream_simps split: list.splits)
  then obtain r1 where r1: "pending r1 = (tl ?ps @ [], io_EOF)"
    "ParseAdvertisement (NewReader (source_of (stream ?ps))) None = (case dispatchAdvertisement (hd ?ps) r1 of
        (Inl e, r'') \<Rightarrow> (Inl e, r'') | (Inr ad, r'') \<Rightarrow> (accept_version None ad, r''))"
    by (rule ParseAdvertisement_first)
  from assms have "list_all wf_capability (v0_caps head store opts)" by (simp add: advertisable_def)
  from dispatch_v0_v1 [OF this wf_v0_refs [OF assms] isAllZero_zero_hash r1(1)] obtain r2 where
    "dispatchAdvertisement (hd ?ps) r1 = (Inr \<lparr>ad_Version = ProtocolV0, ad_Caps = v0_caps head store opts,
      ad_Refs = applySymrefs (v0_refs store head refs) (v0_caps head store opts)\<rparr>, r2)" by blast
  moreover have "list_all (\<lambda>r. re_Name r \<noteq> ''HEAD'') refs"
    using assms by (auto simp: advertisable_def list_all_iff)
  ultimately have "fst (ParseAdvertisement (NewReader (source_of (stream ?ps))) None) =
      Inr \<lparr>ad_Version = ProtocolV0, ad_Caps = v0_caps head store opts, ad_Refs = advertised_refs store head refs\<rparr>"
    using r1(2) by (simp add: accept_version_def applySymrefs_v0 del: stream_simps)
  then show ?thesis
    unfolding sent fst_conv snd_conv send_simps NewWriter_out append.simps(1) by blast
qed

theorem v0_advertisement_round_trip_witness:
  "let a = [CHR 0xA1]; b = [CHR 0xB2];
       store = \<lparr>st_Algo = SHA1, st_Head = Inr \<lparr>hd_Symref = ''refs/heads/m'', hd_OID = a, hd_Unborn = False\<rparr>,
         st_IterRefs = [Inr \<lparr>re_Name = ''refs/tags/v'', re_OID = b, re_Peeled = a, re_PeelKnown = True\<rparr>,
           Inr \<lparr>re_Name = ''refs/heads/m'', re_OID = a, re_Peeled = [], re_PeelKnown = False\<rparr>],
         st_Peel = (\<lambda>_. Inr ([], False)), st_ObjectInfo = (\<lambda>_. Inl io_EOF)\<rparr>;
       out = snk_out (wr_dst (snd (writeV0Advertisement (NewWriter empty_sink) store
         \<lparr>opt_Agent = ''x'', opt_PreferredProtocol = ProtocolV0\<rparr>)))
   in \<exists>ad. fst (ParseAdvertisement (NewReader (source_of out)) None) = Inr ad \<and> ad_Refs ad =
     [\<lparr>ref_OID = ''a1'', ref_Name = ''HEAD'', ref_Peeled = [], ref_Symref = ''refs/heads/m'', ref_Unborn = False\<rparr>,
      \<lparr>ref_OID = ''a1'', ref_Name = ''refs/heads/m'', ref_Peeled = [], ref_Symref = [], ref_Unborn = False\<rparr>,
      \<lparr>ref_OID = ''b2'', ref_Name = ''refs/tags/v'', ref_Peeled = ''a1'', ref_Symref = [], ref_Unborn = False\<rparr>]"
proof -
  define head where "head = \<lparr>hd_Symref = ''refs/heads/m'', hd_OID = [CHR 0xA1], hd_Unborn = False\<rparr>"
  define tag where "tag = \<lparr>re_Name = ''refs/tags/v'', re_OID = [CHR 0xB2], re_Peeled = [CHR 0xA1], re_PeelKnown = True\<rparr>"
  define main where "main = \<lparr>re_Name = ''refs/heads/m'', re_OID = [CHR 0xA1], re_Peeled = [], re_PeelKnown = False\<rparr>"
  define store where "store = \<lparr>st_Algo = SHA1, st_Head = Inr head, st_IterRefs = [Inr tag, Inr main],
    st_Peel = (\<lambda>_. Inr ([], False)), st_ObjectInfo = (\<lambda>_. Inl io_EOF)\<rparr>"
  define opts where "opts = \<lparr>opt_Agent = ''x'', opt_PreferredProtocol = ProtocolV0\<rparr>"
  have hex: "Hex [CHR 0xA1] = ''a1''" "Hex [CHR 0xB2] = ''b2''" by (simp_all add: hex_digits_def)
  have sorted: "sort_key re_Name [tag, main] = [main, tag]"
    by (simp add: tag_def main_def less_eq_char_def)
  have peel: "refPeel store tag = Inr ([CHR 0xA1], True)" "refPeel store main = Inr ([], False)"
    by (simp_all add: refPeel_def tag_def main_def store_def IsZero_def)
  have raw: "raw_ref store main = \<lparr>ref_OID = ''a1'', ref_Name = ''refs/heads/m'', ref_Peeled = [], ref_Symref = [], ref_Unborn = False\<rparr>"
    "raw_ref store tag = \<lparr>ref_OID = ''b2'', ref_Name = ''refs/tags/v'', ref_Peeled = ''a1'', ref_Symref = [], ref_Unborn = False\<rparr>"
    unfolding raw_ref_def peel_text_def peel by (simp_all add: main_def tag_def hex IsZero_def del: Hex_simps)
  have f: "st_Algo store = SHA1" "hd_Symref head = ''refs/heads/m''" "hd_OID head = [CHR 0xA1]" "opt_Agent opts = ''x''"
    by (simp_all add: store_def head_def opts_def)
  have valid: "head_valid head" by (simp add: head_valid_def head_def)
  have "list_all wf_capability (v0_caps head store opts)"
    by (simp add: v0_caps_def store_def head_def opts_def wf_capability_def show_capability_def isWireSpace_def)
  moreover have "list_all wf_packet (v0_listing (Hex (zero_hash (st_Algo store))) (v0_caps head store opts) (v0_refs store head [tag, main]))"
    unfolding v0_refs_def sorted
    by (simp add: valid raw hex v0_listing_def v0_lines_def first_line_def caps_text_v0 buildV0Caps_def
        f empty_RawRef_def peeledSuffix_def MaxPayload_def del: Hex_simps)
  moreover have "list_all (\<lambda>r. \<not> isl (refPeel store r)) [tag, main]" by (simp add: peel)
  moreover have "list_all (\<lambda>r. CHR 0x00 \<notin> set (re_Name r) \<and> \<not> HasSuffix (re_Name r) peeledSuffix \<and> re_Name r \<noteq> ''HEAD'') [tag, main]"
    by (simp add: tag_def main_def HasSuffix_def peeledSuffix_def)
  moreover have "st_Head store = Inr head" "st_IterRefs store = map Inr [tag, main]"
    by (simp_all add: store_def)
  ultimately have "advertisable store opts head [tag, main]" unfolding advertisable_def by blast
  from v0_advertisement_round_trip [OF this]
  show ?thesis
    unfolding Let_def advertised_refs_def sorted head_def [symmetric] tag_def [symmetric] main_def [symmetric]
      store_def [symmetric] opts_def [symmetric]
    by (simp add: valid raw hex f del: Hex_simps stream_simps)
qed

end
