(* ===== verification/Server_Commands.thy ===== *)
theory Server_Commands
  imports Server_Advertise
begin

text \<open>
  The server's two v2 commands (\<open>src/internal/server/ls_refs.go\<close>, \<open>object_info.go\<close>) and the reader of
  their arguments (\<open>argsReader\<close> of \<open>command_loop.go\<close>: a \<open>Reader\<close> with one packet pushed back).

  A handler takes the argument reader and the writer and returns its error, the writer and the reader.
  \<open>argsReader\<close> is the second provider of the \<open>packet_source\<close> interface, so the argument loops are
  refined against packet lists exactly as the client's decoders are.

  The properties: the client's request frames are parsed back to the caller's arguments; the response
  of each handler is what the client decodes, filtered by the prefixes and in name order; an argument
  the server does not know is refused with one \<open>ERR\<close> packet and a flush.
\<close>

section \<open>The argument reader\<close>

record argsReader =
  ar_r :: Reader
  ar_pending :: "Packet option"

definition args_ReadPacket :: "argsReader \<Rightarrow> (go_error + Packet) \<times> argsReader" where
  "args_ReadPacket a = (case ar_pending a of
      Some pkt \<Rightarrow> (Inr pkt, a\<lparr>ar_pending := None\<rparr>)
    | None \<Rightarrow> (case ReadPacket (ar_r a) of (x, r') \<Rightarrow> (x, a\<lparr>ar_r := r'\<rparr>)))"

definition args_pending :: "argsReader \<Rightarrow> Packet list \<times> go_error" where
  "args_pending a = (case pending (ar_r a) of (ps, e) \<Rightarrow>
     (case ar_pending a of Some pkt \<Rightarrow> pkt # ps | None \<Rightarrow> ps, e))"

interpretation args: packet_source args_ReadPacket args_pending
proof
  fix r p r' assume *: "args_ReadPacket r = (Inr p, r')"
  show "args_pending r = (p # fst (args_pending r'), snd (args_pending r'))"
  proof (cases "ar_pending r")
    case None
    with * obtain x where "ReadPacket (ar_r r) = (Inr p, x)" "r' = r\<lparr>ar_r := x\<rparr>"
      by (auto simp: args_ReadPacket_def split: prod.splits)
    with None reader.read_packet show ?thesis by (auto simp: args_pending_def split: prod.splits)
  next
    case (Some q)
    with * have "p = q" "r' = r\<lparr>ar_pending := None\<rparr>" by (auto simp: args_ReadPacket_def)
    with Some show ?thesis by (auto simp: args_pending_def split: prod.splits)
  qed
next
  fix r e r' assume *: "args_ReadPacket r = (Inl e, r')"
  show "args_pending r = ([], e)"
  proof (cases "ar_pending r")
    case None
    with * obtain x where "ReadPacket (ar_r r) = (Inl e, x)"
      by (auto simp: args_ReadPacket_def split: prod.splits)
    with None reader.read_error show ?thesis by (auto simp: args_pending_def split: prod.splits)
  next
    case (Some q)
    with * show ?thesis by (auto simp: args_ReadPacket_def)
  qed
qed

definition args_size :: "argsReader \<Rightarrow> nat" where
  "args_size a = length (src_rest (rd_src (ar_r a))) + (if ar_pending a = None then 0 else 1)"

lemma args_ReadPacket_decreases: "args_ReadPacket a = (Inr p, a') \<Longrightarrow> args_size a' < args_size a"
  using ReadPacket_decreases
  by (auto simp: args_ReadPacket_def args_size_def split: option.splits prod.splits)

section \<open>Refusals\<close>

definition trimTrailingLF :: "string \<Rightarrow> string" where
  "trimTrailingLF payload = (if 0 < length payload \<and> payload ! (length payload - 1) = CHR 0x0A
     then take (length payload - 1) payload else payload)"

definition writeERRPacket :: "Writer \<Rightarrow> string \<Rightarrow> go_error option \<times> Writer" where
  "writeERRPacket w msg =
     after (wrap_err ''server: write ERR packet: '' (WritePacket w (''ERR '' @ msg @ [CHR 0x0A]))) (\<lambda>w.
     wrap_err ''server: write ERR flush: '' (WriteFlush w))"

definition refuseUnknownArg :: "Writer \<Rightarrow> string \<Rightarrow> go_error option \<times> Writer" where
  "refuseUnknownArg w arg =
     (let msg = ''ls-refs: unknown argument '' @ quote arg in
      after (writeERRPacket w msg) (\<lambda>w. (Some (Wrapf [] ErrServerRefused ('': '' @ msg)), w)))"

section \<open>The \<open>ls-refs\<close> command\<close>

definition empty_RefsArgs :: RefsArgs where
  "empty_RefsArgs = \<lparr>ra_Prefixes = [], ra_Peel = False, ra_Symrefs = False, ra_Unborn = False\<rparr>"

text \<open>The \<open>switch\<close> on one argument line; \<open>None\<close> is the refused line.\<close>

definition ls_refs_arg :: "RefsArgs \<Rightarrow> string \<Rightarrow> RefsArgs option" where
  "ls_refs_arg args line =
     (if line = ''peel'' then Some (args\<lparr>ra_Peel := True\<rparr>)
      else if line = ''symrefs'' then Some (args\<lparr>ra_Symrefs := True\<rparr>)
      else if line = ''unborn'' then Some (args\<lparr>ra_Unborn := True\<rparr>)
      else case CutPrefix line ''ref-prefix '' of
          Some rest \<Rightarrow> Some (args\<lparr>ra_Prefixes := ra_Prefixes args @ [rest]\<rparr>)
        | None \<Rightarrow> None)"

definition refused :: "Writer \<Rightarrow> string \<Rightarrow> (go_error + 'a) \<times> Writer" where
  "refused w arg = (case refuseUnknownArg w arg of (e, w') \<Rightarrow> (Inl (the e), w'))"

function parseLSRefsArgs_loop ::
  "Writer \<Rightarrow> argsReader \<Rightarrow> RefsArgs \<Rightarrow> ((go_error + RefsArgs) \<times> Writer) \<times> argsReader" where
  "parseLSRefsArgs_loop w r args = (case args_ReadPacket r of
      (Inl e, r') \<Rightarrow>
        ((Inl (if errors_Is e io_EOF then io_ErrUnexpectedEOF
               else Wrapf ''server: ls-refs: read arg: '' e []), w), r')
    | (Inr pkt, r') \<Rightarrow>
        if pkt_Kind pkt = Flush then ((Inr args, w), r')
        else if pkt_Kind pkt \<noteq> Data then
          (refused w (''<pkt-kind='' @ itoa_nat (Kind_num (pkt_Kind pkt)) @ ''>''), r')
        else let line = trimTrailingLF (pkt_Data pkt) in
          (case ls_refs_arg args line of
             Some args' \<Rightarrow> parseLSRefsArgs_loop w r' args'
           | None \<Rightarrow> (refused w line, r')))"
  by pat_completeness auto
termination
  by (relation "measure (\<lambda>(_, r, _). args_size r)") (auto dest: args_ReadPacket_decreases sym)

declare parseLSRefsArgs_loop.simps [simp del]

definition parseLSRefsArgs :: "argsReader \<Rightarrow> Writer \<Rightarrow> ((go_error + RefsArgs) \<times> Writer) \<times> argsReader" where
  "parseLSRefsArgs r w = parseLSRefsArgs_loop w r empty_RefsArgs"

fun refMatch_loop :: "string list \<Rightarrow> string \<Rightarrow> bool" where
  "refMatch_loop [] refname = False"
| "refMatch_loop (p # ps) refname = (if HasPrefix refname p then True else refMatch_loop ps refname)"

definition refMatch :: "string list \<Rightarrow> string \<Rightarrow> bool" where
  "refMatch pres refname = (if length pres = 0 then True else refMatch_loop pres refname)"

definition emitHead :: "Writer \<Rightarrow> Store \<Rightarrow> Head \<Rightarrow> RefsArgs \<Rightarrow> go_error option \<times> Writer" where
  "emitHead w store head args =
     (if \<not> refMatch (ra_Prefixes args) ''HEAD'' then (None, w)
      else if \<not> hd_Unborn head \<and> \<not> IsZero (hd_OID head) then
        let line = AppendHex (hd_OID head) [] @ '' HEAD'';
            line = (if ra_Symrefs args \<and> hd_Symref head \<noteq> [] then line @ '' symref-target:'' @ hd_Symref head else line)
        in case (if ra_Peel args then st_Peel store (hd_OID head) else Inr ([], False)) of
            Inl e \<Rightarrow> (Some (Wrapf ''server: ls-refs: peel HEAD: '' e []), w)
          | Inr (peeled, ok) \<Rightarrow>
              let line = (if ok \<and> \<not> IsZero peeled then AppendHex peeled (line @ '' peeled:'') else line)
              in wrap_err ''server: ls-refs: write HEAD: '' (WritePacket w (line @ [CHR 0x0A]))
      else if hd_Unborn head \<and> ra_Unborn args \<and> ra_Symrefs args then
        wrap_err ''server: ls-refs: write unborn HEAD: ''
          (WritePacket w (''unborn HEAD symref-target:'' @ hd_Symref head @ [CHR 0x0A]))
      else (None, w))"

definition formatRefLine :: "Store \<Rightarrow> RefEntry \<Rightarrow> RefsArgs \<Rightarrow> go_error + string" where
  "formatRefLine store ref args =
     (let dst = AppendHex (re_OID ref) [] @ '' '' @ re_Name ref in
      if ra_Peel args then
        (case refPeel store ref of
           Inl e \<Rightarrow> Inl (Wrapf (''server: ls-refs: peel '' @ quote (re_Name ref) @ '': '') e [])
         | Inr (peeled, ok) \<Rightarrow>
             Inr ((if ok \<and> \<not> IsZero peeled then AppendHex peeled (dst @ '' peeled:'') else dst) @ [CHR 0x0A]))
      else Inr (dst @ [CHR 0x0A]))"

definition collectLSRefsRefs :: "Store \<Rightarrow> string list \<Rightarrow> go_error + RefEntry list" where
  "collectLSRefsRefs store pres =
     (case collect_refs ''server: ls-refs: iterate refs: '' (\<lambda>entry. refMatch pres (re_Name entry))
          (st_IterRefs store) [] of
        Inl e \<Rightarrow> Inl e | Inr refs \<Rightarrow> Inr (sort_key re_Name refs))"

definition write_ref_line :: "Store \<Rightarrow> RefsArgs \<Rightarrow> RefEntry \<Rightarrow> Writer \<Rightarrow> go_error option \<times> Writer" where
  "write_ref_line store args ref w = (case formatRefLine store ref args of
      Inl e \<Rightarrow> (Some e, w)
    | Inr line \<Rightarrow> wrap_err (''server: ls-refs: write ref '' @ quote (re_Name ref) @ '': '') (WritePacket w line))"

definition writeLSRefsResponse :: "Writer \<Rightarrow> Store \<Rightarrow> RefsArgs \<Rightarrow> go_error option \<times> Writer" where
  "writeLSRefsResponse w store args = (case st_Head store of
      Inl e \<Rightarrow> (Some (Wrapf ''server: ls-refs: resolve HEAD: '' e []), w)
    | Inr head \<Rightarrow>
        after (emitHead w store head args) (\<lambda>w.
        case collectLSRefsRefs store (ra_Prefixes args) of
          Inl e \<Rightarrow> (Some e, w)
        | Inr refs \<Rightarrow> for_each (write_ref_line store args) refs w))"

definition handleLSRefs :: "argsReader \<Rightarrow> Writer \<Rightarrow> Store \<Rightarrow> (go_error option \<times> Writer) \<times> argsReader" where
  "handleLSRefs r w store = (case parseLSRefsArgs r w of
      ((Inl e, w'), r') \<Rightarrow> ((Some e, w'), r')
    | ((Inr args, w'), r') \<Rightarrow>
        (after (writeLSRefsResponse w' store args) (\<lambda>w.
           wrap_err ''server: ls-refs: write flush: '' (WriteFlush w)), r'))"

section \<open>The \<open>object-info\<close> command\<close>

definition writeObjectInfoErr :: "Writer \<Rightarrow> string \<Rightarrow> go_error option \<times> Writer" where
  "writeObjectInfoErr w msg =
     wrap_err ''server: object-info: write ERR: '' (WritePacket w (''ERR '' @ msg @ [CHR 0x0A]))"

text \<open>
  The body of the argument loop after the flush test: \<open>size\<close>, an id, or a complaint that does not end
  the request. The accumulator is the arguments, the ids and the writer.
\<close>

definition object_info_arg ::
  "ObjectInfoArgs \<times> string list \<times> Writer \<Rightarrow> Packet \<Rightarrow> go_error option \<times> (ObjectInfoArgs \<times> string list \<times> Writer)" where
  "object_info_arg acc pkt = (case acc of (args, oids, w) \<Rightarrow>
     if pkt_Kind pkt \<noteq> Data then
       (case writeObjectInfoErr w (''object-info: unexpected line: '' @ [CHR 0x27] @ ''<pkt-kind='' @
           itoa_nat (Kind_num (pkt_Kind pkt)) @ ''>'' @ [CHR 0x27]) of (e, w') \<Rightarrow> (e, (args, oids, w')))
     else let line = trimTrailingLF (pkt_Data pkt) in
       if line = ''size'' then (None, (args\<lparr>oa_Size := True\<rparr>, oids, w))
       else case CutPrefix line ''oid '' of
           Some rest \<Rightarrow> (None, (args, oids @ [rest], w))
         | None \<Rightarrow> (case writeObjectInfoErr w (''object-info: unexpected line: '' @ [CHR 0x27] @ line @ [CHR 0x27]) of
             (e, w') \<Rightarrow> (e, (args, oids, w'))))"

function parseObjectInfoArgs_loop ::
  "argsReader \<Rightarrow> ObjectInfoArgs \<times> string list \<times> Writer \<Rightarrow>
   ((go_error + (ObjectInfoArgs \<times> string list)) \<times> Writer) \<times> argsReader" where
  "parseObjectInfoArgs_loop r acc = (case args_ReadPacket r of
      (Inl e, r') \<Rightarrow>
        ((Inl (if errors_Is e io_EOF then io_ErrUnexpectedEOF
               else Wrapf ''server: object-info: read arg: '' e []), snd (snd acc)), r')
    | (Inr pkt, r') \<Rightarrow>
        if pkt_Kind pkt = Flush then ((Inr (fst acc, fst (snd acc)), snd (snd acc)), r')
        else (case object_info_arg acc pkt of
            (Some e, acc') \<Rightarrow> ((Inl e, snd (snd acc')), r')
          | (None, acc') \<Rightarrow> parseObjectInfoArgs_loop r' acc'))"
  by pat_completeness auto
termination
  by (relation "measure (\<lambda>(r, _). args_size r)") (auto dest: args_ReadPacket_decreases sym)

declare parseObjectInfoArgs_loop.simps [simp del]

definition parseObjectInfoArgs ::
  "argsReader \<Rightarrow> Writer \<Rightarrow> ((go_error + (ObjectInfoArgs \<times> string list)) \<times> Writer) \<times> argsReader" where
  "parseObjectInfoArgs r w = parseObjectInfoArgs_loop r (\<lparr>oa_Size = False\<rparr>, [], w)"

definition emitObjectInfoLine :: "Store \<Rightarrow> bool \<Rightarrow> string \<Rightarrow> Writer \<Rightarrow> go_error option \<times> Writer" where
  "emitObjectInfoLine store wantSize oidHex w = (case ParseHexAs (st_Algo store) oidHex of
      Inl _ \<Rightarrow> writeObjectInfoErr w
        (''object-info: protocol error, expected to get oid, not '' @ [CHR 0x27] @ oidHex @ [CHR 0x27])
    | Inr hash \<Rightarrow> (case st_ObjectInfo store hash of
        Inr info \<Rightarrow>
          wrap_err (''server: object-info: write '' @ oidHex @ '': '')
            (WritePacket w (oidHex @ (if wantSize then '' '' @ itoa (info_Size info) else []) @ [CHR 0x0A]))
      | Inl e \<Rightarrow>
          if errors_Is e os_ErrNotExist then
            wrap_err (''server: object-info: write missing '' @ oidHex @ '': '')
              (WritePacket w (oidHex @ (if wantSize then '' '' else []) @ [CHR 0x0A]))
          else
            let msg = ''objstore: object corrupt or unresolvable: '' @ error_text e in
            after (writeObjectInfoErr w msg) (\<lambda>w.
            after (wrap_err ''server: object-info: write fatal flush: '' (WriteFlush w)) (\<lambda>w.
            (Some (Wrapf [] ErrServerRefused ('': '' @ msg)), w)))))"

definition writeObjectInfoResponse ::
  "Writer \<Rightarrow> Store \<Rightarrow> ObjectInfoArgs \<Rightarrow> string list \<Rightarrow> go_error option \<times> Writer" where
  "writeObjectInfoResponse w store args oids =
     (if length oids = 0 then (None, w)
      else after (if oa_Size args then
            wrap_err ''server: object-info: write attrs: '' (WritePacket w (''size'' @ [CHR 0x0A]))
          else (None, w)) (\<lambda>w.
        for_each (emitObjectInfoLine store (oa_Size args)) oids w))"

definition handleObjectInfo :: "argsReader \<Rightarrow> Writer \<Rightarrow> Store \<Rightarrow> (go_error option \<times> Writer) \<times> argsReader" where
  "handleObjectInfo r w store = (case parseObjectInfoArgs r w of
      ((Inl e, w'), r') \<Rightarrow> ((Some e, w'), r')
    | ((Inr (args, oids), w'), r') \<Rightarrow>
        (after (writeObjectInfoResponse w' store args oids) (\<lambda>w.
           wrap_err ''server: object-info: write flush: '' (WriteFlush w)), r'))"

section \<open>Refinement of the argument loops\<close>

definition ls_refs_arg_step ::
  "Writer \<Rightarrow> RefsArgs \<Rightarrow> Packet \<Rightarrow> ((go_error + RefsArgs) \<times> Writer) + RefsArgs" where
  "ls_refs_arg_step w args pkt =
     (if pkt_Kind pkt = Flush then Inl (Inr args, w)
      else if pkt_Kind pkt \<noteq> Data then
        Inl (refused w (''<pkt-kind='' @ itoa_nat (Kind_num (pkt_Kind pkt)) @ ''>''))
      else case ls_refs_arg args (trimTrailingLF (pkt_Data pkt)) of
          Some args' \<Rightarrow> Inr args' | None \<Rightarrow> Inl (refused w (trimTrailingLF (pkt_Data pkt))))"

definition object_info_arg_step ::
  "ObjectInfoArgs \<times> string list \<times> Writer \<Rightarrow> Packet \<Rightarrow>
   ((go_error + (ObjectInfoArgs \<times> string list)) \<times> Writer) + (ObjectInfoArgs \<times> string list \<times> Writer)" where
  "object_info_arg_step acc pkt =
     (if pkt_Kind pkt = Flush then Inl (Inr (fst acc, fst (snd acc)), snd (snd acc))
      else case object_info_arg acc pkt of
          (Some e, acc') \<Rightarrow> Inl (Inl e, snd (snd acc')) | (None, acc') \<Rightarrow> Inr acc')"

lemma parseLSRefsArgs_step:
  "parseLSRefsArgs_loop w r args = (case args_ReadPacket r of
      (Inl e, r') \<Rightarrow> ((Inl (if errors_Is e io_EOF then io_ErrUnexpectedEOF
               else Wrapf ''server: ls-refs: read arg: '' e []), w), r')
    | (Inr p, r') \<Rightarrow> (case ls_refs_arg_step w args p of
        Inl b \<Rightarrow> (b, r') | Inr args' \<Rightarrow> parseLSRefsArgs_loop w r' args'))"
  by (subst parseLSRefsArgs_loop.simps) (auto simp: ls_refs_arg_step_def Let_def split: prod.splits sum.splits option.splits)

text \<open>A read error in this loop reports the accumulator's writer, so it is folded into the step.\<close>

lemma parseObjectInfoArgs_pending:
  assumes "args_pending r = (ps, e)" "scan object_info_arg_step fin acc ps = ((x, w), Some rest)"
  shows "fst (parseObjectInfoArgs_loop r acc) = (x, w) \<and>
    args_pending (snd (parseObjectInfoArgs_loop r acc)) = (rest, e)"
  using assms
proof (induction ps arbitrary: r acc)
  case (Cons p ps)
  then obtain r' where r': "args_ReadPacket r = (Inr p, r')" "args_pending r' = (ps, e)"
    by (blast elim: args.next_packet)
  show ?case
  proof (cases "object_info_arg_step acc p")
    case (Inl b)
    with Cons.prems(2) r' show ?thesis
      by (subst (1 2) parseObjectInfoArgs_loop.simps)
        (auto simp: object_info_arg_step_def split: if_splits prod.splits option.splits)
  next
    case (Inr acc')
    with Cons.prems(2) have "scan object_info_arg_step fin acc' ps = ((x, w), Some rest)" by simp
    moreover from Inr r' have "parseObjectInfoArgs_loop r acc = parseObjectInfoArgs_loop r' acc'"
      by (subst parseObjectInfoArgs_loop.simps)
        (auto simp: object_info_arg_step_def split: if_splits prod.splits option.splits)
    ultimately show ?thesis using Cons.IH r'(2) by simp
  qed
qed simp

lemmas parseLSRefsArgs_refines =
  args.loop_refines [where step = "ls_refs_arg_step w" and L = "parseLSRefsArgs_loop w" for w,
    OF parseLSRefsArgs_step]

section \<open>Requests parsed back\<close>

lemma trimTrailingLF_line [simp]: "trimTrailingLF (s @ [CHR 0x0A]) = s"
  by (simp add: trimTrailingLF_def nth_append)

lemma ls_refs_step_line:
  "ls_refs_arg args s = Some args' \<Longrightarrow> ls_refs_arg_step w args (line_packet s) = Inr args'"
  by (simp add: ls_refs_arg_step_def)

lemma ls_refs_arg_consts:
  "ls_refs_arg args ''peel'' = Some (args\<lparr>ra_Peel := True\<rparr>)"
  "ls_refs_arg args ''symrefs'' = Some (args\<lparr>ra_Symrefs := True\<rparr>)"
  "ls_refs_arg args ''unborn'' = Some (args\<lparr>ra_Unborn := True\<rparr>)"
  "ls_refs_arg args (''ref-prefix '' @ p) = Some (args\<lparr>ra_Prefixes := ra_Prefixes args @ [p]\<rparr>)"
  by (simp_all add: ls_refs_arg_def)

lemma scan_prefix_lines:
  "scan (ls_refs_arg_step w) fin acc (map line_packet (map (\<lambda>p. ''ref-prefix '' @ p) qs) @ flush_packet # ps) =
    ((Inr (acc\<lparr>ra_Prefixes := ra_Prefixes acc @ qs\<rparr>), w), Some ps)"
proof (induction qs arbitrary: acc)
  case (Cons q qs)
  have "ls_refs_arg_step w acc (line_packet (''ref-prefix '' @ q)) = Inr (acc\<lparr>ra_Prefixes := ra_Prefixes acc @ [q]\<rparr>)"
    by (rule ls_refs_step_line, rule ls_refs_arg_consts)
  with Cons show ?case by simp
qed (simp add: ls_refs_arg_step_def)

lemma scan_flag_line:
  assumes "ls_refs_arg acc s = Some acc'"
  shows "scan (ls_refs_arg_step w) fin acc (map line_packet ((if b then [s] else []) @ ls) @ ps) =
    scan (ls_refs_arg_step w) fin (if b then acc' else acc) (map line_packet ls @ ps)"
  using ls_refs_step_line [OF assms, of w] by simp

lemma scan_ls_refs_lines:
  "scan (ls_refs_arg_step w) fin empty_RefsArgs (map line_packet (ls_refs_lines args u) @ flush_packet # ps) =
    ((Inr (args\<lparr>ra_Unborn := ra_Unborn args \<and> u\<rparr>), w), Some ps)"
proof -
  have "scan (ls_refs_arg_step w) fin empty_RefsArgs (map line_packet (ls_refs_lines args u) @ flush_packet # ps) =
    scan (ls_refs_arg_step w) fin
      (empty_RefsArgs\<lparr>ra_Peel := ra_Peel args, ra_Symrefs := ra_Symrefs args, ra_Unborn := ra_Unborn args \<and> u\<rparr>)
      (map line_packet (map (\<lambda>p. ''ref-prefix '' @ p) (ra_Prefixes args)) @ flush_packet # ps)"
    unfolding ls_refs_lines_def append_assoc
    by (simp only: scan_flag_line [OF ls_refs_arg_consts(1)] scan_flag_line [OF ls_refs_arg_consts(2)]
        scan_flag_line [OF ls_refs_arg_consts(3)])
      (rule arg_cong [where f = "\<lambda>a. scan _ _ a _"], simp add: empty_RefsArgs_def)
  also have "\<dots> = ((Inr (args\<lparr>ra_Unborn := ra_Unborn args \<and> u\<rparr>), w), Some ps)"
    unfolding scan_prefix_lines by (cases args) (simp add: empty_RefsArgs_def)
  finally show ?thesis .
qed

lemma parseLSRefsArgs_request:
  assumes "args_pending a = (map line_packet (ls_refs_lines args u) @ flush_packet # ps, e)"
  obtains a' where "args_pending a' = (ps, e)"
    "parseLSRefsArgs a w = ((Inr (args\<lparr>ra_Unborn := ra_Unborn args \<and> u\<rparr>), w), a')"
proof -
  note f = parseLSRefsArgs_refines [OF assms, of w empty_RefsArgs, unfolded scan_ls_refs_lines fst_conv snd_conv]
  have "parseLSRefsArgs a w = ((Inr (args\<lparr>ra_Unborn := ra_Unborn args \<and> u\<rparr>), w), snd (parseLSRefsArgs a w))"
    unfolding parseLSRefsArgs_def using f(1) by (metis prod.collapse)
  moreover have "args_pending (snd (parseLSRefsArgs a w)) = (ps, e)"
    unfolding parseLSRefsArgs_def using f(2) by blast
  ultimately show thesis using that by blast
qed

lemma scan_object_info_lines:
  "scan object_info_arg_step fin (\<lparr>oa_Size = False\<rparr>, [], w)
      (map line_packet (object_info_lines args oids) @ flush_packet # ps) =
    ((Inr (args, oids), w), Some ps)"
proof -
  have oids: "scan object_info_arg_step fin (args, acc, w)
      (map line_packet (map (\<lambda>oid. ''oid '' @ oid) oids) @ flush_packet # ps) = ((Inr (args, acc @ oids), w), Some ps)" for acc args
  proof (induction oids arbitrary: acc)
    case (Cons oid oids)
    have "object_info_arg_step (args, acc, w) (line_packet (''oid '' @ oid)) = Inr (args, acc @ [oid], w)"
      unfolding object_info_arg_step_def object_info_arg_def packet_simps prod.case trimTrailingLF_line Let_def
        CutPrefix_append by simp
    with Cons show ?case by simp
  qed (simp add: object_info_arg_step_def)
  have "object_info_arg_step (\<lparr>oa_Size = False\<rparr>, [], w) (line_packet ''size'') = Inr (\<lparr>oa_Size = True\<rparr>, [], w)"
    unfolding object_info_arg_step_def object_info_arg_def packet_simps prod.case trimTrailingLF_line by simp
  then show ?thesis
    unfolding object_info_lines_def map_append append_assoc
    by (cases args; cases "oa_Size args") (simp_all add: oids [where acc = "[]", unfolded append_Nil] del: map_map)
qed

lemma parseObjectInfoArgs_request:
  assumes "args_pending a = (map line_packet (object_info_lines args oids) @ flush_packet # ps, e)"
  obtains a' where "args_pending a' = (ps, e)" "parseObjectInfoArgs a w = ((Inr (args, oids), w), a')"
  using parseObjectInfoArgs_pending [OF assms scan_object_info_lines [where fin = "(Inl io_EOF, w)"]] that
  unfolding parseObjectInfoArgs_def by (metis prod.collapse)

section \<open>Responses\<close>

text \<open>The refs a response lists: HEAD if the prefixes select it, then the selected refs by name.\<close>

definition peel_for :: "RefsArgs \<Rightarrow> go_error + (Hash \<times> bool) \<Rightarrow> string" where
  "peel_for args p = (if ra_Peel args then (case p of
      Inl _ \<Rightarrow> [] | Inr (peeled, ok) \<Rightarrow> if ok \<and> \<not> IsZero peeled then Hex peeled else []) else [])"

definition head_answer :: "Store \<Rightarrow> Head \<Rightarrow> RefsArgs \<Rightarrow> RawRef list" where
  "head_answer store head args =
     (if \<not> refMatch (ra_Prefixes args) ''HEAD'' then []
      else if \<not> hd_Unborn head \<and> \<not> IsZero (hd_OID head) then
        [\<lparr>ref_OID = Hex (hd_OID head), ref_Name = ''HEAD'', ref_Peeled = peel_for args (st_Peel store (hd_OID head)),
          ref_Symref = (if ra_Symrefs args then hd_Symref head else []), ref_Unborn = False\<rparr>]
      else if hd_Unborn head \<and> ra_Unborn args \<and> ra_Symrefs args then
        [\<lparr>ref_OID = [], ref_Name = ''HEAD'', ref_Peeled = [], ref_Symref = hd_Symref head, ref_Unborn = True\<rparr>]
      else [])"

definition ref_answer :: "Store \<Rightarrow> RefsArgs \<Rightarrow> RefEntry \<Rightarrow> RawRef" where
  "ref_answer store args r = \<lparr>ref_OID = Hex (re_OID r), ref_Name = re_Name r,
     ref_Peeled = peel_for args (refPeel store r), ref_Symref = [], ref_Unborn = False\<rparr>"

definition ls_refs_answer :: "Store \<Rightarrow> Head \<Rightarrow> RefEntry list \<Rightarrow> RefsArgs \<Rightarrow> RawRef list" where
  "ls_refs_answer store head refs args = head_answer store head args @
     map (ref_answer store args) (sort_key re_Name (filter (\<lambda>r. refMatch (ra_Prefixes args) (re_Name r)) refs))"

text \<open>
  \<open>answerable\<close>: the store answers HEAD, the refs and, where the caller wants peeled ids, the peels;
  names and targets are tokens; ids are not empty; an unborn HEAD has a target; every line fits.
\<close>

definition answerable :: "Store \<Rightarrow> Head \<Rightarrow> RefEntry list \<Rightarrow> RefsArgs \<Rightarrow> bool" where
  "answerable store head refs args \<longleftrightarrow>
     st_Head store = Inr head \<and> st_IterRefs store = map Inr refs \<and>
     (ra_Peel args \<longrightarrow> \<not> isl (st_Peel store (hd_OID head)) \<and> list_all (\<lambda>r. \<not> isl (refPeel store r)) refs) \<and>
     no_space (hd_Symref head) \<and> (hd_Unborn head \<longrightarrow> hd_Symref head \<noteq> []) \<and>
     list_all (\<lambda>r. re_Name r \<noteq> [] \<and> no_space (re_Name r) \<and> re_OID r \<noteq> []) refs \<and>
     list_all fits_line (map v2_ref_line (ls_refs_answer store head refs args))"

lemma no_space_Hex [simp]: "no_space (Hex h)"
proof (rule no_space_ascii)
  have "list_all (\<lambda>c. byte_val c < 128 \<and> \<not> is_ascii_space c) hex_digits"
    by (simp add: hex_digits_def is_ascii_space_def)
  then have "\<forall>c\<in>set hex_digits. byte_val c < 128 \<and> \<not> is_ascii_space c" by (simp only: list_all_iff)
  moreover have "set (Hex h) \<subseteq> set hex_digits" using Hex_chars by (rule subsetI)
  ultimately show "list_all (\<lambda>c. byte_val c < 128 \<and> \<not> is_ascii_space c) (Hex h)"
    unfolding list_all_iff by (meson subsetD)
qed

lemma no_space_words [simp]: "no_space ''HEAD''" "no_space ''unborn''"
  by (rule no_space_ascii; simp add: is_ascii_space_def)+

lemma no_space_prefixed:
  "no_space t \<Longrightarrow> no_space (''symref-target:'' @ t)" "no_space t \<Longrightarrow> no_space (''peeled:'' @ t)"
proof -
  have *: "byte_val c < 128 \<Longrightarrow> \<not> is_ascii_space c \<Longrightarrow> no_space t \<Longrightarrow> no_space (c # t)" for c t
    by (auto simp: space_len_def is_space3_def split: list.split)
  show "no_space t \<Longrightarrow> no_space (''symref-target:'' @ t)" "no_space t \<Longrightarrow> no_space (''peeled:'' @ t)"
    by (simp_all add: * is_ascii_space_def del: no_space.simps(2))
qed

lemma Hex_not_ERR: "\<not> HasPrefix (Hex h @ '' '') ''ERR ''"
proof
  assume "HasPrefix (Hex h @ '' '') ''ERR ''"
  then have "CHR ''E'' \<in> set (Hex h)" by (cases "Hex h") simp_all
  then have "CHR ''E'' \<in> set hex_digits" by (rule Hex_chars)
  then show False by (simp add: hex_digits_def)
qed

lemma no_space_peel_for: "no_space (peel_for args p)"
  by (auto simp: peel_for_def split: sum.splits)

lemma wf_ls_refs_answer:
  assumes "answerable store head refs args"
  shows "list_all wf_v2_ref (ls_refs_answer store head refs args)"
proof -
  have tok: "\<not> hd_Unborn head \<Longrightarrow> \<not> IsZero (hd_OID head) \<Longrightarrow> Hex (hd_OID head) \<noteq> []"
    by (cases "hd_OID head") (simp_all add: IsZero_def)
  have "list_all wf_v2_ref (head_answer store head args)"
    using assms tok Hex_not_ERR Hex_not_words no_space_peel_for
    by (simp add: head_answer_def wf_v2_ref_def v2_ref_tokens_def answerable_def no_space_prefixed
        del: append.simps no_space.simps)
  moreover have "list_all wf_v2_ref (map (ref_answer store args) (sort_key re_Name (filter P refs)))" for P
    using assms Hex_not_ERR Hex_not_words no_space_peel_for
    by (auto simp: list_all_iff ref_answer_def wf_v2_ref_def v2_ref_tokens_def answerable_def no_space_prefixed
        simp del: append.simps no_space.simps)
  ultimately show ?thesis by (simp add: ls_refs_answer_def)
qed

lemma emitHead_send:
  assumes "unbounded w" "answerable store head refs args"
  shows "emitHead w store head args =
    (None, send (map (\<lambda>r. line_packet (v2_ref_line r)) (head_answer store head args)) w)"
proof -
  let ?ans = "head_answer store head args"
  have fits: "list_all fits_line (map v2_ref_line ?ans)"
    using assms(2) by (simp add: answerable_def ls_refs_answer_def)
  have mm: "map (\<lambda>r. line_packet (v2_ref_line r)) ?ans = map line_packet (map v2_ref_line ?ans)" by simp
  note wr = WritePacket_line_send [OF assms(1)]
  consider (skip) "\<not> refMatch (ra_Prefixes args) ''HEAD''"
    | (born) "refMatch (ra_Prefixes args) ''HEAD''" "\<not> hd_Unborn head" "\<not> IsZero (hd_OID head)"
    | (other) "refMatch (ra_Prefixes args) ''HEAD''" "hd_Unborn head \<or> IsZero (hd_OID head)" by blast
  then show ?thesis
  proof cases
    case skip
    then show ?thesis by (simp add: emitHead_def head_answer_def)
  next
    case born
    let ?peel = "if ra_Peel args then st_Peel store (hd_OID head) else Inr ([], False)"
    have "\<not> isl ?peel" using assms(2) by (simp add: answerable_def)
    then obtain peeled ok where peel: "?peel = Inr (peeled, ok)"
      by (cases ?peel) (simp_all only: sum.disc not_True_eq_False, metis prod.exhaust)
    have nz: "\<not> IsZero peeled \<Longrightarrow> peeled \<noteq> []" by auto
    define line where "line = (let line = Hex (hd_OID head) @ '' HEAD'';
        line = (if ra_Symrefs args \<and> hd_Symref head \<noteq> [] then line @ '' symref-target:'' @ hd_Symref head else line)
      in if ok \<and> \<not> IsZero peeled then line @ '' peeled:'' @ Hex peeled else line)"
    have ans: "map v2_ref_line ?ans = [line]"
      using born peel nz
      by (auto simp: head_answer_def line_def v2_ref_line_def v2_ref_tokens_def peel_for_def Let_def split: if_splits)
    have "emitHead w store head args = wrap_err ''server: ls-refs: write HEAD: '' (WritePacket w (line @ [CHR 0x0A]))"
      using born by (simp add: emitHead_def peel line_def AppendHex_def Let_def del: append.simps(2))
    also have "\<dots> = (None, send [line_packet line] w)"
      using wr [of line] fits unfolding ans by simp
    finally show ?thesis unfolding mm ans by simp
  next
    case other
    show ?thesis
    proof (cases "hd_Unborn head \<and> ra_Unborn args \<and> ra_Symrefs args")
      case True
      let ?line = "''unborn HEAD symref-target:'' @ hd_Symref head"
      have ans: "map v2_ref_line ?ans = [?line]"
        using other True assms(2) by (simp add: head_answer_def v2_ref_line_def v2_ref_tokens_def answerable_def)
      have "emitHead w store head args = wrap_err ''server: ls-refs: write unborn HEAD: '' (WritePacket w (?line @ [CHR 0x0A]))"
        using other True by (simp add: emitHead_def)
      also have "\<dots> = (None, send [line_packet ?line] w)"
        using wr [of ?line] fits unfolding ans by simp
      finally show ?thesis unfolding mm ans by simp
    next
      case False
      with other show ?thesis by (auto simp: emitHead_def head_answer_def)
    qed
  qed
qed

lemma write_ref_line_send:
  assumes "unbounded w" "ra_Peel args \<longrightarrow> \<not> isl (refPeel store r)"
    and "fits_line (v2_ref_line (ref_answer store args r))"
  shows "write_ref_line store args r w = (None, send [line_packet (v2_ref_line (ref_answer store args r))] w)"
proof -
  have "formatRefLine store r args = Inr (v2_ref_line (ref_answer store args r) @ [CHR 0x0A])"
  proof (cases "ra_Peel args")
    case False
    then show ?thesis
      by (simp add: formatRefLine_def ref_answer_def v2_ref_line_def v2_ref_tokens_def peel_for_def AppendHex_def Let_def)
  next
    case True
    with assms(2) obtain peeled ok where peel: "refPeel store r = Inr (peeled, ok)"
      by (cases "refPeel store r") auto
    have "\<not> IsZero peeled \<Longrightarrow> peeled \<noteq> []" by auto
    with True show ?thesis
      by (auto simp: formatRefLine_def peel ref_answer_def v2_ref_line_def v2_ref_tokens_def peel_for_def AppendHex_def Let_def)
  qed
  with assms(1,3) show ?thesis by (simp add: write_ref_line_def)
qed

lemma writeLSRefsResponse_send:
  assumes "unbounded w" "answerable store head refs args"
  shows "writeLSRefsResponse w store args =
    (None, send (map (\<lambda>r. line_packet (v2_ref_line r)) (ls_refs_answer store head refs args)) w)"
proof -
  let ?rs = "sort_key re_Name (filter (\<lambda>r. refMatch (ra_Prefixes args) (re_Name r)) refs)"
  have st: "st_Head store = Inr head" "collectLSRefsRefs store (ra_Prefixes args) = Inr ?rs"
    using assms(2) by (simp_all add: answerable_def collectLSRefsRefs_def)
  have "write_ref_line store args r w' = (None, send [line_packet (v2_ref_line (ref_answer store args r))] w')"
    if "r \<in> set ?rs" "unbounded w'" for r w'
    using that assms(2) by (intro write_ref_line_send) (auto simp: answerable_def ls_refs_answer_def list_all_iff)
  then have "for_each (write_ref_line store args) ?rs w' =
      (None, send (map (\<lambda>r. line_packet (v2_ref_line (ref_answer store args r))) ?rs) w')" if "unbounded w'" for w'
    using that for_each_send [where g = "\<lambda>r. [line_packet (v2_ref_line (ref_answer store args r))]"] by force
  then show ?thesis
    using assms(1) emitHead_send [OF assms]
    by (simp add: writeLSRefsResponse_def st ls_refs_answer_def comp_def)
qed

lemma handleLSRefs_send:
  assumes "unbounded w" "answerable store head refs (args\<lparr>ra_Unborn := ra_Unborn args \<and> u\<rparr>)"
    and "args_pending a = (map line_packet (ls_refs_lines args u) @ flush_packet # ps, e)"
  obtains a' where "args_pending a' = (ps, e)"
    "handleLSRefs a w store = ((None, send (map (\<lambda>r. line_packet (v2_ref_line r))
      (ls_refs_answer store head refs (args\<lparr>ra_Unborn := ra_Unborn args \<and> u\<rparr>)) @ [flush_packet]) w), a')"
proof -
  obtain a' where "args_pending a' = (ps, e)"
    "parseLSRefsArgs a w = ((Inr (args\<lparr>ra_Unborn := ra_Unborn args \<and> u\<rparr>), w), a')"
    using assms(3) by (rule parseLSRefsArgs_request)
  then show thesis
    using assms(1) writeLSRefsResponse_send [OF assms(1,2)] by (intro that [of a']) (simp_all add: handleLSRefs_def)
qed

text \<open>The row of an id: its size if the store has the object.\<close>

definition info_row :: "Store \<Rightarrow> string \<Rightarrow> string \<times> int option" where
  "info_row store oid = (oid, case ParseHexAs (st_Algo store) oid of
      Inl _ \<Rightarrow> None
    | Inr h \<Rightarrow> (case st_ObjectInfo store h of Inl _ \<Rightarrow> None | Inr info \<Rightarrow> Some (info_Size info)))"

text \<open>An id the server answers with a row: well formed, and found with an int64 size or not in the store.\<close>

definition resolvable :: "Store \<Rightarrow> string \<Rightarrow> bool" where
  "resolvable store oid = (case ParseHexAs (st_Algo store) oid of
      Inl _ \<Rightarrow> False
    | Inr h \<Rightarrow> (case st_ObjectInfo store h of
        Inl e \<Rightarrow> errors_Is e os_ErrNotExist
      | Inr info \<Rightarrow> - (2 ^ 63) \<le> info_Size info \<and> info_Size info < 2 ^ 63))"

lemma ParseHexAs_length: "ParseHexAs a s = Inr h \<Longrightarrow> length s = 40 \<or> length s = 64"
  by (cases a) (auto simp: ParseHexAs_def split: if_splits)

lemma resolvable_length: "resolvable store oid \<Longrightarrow> length oid = 40 \<or> length oid = 64"
  by (cases "ParseHexAs (st_Algo store) oid") (auto simp: resolvable_def dest: ParseHexAs_length)

lemma wf_info_row: "resolvable store oid \<Longrightarrow> list_all is_lower_hex oid \<Longrightarrow> wf_object_row (info_row store oid)"
  using resolvable_length [of store oid]
  by (auto simp: resolvable_def wf_object_row_def info_row_def split: sum.splits)

lemma itoa_nat_length: "n < 10 ^ k \<Longrightarrow> 0 < k \<Longrightarrow> length (itoa_nat n) \<le> k"
proof (induction n arbitrary: k rule: itoa_nat.induct)
  case (1 n)
  show ?case
  proof (cases "n < 10")
    case True
    then show ?thesis using 1(3) by (subst itoa_nat.simps) simp
  next
    case False
    with 1(2,3) obtain j where k: "k = Suc j" "0 < j" by (cases k; cases "k - 1") auto
    with 1(2) have "n div 10 < 10 ^ j" by (simp add: less_mult_imp_div_less mult.commute)
    with 1(1) [OF False this k(2)] False k(1) show ?thesis by (subst itoa_nat.simps) simp
  qed
qed

lemma itoa_length:
  assumes "- (2 ^ 63) \<le> i" "i < 2 ^ 63"
  shows "length (itoa i) \<le> 21"
proof -
  from assms have "nat (- i) < 10 ^ 20" "nat i < 10 ^ 20" by simp_all
  then show ?thesis
    using itoa_nat_length [of "nat (- i)" 20] itoa_nat_length [of "nat i" 20] by (auto simp: itoa_def)
qed

lemma fits_info_row:
  assumes "resolvable store oid"
  shows "fits_line (object_info_line sz (info_row store oid))"
proof -
  from assms obtain h where h: "ParseHexAs (st_Algo store) oid = Inr h"
    by (auto simp: resolvable_def split: sum.splits)
  note l = ParseHexAs_length [OF h]
  show ?thesis
    using assms h l itoa_length
    by (auto simp: resolvable_def fits_line_def object_info_line_def info_row_def MaxPayload_def split: sum.splits) force+
qed

lemma emitObjectInfoLine_send:
  assumes "unbounded w" "resolvable store oid"
  shows "emitObjectInfoLine store sz oid w = (None, send [line_packet (object_info_line sz (info_row store oid))] w)"
proof -
  from assms(2) obtain h where h: "ParseHexAs (st_Algo store) oid = Inr h"
    by (auto simp: resolvable_def split: sum.splits)
  note wr = WritePacket_line_send [OF assms(1) fits_info_row [OF assms(2), of sz]]
  show ?thesis
  proof (cases "st_ObjectInfo store h")
    case (Inl e)
    with assms(2) h have "errors_Is e os_ErrNotExist" by (simp add: resolvable_def)
    with Inl h wr show ?thesis
      by (auto simp: emitObjectInfoLine_def info_row_def object_info_line_def)
  next
    case (Inr info)
    with h wr show ?thesis
      by (auto simp: emitObjectInfoLine_def info_row_def object_info_line_def)
  qed
qed

lemma writeObjectInfoResponse_send:
  assumes "unbounded w" "list_all (resolvable store) oids"
  shows "after (writeObjectInfoResponse w store args oids) (\<lambda>w. wrap_err msg (WriteFlush w)) =
    (None, send (object_info_response (oa_Size args) (map (info_row store) oids)) w)"
proof (cases oids)
  case Nil
  with assms(1) show ?thesis by (simp add: writeObjectInfoResponse_def object_info_response_def)
next
  case (Cons oid rest)
  have rows: "for_each (emitObjectInfoLine store sz) oids w' =
      (None, send (map line_packet (map (\<lambda>oid. object_info_line sz (info_row store oid)) oids)) w')"
    if "unbounded w'" for sz w'
    using assms(2) that for_each_send [where g = "\<lambda>oid. [line_packet (object_info_line sz (info_row store oid))]"
      and xs = oids and f = "emitObjectInfoLine store sz", OF that]
    by (simp add: emitObjectInfoLine_send list_all_iff comp_def)
  have "fits_line ''size''" by (simp add: fits_line_def MaxPayload_def)
  with assms(1) have "WritePacket w (''size'' @ [CHR 0x0A]) = (None, send [line_packet ''size''] w)"
    by (rule WritePacket_line_send)
  with assms(1) Cons rows [of w "oa_Size args"] rows [of "send [line_packet ''size''] w" "oa_Size args"] show ?thesis
    by (cases "oa_Size args")
      (simp_all add: writeObjectInfoResponse_def object_info_response_def comp_def del: for_each_eta)
qed

lemma handleObjectInfo_send:
  assumes "unbounded w" "list_all (resolvable store) oids"
    and "args_pending a = (map line_packet (object_info_lines args oids) @ flush_packet # ps, e)"
  obtains a' where "args_pending a' = (ps, e)" "handleObjectInfo a w store =
    ((None, send (object_info_response (oa_Size args) (map (info_row store) oids)) w), a')"
proof -
  obtain a' where "args_pending a' = (ps, e)" "parseObjectInfoArgs a w = ((Inr (args, oids), w), a')"
    using assms(3) by (rule parseObjectInfoArgs_request)
  then show thesis
    using writeObjectInfoResponse_send [OF assms(1,2)] by (intro that [of a']) (simp_all add: handleObjectInfo_def)
qed

end
