(* ===== verification/Server_Loop.thy ===== *)
theory Server_Loop
  imports Server_Commands
begin

text \<open>
  The server's v2 command loop and its entry points (\<open>src/internal/server/command_loop.go\<close>, \<open>serve.go\<close>).

  A request is read packet by packet (\<open>processV2_loop\<close>: capability and command lines up to a delimiter
  or a flush), then dispatched to a handler between two \<open>CommandEvent\<close>s. The loop asks its context
  before every request; the context is the function \<open>ctx\<close> from the number of the request to the
  answer of \<open>ctx.Err()\<close>. Every request that lets the loop go on consumes input, so it terminates.

  A result is the flag \<open>cont\<close> with the error, the writer, the reader and the events.

  The properties: a sequence of client requests is answered in order and the loop ends cleanly; the
  errors of malformed requests, and that these write nothing; what an unknown command is answered;
  that the events bracket the commands and carry their errors.
\<close>

section \<open>Events\<close>

datatype CommandPhase = CommandStart | CommandEnd

record CommandEvent =
  ce_Name :: string
  ce_Phase :: CommandPhase
  ce_Err :: "go_error option"

text \<open>\<open>runCommand\<close>, given the result of \<open>fn()\<close>.\<close>

definition runCommand ::
  "string \<Rightarrow> (go_error option \<times> Writer) \<times> argsReader \<Rightarrow> ((go_error option \<times> Writer) \<times> argsReader) \<times> CommandEvent list" where
  "runCommand name result =
     (result, [\<lparr>ce_Name = name, ce_Phase = CommandStart, ce_Err = None\<rparr>,
               \<lparr>ce_Name = name, ce_Phase = CommandEnd, ce_Err = fst (fst result)\<rparr>])"

section \<open>One request\<close>

definition commandPrefix :: string where
  "commandPrefix = ''command=''"

definition dispatchV2 ::
  "argsReader \<Rightarrow> Writer \<Rightarrow> Store \<Rightarrow> string \<Rightarrow> ((go_error option \<times> Writer) \<times> argsReader) \<times> CommandEvent list" where
  "dispatchV2 r w store commandName =
     (if commandName = [] then (((Some (New ''server: v2 request had no command line''), w), r), [])
      else if commandName = ''ls-refs'' then runCommand commandName (handleLSRefs r w store)
      else if commandName = ''object-info'' then runCommand commandName (handleObjectInfo r w store)
      else ((after (writeERRPacket w ''command not supported'') (\<lambda>w.
               (Some (Wrapf [] ErrServerRefused '': command not supported''), w)), r), []))"

type_synonym request_result = "(bool \<times> go_error option) \<times> Writer \<times> Reader \<times> CommandEvent list"

definition dispatched ::
  "((go_error option \<times> Writer) \<times> argsReader) \<times> CommandEvent list \<Rightarrow> request_result" where
  "dispatched res = (case res of (((err, w), a), evs) \<Rightarrow> ((True, err), w, ar_r a, evs))"

text \<open>The command name after a data packet, or the error of a second command.\<close>

definition command_line :: "string \<Rightarrow> string \<Rightarrow> go_error + string" where
  "command_line commandName data = (case CutPrefix (trimTrailingLF data) commandPrefix of
      Some name \<Rightarrow>
        if commandName \<noteq> [] then
          Inl (New (''server: command '' @ quote name @ '' requested after command '' @ quote commandName))
        else Inr name
    | None \<Rightarrow> Inr commandName)"

function processV2_loop :: "Writer \<Rightarrow> Store \<Rightarrow> Reader \<Rightarrow> Packet \<Rightarrow> string \<Rightarrow> bool \<Rightarrow> request_result" where
  "processV2_loop w store r pkt commandName seenCmdOrCap = (case pkt_Kind pkt of
      Flush \<Rightarrow>
        if \<not> seenCmdOrCap then ((False, None), w, r, [])
        else dispatched (dispatchV2 \<lparr>ar_r = r, ar_pending = Some pkt\<rparr> w store commandName)
    | Delim \<Rightarrow> dispatched (dispatchV2 \<lparr>ar_r = r, ar_pending = None\<rparr> w store commandName)
    | ResponseEnd \<Rightarrow> ((False, Some (New ''server: unexpected response-end packet in v2 request'')), w, r, [])
    | Data \<Rightarrow> (case command_line commandName (pkt_Data pkt) of
          Inl e \<Rightarrow> ((False, Some e), w, r, [])
        | Inr name \<Rightarrow> (case ReadPacket r of
              (Inl e, r') \<Rightarrow> ((False, Some (Wrapf ''server: read v2 request: '' e [])), w, r', [])
            | (Inr next, r') \<Rightarrow> processV2_loop w store r' next name True)))"
  by pat_completeness auto
termination
  by (relation "measure (\<lambda>(_, _, r, _). length (src_rest (rd_src r)))") (auto dest: ReadPacket_decreases sym)

declare processV2_loop.simps [simp del]

definition processV2Request :: "Reader \<Rightarrow> Writer \<Rightarrow> Store \<Rightarrow> request_result" where
  "processV2Request r w store = (case ReadPacket r of
      (Inl e, r') \<Rightarrow>
        if errors_Is e io_EOF then ((False, None), w, r', [])
        else ((False, Some (Wrapf ''server: read v2 request: '' e [])), w, r', [])
    | (Inr pkt, r') \<Rightarrow> processV2_loop w store r' pkt [] False)"

section \<open>Requests consume input\<close>

abbreviation unread :: "Reader \<Rightarrow> nat" where
  "unread r \<equiv> length (src_rest (rd_src r))"

lemma ReadPacket_le: "ReadPacket r = (x, r') \<Longrightarrow> unread r' \<le> unread r"
  by (auto simp: ReadPacket_def readPacket_def readPacket_body_def io_ReadFull_def
      split: prod.splits sum.splits option.splits if_splits)

lemma args_ReadPacket_le: "args_ReadPacket a = (x, a') \<Longrightarrow> unread (ar_r a') \<le> unread (ar_r a)"
  using ReadPacket_le by (auto simp: args_ReadPacket_def split: option.splits prod.splits)

lemma parseLSRefsArgs_loop_le: "unread (ar_r (snd (parseLSRefsArgs_loop w a args))) \<le> unread (ar_r a)"
proof (induction w a args rule: parseLSRefsArgs_loop.induct)
  case (1 w a args)
  obtain x a' where a': "args_ReadPacket a = (x, a')" by (cases "args_ReadPacket a")
  show ?case
  proof (cases x)
    case (Inl e)
    then show ?thesis using args_ReadPacket_le [OF a'] by (subst parseLSRefsArgs_loop.simps) (simp add: a')
  next
    case (Inr p)
    show ?thesis
      using args_ReadPacket_le [OF a'] 1 [OF a' [symmetric] Inr] a' Inr
      by (subst parseLSRefsArgs_loop.simps) (auto simp: Let_def split: option.splits intro: order_trans)
  qed
qed

lemma parseObjectInfoArgs_loop_le: "unread (ar_r (snd (parseObjectInfoArgs_loop a acc))) \<le> unread (ar_r a)"
proof (induction a acc rule: parseObjectInfoArgs_loop.induct)
  case (1 a acc)
  obtain x a' where a': "args_ReadPacket a = (x, a')" by (cases "args_ReadPacket a")
  show ?case
  proof (cases x)
    case (Inl e)
    then show ?thesis using args_ReadPacket_le [OF a'] by (subst parseObjectInfoArgs_loop.simps) (simp add: a')
  next
    case (Inr p)
    show ?thesis
      using args_ReadPacket_le [OF a'] 1 [OF a' [symmetric] Inr] a' Inr
      by (subst parseObjectInfoArgs_loop.simps) (auto split: option.splits prod.splits intro: order_trans)
  qed
qed

lemma dispatchV2_le: "dispatchV2 a w store name = (((err, w'), a'), evs) \<Longrightarrow> unread (ar_r a') \<le> unread (ar_r a)"
  using parseLSRefsArgs_loop_le [of w a empty_RefsArgs] parseObjectInfoArgs_loop_le [of a "(\<lparr>oa_Size = False\<rparr>, [], w)"]
  by (auto simp: dispatchV2_def runCommand_def handleLSRefs_def handleObjectInfo_def parseLSRefsArgs_def
      parseObjectInfoArgs_def split: if_splits prod.splits sum.splits)

lemma processV2_loop_le: "processV2_loop w store r p name seen = (c, w', r', evs) \<Longrightarrow> unread r' \<le> unread r"
proof (induction w store r p name seen rule: processV2_loop.induct)
  case (1 w store r p name seen)
  then show ?case
    using dispatchV2_le ReadPacket_le
    by (subst (asm) (2) processV2_loop.simps)
      (fastforce simp: dispatched_def split: Kind.splits if_splits prod.splits sum.splits dest: order_trans)
qed

section \<open>The loop\<close>

lemma processV2Request_decreases:
  "processV2Request r w store = ((True, err), w', r', evs) \<Longrightarrow> unread r' < unread r"
  using ReadPacket_decreases processV2_loop_le
  by (fastforce simp: processV2Request_def split: prod.splits sum.splits if_splits)

function runV2CommandLoop ::
  "(nat \<Rightarrow> go_error option) \<Rightarrow> nat \<Rightarrow> Reader \<Rightarrow> Writer \<Rightarrow> Store \<Rightarrow> CommandEvent list \<Rightarrow>
   go_error option \<times> Writer \<times> Reader \<times> CommandEvent list" where
  "runV2CommandLoop ctx n r w store evs = (case ctx n of
      Some e \<Rightarrow> (Some e, w, r, evs)
    | None \<Rightarrow> (case processV2Request r w store of ((cont, err), w', r', evs') \<Rightarrow>
        (case err of
           Some e \<Rightarrow> (Some e, w', r', evs @ evs')
         | None \<Rightarrow> if \<not> cont then (None, w', r', evs @ evs')
                  else runV2CommandLoop ctx (n + 1) r' w' store (evs @ evs'))))"
  by pat_completeness auto
termination
  by (relation "measure (\<lambda>(_, _, r, _). unread r)") (auto dest: processV2Request_decreases sym)

declare runV2CommandLoop.simps [simp del]

definition server_ErrUnsupportedProtocol :: go_error where
  "server_ErrUnsupportedProtocol = Sentinel ''server: unsupported preferred protocol''"

definition ServeCommandLoop ::
  "(nat \<Rightarrow> go_error option) \<Rightarrow> Reader \<Rightarrow> Writer \<Rightarrow> Store \<Rightarrow> go_error option \<times> Writer \<times> Reader \<times> CommandEvent list" where
  "ServeCommandLoop ctx r w store = runV2CommandLoop ctx 0 r w store []"

definition Serve ::
  "(nat \<Rightarrow> go_error option) \<Rightarrow> Reader \<Rightarrow> Writer \<Rightarrow> Store \<Rightarrow> Options \<Rightarrow>
   go_error option \<times> Writer \<times> Reader \<times> CommandEvent list" where
  "Serve ctx r w store opts =
     (if opt_PreferredProtocol opts = ProtocolV2 then
        (case writeV2Advertisement w store opts of
           (Some e, w') \<Rightarrow> (Some e, w', r, [])
         | (None, w') \<Rightarrow> runV2CommandLoop ctx 0 r w' store [])
      else if opt_PreferredProtocol opts = ProtocolV0 then
        (case writeV0Advertisement w store opts of (e, w') \<Rightarrow> (e, w', r, []))
      else (Some (Wrapf [] server_ErrUnsupportedProtocol ('': '' @ ProtocolVersion_String (opt_PreferredProtocol opts))),
            w, r, []))"

section \<open>Requests answered\<close>

text \<open>A capability line of a request: any line that is not a command.\<close>

definition cap_line :: "string \<Rightarrow> bool" where
  "cap_line s \<longleftrightarrow> \<not> HasPrefix s commandPrefix"

text \<open>
  From a request frame's first packet to the dispatch: the loop arrives at the delimiter with the
  command's name and the argument packets pending.
\<close>

lemma command_line_cap: "cap_line s \<Longrightarrow> command_line name (s @ [CHR 0x0A]) = Inr name"
  by (simp add: command_line_def cap_line_def CutPrefix_def)

lemma processV2_caps:
  assumes "list_all cap_line caps" "pending r = (map line_packet (tl caps) @ delim_packet # ps, e)" "caps \<noteq> []"
  obtains r' where "pending r' = (ps, e)"
    "processV2_loop w store r (line_packet (hd caps)) name seen =
      dispatched (dispatchV2 \<lparr>ar_r = r', ar_pending = None\<rparr> w store name)"
  using assms
proof (induction caps arbitrary: r seen thesis)
  case (Cons c caps)
  have c: "command_line name (c @ [CHR 0x0A]) = Inr name" using Cons.prems(2) by (simp add: command_line_cap)
  show ?case
  proof (cases caps)
    case Nil
    with Cons.prems(3) obtain r' where "ReadPacket r = (Inr delim_packet, r')" "pending r' = (ps, e)"
      by (auto elim: reader.next_packet)
    with c show ?thesis
      by (intro Cons.prems(1) [of r']) (simp_all add: processV2_loop.simps)
  next
    case (Cons d ds)
    with Cons.prems(3) obtain r1 where r1: "ReadPacket r = (Inr (line_packet d), r1)"
      "pending r1 = (map line_packet ds @ delim_packet # ps, e)"
      by (auto elim: reader.next_packet)
    from Cons.IH [where r = r1 and seen = True] Cons.prems(2) Cons r1(2) obtain r' where "pending r' = (ps, e)"
      "processV2_loop w store r1 (line_packet d) name True =
        dispatched (dispatchV2 \<lparr>ar_r = r', ar_pending = None\<rparr> w store name)"
      by auto
    with c r1(1) show ?thesis
      by (intro Cons.prems(1) [of r']) (simp_all add: processV2_loop.simps [of w store r])
  qed
qed simp

lemma command_line_command: "command_line [] ((''command='' @ name) @ [CHR 0x0A]) = Inr name"
  unfolding command_line_def trimTrailingLF_line commandPrefix_def by simp

lemma processV2Request_frame:
  assumes "list_all cap_line caps" "pending r = (request_frame name caps lines @ ps, e)" "name \<noteq> []"
  obtains r' where "pending r' = (map line_packet lines @ flush_packet # ps, e)"
    "processV2Request r w store = dispatched (dispatchV2 \<lparr>ar_r = r', ar_pending = None\<rparr> w store name)"
proof -
  let ?cmd = "line_packet (''command='' @ name)" and ?rest = "map line_packet lines @ flush_packet # ps"
  from assms(2) have "pending r = (?cmd # map line_packet caps @ delim_packet # ?rest, e)"
    by (simp add: request_frame_def)
  then obtain r1 where r1: "ReadPacket r = (Inr ?cmd, r1)" "pending r1 = (map line_packet caps @ delim_packet # ?rest, e)"
    by (rule reader.next_packet)
  have step: "processV2Request r w store = (case ReadPacket r1 of
      (Inl e, r') \<Rightarrow> ((False, Some (Wrapf ''server: read v2 request: '' e [])), w, r', [])
    | (Inr next, r') \<Rightarrow> processV2_loop w store r' next name True)"
    unfolding processV2Request_def r1(1) prod.case sum.case processV2_loop.simps [of w store r1]
      packet_simps Kind.case command_line_command ..
  show thesis
  proof (cases caps)
    case Nil
    with r1(2) obtain r2 where "ReadPacket r1 = (Inr delim_packet, r2)" "pending r2 = (?rest, e)"
      by (auto elim: reader.next_packet)
    with step show thesis by (intro that [of r2]) (simp_all add: processV2_loop.simps)
  next
    case (Cons c cs)
    with r1(2) obtain r2 where r2: "ReadPacket r1 = (Inr (line_packet c), r2)"
      "pending r2 = (map line_packet cs @ delim_packet # ?rest, e)"
      by (auto elim: reader.next_packet)
    from processV2_caps [OF assms(1), of r2 ?rest e w store name True] Cons r2(2) obtain r' where
      "pending r' = (?rest, e)" "processV2_loop w store r2 (line_packet c) name True =
        dispatched (dispatchV2 \<lparr>ar_r = r', ar_pending = None\<rparr> w store name)" by auto
    with step r2(1) show thesis by (intro that [of r']) simp_all
  qed
qed

text \<open>A handler never leaves the pushed-back packet behind: its first read takes it.\<close>

lemma args_ReadPacket_pending: "args_ReadPacket a = (x, a') \<Longrightarrow> ar_pending a' = None"
  by (auto simp: args_ReadPacket_def split: option.splits prod.splits)

lemma parseLSRefsArgs_loop_pending: "ar_pending (snd (parseLSRefsArgs_loop w a args)) = None"
proof (induction w a args rule: parseLSRefsArgs_loop.induct)
  case (1 w a args)
  obtain x a' where a': "args_ReadPacket a = (x, a')" by (cases "args_ReadPacket a")
  show ?case
  proof (cases x)
    case (Inl e)
    then show ?thesis using args_ReadPacket_pending [OF a'] by (subst parseLSRefsArgs_loop.simps) (simp add: a')
  next
    case (Inr p)
    show ?thesis
      using args_ReadPacket_pending [OF a'] 1 [OF a' [symmetric] Inr] a' Inr
      by (subst parseLSRefsArgs_loop.simps) (auto simp: Let_def split: option.splits)
  qed
qed

lemma parseObjectInfoArgs_loop_pending: "ar_pending (snd (parseObjectInfoArgs_loop a acc)) = None"
proof (induction a acc rule: parseObjectInfoArgs_loop.induct)
  case (1 a acc)
  obtain x a' where a': "args_ReadPacket a = (x, a')" by (cases "args_ReadPacket a")
  show ?case
  proof (cases x)
    case (Inl e)
    then show ?thesis using args_ReadPacket_pending [OF a'] by (subst parseObjectInfoArgs_loop.simps) (simp add: a')
  next
    case (Inr p)
    show ?thesis
      using args_ReadPacket_pending [OF a'] 1 [OF a' [symmetric] Inr] a' Inr
      by (subst parseObjectInfoArgs_loop.simps) (auto split: option.splits prod.splits)
  qed
qed

lemma handler_consumes:
  "handleLSRefs a w store = (res, a') \<Longrightarrow> ar_pending a' = None"
  "handleObjectInfo a w store = (res, a') \<Longrightarrow> ar_pending a' = None"
  using parseLSRefsArgs_loop_pending [of w a empty_RefsArgs]
    parseObjectInfoArgs_loop_pending [of a "(\<lparr>oa_Size = False\<rparr>, [], w)"]
  by (auto simp: handleLSRefs_def handleObjectInfo_def parseLSRefsArgs_def parseObjectInfoArgs_def
      split: prod.splits sum.splits)

text \<open>The requests the server answers, as frames, and their answers.\<close>

datatype Request =
    LsRefs RefsArgs bool
  | ObjectInfo ObjectInfoArgs "string list"

primrec request_name :: "Request \<Rightarrow> string" where
  "request_name (LsRefs args u) = ''ls-refs''"
| "request_name (ObjectInfo args oids) = ''object-info''"

primrec request_lines :: "Request \<Rightarrow> string list" where
  "request_lines (LsRefs args u) = ls_refs_lines args u"
| "request_lines (ObjectInfo args oids) = object_info_lines args oids"

definition effective_args :: "RefsArgs \<Rightarrow> bool \<Rightarrow> RefsArgs" where
  "effective_args args u = args\<lparr>ra_Unborn := ra_Unborn args \<and> u\<rparr>"

primrec answer :: "Store \<Rightarrow> Head \<Rightarrow> RefEntry list \<Rightarrow> Request \<Rightarrow> Packet list" where
  "answer store head refs (LsRefs args u) =
     map (\<lambda>r. line_packet (v2_ref_line r)) (ls_refs_answer store head refs (effective_args args u)) @ [flush_packet]"
| "answer store head refs (ObjectInfo args oids) =
     object_info_response (oa_Size args) (map (info_row store) oids)"

primrec can_answer :: "Store \<Rightarrow> Head \<Rightarrow> RefEntry list \<Rightarrow> Request \<Rightarrow> bool" where
  "can_answer store head refs (LsRefs args u) = answerable store head refs (effective_args args u)"
| "can_answer store head refs (ObjectInfo args oids) = list_all (resolvable store) oids"

definition command_events :: "string \<Rightarrow> go_error option \<Rightarrow> CommandEvent list" where
  "command_events name err = [\<lparr>ce_Name = name, ce_Phase = CommandStart, ce_Err = None\<rparr>,
     \<lparr>ce_Name = name, ce_Phase = CommandEnd, ce_Err = err\<rparr>]"

lemma processV2Request_answers:
  assumes "unbounded w" "list_all cap_line caps" "can_answer store head refs q"
    and "pending r = (request_frame (request_name q) caps (request_lines q) @ ps, e)"
  obtains r' where "pending r' = (ps, e)" "processV2Request r w store =
    ((True, None), send (answer store head refs q) w, r', command_events (request_name q) None)"
proof -
  have "request_name q \<noteq> []" by (cases q) simp_all
  with assms(2,4) obtain r1 where r1: "pending r1 = (map line_packet (request_lines q) @ flush_packet # ps, e)"
    "processV2Request r w store = dispatched (dispatchV2 \<lparr>ar_r = r1, ar_pending = None\<rparr> w store (request_name q))"
    by (rule processV2Request_frame)
  let ?a = "\<lparr>ar_r = r1, ar_pending = None\<rparr>"
  from r1(1) have p: "args_pending ?a = (map line_packet (request_lines q) @ flush_packet # ps, e)"
    by (simp add: args_pending_def)
  show thesis
  proof (cases q)
    case (LsRefs args u)
    from assms(3) LsRefs have "answerable store head refs (args\<lparr>ra_Unborn := ra_Unborn args \<and> u\<rparr>)"
      by (simp add: effective_args_def)
    from handleLSRefs_send [OF assms(1) this, of ?a ps e] p LsRefs obtain a' where a': "args_pending a' = (ps, e)"
      "handleLSRefs ?a w store = ((None, send (answer store head refs q) w), a')"
      by (auto simp: effective_args_def)
    then have "dispatchV2 ?a w store (request_name q) =
        (((None, send (answer store head refs q) w), a'), command_events (request_name q) None)"
      using LsRefs by (simp add: dispatchV2_def runCommand_def command_events_def)
    with r1(2) a' handler_consumes(1) [OF a'(2)] show thesis
      by (intro that [of "ar_r a'"]) (simp_all add: dispatched_def args_pending_def split: prod.splits)
  next
    case (ObjectInfo args oids)
    from handleObjectInfo_send [OF assms(1), of store oids ?a args ps e] assms(3) p ObjectInfo obtain a' where
      a': "args_pending a' = (ps, e)"
      "handleObjectInfo ?a w store = ((None, send (answer store head refs q) w), a')" by auto
    then have "dispatchV2 ?a w store (request_name q) =
        (((None, send (answer store head refs q) w), a'), command_events (request_name q) None)"
      using ObjectInfo by (simp add: dispatchV2_def runCommand_def command_events_def)
    with r1(2) a' handler_consumes(2) [OF a'(2)] show thesis
      by (intro that [of "ar_r a'"]) (simp_all add: dispatched_def args_pending_def split: prod.splits)
  qed
qed

lemma command_loop_run:
  assumes "unbounded w" "list_all cap_line caps" "list_all (can_answer store head refs) qs" "errors_Is e io_EOF"
    and "pending r = (concat (map (\<lambda>q. request_frame (request_name q) caps (request_lines q)) qs), e)"
  shows "\<exists>r'. runV2CommandLoop (\<lambda>_. None) n r w store evs =
    (None, send (concat (map (answer store head refs) qs)) w, r',
     evs @ concat (map (\<lambda>q. command_events (request_name q) None) qs))"
  using assms
proof (induction qs arbitrary: n r w evs)
  case Nil
  then obtain r' where "ReadPacket r = (Inl e, r')" by (auto elim: reader.last_error)
  with Nil.prems(4) show ?case
    by (subst runV2CommandLoop.simps) (simp add: processV2Request_def)
next
  case (Cons q qs)
  let ?rest = "concat (map (\<lambda>q. request_frame (request_name q) caps (request_lines q)) qs)"
  from Cons.prems(5) have p: "pending r = (request_frame (request_name q) caps (request_lines q) @ ?rest, e)" by simp
  from Cons.prems(3) have q: "can_answer store head refs q" by simp
  obtain r1 where r1: "pending r1 = (?rest, e)" "processV2Request r w store =
      ((True, None), send (answer store head refs q) w, r1, command_events (request_name q) None)"
    using Cons.prems(1,2) q p by (rule processV2Request_answers)
  from Cons.IH [where n = "n + 1" and r = r1 and w = "send (answer store head refs q) w" and evs =
      "evs @ command_events (request_name q) None"] Cons.prems r1(1) obtain r' where
    "runV2CommandLoop (\<lambda>_. None) (n + 1) r1 (send (answer store head refs q) w) store
        (evs @ command_events (request_name q) None) =
      (None, send (concat (map (answer store head refs) qs)) (send (answer store head refs q) w), r',
       (evs @ command_events (request_name q) None) @ concat (map (\<lambda>q. command_events (request_name q) None) qs))"
    by auto
  with r1(2) show ?case by (subst runV2CommandLoop.simps) simp
qed

section \<open>Requests refused\<close>

lemma dispatched_cont: "dispatched res = ((c, err), w', r', evs) \<Longrightarrow> c"
  by (auto simp: dispatched_def split: prod.splits)

lemma processV2_loop_stop:
  "processV2_loop w store r p name seen = ((False, err), w', r', evs) \<Longrightarrow> w' = w \<and> evs = []"
proof (induction w store r p name seen rule: processV2_loop.induct)
  case (1 w store r p name seen)
  then show ?case
    by (subst (asm) (2) processV2_loop.simps)
      (auto split: Kind.splits if_splits prod.splits sum.splits dest: dispatched_cont)
qed

lemma writeERRPacket_send:
  assumes "unbounded w" "fits_line (''ERR '' @ msg)"
  shows "writeERRPacket w msg = (None, send [line_packet (''ERR '' @ msg), flush_packet] w)"
proof -
  have "WritePacket w ((''ERR '' @ msg) @ [CHR 0x0A]) = (None, send [line_packet (''ERR '' @ msg)] w)"
    using assms by (rule WritePacket_line_send)
  then have "WritePacket w (''ERR '' @ msg @ [CHR 0x0A]) = (None, send [line_packet (''ERR '' @ msg)] w)" by simp
  with assms(1) show ?thesis by (simp add: writeERRPacket_def)
qed

lemma CheckERRPacket_ERR: "CheckERRPacket (''ERR '' @ msg) = Some (Wrapf [] ErrServerRefused ('': '' @ TrimSuffix msg [CHR 0x0A]))"
  unfolding CheckERRPacket_def CutPrefix_append by simp

lemma ls_refs_items_ERR:
  "ls_refs_items e (line_packet (''ERR '' @ msg) # ps) =
    [(empty_RawRef, Some (Wrapf [] ErrServerRefused ('': '' @ TrimSuffix msg [CHR 0x0A])))]"
proof -
  have "TrimSuffix ((''ERR '' @ msg) @ [CHR 0x0A]) [CHR 0x0A] = ''ERR '' @ msg" by (rule TrimSuffix_append)
  then show ?thesis unfolding ls_refs_items.simps packet_simps by (simp only: CheckERRPacket_ERR) simp
qed

section \<open>The trace of a run\<close>

text \<open>A trace that is right for a run that ended with \<open>err\<close>.\<close>

inductive bracketed :: "go_error option \<Rightarrow> CommandEvent list \<Rightarrow> bool" for err where
  stop: "bracketed err []"
| failed: "name \<in> {''ls-refs'', ''object-info''} \<Longrightarrow> err = Some e \<Longrightarrow> bracketed err (command_events name err)"
| answered: "name \<in> {''ls-refs'', ''object-info''} \<Longrightarrow> bracketed err evs \<Longrightarrow>
    bracketed err (command_events name None @ evs)"

definition one_command :: "go_error option \<Rightarrow> CommandEvent list \<Rightarrow> bool" where
  "one_command err evs \<longleftrightarrow> evs = [] \<or>
     evs = command_events ''ls-refs'' err \<or> evs = command_events ''object-info'' err"

lemma one_command_Nil [simp]: "one_command err []"
  by (simp add: one_command_def)

lemma dispatchV2_events: "dispatchV2 a w store name = (((err, w'), a'), evs) \<Longrightarrow> one_command err evs"
  by (auto simp: dispatchV2_def runCommand_def one_command_def command_events_def split: if_splits)

lemma dispatched_events: "dispatched (dispatchV2 a w store name) = ((c, err), w', r', evs) \<Longrightarrow> one_command err evs"
  using dispatchV2_events by (fastforce simp: dispatched_def split: prod.splits)

lemma processV2_loop_events:
  "processV2_loop w store r p name seen = ((c, err), w', r', evs) \<Longrightarrow> one_command err evs"
proof (induction w store r p name seen rule: processV2_loop.induct)
  case (1 w store r p name seen)
  then show ?case
    by (subst (asm) (2) processV2_loop.simps)
      (auto split: Kind.splits if_splits prod.splits sum.splits dest: dispatched_events)
qed

lemma processV2Request_events:
  "processV2Request r w store = ((c, err), w', r', evs) \<Longrightarrow> one_command err evs"
  by (auto simp: processV2Request_def split: prod.splits sum.splits if_splits dest: processV2_loop_events)

lemma runV2CommandLoop_bracketed:
  "runV2CommandLoop ctx n r w store evs = (err, w', r', evs') \<Longrightarrow>
   \<exists>evs1. evs' = evs @ evs1 \<and> bracketed err evs1"
proof (induction ctx n r w store evs rule: runV2CommandLoop.induct)
  case (1 ctx n r w store evs)
  obtain cont err1 w1 r1 evs1 where req: "processV2Request r w store = ((cont, err1), w1, r1, evs1)"
    by (metis prod.exhaust)
  note one = processV2Request_events [OF req, unfolded one_command_def]
  show ?case
  proof (cases "ctx n")
    case (Some e)
    with 1(2) show ?thesis by (subst (asm) runV2CommandLoop.simps) (auto intro: bracketed.stop)
  next
    case None
    show ?thesis
    proof (cases err1)
      case (Some e)
      with None 1(2) req have "err = Some e" "evs' = evs @ evs1"
        by (simp_all add: runV2CommandLoop.simps [of ctx n r])
      with Some one show ?thesis
        by (intro exI [of _ evs1] conjI) (auto intro: bracketed.stop bracketed.failed)
    next
      case ok: None
      show ?thesis
      proof (cases cont)
        case False
        with None ok 1(2) req have "evs' = evs @ evs1" by (simp add: runV2CommandLoop.simps [of ctx n r])
        with ok one show ?thesis
          using bracketed.answered [of _ err "[]"] bracketed.stop by fastforce
      next
        case True
        with None ok 1(2) req have "runV2CommandLoop ctx (n + 1) r1 w1 store (evs @ evs1) = (err, w', r', evs')"
          by (simp add: runV2CommandLoop.simps [of ctx n r])
        with 1(1) [OF None] req ok True obtain evs2 where "evs' = (evs @ evs1) @ evs2" "bracketed err evs2"
          by fastforce
        with ok one show ?thesis
          using bracketed.answered [of _ err evs2] by fastforce
      qed
    qed
  qed
qed

inductive_simps bracketed_simps [simp]: "bracketed err []" "bracketed None (ev # evs)"

section \<open>Properties\<close>

text \<open>C9: Whatever requests a client pipelines, the command loop answers each of them in order with its
  handler's response, brackets each by a start and an end event, and returns without an error when the
  client closes: it terminates and skips, repeats or reorders nothing.\<close>

theorem command_loop_answers:
  assumes "list_all cap_line caps" "list_all (can_answer store head refs) qs" "errors_Is e io_EOF"
    and "unbounded w"
    and "pending r = (concat (map (\<lambda>q. request_frame (request_name q) caps (request_lines q)) qs), e)"
  shows "\<exists>r'. ServeCommandLoop (\<lambda>_. None) r w store =
    (None, send (concat (map (answer store head refs) qs)) w, r',
     concat (map (\<lambda>q. command_events (request_name q) None) qs))"
  using command_loop_run [OF assms(4,1,2,3,5), of 0 "[]"] by (simp add: ServeCommandLoop_def)

theorem command_loop_answers_witness:
  "let store = \<lparr>st_Algo = SHA1, st_Head = Inr \<lparr>hd_Symref = ''refs/heads/m'', hd_OID = [], hd_Unborn = True\<rparr>,
         st_IterRefs = [], st_Peel = (\<lambda>_. Inr ([], False)), st_ObjectInfo = (\<lambda>_. Inl os_ErrNotExist)\<rparr>;
       req = request_frame ''ls-refs'' [''agent=x''] [''symrefs'', ''unborn''] @ request_frame ''object-info'' [''agent=x''] []
   in \<exists>w r' evs. ServeCommandLoop (\<lambda>_. None) (NewReader (source_of (stream req))) (NewWriter empty_sink) store =
       (None, w, r', evs) \<and>
     snk_out (wr_dst w) = stream [line_packet ''unborn HEAD symref-target:refs/heads/m'', flush_packet, flush_packet]"
proof -
  define head where "head = \<lparr>hd_Symref = ''refs/heads/m'', hd_OID = [], hd_Unborn = True\<rparr>"
  define store where "store = \<lparr>st_Algo = SHA1, st_Head = Inr head,
    st_IterRefs = [], st_Peel = (\<lambda>_. Inr ([], False)), st_ObjectInfo = (\<lambda>_. Inl os_ErrNotExist)\<rparr>"
  let ?args = "\<lparr>ra_Prefixes = [], ra_Peel = False, ra_Symrefs = True, ra_Unborn = True\<rparr>"
  let ?qs = "[LsRefs ?args True, ObjectInfo \<lparr>oa_Size = False\<rparr> []]"
  let ?req = "request_frame ''ls-refs'' [''agent=x''] [''symrefs'', ''unborn''] @ request_frame ''object-info'' [''agent=x''] []"
  have req: "concat (map (\<lambda>q. request_frame (request_name q) [''agent=x''] (request_lines q)) ?qs) = ?req"
    by (simp add: ls_refs_lines_def object_info_lines_def)
  have "list_all wf_packet ?req" by (simp add: request_frame_def MaxPayload_def)
  then have p: "pending (NewReader (source_of (stream ?req))) = (?req, io_EOF)" by (rule pending_NewReader)
  have ans: "ls_refs_answer store head [] (effective_args ?args True) =
      [\<lparr>ref_OID = [], ref_Name = ''HEAD'', ref_Peeled = [], ref_Symref = ''refs/heads/m'', ref_Unborn = True\<rparr>]"
    by (simp add: ls_refs_answer_def head_answer_def effective_args_def refMatch_def head_def)
  have line: "v2_ref_line \<lparr>ref_OID = [], ref_Name = ''HEAD'', ref_Peeled = [], ref_Symref = ''refs/heads/m'', ref_Unborn = True\<rparr>
      = ''unborn HEAD symref-target:refs/heads/m''"
    by (simp add: v2_ref_line_def v2_ref_tokens_def)
  have "no_space ''refs/heads/m''" by (rule no_space_ascii) (simp add: is_ascii_space_def)
  then have "answerable store head [] (effective_args ?args True)"
    unfolding answerable_def ans by (simp add: line fits_line_def MaxPayload_def store_def head_def effective_args_def del: no_space.simps)
  then have can: "list_all (can_answer store head []) ?qs" by simp
  have caps: "list_all cap_line [''agent=x'']" by (simp add: cap_line_def commandPrefix_def)
  from command_loop_answers [OF caps can errors_Is_refl unbounded_NewWriter, unfolded req, OF p] obtain r' where
    "ServeCommandLoop (\<lambda>_. None) (NewReader (source_of (stream ?req))) (NewWriter empty_sink) store =
      (None, send (concat (map (answer store head []) ?qs)) (NewWriter empty_sink), r',
       concat (map (\<lambda>q. command_events (request_name q) None) ?qs))" by blast
  moreover have "concat (map (answer store head []) ?qs) =
      [line_packet ''unborn HEAD symref-target:refs/heads/m'', flush_packet, flush_packet]"
    using ans line by (simp add: object_info_response_def)
  ultimately show ?thesis
    unfolding Let_def head_def [symmetric] store_def [symmetric] by (simp del: stream_simps)
qed

text \<open>A request that is not dispatched to a command leaves the wire and the trace alone: nothing is
  written for a missing or broken request, a second command line or a stray response end.\<close>

theorem undispatched_request_silent:
  assumes "processV2Request r w store = ((False, err), w', r', evs)"
  shows "w' = w \<and> evs = []"
  using assms processV2_loop_stop
  by (auto simp: processV2Request_def split: prod.splits sum.splits if_splits)

theorem undispatched_request_silent_witness:
  "\<forall>store. \<exists>e w' r' evs. processV2Request (NewReader (source_of (stream [line_packet ''command=a'', line_packet ''command=b''])))
      (NewWriter empty_sink) store = ((False, Some e), w', r', evs) \<and> w' = NewWriter empty_sink \<and> evs = []"
proof
  fix store
  let ?r = "NewReader (source_of (stream [line_packet ''command=a'', line_packet ''command=b'']))"
  let ?w = "NewWriter empty_sink"
  have "pending ?r = ([line_packet ''command=a'', line_packet ''command=b''], io_EOF)"
    by (rule pending_NewReader) (simp add: MaxPayload_def)
  then obtain r1 where r1: "ReadPacket ?r = (Inr (line_packet ''command=a''), r1)" "pending r1 = ([line_packet ''command=b''], io_EOF)"
    by (rule reader.next_packet)
  from r1(2) obtain r2 where r2: "ReadPacket r1 = (Inr (line_packet ''command=b''), r2)" by (rule reader.next_packet)
  have a: "command_line [] (''command=a'' @ [CHR 0x0A]) = Inr ''a''"
    unfolding command_line_def trimTrailingLF_line by (simp add: commandPrefix_def)
  obtain e where b: "command_line ''a'' (''command=b'' @ [CHR 0x0A]) = Inl e"
    unfolding command_line_def trimTrailingLF_line by (simp add: commandPrefix_def)
  have "processV2Request ?r ?w store = ((False, Some e), ?w, r2, [])"
    unfolding processV2Request_def r1(1) prod.case sum.case processV2_loop.simps [of ?w store r1] packet_simps Kind.case a
      r2 processV2_loop.simps [of ?w store r2] b ..
  with undispatched_request_silent [OF this] show "\<exists>e w' r' evs. processV2Request ?r ?w store = ((False, Some e), w', r', evs) \<and> w' = ?w \<and> evs = []" by blast
qed

text \<open>A request for a command the server does not know is answered by one \<open>ERR\<close> packet and a flush,
  ends the loop with the server-refused error, and the client's decoder reports that same refusal.\<close>

theorem unknown_command_refused:
  assumes "unbounded w" "list_all cap_line caps" "name \<notin> {[], ''ls-refs'', ''object-info''}"
    and "pending r = (request_frame name caps lines @ ps, e)"
  shows "\<exists>r' err. ServeCommandLoop (\<lambda>_. None) r w store =
      (Some err, send [line_packet ''ERR command not supported'', flush_packet] w, r', []) \<and>
    errors_Is err ErrServerRefused \<and>
    (\<exists>err'. ls_refs_items f [line_packet ''ERR command not supported'', flush_packet] = [(empty_RawRef, Some err')] \<and>
      error_text err' = error_text err)"
proof -
  from assms(3) have n: "name \<noteq> []" "name \<noteq> ''ls-refs''" "name \<noteq> ''object-info''" by auto
  obtain r1 where r1: "processV2Request r w store = dispatched (dispatchV2 \<lparr>ar_r = r1, ar_pending = None\<rparr> w store name)"
    using assms(2,4) n(1) by (rule processV2Request_frame)
  let ?err = "Wrapf [] ErrServerRefused '': command not supported''"
  have e: "''ERR command not supported'' = ''ERR '' @ ''command not supported''" by simp
  have "fits_line (''ERR '' @ ''command not supported'')" by (simp add: fits_line_def MaxPayload_def)
  then have "writeERRPacket w ''command not supported'' =
      (None, send [line_packet (''ERR '' @ ''command not supported''), flush_packet] w)"
    by (rule writeERRPacket_send [OF assms(1)])
  then have "processV2Request r w store = ((True, Some ?err),
      send [line_packet (''ERR '' @ ''command not supported''), flush_packet] w, r1, [])"
    using n by (simp add: r1 dispatchV2_def dispatched_def)
  then have run: "ServeCommandLoop (\<lambda>_. None) r w store =
      (Some ?err, send [line_packet (''ERR '' @ ''command not supported''), flush_packet] w, r1, [])"
    unfolding ServeCommandLoop_def by (subst runV2CommandLoop.simps) simp
  have "TrimSuffix ''command not supported'' [CHR 0x0A] = ''command not supported''"
    by (rule TrimSuffix_no) (simp add: HasSuffix_single)
  then have "ls_refs_items f [line_packet (''ERR '' @ ''command not supported''), flush_packet] = [(empty_RawRef, Some ?err)]"
    unfolding ls_refs_items_ERR by simp
  with run show ?thesis unfolding e by (intro exI conjI) simp_all
qed

theorem unknown_command_refused_witness:
  "\<forall>store. \<exists>w r' err. ServeCommandLoop (\<lambda>_. None) (NewReader (source_of (stream (request_frame ''fetch'' [] []))))
      (NewWriter empty_sink) store = (Some err, w, r', []) \<and>
    snk_out (wr_dst w) = stream [line_packet ''ERR command not supported'', flush_packet]"
  (is "\<forall>store. ?P store")
proof
  fix store
  have "pending (NewReader (source_of (stream (request_frame ''fetch'' [] [])))) = (request_frame ''fetch'' [] [] @ [], io_EOF)"
    by (subst pending_NewReader) (simp_all add: request_frame_def MaxPayload_def)
  with unknown_command_refused [OF unbounded_NewWriter, of "[]" "''fetch''" _ "[]" "[]" io_EOF store]
  show "?P store" by (fastforce simp del: stream_simps(2,3))
qed



text \<open>An \<open>ls-refs\<close> argument the server does not know is refused: exactly one \<open>ERR\<close> packet with the quoted
  argument and a flush are written, the handler reports the server-refused error, and the store is not asked.\<close>

theorem ls_refs_unknown_argument_refused:
  assumes "unbounded w" "bad \<notin> {''peel'', ''symrefs'', ''unborn''}" "\<not> HasPrefix bad ''ref-prefix ''"
    and "fits_line (''ERR '' @ ''ls-refs: unknown argument '' @ quote bad)"
    and "args_pending a = (map line_packet (ls_refs_lines args u) @ line_packet bad # ps, e)"
  shows "\<exists>a' err. handleLSRefs a w store = ((Some err,
      send [line_packet (''ERR '' @ ''ls-refs: unknown argument '' @ quote bad), flush_packet] w), a') \<and>
    errors_Is err ErrServerRefused"
proof -
  let ?msg = "''ls-refs: unknown argument '' @ quote bad"
  have bad: "ls_refs_arg acc bad = None" for acc
    using assms(2,3) by (simp add: ls_refs_arg_def CutPrefix_def)
  have "writeERRPacket w ?msg = (None, send [line_packet (''ERR '' @ ?msg), flush_packet] w)"
    using assms(1,4) by (rule writeERRPacket_send)
  then have ref: "refused w bad = (Inl (Wrapf [] ErrServerRefused ('': '' @ ?msg)),
      send [line_packet (''ERR '' @ ?msg), flush_packet] w)"
    unfolding refused_def refuseUnknownArg_def Let_def by simp
  have step: "ls_refs_arg_step w acc (line_packet bad) = Inl (refused w bad)" for acc
    unfolding ls_refs_arg_step_def packet_simps trimTrailingLF_line bad by simp
  have "fst (scan (ls_refs_arg_step w) fin acc (map line_packet ls @ line_packet bad # ps)) = refused w bad"
    if "\<forall>l\<in>set ls. \<forall>acc. \<exists>acc'. ls_refs_arg acc l = Some acc'" for ls acc and fin
    using that
  proof (induction ls arbitrary: acc)
    case Nil
    then show ?case by (simp add: step)
  next
    case (Cons l ls)
    then obtain acc' where "ls_refs_arg acc l = Some acc'" by (meson list.set_intros(1))
    from ls_refs_step_line [OF this, of w] Cons show ?case by simp
  qed
  moreover have "\<forall>l\<in>set (ls_refs_lines args u). \<forall>acc. \<exists>acc'. ls_refs_arg acc l = Some acc'"
  proof
    fix l assume "l \<in> set (ls_refs_lines args u)"
    then consider "l = ''peel''" | "l = ''symrefs''" | "l = ''unborn''" | p where "l = ''ref-prefix '' @ p"
      by (auto simp: ls_refs_lines_def simp del: append.simps split: if_splits)
    then show "\<forall>acc. \<exists>acc'. ls_refs_arg acc l = Some acc'"
      using ls_refs_arg_consts by cases blast+
  qed
  ultimately have "fst (parseLSRefsArgs a w) = refused w bad"
    unfolding parseLSRefsArgs_def using parseLSRefsArgs_refines(1) [OF assms(5)] by simp
  then have "handleLSRefs a w store = ((Some (Wrapf [] ErrServerRefused ('': '' @ ?msg)),
      send [line_packet (''ERR '' @ ?msg), flush_packet] w), snd (parseLSRefsArgs a w))"
    unfolding ref handleLSRefs_def by (simp add: split_beta)
  then show ?thesis by auto
qed

theorem ls_refs_unknown_argument_refused_witness:
  "\<forall>store. \<exists>a' err. handleLSRefs \<lparr>ar_r = NewReader (source_of (stream [line_packet ''symrefs'', line_packet ''size'', flush_packet])),
      ar_pending = None\<rparr> (NewWriter empty_sink) store = ((Some err,
      send [line_packet (''ERR '' @ ''ls-refs: unknown argument '' @ quote ''size''), flush_packet] (NewWriter empty_sink)), a') \<and>
    errors_Is err ErrServerRefused"
  (is "\<forall>store. ?P store")
proof
  fix store
  let ?args = "\<lparr>ra_Prefixes = [], ra_Peel = False, ra_Symrefs = True, ra_Unborn = False\<rparr>"
  let ?ps = "[line_packet ''symrefs'', line_packet ''size'', flush_packet]"
  have "pending (NewReader (source_of (stream ?ps))) = (?ps, io_EOF)"
    by (rule pending_NewReader) (simp add: MaxPayload_def)
  then have "args_pending \<lparr>ar_r = NewReader (source_of (stream ?ps)), ar_pending = None\<rparr> =
      (map line_packet (ls_refs_lines ?args True) @ line_packet ''size'' # [flush_packet], io_EOF)"
    by (simp add: args_pending_def ls_refs_lines_def del: stream_simps)
  moreover have "fits_line (''ERR '' @ ''ls-refs: unknown argument '' @ quote ''size'')"
    by (simp add: fits_line_def quote_def quote_char_def MaxPayload_def Let_def)
  ultimately show "?P store"
    by (intro ls_refs_unknown_argument_refused [where args = ?args and u = True]) simp_all
qed

end
