(* ===== verification/Session_Types.thy ===== *)
theory Session_Types
  imports Wire_Responses Wire_Advertisement
begin

text \<open>
  The public values of the library and their construction from wire values (\<open>src/types.go\<close>,
  \<open>src/request.go\<close>, \<open>src/convert.go\<close>). A nil slice that the documentation tells apart from an empty one
  (\<open>LSRefsArgs\<close>, \<open>ObjectInfoArgs\<close>) is an \<open>option\<close>; the map \<open>Raw\<close> is a partial function.
\<close>

section \<open>Values\<close>

record Ref =
  rf_Name :: string
  rf_Hash :: string
  rf_Peeled :: string
  rf_Symref :: string

record ObjectInfo =
  obj_Hash :: string
  obj_Size :: int

record Symref =
  sr_Name :: string
  sr_Target :: string

type_synonym ObjectFormat = string

definition ObjectFormatSHA1 :: ObjectFormat where "ObjectFormatSHA1 = ''sha1''"

record Capabilities =
  c_Version :: ProtocolVersion
  c_Agent :: string
  c_ObjectFormat :: ObjectFormat
  c_Commands :: "string list"
  c_LSRefsArgs :: "string list option"
  c_ObjectInfoArgs :: "string list option"
  c_Symrefs :: "Symref list"
  c_Raw :: "string \<rightharpoonup> string list"

record RefsRequest =
  rq_Prefixes :: "string list"
  rq_Peel :: bool
  rq_Symrefs :: bool
  rq_Unborn :: bool

record ObjectInfoRequest =
  oq_Size :: bool

definition empty_Ref :: Ref where
  "empty_Ref = \<lparr>rf_Name = [], rf_Hash = [], rf_Peeled = [], rf_Symref = []\<rparr>"

section \<open>Conversion\<close>

definition v2CommandNames :: "string list" where
  "v2CommandNames = [''ls-refs'', ''fetch'', ''object-info'', ''bundle-uri'']"

definition splitArgs :: "RawCapabilities \<Rightarrow> string \<Rightarrow> string list option" where
  "splitArgs raw name = (case caps_Get raw name of (val, ok) \<Rightarrow>
     if \<not> ok then None else if val = [] then Some [] else Some (Fields val))"

fun convert_commands :: "string list \<Rightarrow> RawCapabilities \<Rightarrow> string list" where
  "convert_commands cmds [] = cmds"
| "convert_commands cmds (rc # raw) =
     (if cap_Name rc \<notin> set v2CommandNames \<or> cap_Name rc \<in> set cmds then convert_commands cmds raw
      else convert_commands (cmds @ [cap_Name rc]) raw)"

fun convert_symrefs :: "Symref list \<Rightarrow> RawCapabilities \<Rightarrow> Symref list" where
  "convert_symrefs srs [] = srs"
| "convert_symrefs srs (rc # raw) =
     (if cap_Name rc \<noteq> ''symref'' then convert_symrefs srs raw
      else case Cut (cap_Value rc) (CHR '':'') of (name, target, ok) \<Rightarrow>
        if \<not> ok \<or> name = [] \<or> target = [] then convert_symrefs srs raw
        else convert_symrefs (srs @ [\<lparr>sr_Name = name, sr_Target = target\<rparr>]) raw)"

fun convert_raw :: "(string \<rightharpoonup> string list) \<Rightarrow> RawCapabilities \<Rightarrow> (string \<rightharpoonup> string list)" where
  "convert_raw rawMap [] = rawMap"
| "convert_raw rawMap (rc # raw) =
     convert_raw (rawMap(cap_Name rc \<mapsto> (case rawMap (cap_Name rc) of None \<Rightarrow> [] | Some vs \<Rightarrow> vs) @ [cap_Value rc])) raw"

definition convertCaps :: "RawCapabilities \<Rightarrow> ProtocolVersion \<Rightarrow> Capabilities" where
  "convertCaps raw v =
     \<lparr>c_Version = v,
      c_Agent = (case caps_Get raw ''agent'' of (agent, ok) \<Rightarrow> if ok then agent else []),
      c_ObjectFormat = (case caps_Get raw ''object-format'' of (fmt, ok) \<Rightarrow>
         if ok then fmt else if v \<noteq> ProtocolV2 then ObjectFormatSHA1 else []),
      c_Commands = (if v = ProtocolV2 then convert_commands [] raw else []),
      c_LSRefsArgs = splitArgs raw ''ls-refs'',
      c_ObjectInfoArgs = splitArgs raw ''object-info'',
      c_Symrefs = (if v \<noteq> ProtocolV2 then convert_symrefs [] raw else []),
      c_Raw = convert_raw Map.empty raw\<rparr>"

definition convertRef :: "RawRef \<Rightarrow> Ref" where
  "convertRef rr = \<lparr>rf_Name = ref_Name rr, rf_Hash = ref_OID rr, rf_Peeled = ref_Peeled rr, rf_Symref = ref_Symref rr\<rparr>"

definition convertRefs :: "RawRef list \<Rightarrow> Ref list" where
  "convertRefs rrs = map convertRef rrs"

definition convertObjectInfo :: "RawObjectInfo \<Rightarrow> ObjectInfo" where
  "convertObjectInfo roi = \<lparr>obj_Hash = oi_OID roi, obj_Size = oi_Size roi\<rparr>"

definition convertObjectInfos :: "RawObjectInfo list \<Rightarrow> ObjectInfo list" where
  "convertObjectInfos rois = map convertObjectInfo rois"

section \<open>Lemmas\<close>

lemma set_convert_commands:
  "distinct cmds \<Longrightarrow> distinct (convert_commands cmds raw) \<and>
     set (convert_commands cmds raw) = set cmds \<union> {n \<in> set v2CommandNames. caps_Has raw n}"
  by (induction cmds raw rule: convert_commands.induct) auto

lemma convert_commands_prefix: "prefix cmds (convert_commands cmds raw)"
  by (induction cmds raw rule: convert_commands.induct) (auto simp: prefix_def)

lemma convert_raw_apply:
  "convert_raw m raw name = (case caps_All raw name of [] \<Rightarrow> m name
     | vs \<Rightarrow> Some ((case m name of None \<Rightarrow> [] | Some us \<Rightarrow> us) @ vs))"
  by (induction raw arbitrary: m) (auto split: list.splits option.splits)

definition symref_of :: "string \<Rightarrow> Symref list" where
  "symref_of value = (case Cut value (CHR '':'') of (name, target, ok) \<Rightarrow>
     if \<not> ok \<or> name = [] \<or> target = [] then [] else [\<lparr>sr_Name = name, sr_Target = target\<rparr>])"

lemma convert_symrefs_All: "convert_symrefs srs raw = srs @ concat (map symref_of (caps_All raw ''symref''))"
  by (induction raw arbitrary: srs) (auto simp: symref_of_def split: prod.splits)

lemma convertCaps_v2_symrefs: "c_Symrefs (convertCaps raw ProtocolV2) = []"
  by (simp add: convertCaps_def)

section \<open>Properties\<close>

text \<open>The capability snapshot is faithful: \<open>Raw\<close> holds for each advertised name exactly its values in
  wire order and nothing else; the commands are without duplicates and are the known commands the server
  advertised, on v2 only; the symrefs are those of the well-formed \<open>symref\<close> values in order, on v0/v1 only.\<close>

theorem convertCaps_faithful:
  "c_Raw (convertCaps raw v) name = (if caps_Has raw name then Some (caps_All raw name) else None) \<and>
   distinct (c_Commands (convertCaps raw v)) \<and>
   set (c_Commands (convertCaps raw v)) = (if v = ProtocolV2 then {n \<in> set v2CommandNames. caps_Has raw n} else {}) \<and>
   c_Symrefs (convertCaps raw v) = (if v = ProtocolV2 then [] else concat (map symref_of (caps_All raw ''symref'')))"
  using set_convert_commands [of "[]" raw]
  by (auto simp: convertCaps_def convert_raw_apply caps_Has_All convert_symrefs_All split: list.splits)

end
