(* ===== verification/Transport_Git.thy ===== *)
theory Transport_Git
  imports Wire_Requests
begin

text \<open>
  The contract of a connection (\<open>src/transport/transport.go\<close>) and the \<open>git://\<close> transport that meets it
  (\<open>src/transport/git/{open,conn,errors,tracer}.go\<close>).

  A Go interface value is the record \<open>Conn_ops\<close> of its methods, over the type of the connection's state.
  The readers a connection hands out alias its own byte stream; \<open>op_Return\<close> says what the connection is
  after its user has read from such a reader. The context is the value of \<open>ctx.Err()\<close> at the call.

  The TCP connection is the bytes the peer will send (with the error after them), the sink the client
  writes to, and the result of closing it. Reading or writing it after \<open>Close\<close> fails.
\<close>

section \<open>The interface\<close>

record 'c Conn_ops =
  op_Advertisement :: "'c \<Rightarrow> Reader"
  op_Command :: "'c \<Rightarrow> go_error option \<Rightarrow> string \<Rightarrow> (Writer \<Rightarrow> go_error option \<times> Writer) \<Rightarrow> (go_error + Reader) \<times> 'c"
  op_Return :: "'c \<Rightarrow> Reader \<Rightarrow> 'c"
  op_Close :: "'c \<Rightarrow> go_error option \<times> 'c"

record OpenOptions =
  oo_tracing :: bool
  oo_UserAgent :: string
  oo_PreferredProtocol :: "ProtocolVersion option"

text \<open>\<open>closed\<close> is the model's view of a connection whose \<open>Close\<close> has been called.\<close>

locale transport_conn =
  fixes ops :: "'c Conn_ops"
    and closed :: "'c \<Rightarrow> bool"
  assumes close_closes: "closed (snd (op_Close ops c))"
    and close_again: "closed c \<Longrightarrow> op_Close ops c = (None, c)"
    and return_closed: "closed (op_Return ops c r) = closed c"
    and command_closed: "closed (snd (op_Command ops c ctx name body)) = closed c"
begin

lemma close_twice: "fst (op_Close ops (snd (op_Close ops c))) = None"
  by (simp add: close_again close_closes)

end

text \<open>A connection with one byte stream for everything: the reader is always the connection's own.\<close>

locale stream_conn = transport_conn ops closed for ops :: "'c Conn_ops" and closed +
  fixes reader :: "'c \<Rightarrow> Reader"
  assumes command_reader: "op_Command ops c ctx name body = (Inr r, c') \<Longrightarrow> r = reader c \<and> reader c' = reader c"
    and return_reader: "\<not> closed c \<Longrightarrow> reader (op_Return ops c r) = r"

section \<open>Sentinels\<close>

definition transport_ErrNotFound :: go_error where
  "transport_ErrNotFound = Sentinel ''transport: repository not found''"

definition transport_ErrAuthRequired :: go_error where
  "transport_ErrAuthRequired = Sentinel ''transport: authentication required''"

definition transport_ErrAuthFailed :: go_error where
  "transport_ErrAuthFailed = Sentinel ''transport: authentication failed''"

definition transport_ErrUnsupportedProtocol :: go_error where
  "transport_ErrUnsupportedProtocol = Sentinel ''transport: protocol/operation not supported''"

definition gitt_ErrUnsupportedProtocol :: go_error where
  "gitt_ErrUnsupportedProtocol = SchemeError transport_ErrUnsupportedProtocol ''transport/git: unsupported protocol version''"

definition context_Canceled :: go_error where
  "context_Canceled = Sentinel ''context canceled''"

definition context_DeadlineExceeded :: go_error where
  "context_DeadlineExceeded = Sentinel ''context deadline exceeded''"

definition net_ErrClosed :: go_error where
  "net_ErrClosed = Sentinel ''use of closed network connection''"

section \<open>The connection\<close>

record NetConn =
  nc_src :: Source
  nc_dst :: Sink
  nc_close :: "go_error option"

record gitt_Conn =
  gc_reader :: Reader
  gc_writer :: Writer
  gc_redactedURL :: string
  gc_close :: "go_error option"
  gc_closed :: bool

definition gitt_error :: "string \<Rightarrow> string \<Rightarrow> go_error \<Rightarrow> go_error" where
  "gitt_error url op err = ProtocolError gitt url op None [] (Some err) 0"

definition git_wrapWriteError :: "gitt_Conn \<Rightarrow> go_error \<Rightarrow> go_error" where
  "git_wrapWriteError c err = gitt_error (gc_redactedURL c) ''command'' (Wrapf ''gitt: write command request: '' err [])"

definition git_Command ::
  "gitt_Conn \<Rightarrow> go_error option \<Rightarrow> string \<Rightarrow> (Writer \<Rightarrow> go_error option \<times> Writer) \<Rightarrow> (go_error + Reader) \<times> gitt_Conn" where
  "git_Command c ctx name body = (case ctx of
      Some err \<Rightarrow> (Inl (gitt_error (gc_redactedURL c) ''command'' err), c)
    | None \<Rightarrow> (case body (gc_writer c) of
        (Some err, w) \<Rightarrow> (Inl (git_wrapWriteError c err), c\<lparr>gc_writer := w\<rparr>)
      | (None, w) \<Rightarrow> (Inr (gc_reader c), c\<lparr>gc_writer := w\<rparr>)))"

definition closed_source :: "Source \<Rightarrow> Source" where
  "closed_source s = s\<lparr>src_rest := [], src_end := net_ErrClosed\<rparr>"

definition closed_sink :: "Sink \<Rightarrow> Sink" where
  "closed_sink s = s\<lparr>snk_room := Some 0, snk_err := net_ErrClosed\<rparr>"

definition git_Close :: "gitt_Conn \<Rightarrow> go_error option \<times> gitt_Conn" where
  "git_Close c =
     (if gc_closed c then (None, c)
      else ((case gc_close c of Some err \<Rightarrow> if errors_Is err io_EOF then None else Some err | None \<Rightarrow> None),
        c\<lparr>gc_closed := True, gc_reader := (gc_reader c)\<lparr>rd_src := closed_source (rd_src (gc_reader c))\<rparr>,
          gc_writer := (gc_writer c)\<lparr>wr_dst := closed_sink (wr_dst (gc_writer c))\<rparr>\<rparr>))"

text \<open>The reader handed out is the connection's own; once the connection is closed it stays exhausted.\<close>

definition git_Return :: "gitt_Conn \<Rightarrow> Reader \<Rightarrow> gitt_Conn" where
  "git_Return c r = c\<lparr>gc_reader := (if gc_closed c then r\<lparr>rd_src := closed_source (rd_src r)\<rparr> else r)\<rparr>"

definition git_ops :: "gitt_Conn Conn_ops" where
  "git_ops = \<lparr>op_Advertisement = gc_reader, op_Command = git_Command, op_Return = git_Return, op_Close = git_Close\<rparr>"

interpretation git: stream_conn git_ops gc_closed gc_reader
  by unfold_locales
    (auto simp: git_ops_def git_Close_def git_Return_def git_Command_def split: option.splits prod.splits)

section \<open>Opening\<close>

definition hostAddress :: "URL \<Rightarrow> string" where
  "hostAddress u =
     (let port = (if url_Port u = [] then ''9418'' else url_Port u);
          host = (if CHR '':'' \<in> set (url_Host u) then ''['' @ url_Host u @ '']'' else url_Host u)
      in host @ '':'' @ port)"

definition git_resolvePreferredProtocol :: "ProtocolVersion option \<Rightarrow> go_error option" where
  "git_resolvePreferredProtocol p = (case p of
      None \<Rightarrow> None
    | Some p \<Rightarrow> if p = ProtocolV0 \<or> p = ProtocolV2 then None else Some gitt_ErrUnsupportedProtocol)"

definition mapDialError :: "go_error \<Rightarrow> string \<Rightarrow> go_error" where
  "mapDialError err redacted =
     (if errors_Is err context_Canceled \<or> errors_Is err context_DeadlineExceeded then err
      else gitt_error redacted ''dial'' err)"

text \<open>Readers and writers are traced exactly when there is a tracer.\<close>

definition git_reader :: "bool \<Rightarrow> string \<Rightarrow> Source \<Rightarrow> Reader" where
  "git_reader tracing redacted s =
     (if tracing then WithReaderTracerURL DirectionInbound redacted (NewReader s) else NewReader s)"

definition git_writer :: "bool \<Rightarrow> string \<Rightarrow> Sink \<Rightarrow> Writer" where
  "git_writer tracing redacted s =
     (if tracing then WithWriterTracerURL DirectionOutbound redacted (NewWriter s) else NewWriter s)"

text \<open>The dialer is a parameter. A connection that is closed again on the way is not returned.\<close>

definition git_Open ::
  "(string \<Rightarrow> go_error + NetConn) \<Rightarrow> go_error option \<Rightarrow> URL \<Rightarrow> OpenOptions \<Rightarrow> go_error + gitt_Conn" where
  "git_Open dial ctx u opts = (case ctx of
      Some err \<Rightarrow> Inl err
    | None \<Rightarrow>
        let redacted = RedactURL (url_Raw u) in
        (case git_resolvePreferredProtocol (oo_PreferredProtocol opts) of
           Some err \<Rightarrow> Inl (gitt_error redacted ''dial'' err)
         | None \<Rightarrow> (case dial (hostAddress u) of
             Inl err \<Rightarrow> Inl (mapDialError err redacted)
           | Inr netConn \<Rightarrow> (case WriteStreamRequest (git_writer (oo_tracing opts) redacted (nc_dst netConn)) u (oo_PreferredProtocol opts) of
               (Some err, _) \<Rightarrow> Inl (gitt_error redacted ''dial'' (Wrapf ''gitt: write initial pkt-line: '' err []))
             | (None, writer) \<Rightarrow> Inr \<lparr>gc_reader = git_reader (oo_tracing opts) redacted (nc_src netConn), gc_writer = writer,
                 gc_redactedURL = redacted, gc_close = nc_close netConn, gc_closed = False\<rparr>))))"

end
