(* ===== verification/Session.thy ===== *)
theory Session
  imports Session_Types Transport_Git
begin

text \<open>
  Sessions (\<open>src/session.go\<close>), the options of a dial (\<open>src/options.go\<close>) and the transport registry
  (\<open>src/transport/registry.go\<close>).

  A \<open>Session\<close> is a record over the state of its connection; every method takes the connection's operations,
  the session and, where the code takes a context, \<open>ctx.Err()\<close>, and returns the new session. The iterator
  that \<open>Refs\<close> returns is a \<open>RefSeq\<close>, and \<open>run_seq\<close> is the loop over it with a consumer \<open>yield\<close> (an arbitrary
  function on an arbitrary state that may stop at any ref). The tracer's capability-drop event of
  \<open>EncodeLSRefs\<close> and the mutex around \<open>deadErr\<close> are not part of the state.
\<close>

section \<open>Registry and options\<close>

record 'c Transport =
  tp_Schemes :: "string list"
  tp_Open :: "go_error option \<Rightarrow> URL \<Rightarrow> OpenOptions \<Rightarrow> go_error + 'c"

type_synonym 'c Registry = "string \<rightharpoonup> 'c Transport"

fun register_schemes :: "'c Transport \<Rightarrow> string list \<Rightarrow> 'c Registry \<Rightarrow> 'c Registry" where
  "register_schemes t [] r = r"
| "register_schemes t (s # ss) r = register_schemes t ss (r(ToLower s \<mapsto> t))"

definition Register :: "'c Registry \<Rightarrow> 'c Transport \<Rightarrow> 'c Registry" where
  "Register r t = register_schemes t (tp_Schemes t) r"

definition NewRegistry :: "'c Transport list \<Rightarrow> 'c Registry" where
  "NewRegistry ts = foldl Register Map.empty ts"

definition Lookup :: "'c Registry \<Rightarrow> string \<Rightarrow> 'c Transport option" where
  "Lookup r scheme = r (ToLower scheme)"

record 'c dialConfig =
  cfg_registry :: "'c Registry option"
  cfg_tracing :: bool
  cfg_userAgent :: string
  cfg_protocol :: "ProtocolVersion option"

definition WithTransports :: "'c Registry option \<Rightarrow> 'c dialConfig \<Rightarrow> 'c dialConfig" where
  "WithTransports r c = c\<lparr>cfg_registry := r\<rparr>"

definition WithTracer :: "bool \<Rightarrow> 'c dialConfig \<Rightarrow> 'c dialConfig" where
  "WithTracer t c = c\<lparr>cfg_tracing := t\<rparr>"

definition WithUserAgent :: "string \<Rightarrow> 'c dialConfig \<Rightarrow> 'c dialConfig" where
  "WithUserAgent s c = c\<lparr>cfg_userAgent := s\<rparr>"

definition WithProtocol :: "ProtocolVersion \<Rightarrow> 'c dialConfig \<Rightarrow> 'c dialConfig" where
  "WithProtocol v c = c\<lparr>cfg_protocol := Some v\<rparr>"

section \<open>Sentinels\<close>

definition lsr_ErrNotFound :: go_error where "lsr_ErrNotFound = Sentinel ''lsremote: repository not found''"

definition lsr_ErrAuthRequired :: go_error where "lsr_ErrAuthRequired = Sentinel ''lsremote: authentication required''"

definition lsr_ErrAuthFailed :: go_error where "lsr_ErrAuthFailed = Sentinel ''lsremote: authentication failed''"

definition lsr_ErrUnsupportedProtocol :: go_error where
  "lsr_ErrUnsupportedProtocol = Sentinel ''lsremote: protocol/operation not supported by server''"

definition lsr_ErrServerRefused :: go_error where "lsr_ErrServerRefused = Sentinel ''lsremote: server refused''"

definition ErrNoDefaultBranch :: go_error where "ErrNoDefaultBranch = Sentinel ''lsremote: remote has no default branch''"

definition ErrSessionDead :: go_error where "ErrSessionDead = Sentinel ''lsremote: session is no longer usable''"

text \<open>The tables of sentinels and the joins they cause (\<open>src/dial.go\<close>).\<close>

fun bridge :: "(go_error \<times> go_error) list \<Rightarrow> go_error \<Rightarrow> go_error" where
  "bridge [] err = err"
| "bridge ((inner, public) # bs) err = (if errors_Is err inner then Join public err else bridge bs err)"

definition openSentinelBridges :: "(go_error \<times> go_error) list" where
  "openSentinelBridges = [(transport_ErrNotFound, lsr_ErrNotFound), (transport_ErrAuthRequired, lsr_ErrAuthRequired),
     (transport_ErrAuthFailed, lsr_ErrAuthFailed), (transport_ErrUnsupportedProtocol, lsr_ErrUnsupportedProtocol)]"

definition wireSentinelBridges :: "(go_error \<times> go_error) list" where
  "wireSentinelBridges = [(wire_ErrUnsupportedProtocol, lsr_ErrUnsupportedProtocol), (ErrServerRefused, lsr_ErrServerRefused)]"

definition bridgeOpenError :: "go_error \<Rightarrow> go_error" where
  "bridgeOpenError err = bridge openSentinelBridges err"

definition bridgeWireSentinel :: "go_error \<Rightarrow> go_error" where
  "bridgeWireSentinel err = bridge wireSentinelBridges err"

section \<open>The session\<close>

record 'c Session =
  s_conn :: 'c
  s_caps :: Capabilities
  s_rawCaps :: RawCapabilities
  s_refs :: "Ref list"
  s_config :: "'c dialConfig"
  s_url :: string
  s_deadErr :: "go_error option"

text \<open>The deep copy of a value is the value.\<close>

definition cloneCapabilities :: "Capabilities \<Rightarrow> Capabilities" where
  "cloneCapabilities c = \<lparr>c_Version = c_Version c, c_Agent = c_Agent c, c_ObjectFormat = c_ObjectFormat c,
     c_Commands = c_Commands c, c_LSRefsArgs = c_LSRefsArgs c, c_ObjectInfoArgs = c_ObjectInfoArgs c,
     c_Symrefs = c_Symrefs c, c_Raw = c_Raw c\<rparr>"

definition Session_Capabilities :: "'c Session \<Rightarrow> Capabilities" where
  "Session_Capabilities s = cloneCapabilities (s_caps s)"

definition lsr_error :: "'c Session \<Rightarrow> string \<Rightarrow> string \<Rightarrow> go_error \<Rightarrow> go_error" where
  "lsr_error s op server err = ProtocolError lsremote (s_url s) op (Some (c_Version (s_caps s))) server (Some err) 0"

definition protocolError :: "'c Session \<Rightarrow> string \<Rightarrow> go_error \<Rightarrow> go_error" where
  "protocolError s op err = lsr_error s op [] (bridgeWireSentinel err)"

definition checkAlive :: "'c Session \<Rightarrow> string \<Rightarrow> go_error option" where
  "checkAlive s op = (case s_deadErr s of None \<Rightarrow> None | Some cause \<Rightarrow> Some (lsr_error s op [] (Join ErrSessionDead cause)))"

definition markDead :: "'c Conn_ops \<Rightarrow> 'c Session \<Rightarrow> go_error \<Rightarrow> 'c Session" where
  "markDead ops s cause = (if s_deadErr s \<noteq> None then s
     else s\<lparr>s_deadErr := Some cause, s_conn := snd (op_Close ops (s_conn s))\<rparr>)"

definition Session_Close :: "'c Conn_ops \<Rightarrow> 'c Session \<Rightarrow> go_error option \<times> 'c Session" where
  "Session_Close ops s = (case op_Close ops (s_conn s) of (err, c) \<Rightarrow> (err, s\<lparr>s_conn := c\<rparr>))"

fun matchPrefixes_loop :: "string \<Rightarrow> string list \<Rightarrow> bool" where
  "matchPrefixes_loop name [] = False"
| "matchPrefixes_loop name (p # ps) = (if HasPrefix name p then True else matchPrefixes_loop name ps)"

definition matchPrefixes :: "string \<Rightarrow> string list \<Rightarrow> bool" where
  "matchPrefixes name ps = (if ps = [] then True else matchPrefixes_loop name ps)"

fun symrefTarget_loop :: "Symref list \<Rightarrow> string \<Rightarrow> string" where
  "symrefTarget_loop [] name = []"
| "symrefTarget_loop (sr # srs) name = (if sr_Name sr = name then sr_Target sr else symrefTarget_loop srs name)"

definition symrefTarget :: "'c Session \<Rightarrow> string \<Rightarrow> string" where
  "symrefTarget s name = symrefTarget_loop (c_Symrefs (s_caps s)) name"

text \<open>A consumer gets a ref or an error, and says whether to go on.\<close>

type_synonym 's consumer = "Ref \<times> go_error option \<Rightarrow> 's \<Rightarrow> bool \<times> 's"

fun refsCached :: "'c Session \<Rightarrow> RefsRequest \<Rightarrow> 's consumer \<Rightarrow> Ref list \<Rightarrow> 's \<Rightarrow> 's" where
  "refsCached s args yield [] acc = acc"
| "refsCached s args yield (ref # refs) acc =
     (if \<not> matchPrefixes (rf_Name ref) (rq_Prefixes args) then refsCached s args yield refs acc
      else
        let out = (if rq_Symrefs args
              then (if rf_Symref ref = [] then ref\<lparr>rf_Symref := symrefTarget s (rf_Name ref)\<rparr> else ref)
              else ref\<lparr>rf_Symref := []\<rparr>)
        in case yield (out, None) acc of (go_on, acc') \<Rightarrow>
          if go_on then refsCached s args yield refs acc' else acc')"

function drainLSRefsResponse :: "Reader \<Rightarrow> Reader" where
  "drainLSRefsResponse r = (case ReadPacket r of
      (Inl e, r') \<Rightarrow> r'
    | (Inr p, r') \<Rightarrow> if pkt_Kind p = Flush then r' else drainLSRefsResponse r')"
  by pat_completeness auto
termination
  by (relation "measure (\<lambda>r. length (src_rest (rd_src r)))") (auto dest: ReadPacket_decreases sym)

declare drainLSRefsResponse.simps [simp del]

text \<open>
  The body of the loop over the decoder's refs: the consumer's state, the session, \<open>drained\<close>, and whether
  the body has returned.
\<close>

record ('c, 's) iter_state =
  it_acc :: 's
  it_session :: "'c Session"
  it_drained :: bool
  it_returned :: bool

definition refsV2_body ::
  "'c Conn_ops \<Rightarrow> 's consumer \<Rightarrow> RawRef \<times> go_error option \<Rightarrow> ('c, 's) iter_state \<Rightarrow> bool \<times> ('c, 's) iter_state" where
  "refsV2_body ops yield item it = (case item of
      (rr, Some err) \<Rightarrow>
        let bridged = protocolError (it_session it) ''ls-refs'' err;
            it' = it\<lparr>it_drained := True, it_session := markDead ops (it_session it) bridged\<rparr>
        in (False, it'\<lparr>it_acc := snd (yield (empty_Ref, Some bridged) (it_acc it')), it_returned := True\<rparr>)
    | (rr, None) \<Rightarrow> (case yield (convertRef rr, None) (it_acc it) of (go_on, acc) \<Rightarrow>
        if \<not> go_on then (False, it\<lparr>it_acc := acc, it_returned := True\<rparr>) else (True, it\<lparr>it_acc := acc\<rparr>)))"

datatype RefSeq = CachedSeq RefsRequest | StreamSeq Reader

definition run_stream :: "'c Conn_ops \<Rightarrow> 'c Session \<Rightarrow> Reader \<Rightarrow> 's consumer \<Rightarrow> 's \<Rightarrow> 's \<times> 'c Session" where
  "run_stream ops s rdr yield acc =
     (case DecodeLSRefs (refsV2_body ops yield) rdr \<lparr>it_acc = acc, it_session = s, it_drained = False, it_returned = False\<rparr> of
        (it, r) \<Rightarrow>
          let drained = (if it_returned it then it_drained it else True);
              r' = (if \<not> drained then drainLSRefsResponse r else r);
              s' = it_session it
          in (it_acc it, s'\<lparr>s_conn := op_Return ops (s_conn s') r'\<rparr>))"

definition run_seq :: "'c Conn_ops \<Rightarrow> 'c Session \<Rightarrow> RefSeq \<Rightarrow> 's consumer \<Rightarrow> 's \<Rightarrow> 's \<times> 'c Session" where
  "run_seq ops s seq yield acc = (case seq of
      CachedSeq args \<Rightarrow> (refsCached s args yield (s_refs s) acc, s)
    | StreamSeq rdr \<Rightarrow> run_stream ops s rdr yield acc)"

definition refs_args :: "RefsRequest \<Rightarrow> RefsArgs" where
  "refs_args args = \<lparr>ra_Prefixes = rq_Prefixes args, ra_Peel = rq_Peel args, ra_Symrefs = rq_Symrefs args,
     ra_Unborn = rq_Unborn args\<rparr>"

definition refsV2 :: "'c Conn_ops \<Rightarrow> go_error option \<Rightarrow> 'c Session \<Rightarrow> RefsRequest \<Rightarrow> (go_error + RefSeq) \<times> 'c Session" where
  "refsV2 ops ctx s args =
     (case op_Command ops (s_conn s) ctx ''ls-refs''
        (\<lambda>w. fst (EncodeLSRefs w (refs_args args) (s_rawCaps s) (cfg_userAgent (s_config s)))) of
        (Inl err, c) \<Rightarrow> (Inl (protocolError s ''ls-refs'' err), s\<lparr>s_conn := c\<rparr>)
      | (Inr rdr, c) \<Rightarrow> (Inr (StreamSeq rdr), s\<lparr>s_conn := c\<rparr>))"

definition Session_Refs :: "'c Conn_ops \<Rightarrow> go_error option \<Rightarrow> 'c Session \<Rightarrow> RefsRequest \<Rightarrow> (go_error + RefSeq) \<times> 'c Session" where
  "Session_Refs ops ctx s args = (case checkAlive s ''ls-refs'' of
      Some err \<Rightarrow> (Inl err, s)
    | None \<Rightarrow>
        if c_Version (s_caps s) \<noteq> ProtocolV2 then (Inr (CachedSeq args), s)
        else refsV2 ops ctx s args)"

definition append_ref :: "(go_error + Ref list) consumer" where
  "append_ref item acc = (case item of
      (ref, Some err) \<Rightarrow> (False, Inl err)
    | (ref, None) \<Rightarrow> (True, (case acc of Inl err \<Rightarrow> Inl err | Inr refs \<Rightarrow> Inr (refs @ [ref]))))"

definition Session_ListRefs :: "'c Conn_ops \<Rightarrow> go_error option \<Rightarrow> 'c Session \<Rightarrow> RefsRequest \<Rightarrow> (go_error + Ref list) \<times> 'c Session" where
  "Session_ListRefs ops ctx s args = (case Session_Refs ops ctx s args of
      (Inl err, s') \<Rightarrow> (Inl err, s')
    | (Inr seq, s') \<Rightarrow> run_seq ops s' seq append_ref (Inr []))"

definition Session_ObjectInfo ::
  "'c Conn_ops \<Rightarrow> go_error option \<Rightarrow> 'c Session \<Rightarrow> string list \<Rightarrow> ObjectInfoRequest \<Rightarrow> (go_error + ObjectInfo list) \<times> 'c Session" where
  "Session_ObjectInfo ops ctx s oids args = (case checkAlive s ''object-info'' of
      Some err \<Rightarrow> (Inl err, s)
    | None \<Rightarrow>
        if c_Version (s_caps s) \<noteq> ProtocolV2 then
          (Inl (lsr_error s ''object-info'' ''object-info requires protocol v2'' lsr_ErrUnsupportedProtocol), s)
        else if ''object-info'' \<notin> set (c_Commands (s_caps s)) then
          (Inl (lsr_error s ''object-info'' ''server did not advertise object-info'' lsr_ErrUnsupportedProtocol), s)
        else (case op_Command ops (s_conn s) ctx ''object-info''
            (\<lambda>w. EncodeObjectInfo w oids \<lparr>oa_Size = oq_Size args\<rparr> (s_rawCaps s) (cfg_userAgent (s_config s))) of
            (Inl err, c) \<Rightarrow> (Inl (protocolError s ''object-info'' err), s\<lparr>s_conn := c\<rparr>)
          | (Inr rdr, c) \<Rightarrow>
              (case DecodeObjectInfo rdr of
                 (Inl err, r) \<Rightarrow>
                   let s1 = s\<lparr>s_conn := op_Return ops c r\<rparr>; bridged = protocolError s1 ''object-info'' err
                   in (Inl bridged, markDead ops s1 bridged)
               | (Inr raw, r) \<Rightarrow>
                   let out = convertObjectInfos raw
                   in (Inr (if \<not> oq_Size args then map (\<lambda>i. i\<lparr>obj_Size := -1\<rparr>) out else out),
                       s\<lparr>s_conn := op_Return ops c r\<rparr>))))"


section \<open>Lemmas\<close>

lemma matchPrefixes_conv: "matchPrefixes name ps \<longleftrightarrow> ps = [] \<or> (\<exists>p\<in>set ps. HasPrefix name p)"
proof -
  have "matchPrefixes_loop name ps \<longleftrightarrow> (\<exists>p\<in>set ps. HasPrefix name p)" by (induction ps) auto
  then show ?thesis by (auto simp: matchPrefixes_def)
qed

definition cached_ref :: "'c Session \<Rightarrow> RefsRequest \<Rightarrow> Ref \<Rightarrow> Ref" where
  "cached_ref s args ref = ref\<lparr>rf_Symref := (if \<not> rq_Symrefs args then []
     else if rf_Symref ref = [] then symrefTarget s (rf_Name ref) else rf_Symref ref)\<rparr>"

lemma refsCached_feed:
  "refsCached s args yield refs acc =
     feed yield (map (\<lambda>ref. (cached_ref s args ref, None)) (filter (\<lambda>ref. matchPrefixes (rf_Name ref) (rq_Prefixes args)) refs)) acc"
  by (induction refs arbitrary: acc) (auto simp: cached_ref_def Let_def split: prod.splits)

lemma feed_append_ref: "feed append_ref (map (\<lambda>ref. (ref, None)) refs) (Inr acc) = Inr (acc @ refs)"
  by (induction refs arbitrary: acc) (simp_all add: append_ref_def)

lemma bridge_Is: "errors_Is err t \<Longrightarrow> errors_Is (bridge bs err) t"
  by (induction bs err rule: bridge.induct) auto

lemma bridge_public:
  "(inner, public) \<in> set bs \<Longrightarrow> errors_Is err inner \<Longrightarrow> \<exists>i p. (i, p) \<in> set bs \<and> errors_Is err i \<and> errors_Is (bridge bs err) p"
proof (induction bs err rule: bridge.induct)
  case (2 i p bs err)
  show ?case
  proof (cases "errors_Is err i")
    case True
    then show ?thesis by (intro exI [of _ i] exI [of _ p]) simp
  next
    case False
    with 2 have "(inner, public) \<in> set bs" by auto
    with 2 False obtain i' p' where "(i', p') \<in> set bs" "errors_Is err i'" "errors_Is (bridge bs err) p'" by blast
    with False show ?thesis by (intro exI [of _ i'] exI [of _ p']) simp
  qed
qed simp

lemma protocolError_Is: "errors_Is err t \<Longrightarrow> errors_Is (protocolError s op err) t"
  by (simp add: protocolError_def lsr_error_def bridgeWireSentinel_def bridge_Is)

lemma lsr_error_Is: "errors_Is err t \<Longrightarrow> errors_Is (lsr_error s op server err) t"
  by (simp add: lsr_error_def)

lemma checkAlive_dead: "s_deadErr s = Some cause \<Longrightarrow>
    \<exists>err. checkAlive s op = Some err \<and> errors_Is err ErrSessionDead \<and> errors_Is err cause"
  by (simp add: checkAlive_def lsr_error_Is)

text \<open>A dead session refuses every command, without touching its connection.\<close>

lemma dead_refuses:
  assumes "s_deadErr s = Some cause"
  shows "\<exists>err. Session_Refs ops ctx s args = (Inl err, s) \<and> Session_ListRefs ops ctx s args = (Inl err, s) \<and>
      errors_Is err ErrSessionDead \<and> errors_Is err cause"
    and "\<exists>err. Session_ObjectInfo ops ctx s oids oargs = (Inl err, s) \<and> errors_Is err ErrSessionDead \<and> errors_Is err cause"
  using checkAlive_dead [OF assms, of "''ls-refs''"] checkAlive_dead [OF assms, of "''object-info''"]
  by (auto simp: Session_Refs_def Session_ListRefs_def Session_ObjectInfo_def)

section \<open>Runs of a session\<close>

text \<open>
  The calls a user can make, in any order and with any consumer: an iterator may be run late, twice or
  after \<open>Close\<close>. A consumer decides on all it has seen.
\<close>

inductive session_step :: "'c Conn_ops \<Rightarrow> 'c Session \<Rightarrow> 'c Session \<Rightarrow> bool" for ops where
  refs: "Session_Refs ops ctx s args = (res, s') \<Longrightarrow> session_step ops s s'"
| iterate: "run_seq ops s seq (yield :: (Ref \<times> go_error option) list consumer) acc = (acc', s') \<Longrightarrow> session_step ops s s'"
| list_refs: "Session_ListRefs ops ctx s args = (lres, s') \<Longrightarrow> session_step ops s s'"
| object_info: "Session_ObjectInfo ops ctx s oids oargs = (ores, s') \<Longrightarrow> session_step ops s s'"
| close: "Session_Close ops s = (err, s') \<Longrightarrow> session_step ops s s'"

inductive session_steps :: "'c Conn_ops \<Rightarrow> 'c Session \<Rightarrow> 'c Session \<Rightarrow> bool" for ops where
  none: "session_steps ops s s"
| more: "session_steps ops s s' \<Longrightarrow> session_step ops s' s'' \<Longrightarrow> session_steps ops s s''"

text \<open>
  What no call undoes: a dead session stays dead for its first cause, and where a dead session has its
  connection closed it stays so.
\<close>

definition dead_closed :: "('c \<Rightarrow> bool) \<Rightarrow> 'c Session \<Rightarrow> bool" where
  "dead_closed closed s \<longleftrightarrow> (s_deadErr s \<noteq> None \<longrightarrow> closed (s_conn s))"

definition kept_by :: "('c \<Rightarrow> bool) \<Rightarrow> 'c Session \<Rightarrow> 'c Session \<Rightarrow> bool" where
  "kept_by closed s s' \<longleftrightarrow> (\<forall>cause. s_deadErr s = Some cause \<longrightarrow> s_deadErr s' = Some cause) \<and>
     (dead_closed closed s \<longrightarrow> dead_closed closed s')"

text \<open>Whatever a loop over the decoder does to its state, it does it by the loop's body.\<close>

lemma DecodeLSRefs_invariant:
  assumes "\<And>item it. I it \<Longrightarrow> I (snd (yield item it))" "I it"
  shows "I (fst (DecodeLSRefs yield r it))"
proof -
  have "I (feed yield items it)" for items
    using assms(2)
  proof (induction items arbitrary: it)
    case (Cons x xs)
    then show ?case using assms(1) [of it x] by (cases "yield x it") simp
  qed simp
  then show ?thesis by (cases "pending r") (simp add: DecodeLSRefs_items)
qed


context transport_conn
begin

abbreviation kept :: "'c Session \<Rightarrow> 'c Session \<Rightarrow> bool" where
  "kept \<equiv> kept_by closed"

lemma kept_trans: "kept s s' \<Longrightarrow> kept s' s'' \<Longrightarrow> kept s s''"
  by (simp add: kept_by_def)

lemma kept_refl [simp]: "kept s s"
  by (simp add: kept_by_def)

lemma kept_conn: "closed c = closed (s_conn s) \<or> closed c \<Longrightarrow> kept s (s\<lparr>s_conn := c\<rparr>)"
  by (auto simp: kept_by_def dead_closed_def)

lemma kept_markDead: "kept s (markDead ops s cause)"
  by (simp add: markDead_def kept_by_def dead_closed_def close_closes)

lemma kept_body:
  "kept s0 (it_session it) \<Longrightarrow> kept s0 (it_session (snd (refsV2_body ops yield item it)))"
  using kept_trans [OF _ kept_markDead]
  by (auto simp: refsV2_body_def Let_def split: prod.splits option.splits)

lemma kept_stream: "kept s (snd (run_stream ops s rdr yield acc))"
proof -
  let ?it = "\<lparr>it_acc = acc, it_session = s, it_drained = False, it_returned = False\<rparr>"
  have "kept s (it_session (fst (DecodeLSRefs (refsV2_body ops yield) rdr ?it)))"
    by (rule DecodeLSRefs_invariant) (use kept_body in blast, simp add: kept_refl)
  moreover have "kept (it_session it) ((it_session it)\<lparr>s_conn := op_Return ops (s_conn (it_session it)) r\<rparr>)"
    for it :: "('c, 'd) iter_state" and r
    by (rule kept_conn) (simp add: return_closed)
  ultimately show ?thesis
    using kept_trans by (fastforce simp: run_stream_def Let_def split: prod.splits)
qed

lemma kept_seq: "kept s (snd (run_seq ops s seq yield acc))"
  by (simp add: run_seq_def kept_refl kept_stream split: RefSeq.splits)

lemma command_conn: "op_Command ops c ctx name body = (res, c') \<Longrightarrow> closed c' = closed c"
  using command_closed [of c ctx name body] by simp

lemma kept_refs: "kept s (snd (Session_Refs ops ctx s args))"
proof -
  have "kept s (snd (refsV2 ops ctx s args))"
    by (auto simp: refsV2_def intro!: kept_conn dest: command_conn split: sum.split prod.split)
  then show ?thesis by (auto simp: Session_Refs_def split: option.split)
qed

lemma kept_list_refs: "kept s (snd (Session_ListRefs ops ctx s args))"
proof -
  obtain res s' where r: "Session_Refs ops ctx s args = (res, s')" by fastforce
  with kept_refs [of s ctx args] have "kept s s'" by simp
  then show ?thesis by (auto simp: Session_ListRefs_def r intro: kept_trans kept_seq split: sum.split)
qed

lemma kept_object_info: "kept s (snd (Session_ObjectInfo ops ctx s oids oargs))"
proof (cases "checkAlive s ''object-info'' \<noteq> None \<or> c_Version (s_caps s) \<noteq> ProtocolV2 \<or>
    ''object-info'' \<notin> set (c_Commands (s_caps s))")
  case True
  then show ?thesis by (auto simp: Session_ObjectInfo_def split: option.split)
next
  case False
  let ?body = "\<lambda>w. EncodeObjectInfo w oids \<lparr>oa_Size = oq_Size oargs\<rparr> (s_rawCaps s) (cfg_userAgent (s_config s))"
  obtain res c where c: "op_Command ops (s_conn s) ctx ''object-info'' ?body = (res, c)" by fastforce
  have "kept s (s\<lparr>s_conn := op_Return ops c r\<rparr>)" "kept s (s\<lparr>s_conn := c\<rparr>)" for r
    using command_conn [OF c] by (auto intro!: kept_conn simp: return_closed)
  then show ?thesis
    using False kept_trans [OF _ kept_markDead]
    by (auto simp: Session_ObjectInfo_def c Let_def split: sum.split prod.split)
qed

lemma kept_close: "kept s (snd (Session_Close ops s))"
  using close_closes [of "s_conn s"] by (auto simp: Session_Close_def intro!: kept_conn split: prod.splits)

lemma kept_step: "session_step ops s s' \<Longrightarrow> kept s s'"
proof (induction rule: session_step.induct)
  case (refs ctx s args res s') then show ?case using kept_refs [of s ctx args] by simp
next
  case (iterate s seq yield acc acc' s') then show ?case using kept_seq [of s seq yield acc] by simp
next
  case (list_refs ctx s args lres s') then show ?case using kept_list_refs [of s ctx args] by simp
next
  case (object_info ctx s oids oargs ores s') then show ?case using kept_object_info [of s ctx oids oargs] by simp
next
  case (close s err s') then show ?case using kept_close [of s] by simp
qed

lemma kept_steps: "session_steps ops s s' \<Longrightarrow> kept s s'"
proof (induction rule: session_steps.induct)
  case (none s) show ?case by (rule kept_refl)
next
  case (more s s' s'') then show ?case using kept_trans kept_step by blast
qed

lemma dead_session_closed:
  assumes "session_steps ops s0 s" "s_deadErr s0 = None" "s_deadErr s = Some cause"
  shows "closed (s_conn s)" "Session_Close ops s = (None, s)"
proof -
  show "closed (s_conn s)"
    using kept_steps [OF assms(1)] assms(2,3) by (simp add: kept_by_def dead_closed_def)
  then show "Session_Close ops s = (None, s)" by (simp add: Session_Close_def close_again)
qed

end


section \<open>Responses on a shared stream\<close>

text \<open>A packet of a response that the decoder takes for a ref.\<close>

definition ref_packet :: "RawRef \<Rightarrow> Packet \<Rightarrow> bool" where
  "ref_packet ref p \<longleftrightarrow> pkt_Kind p = Data \<and> CheckERRPacket (TrimSuffix (pkt_Data p) [CHR 0x0A]) = None \<and>
     parseLSRefsLine (TrimSuffix (pkt_Data p) [CHR 0x0A]) = Inr ref"

lemma drain_pending:
  assumes "list_all (\<lambda>p. pkt_Kind p = Data) ps1" "pending r = (ps1 @ flush_packet # ps, e)"
  shows "pending (drainLSRefsResponse r) = (ps, e)"
  using assms
proof (induction ps1 arbitrary: r)
  case Nil
  then obtain r' where "ReadPacket r = (Inr flush_packet, r')" "pending r' = (ps, e)"
    by (auto elim: reader.next_packet)
  then show ?case by (subst drainLSRefsResponse.simps) simp
next
  case (Cons p ps1)
  then obtain r' where r': "ReadPacket r = (Inr p, r')" "pending r' = (ps1 @ flush_packet # ps, e)"
    by (auto elim: reader.next_packet)
  with Cons show ?case by (subst drainLSRefsResponse.simps) simp
qed

lemma stream_loop:
  assumes "list_all2 ref_packet refs ps0" "pending r = (ps0 @ flush_packet # ps, e)" "\<not> it_returned it"
  obtains it' r' where "DecodeLSRefs (refsV2_body ops yield) r it = (it', r')"
    "it_session it' = it_session it" "it_drained it' = it_drained it"
    "it_acc it' = feed yield (map (\<lambda>ref. (convertRef ref, None)) refs) (it_acc it)"
    "it_returned it' \<Longrightarrow> \<exists>ps1. list_all (\<lambda>p. pkt_Kind p = Data) ps1 \<and> pending r' = (ps1 @ flush_packet # ps, e)"
    "\<not> it_returned it' \<Longrightarrow> pending r' = (ps, e)"
  using assms
proof (induction refs ps0 arbitrary: r it thesis rule: list_all2_induct)
  case Nil
  then obtain r' where "ReadPacket r = (Inr flush_packet, r')" "pending r' = (ps, e)"
    by (auto elim: reader.next_packet)
  with Nil show ?case by (subst (asm) DecodeLSRefs.simps) simp
next
  case (Cons ref refs p ps0)
  from Cons.prems(2) obtain r1 where r1: "ReadPacket r = (Inr p, r1)" "pending r1 = (ps0 @ flush_packet # ps, e)"
    by (auto elim: reader.next_packet)
  obtain go acc where y: "yield (convertRef ref, None) (it_acc it) = (go, acc)" by fastforce
  have data: "list_all (\<lambda>p. pkt_Kind p = Data) ps0"
    using Cons.hyps(2) by (auto simp: list_all_length list_all2_conv_all_nth ref_packet_def)
  have step: "DecodeLSRefs (refsV2_body ops yield) r it =
      (if go then DecodeLSRefs (refsV2_body ops yield) r1 (it\<lparr>it_acc := acc\<rparr>)
       else (it\<lparr>it_acc := acc, it_returned := True\<rparr>, r1))"
    using Cons.hyps(1) by (subst DecodeLSRefs.simps) (simp add: r1(1) ref_packet_def refsV2_body_def y)
  show ?case
  proof (cases go)
    case True
    let ?it = "it\<lparr>it_acc := acc\<rparr>"
    have ret: "\<not> it_returned ?it" using Cons.prems(3) by simp
    obtain it' r' where "DecodeLSRefs (refsV2_body ops yield) r1 ?it = (it', r')"
      "it_session it' = it_session ?it" "it_drained it' = it_drained ?it"
      "it_acc it' = feed yield (map (\<lambda>ref. (convertRef ref, None)) refs) (it_acc ?it)"
      "it_returned it' \<Longrightarrow> \<exists>ps1. list_all (\<lambda>p. pkt_Kind p = Data) ps1 \<and> pending r' = (ps1 @ flush_packet # ps, e)"
      "\<not> it_returned it' \<Longrightarrow> pending r' = (ps, e)"
      by (rule Cons.IH [OF _ r1(2) ret]) blast
    with step True y show ?thesis by (intro Cons.prems(1) [of it' r']) simp_all
  next
    case False
    with step y r1(2) data Cons.prems(3) show ?thesis
      by (intro Cons.prems(1) [of "it\<lparr>it_acc := acc, it_returned := True\<rparr>" r1]) auto
  qed
qed


text \<open>The requests a live v2 session writes, as bodies of commands.\<close>

definition ls_refs_body :: "'c Session \<Rightarrow> RefsRequest \<Rightarrow> Writer \<Rightarrow> go_error option \<times> Writer" where
  "ls_refs_body s args w = fst (EncodeLSRefs w (refs_args args) (s_rawCaps s) (cfg_userAgent (s_config s)))"

definition object_info_body :: "'c Session \<Rightarrow> string list \<Rightarrow> ObjectInfoRequest \<Rightarrow> Writer \<Rightarrow> go_error option \<times> Writer" where
  "object_info_body s oids args w = EncodeObjectInfo w oids \<lparr>oa_Size = oq_Size args\<rparr> (s_rawCaps s) (cfg_userAgent (s_config s))"

definition live_v2 :: "'c Session \<Rightarrow> bool" where
  "live_v2 s \<longleftrightarrow> s_deadErr s = None \<and> c_Version (s_caps s) = ProtocolV2"

context stream_conn
begin

lemma run_stream_ok:
  assumes "list_all2 ref_packet refs ps0" "pending r = (ps0 @ flush_packet # ps, e)" "\<not> closed (s_conn s)"
  shows "\<exists>r'. run_stream ops s r yield acc =
      (feed yield (map (\<lambda>ref. (convertRef ref, None)) refs) acc, s\<lparr>s_conn := op_Return ops (s_conn s) r'\<rparr>) \<and>
    pending r' = (ps, e)"
proof -
  let ?it = "\<lparr>it_acc = acc, it_session = s, it_drained = False, it_returned = False\<rparr>"
  obtain it' r1 where it: "DecodeLSRefs (refsV2_body ops yield) r ?it = (it', r1)" "it_session it' = s" "\<not> it_drained it'"
    "it_acc it' = feed yield (map (\<lambda>ref. (convertRef ref, None)) refs) acc"
    "it_returned it' \<Longrightarrow> \<exists>ps1. list_all (\<lambda>p. pkt_Kind p = Data) ps1 \<and> pending r1 = (ps1 @ flush_packet # ps, e)"
    "\<not> it_returned it' \<Longrightarrow> pending r1 = (ps, e)"
    by (rule stream_loop [OF assms(1,2), of ?it ops yield]) (simp, simp)
  show ?thesis
  proof (cases "it_returned it'")
    case True
    with it(5) drain_pending have "pending (drainLSRefsResponse r1) = (ps, e)" by blast
    with True it(1-4) show ?thesis
      by (intro exI [of _ "drainLSRefsResponse r1"]) (simp add: run_stream_def)
  next
    case False
    with it(1-4,6) show ?thesis by (intro exI [of _ r1]) (simp add: run_stream_def)
  qed
qed

text \<open>A listing on a live session: the decoded refs, and the stream is at the next response.\<close>

lemma ListRefs_stream:
  assumes "live_v2 s" "\<not> closed (s_conn s)" "op_Command ops (s_conn s) ctx ''ls-refs'' (ls_refs_body s args) = (Inr r, c)"
    and "list_all2 ref_packet refs ps0" "pending (reader (s_conn s)) = (ps0 @ flush_packet # ps, e)"
  obtains r' where "Session_ListRefs ops ctx s args = (Inr (map convertRef refs), s\<lparr>s_conn := op_Return ops c r'\<rparr>)"
    "pending r' = (ps, e)" "\<not> closed (op_Return ops c r')" "reader (op_Return ops c r') = r'"
proof -
  have c: "r = reader (s_conn s)" "\<not> closed c"
    using command_reader [OF assms(3)] command_conn [OF assms(3)] assms(2) by auto
  have refs: "Session_Refs ops ctx s args = (Inr (StreamSeq r), s\<lparr>s_conn := c\<rparr>)"
    using assms(1,3) by (simp add: Session_Refs_def live_v2_def checkAlive_def refsV2_def ls_refs_body_def [abs_def])
  obtain r' where r': "run_stream ops (s\<lparr>s_conn := c\<rparr>) r append_ref (Inr []) =
      (feed append_ref (map (\<lambda>ref. (convertRef ref, None)) refs) (Inr []), s\<lparr>s_conn := op_Return ops c r'\<rparr>)" "pending r' = (ps, e)"
    using run_stream_ok [OF assms(4), of r ps e "s\<lparr>s_conn := c\<rparr>" append_ref "Inr []"] assms(5) c by auto
  have "feed append_ref (map (\<lambda>ref. (convertRef ref, None)) refs) (Inr []) = Inr (map convertRef refs)"
    using feed_append_ref [of "map convertRef refs" "[]"] by (simp add: comp_def)
  with r' c(2) show thesis
    by (intro that [of r']) (simp_all add: Session_ListRefs_def refs run_seq_def return_closed return_reader)
qed

lemma ObjectInfo_stream:
  assumes "live_v2 s" "''object-info'' \<in> set (c_Commands (s_caps s))" "\<not> closed (s_conn s)"
    and "op_Command ops (s_conn s) ctx ''object-info'' (object_info_body s oids args) = (Inr r, c)"
    and "list_all wf_object_row rows" "pending (reader (s_conn s)) = (object_info_response (oq_Size args) rows @ ps, e)"
  obtains r' where "Session_ObjectInfo ops ctx s oids args =
      (Inr (map (\<lambda>i. \<lparr>obj_Hash = oi_OID i, obj_Size = (if oq_Size args then oi_Size i else -1)\<rparr>) (object_info_rows (oq_Size args) rows)),
       s\<lparr>s_conn := op_Return ops c r'\<rparr>)"
    "pending r' = (ps, e)" "\<not> closed (op_Return ops c r')" "reader (op_Return ops c r') = r'"
proof -
  have c: "r = reader (s_conn s)" "\<not> closed c"
    using command_reader [OF assms(4)] command_conn [OF assms(4)] assms(3) by auto
  obtain r' where r': "DecodeObjectInfo r = (Inr (object_info_rows (oq_Size args) rows), r')" "pending r' = (ps, e)"
    using decode_object_info_response [OF assms(5), of r "oq_Size args" ps e] assms(6) c(1) by auto
  with c assms(1,2,4) show thesis
    by (intro that [of r'])
      (simp_all add: Session_ObjectInfo_def checkAlive_def live_v2_def object_info_body_def [abs_def] convertObjectInfos_def
        convertObjectInfo_def return_closed return_reader comp_def Let_def)
qed

end


section \<open>Responses that fail\<close>

lemma feed_body_error:
  "feed (refsV2_body ops append_ref) (map (\<lambda>r. (r, None)) refs @ [(rr, Some err)]) it =
     it\<lparr>it_acc := Inl (protocolError (it_session it) ''ls-refs'' err), it_drained := True,
       it_session := markDead ops (it_session it) (protocolError (it_session it) ''ls-refs'' err), it_returned := True\<rparr>"
proof (induction refs arbitrary: it)
  case Nil
  show ?case by (cases it) (simp add: refsV2_body_def append_ref_def Let_def)
next
  case (Cons ref refs)
  obtain acc where "append_ref (convertRef ref, None) (it_acc it) = (True, acc)" by (simp add: append_ref_def)
  then have "refsV2_body ops append_ref (ref, None) it = (True, it\<lparr>it_acc := acc\<rparr>)" by (simp add: refsV2_body_def)
  with Cons [of "it\<lparr>it_acc := acc\<rparr>"] show ?case by simp
qed

context transport_conn
begin

lemma ListRefs_error:
  assumes "live_v2 s" "op_Command ops (s_conn s) ctx ''ls-refs'' (ls_refs_body s args) = (Inr r, c)"
    and "pending r = (ps, e)" "ls_refs_items e ps = map (\<lambda>r. (r, None)) refs @ [(rr, Some err)]"
  obtains s' where "Session_ListRefs ops ctx s args = (Inl (protocolError s ''ls-refs'' err), s')"
    "s_deadErr s' = Some (protocolError s ''ls-refs'' err)" "closed (s_conn s')"
proof -
  let ?err = "protocolError s ''ls-refs'' err" and ?s = "s\<lparr>s_conn := c\<rparr>"
  let ?it = "\<lparr>it_acc = Inr [], it_session = ?s, it_drained = False, it_returned = False\<rparr>"
  have refs: "Session_Refs ops ctx s args = (Inr (StreamSeq r), ?s)"
    using assms(1,2) by (simp add: Session_Refs_def live_v2_def checkAlive_def refsV2_def ls_refs_body_def [abs_def])
  have pe: "protocolError ?s ''ls-refs'' err = ?err" by (simp add: protocolError_def lsr_error_def)
  obtain it r' where it: "DecodeLSRefs (refsV2_body ops append_ref) r ?it = (it, r')" by fastforce
  with DecodeLSRefs_items [OF assms(3), of "refsV2_body ops append_ref" ?it] assms(4)
  have it': "it = \<lparr>it_acc = Inl ?err, it_session = markDead ops ?s ?err, it_drained = True, it_returned = True\<rparr>"
    by (simp add: feed_body_error pe)
  have dead: "markDead ops ?s ?err = ?s\<lparr>s_deadErr := Some ?err, s_conn := snd (op_Close ops c)\<rparr>"
    using assms(1) by (simp add: markDead_def live_v2_def)
  let ?s' = "s\<lparr>s_deadErr := Some ?err, s_conn := op_Return ops (snd (op_Close ops c)) r'\<rparr>"
  have "Session_ListRefs ops ctx s args = (Inl ?err, ?s')"
    by (simp add: Session_ListRefs_def refs run_seq_def run_stream_def it it' dead)
  moreover have "s_deadErr ?s' = Some ?err" by (cases s) simp
  moreover have "closed (s_conn ?s')" by (cases s) (simp add: return_closed close_closes)
  ultimately show thesis by (rule that)
qed

end

text \<open>A live v2 session over \<open>git://\<close> that has read none of the bytes the peer will send.\<close>

definition sample_session :: "string \<Rightarrow> gitt_Conn Session" where
  "sample_session input = \<lparr>s_conn = \<lparr>gc_reader = NewReader (source_of input), gc_writer = NewWriter empty_sink,
       gc_redactedURL = [], gc_close = None, gc_closed = False\<rparr>,
     s_caps = convertCaps [] ProtocolV2, s_rawCaps = [], s_refs = [],
     s_config = \<lparr>cfg_registry = None, cfg_tracing = False, cfg_userAgent = [], cfg_protocol = None\<rparr>,
     s_url = [], s_deadErr = None\<rparr>"

definition list_all_refs :: RefsRequest where
  "list_all_refs = \<lparr>rq_Prefixes = [], rq_Peel = False, rq_Symrefs = False, rq_Unborn = False\<rparr>"

lemma sample_session_simps [simp]:
  "live_v2 (sample_session input)" "s_deadErr (sample_session input) = None"
  "\<not> gc_closed (s_conn (sample_session input))"
  "gc_reader (s_conn (sample_session input)) = NewReader (source_of input)"
  by (simp_all add: sample_session_def live_v2_def convertCaps_def Let_def)

lemma sample_command:
  obtains c where "git_Command (s_conn (sample_session input)) None ''ls-refs'' (ls_refs_body (sample_session input) list_all_refs) =
    (Inr (NewReader (source_of input)), c)"
proof -
  have "fst (ls_refs_body (sample_session input) list_all_refs (NewWriter empty_sink)) = None"
    using EncodeLSRefs_send [of "NewWriter empty_sink" "[]" "[]" "refs_args list_all_refs"]
    by (simp add: ls_refs_body_def sample_session_def echo_lines_def refs_args_def list_all_refs_def)
  then obtain w where "ls_refs_body (sample_session input) list_all_refs (NewWriter empty_sink) = (None, w)"
    by (metis prod.collapse)
  then show thesis by (intro that) (simp add: git_Command_def sample_session_def)
qed

lemma sample_hung_up: "pending (NewReader (source_of [])) = ([], io_EOF)"
  using pending_NewReader [of "[]"] by simp

section \<open>Properties\<close>

text \<open>C3: However a session is used (any sequence of calls, iterators run late, twice, or by consumers that stop
  anywhere), once it is dead its connection is closed, closing it again returns nil, and every command is
  refused without touching the session, by an error that matches both \<open>ErrSessionDead\<close> and the first cause.\<close>

theorem dead_session:
  assumes "session_steps git_ops s0 s" "s_deadErr s0 = None" "s_deadErr s = Some cause"
  shows "gc_closed (s_conn s) \<and> Session_Close git_ops s = (None, s) \<and>
    (\<exists>err. Session_ListRefs git_ops ctx s args = (Inl err, s) \<and> errors_Is err ErrSessionDead \<and> errors_Is err cause) \<and>
    (\<exists>err. Session_ObjectInfo git_ops ctx s oids oargs = (Inl err, s) \<and> errors_Is err ErrSessionDead \<and> errors_Is err cause)"
  using git.dead_session_closed [OF assms] dead_refuses [OF assms(3)] by blast

theorem dead_session_witness:
  "\<exists>s cause. session_steps git_ops (sample_session []) s \<and> s_deadErr s = Some cause \<and> gc_closed (s_conn s) \<and>
    (\<exists>err. Session_ListRefs git_ops None s list_all_refs = (Inl err, s) \<and> errors_Is err ErrSessionDead)"
proof -
  obtain c where "git_Command (s_conn (sample_session [])) None ''ls-refs'' (ls_refs_body (sample_session []) list_all_refs) =
      (Inr (NewReader (source_of [])), c)" by (rule sample_command)
  then have cmd: "op_Command git_ops (s_conn (sample_session [])) None ''ls-refs'' (ls_refs_body (sample_session []) list_all_refs) =
      (Inr (NewReader (source_of [])), c)" by (simp add: git_ops_def)
  have items: "ls_refs_items io_EOF [] = map (\<lambda>r. (r, None)) [] @ [(empty_RawRef, Some (eof_unexpected io_EOF))]" by simp
  obtain s cause where s: "Session_ListRefs git_ops None (sample_session []) list_all_refs = (Inl cause, s)" "s_deadErr s = Some cause"
    by (rule git.ListRefs_error [OF sample_session_simps(1) cmd sample_hung_up items])
  from s(1) have "session_steps git_ops (sample_session []) s"
    by (blast intro: session_steps.intros session_step.list_refs)
  from this s(2) dead_session [OF this sample_session_simps(2) s(2), of None list_all_refs] show ?thesis by blast
qed

text \<open>C8: On a connection that is one byte stream, a listing leaves the stream exactly behind its response,
  whatever the consumer does: it gets the converted refs in order until it stops, the rest of the response
  up to its flush is read away, and what follows is the next response, untouched.\<close>

theorem refs_drained:
  assumes "list_all2 ref_packet refs ps0" "pending (gc_reader (s_conn s)) = (ps0 @ flush_packet # ps, e)"
    and "\<not> gc_closed (s_conn s)"
  shows "\<exists>c. run_seq git_ops s (StreamSeq (gc_reader (s_conn s))) yield acc =
      (feed yield (map (\<lambda>ref. (convertRef ref, None)) refs) acc, s\<lparr>s_conn := c\<rparr>) \<and>
    pending (gc_reader c) = (ps, e) \<and> \<not> gc_closed c"
  using git.run_stream_ok [OF assms] git.return_closed git.return_reader [OF assms(3)]
  by (fastforce simp: run_seq_def assms(3))

theorem refs_drained_witness:
  "\<exists>c. run_seq git_ops (sample_session (stream [line_packet ''a1 HEAD'', line_packet ''a2 b'', flush_packet, line_packet ''x'']))
      (StreamSeq (NewReader (source_of (stream [line_packet ''a1 HEAD'', line_packet ''a2 b'', flush_packet, line_packet ''x'']))))
      (\<lambda>item names. (False, names @ [rf_Name (fst item)])) [] =
      ([''HEAD''], (sample_session (stream [line_packet ''a1 HEAD'', line_packet ''a2 b'', flush_packet, line_packet ''x'']))\<lparr>s_conn := c\<rparr>) \<and>
    pending (gc_reader c) = ([line_packet ''x''], io_EOF)"
proof -
  let ?ps = "[line_packet ''a1 HEAD'', line_packet ''a2 b'', flush_packet, line_packet ''x'']"
  let ?refs = "[\<lparr>ref_OID = ''a1'', ref_Name = ''HEAD'', ref_Peeled = [], ref_Symref = [], ref_Unborn = False\<rparr>,
      \<lparr>ref_OID = ''a2'', ref_Name = ''b'', ref_Peeled = [], ref_Symref = [], ref_Unborn = False\<rparr>]"
  have "list_all2 ref_packet ?refs [line_packet ''a1 HEAD'', line_packet ''a2 b'']"
    unfolding ref_packet_def by code_simp
  moreover have "list_all wf_packet ?ps" by (simp add: MaxPayload_def)
  then have "pending (NewReader (source_of (stream ?ps))) = (?ps, io_EOF)" by (rule pending_NewReader)
  ultimately show ?thesis
    using refs_drained [of ?refs "[line_packet ''a1 HEAD'', line_packet ''a2 b'']" "sample_session (stream ?ps)"
        "[line_packet ''x'']" io_EOF "\<lambda>item names. (False, names @ [rf_Name (fst item)])" "[]"]
    by (simp add: convertRef_def del: stream_simps) blast
qed

text \<open>A response that goes wrong (a server \<open>ERR\<close>, a malformed line, the end of the stream, after any number
  of refs) makes \<open>ListRefs\<close> fail with that error, kills the session for it and closes its connection; a
  server refusal is matched by the public sentinel.\<close>

theorem ListRefs_fails:
  assumes "live_v2 s" "git_Command (s_conn s) ctx ''ls-refs'' (ls_refs_body s args) = (Inr r, c)"
    and "pending r = (ps, e)" "ls_refs_items e ps = map (\<lambda>r. (r, None)) refs @ [(rr, Some err)]"
  shows "\<exists>s' err'. Session_ListRefs git_ops ctx s args = (Inl err', s') \<and> errors_Is err' err \<and>
    s_deadErr s' = Some err' \<and> gc_closed (s_conn s') \<and>
    (errors_Is err ErrServerRefused \<and> \<not> errors_Is err wire_ErrUnsupportedProtocol \<longrightarrow>
      errors_Is err' lsr_ErrServerRefused)"
proof -
  have "op_Command git_ops (s_conn s) ctx ''ls-refs'' (ls_refs_body s args) = (Inr r, c)"
    using assms(2) by (simp add: git_ops_def)
  then obtain s' where s': "Session_ListRefs git_ops ctx s args = (Inl (protocolError s ''ls-refs'' err), s')"
    "s_deadErr s' = Some (protocolError s ''ls-refs'' err)" "gc_closed (s_conn s')"
    by (rule git.ListRefs_error [OF assms(1) _ assms(3,4)])
  have "errors_Is (protocolError s ''ls-refs'' err) err" by (rule protocolError_Is) simp
  moreover have "errors_Is (protocolError s ''ls-refs'' err) lsr_ErrServerRefused"
    if "errors_Is err ErrServerRefused" "\<not> errors_Is err wire_ErrUnsupportedProtocol"
    using that by (simp add: protocolError_def lsr_error_def bridgeWireSentinel_def wireSentinelBridges_def)
  ultimately show ?thesis using s' by blast
qed

theorem ListRefs_fails_witness:
  "\<exists>s' err'. Session_ListRefs git_ops None (sample_session []) list_all_refs = (Inl err', s') \<and>
    errors_Is err' io_ErrUnexpectedEOF \<and> s_deadErr s' = Some err' \<and> gc_closed (s_conn s')"
proof -
  obtain c where "git_Command (s_conn (sample_session [])) None ''ls-refs'' (ls_refs_body (sample_session []) list_all_refs) =
      (Inr (NewReader (source_of [])), c)" by (rule sample_command)
  from ListRefs_fails [OF sample_session_simps(1) this sample_hung_up, of "[]" empty_RawRef "eof_unexpected io_EOF"]
  show ?thesis by (simp add: eof_unexpected_def) blast
qed

text \<open>On a v0 or v1 server a listing is answered from the advertisement alone: the refs the prefixes
  select, in the advertised order, with symref targets exactly when they were asked for, and peeled ids
  as they were advertised whatever the request says; neither the session nor its connection changes.\<close>

theorem ListRefs_cached:
  assumes "s_deadErr s = None" "c_Version (s_caps s) \<noteq> ProtocolV2"
  shows "Session_ListRefs ops ctx s args =
    (Inr (map (\<lambda>ref. ref\<lparr>rf_Symref := (if \<not> rq_Symrefs args then []
          else if rf_Symref ref = [] then symrefTarget s (rf_Name ref) else rf_Symref ref)\<rparr>)
        (filter (\<lambda>ref. rq_Prefixes args = [] \<or> (\<exists>p\<in>set (rq_Prefixes args). HasPrefix (rf_Name ref) p)) (s_refs s))), s)"
proof -
  have "Session_Refs ops ctx s args = (Inr (CachedSeq args), s)"
    using assms by (simp add: Session_Refs_def checkAlive_def)
  moreover have "refsCached s args append_ref (s_refs s) (Inr []) =
      Inr (map (cached_ref s args) (filter (\<lambda>ref. matchPrefixes (rf_Name ref) (rq_Prefixes args)) (s_refs s)))"
    unfolding refsCached_feed using feed_append_ref [of "map (cached_ref s args) _" "[]"] by (simp add: comp_def)
  ultimately show ?thesis
    by (simp add: Session_ListRefs_def run_seq_def matchPrefixes_conv cached_ref_def [abs_def])
qed

theorem ListRefs_cached_witness:
  "Session_ListRefs git_ops None
      ((sample_session [])\<lparr>s_caps := convertCaps [\<lparr>cap_Name = ''symref'', cap_Value = ''HEAD:refs/heads/m''\<rparr>] ProtocolV0,
        s_refs := [\<lparr>rf_Name = ''HEAD'', rf_Hash = ''a1'', rf_Peeled = [], rf_Symref = []\<rparr>,
          \<lparr>rf_Name = ''refs/x'', rf_Hash = ''a1'', rf_Peeled = [], rf_Symref = []\<rparr>]\<rparr>)
      (list_all_refs\<lparr>rq_Prefixes := [''HE''], rq_Symrefs := True\<rparr>) =
    (Inr [\<lparr>rf_Name = ''HEAD'', rf_Hash = ''a1'', rf_Peeled = [], rf_Symref = ''refs/heads/m''\<rparr>],
     (sample_session [])\<lparr>s_caps := convertCaps [\<lparr>cap_Name = ''symref'', cap_Value = ''HEAD:refs/heads/m''\<rparr>] ProtocolV0,
        s_refs := [\<lparr>rf_Name = ''HEAD'', rf_Hash = ''a1'', rf_Peeled = [], rf_Symref = []\<rparr>,
          \<lparr>rf_Name = ''refs/x'', rf_Hash = ''a1'', rf_Peeled = [], rf_Symref = []\<rparr>]\<rparr>)"
proof -
  let ?caps = "convertCaps [\<lparr>cap_Name = ''symref'', cap_Value = ''HEAD:refs/heads/m''\<rparr>] ProtocolV0"
  let ?s = "(sample_session [])\<lparr>s_caps := ?caps,
        s_refs := [\<lparr>rf_Name = ''HEAD'', rf_Hash = ''a1'', rf_Peeled = [], rf_Symref = []\<rparr>,
          \<lparr>rf_Name = ''refs/x'', rf_Hash = ''a1'', rf_Peeled = [], rf_Symref = []\<rparr>]\<rparr>"
  have caps: "c_Version ?caps = ProtocolV0" "symrefTarget_loop (c_Symrefs ?caps) ''HEAD'' = ''refs/heads/m''"
    by code_simp+
  then have "s_deadErr ?s = None" "c_Version (s_caps ?s) \<noteq> ProtocolV2" by (simp_all add: sample_session_def)
  from ListRefs_cached [OF this, of git_ops None "list_all_refs\<lparr>rq_Prefixes := [''HE''], rq_Symrefs := True\<rparr>"]
  show ?thesis by (simp add: list_all_refs_def symrefTarget_def caps)
qed

end
