(* ===== verification/Dial.thy ===== *)
theory Dial
  imports Session
begin

text \<open>
  \<open>Dial\<close> (\<open>src/dial.go\<close>) and the one-shot helpers (\<open>src/helpers.go\<close>).

  The transports of a registry share the type \<open>'c\<close> of connections (the sum of the schemes' connections in a
  mixed registry) and the operations \<open>ops\<close> on it. The default registry is a parameter. A function that opens
  a connection and does not return it also gives the connection's final state, which the code drops: \<open>None\<close>
  when no connection was opened. \<open>ctx\<close> is \<open>ctx.Err()\<close> at the dial, \<open>ctx'\<close> at the command.
\<close>

section \<open>Dial\<close>

definition apply_options :: "('c dialConfig \<Rightarrow> 'c dialConfig) option list \<Rightarrow> 'c dialConfig \<Rightarrow> 'c dialConfig" where
  "apply_options opts cfg = foldl (\<lambda>c opt. case opt of None \<Rightarrow> c | Some f \<Rightarrow> f c) cfg opts"

definition zero_config :: "'c dialConfig" where
  "zero_config = \<lparr>cfg_registry = None, cfg_tracing = False, cfg_userAgent = [], cfg_protocol = None\<rparr>"

text \<open>The \<open>Server\<close> and \<open>Status\<close> that \<open>populateFromTransportError\<close> leaves in a zero error.\<close>

definition populateFromTransportError :: "go_error \<Rightarrow> string \<times> int" where
  "populateFromTransportError src = (case errors_As httpt src of
      Some e \<Rightarrow> (pe_Server e, pe_Status e)
    | None \<Rightarrow> (case errors_As ssht src of
        Some e \<Rightarrow> (pe_Server e, 0)
      | None \<Rightarrow> (case errors_As filet src of
          Some e \<Rightarrow> (pe_Server e, 0)
        | None \<Rightarrow> ([], 0))))"

definition dial_error :: "string \<Rightarrow> go_error \<Rightarrow> go_error" where
  "dial_error redacted err = (case populateFromTransportError err of (server, status) \<Rightarrow>
     ProtocolError lsremote redacted ''dial'' None server (Some (bridgeOpenError err)) status)"

definition Dial ::
  "'c Conn_ops \<Rightarrow> 'c Registry \<Rightarrow> go_error option \<Rightarrow> string \<Rightarrow> ('c dialConfig \<Rightarrow> 'c dialConfig) option list \<Rightarrow>
   (go_error \<times> 'c option) + 'c Session" where
  "Dial ops defaultRegistry ctx rawURL opts =
     (let cfg = apply_options opts zero_config;
          cfg = (if cfg_registry cfg = None then cfg\<lparr>cfg_registry := Some defaultRegistry\<rparr> else cfg)
      in case ParseURL rawURL of
        Inl err \<Rightarrow> Inl (err, None)
      | Inr u \<Rightarrow>
          let redactedURL = RedactURL rawURL in
          (case Lookup (the (cfg_registry cfg)) (url_Scheme u) of
             None \<Rightarrow> Inl (ProtocolError lsremote redactedURL ''dial'' None
               (''no transport registered for scheme '' @ quote (url_Scheme u)) (Some lsr_ErrUnsupportedProtocol) 0, None)
           | Some tr \<Rightarrow>
               (case tp_Open tr ctx u \<lparr>oo_tracing = cfg_tracing cfg, oo_UserAgent = cfg_userAgent cfg,
                   oo_PreferredProtocol = cfg_protocol cfg\<rparr> of
                  Inl err \<Rightarrow> Inl (dial_error redactedURL err, None)
                | Inr conn \<Rightarrow> (case ParseAdvertisement (op_Advertisement ops conn) (cfg_protocol cfg) of
                    (Inl err, r) \<Rightarrow> Inl (ProtocolError lsremote redactedURL ''advertisement'' None [] (Some (bridgeWireSentinel err)) 0,
                      Some (snd (op_Close ops (op_Return ops conn r))))
                  | (Inr adv, r) \<Rightarrow> Inr \<lparr>s_conn = op_Return ops conn r, s_caps = convertCaps (ad_Caps adv) (ad_Version adv),
                      s_rawCaps = ad_Caps adv, s_refs = convertRefs (ad_Refs adv), s_config = cfg, s_url = redactedURL,
                      s_deadErr = None\<rparr>))))"

section \<open>One-shot helpers\<close>

definition closed_by_defer :: "'c Conn_ops \<Rightarrow> 'c Session \<Rightarrow> 'c option" where
  "closed_by_defer ops s = Some (s_conn (snd (Session_Close ops s)))"

definition lsr_Refs ::
  "'c Conn_ops \<Rightarrow> 'c Registry \<Rightarrow> go_error option \<Rightarrow> go_error option \<Rightarrow> string \<Rightarrow> RefsRequest \<Rightarrow>
   ('c dialConfig \<Rightarrow> 'c dialConfig) option list \<Rightarrow> (go_error \<times> 'c option) + RefSeq \<times> 'c Session" where
  "lsr_Refs ops dflt ctx ctx' rawURL args opts = (case Dial ops dflt ctx rawURL opts of
      Inl failed \<Rightarrow> Inl failed
    | Inr s \<Rightarrow> (case Session_Refs ops ctx' s args of
        (Inl err, s') \<Rightarrow> Inl (err, closed_by_defer ops s')
      | (Inr seq, s') \<Rightarrow> Inr (seq, s')))"

text \<open>A run of the iterator \<open>Refs\<close> returns.\<close>

definition run_wrapped :: "'c Conn_ops \<Rightarrow> RefSeq \<times> 'c Session \<Rightarrow> 's consumer \<Rightarrow> 's \<Rightarrow> 's \<times> 'c Session" where
  "run_wrapped ops wrapped yield acc = (case wrapped of (seq, s) \<Rightarrow>
     (case run_seq ops s seq yield acc of (acc', s') \<Rightarrow> (acc', snd (Session_Close ops s'))))"

definition lsr_ListRefs ::
  "'c Conn_ops \<Rightarrow> 'c Registry \<Rightarrow> go_error option \<Rightarrow> go_error option \<Rightarrow> string \<Rightarrow> RefsRequest \<Rightarrow>
   ('c dialConfig \<Rightarrow> 'c dialConfig) option list \<Rightarrow> (go_error + Ref list) \<times> 'c option" where
  "lsr_ListRefs ops dflt ctx ctx' rawURL args opts = (case Dial ops dflt ctx rawURL opts of
      Inl (err, c) \<Rightarrow> (Inl err, c)
    | Inr s \<Rightarrow> (case Session_ListRefs ops ctx' s args of (res, s') \<Rightarrow> (res, closed_by_defer ops s')))"

definition ObjectInfos ::
  "'c Conn_ops \<Rightarrow> 'c Registry \<Rightarrow> go_error option \<Rightarrow> go_error option \<Rightarrow> string \<Rightarrow> string list \<Rightarrow> ObjectInfoRequest \<Rightarrow>
   ('c dialConfig \<Rightarrow> 'c dialConfig) option list \<Rightarrow> (go_error + ObjectInfo list) \<times> 'c option" where
  "ObjectInfos ops dflt ctx ctx' rawURL oids args opts = (case Dial ops dflt ctx rawURL opts of
      Inl (err, c) \<Rightarrow> (Inl err, c)
    | Inr s \<Rightarrow> (case Session_ObjectInfo ops ctx' s oids args of (res, s') \<Rightarrow> (res, closed_by_defer ops s')))"

definition Exists ::
  "'c Conn_ops \<Rightarrow> 'c Registry \<Rightarrow> go_error option \<Rightarrow> string \<Rightarrow>
   ('c dialConfig \<Rightarrow> 'c dialConfig) option list \<Rightarrow> (bool \<times> go_error option) \<times> 'c option" where
  "Exists ops dflt ctx rawURL opts = (case Dial ops dflt ctx rawURL opts of
      Inl (err, c) \<Rightarrow> if errors_Is err lsr_ErrNotFound then ((False, None), c) else ((False, Some err), c)
    | Inr s \<Rightarrow> ((True, None), closed_by_defer ops s))"

fun lookup_symref :: "Symref list \<Rightarrow> string option" where
  "lookup_symref [] = None"
| "lookup_symref (sr # srs) = (if sr_Name sr = ''HEAD'' then Some (sr_Target sr) else lookup_symref srs)"

definition lookupHEADSymref :: "Capabilities \<Rightarrow> string option" where
  "lookupHEADSymref caps = lookup_symref (c_Symrefs caps)"

text \<open>The body of the loop over the refs: \<open>Some\<close> what it returned.\<close>

definition default_branch_body :: "(go_error + string) option consumer" where
  "default_branch_body item acc = (case item of
      (ref, Some err) \<Rightarrow> (False, Some (Inl err))
    | (ref, None) \<Rightarrow>
        if rf_Name ref = ''HEAD'' \<and> rf_Symref ref \<noteq> [] then (False, Some (Inr (rf_Symref ref))) else (True, acc))"

definition branch_request :: RefsRequest where
  "branch_request = \<lparr>rq_Prefixes = [''HEAD''], rq_Peel = False, rq_Symrefs = True, rq_Unborn = True\<rparr>"

definition branch_from_caps :: "'c Session \<Rightarrow> Capabilities \<Rightarrow> go_error + string" where
  "branch_from_caps s caps = (case lookupHEADSymref caps of
      Some target \<Rightarrow> Inr target
    | None \<Rightarrow> Inl (ProtocolError lsremote (s_url s) (if c_Version caps \<noteq> ProtocolV2 then ''advertisement'' else ''ls-refs'')
        (Some (c_Version caps)) ''HEAD has no symbolic target'' (Some ErrNoDefaultBranch) 0))"

definition DefaultBranch ::
  "'c Conn_ops \<Rightarrow> 'c Registry \<Rightarrow> go_error option \<Rightarrow> go_error option \<Rightarrow> string \<Rightarrow>
   ('c dialConfig \<Rightarrow> 'c dialConfig) option list \<Rightarrow> (go_error + string) \<times> 'c option" where
  "DefaultBranch ops dflt ctx ctx' rawURL opts = (case Dial ops dflt ctx rawURL opts of
      Inl (err, c) \<Rightarrow> (Inl err, c)
    | Inr s \<Rightarrow>
        let caps = Session_Capabilities s in
        if c_Version caps = ProtocolV2 then
          (case Session_Refs ops ctx' s branch_request of
             (Inl err, s') \<Rightarrow> (Inl err, closed_by_defer ops s')
           | (Inr seq, s') \<Rightarrow> (case run_seq ops s' seq default_branch_body None of
               (Some res, s'') \<Rightarrow> (res, closed_by_defer ops s'')
             | (None, s'') \<Rightarrow> (branch_from_caps s'' caps, closed_by_defer ops s'')))
        else (branch_from_caps s caps, closed_by_defer ops s))"

definition lsr_Tags where
  "lsr_Tags ops dflt ctx ctx' rawURL opts =
     lsr_Refs ops dflt ctx ctx' rawURL \<lparr>rq_Prefixes = [''refs/tags/''], rq_Peel = True, rq_Symrefs = False, rq_Unborn = False\<rparr> opts"

definition lsr_Heads where
  "lsr_Heads ops dflt ctx ctx' rawURL opts =
     lsr_Refs ops dflt ctx ctx' rawURL \<lparr>rq_Prefixes = [''refs/heads/''], rq_Peel = False, rq_Symrefs = False, rq_Unborn = False\<rparr> opts"

section \<open>Connections are closed\<close>

context transport_conn
begin

lemma close_result: "op_Close ops c = (err, c') \<Longrightarrow> closed c'"
  using close_closes [of c] by simp

lemma defer_closes: "pred_option closed (closed_by_defer ops s)"
  by (simp add: closed_by_defer_def Session_Close_def close_result split: prod.split)

lemma Dial_fails_closed: "Dial ops dflt ctx rawURL opts = Inl (err, c) \<Longrightarrow> pred_option closed c"
  by (auto simp: Dial_def Let_def close_closes split: sum.splits option.splits prod.splits)

lemma Dial_cases_closed:
  "pred_option closed (snd (lsr_ListRefs ops dflt ctx ctx' rawURL args opts))"
  "pred_option closed (snd (ObjectInfos ops dflt ctx ctx' rawURL oids oargs opts))"
  "pred_option closed (snd (Exists ops dflt ctx rawURL opts))"
  "pred_option closed (snd (DefaultBranch ops dflt ctx ctx' rawURL opts))"
  by (auto simp: lsr_ListRefs_def ObjectInfos_def Exists_def DefaultBranch_def Let_def defer_closes
      dest: Dial_fails_closed split: sum.split prod.split option.split)

lemma Refs_closed:
  "case lsr_Refs ops dflt ctx ctx' rawURL args opts of
     Inl (err, c) \<Rightarrow> pred_option closed c
   | Inr wrapped \<Rightarrow> closed (s_conn (snd (run_wrapped ops wrapped yield acc)))"
  by (auto simp: lsr_Refs_def run_wrapped_def Session_Close_def defer_closes close_result
      dest: Dial_fails_closed split: sum.split prod.split option.split)

end

section \<open>Dialing a git daemon\<close>

definition git_transport :: "(string \<Rightarrow> go_error + NetConn) \<Rightarrow> gitt_Conn Transport" where
  "git_transport dial = \<lparr>tp_Schemes = [''git''], tp_Open = git_Open dial\<rparr>"

definition git_only :: "(string \<Rightarrow> go_error + NetConn) \<Rightarrow> (gitt_Conn dialConfig \<Rightarrow> gitt_Conn dialConfig) option list" where
  "git_only dial = [Some (WithTransports (Some (NewRegistry [git_transport dial])))]"

text \<open>What a client that asks for no version sends first.\<close>

definition daemon_request :: "URL \<Rightarrow> Packet" where
  "daemon_request u = data_packet (''git-upload-pack '' @ url_Path u @ [CHR 0x00] @ ''host='' @ hostParameter u @ [CHR 0x00] @
     [CHR 0x00] @ ''version=2'' @ [CHR 0x00])"

definition v2_advertisement :: "RawCapabilities \<Rightarrow> Packet list" where
  "v2_advertisement caps = line_packet ''version 2'' # map (\<lambda>c. line_packet (show_capability c)) caps @ [flush_packet]"

lemma Lookup_git: "Lookup (NewRegistry [git_transport dial]) ''git'' = Some (git_transport dial)"
proof -
  have "ToLower ''git'' = ''git''" by code_simp
  then show ?thesis by (simp add: Lookup_def NewRegistry_def Register_def git_transport_def)
qed

lemma git_Open_v2:
  assumes "dial (hostAddress u) = Inr net" "unbounded (NewWriter (nc_dst net))"
    and "length (url_Path u) + length (hostParameter u) \<le> 64000"
  shows "git_Open dial None u \<lparr>oo_tracing = False, oo_UserAgent = ua, oo_PreferredProtocol = None\<rparr> =
    Inr \<lparr>gc_reader = NewReader (nc_src net), gc_writer = send [daemon_request u] (NewWriter (nc_dst net)),
      gc_redactedURL = RedactURL (url_Raw u), gc_close = nc_close net, gc_closed = False\<rparr>"
proof -
  have "itoa 2 = ''2''" by (simp add: itoa_def itoa_nat.simps digit_char_def char_of_eq_iff)
  with assms have "WriteStreamRequest (NewWriter (nc_dst net)) u None = (None, send [daemon_request u] (NewWriter (nc_dst net)))"
    by (simp add: WriteStreamRequest_def Let_def ProtocolV2_def MaxPayload_def daemon_request_def)
  with assms(1) show ?thesis
    by (simp add: git_Open_def Let_def git_resolvePreferredProtocol_def git_writer_def git_reader_def)
qed

text \<open>A dialed session, and the stream behind the advertisement.\<close>

lemma Dial_git_v2:
  assumes "wf_url u" "url_Scheme u = ''git''" "length (url_Path u) + length (hostParameter u) \<le> 64000"
    and "dial (hostAddress u) = Inr net" "unbounded (NewWriter (nc_dst net))"
    and "list_all wf_capability caps" "pending (NewReader (nc_src net)) = (v2_advertisement caps @ ps, e)"
  obtains r cfg where "Dial git_ops dflt None (show_url ''git'' u) (git_only dial) =
      Inr \<lparr>s_conn = \<lparr>gc_reader = r, gc_writer = send [daemon_request u] (NewWriter (nc_dst net)),
          gc_redactedURL = RedactURL (show_url ''git'' u), gc_close = nc_close net, gc_closed = False\<rparr>,
        s_caps = convertCaps caps ProtocolV2, s_rawCaps = caps, s_refs = [], s_config = cfg,
        s_url = RedactURL (show_url ''git'' u), s_deadErr = None\<rparr>"
    "pending r = (ps, e)" "cfg_userAgent cfg = []"
proof -
  let ?u = "u\<lparr>url_Raw := show_url ''git'' u\<rparr>"
  have low: "ToLower ''git'' = ''git''" by code_simp
  have parsed: "ParseURL (show_url ''git'' u) = Inr ?u"
    using ParseURL_show [OF assms(1), of "''git''"] low assms(2) by simp
  have same: "daemon_request ?u = daemon_request u" "hostAddress ?u = hostAddress u" "hostParameter ?u = hostParameter u"
    by (simp_all add: daemon_request_def hostAddress_def hostParameter_def)
  have opened: "git_Open dial None ?u \<lparr>oo_tracing = False, oo_UserAgent = [], oo_PreferredProtocol = None\<rparr> =
      Inr \<lparr>gc_reader = NewReader (nc_src net), gc_writer = send [daemon_request u] (NewWriter (nc_dst net)),
        gc_redactedURL = RedactURL (show_url ''git'' u), gc_close = nc_close net, gc_closed = False\<rparr>"
    using git_Open_v2 [of dial ?u net "[]"] assms(3-5) by (simp add: same)
  have "pending (NewReader (nc_src net)) =
      (line_packet ''version 2'' # map (\<lambda>c. line_packet (show_capability c)) caps @ flush_packet # ps, e)"
    using assms(7) by (simp add: v2_advertisement_def)
  then obtain r1 where r1: "pending r1 = (map (\<lambda>c. line_packet (show_capability c)) caps @ flush_packet # ps, e)"
    "ParseAdvertisement (NewReader (nc_src net)) None = (case dispatchAdvertisement (line_packet ''version 2'') r1 of
        (Inl e, r'') \<Rightarrow> (Inl e, r'') | (Inr ad, r'') \<Rightarrow> (accept_version None ad, r''))"
    by (rule ParseAdvertisement_first)
  obtain r where r: "pending r = (ps, e)" "dispatchAdvertisement (line_packet ''version 2'') r1 =
      (Inr \<lparr>ad_Version = ProtocolV2, ad_Caps = caps, ad_Refs = []\<rparr>, r)"
    using assms(6) r1(1) by (rule dispatch_v2)
  let ?cfg = "\<lparr>cfg_registry = Some (NewRegistry [git_transport dial]), cfg_tracing = False, cfg_userAgent = [], cfg_protocol = None\<rparr>"
  have cfg: "apply_options (git_only dial) zero_config = ?cfg"
    by (simp add: apply_options_def git_only_def zero_config_def WithTransports_def)
  have pa: "ParseAdvertisement (NewReader (nc_src net)) None = (Inr \<lparr>ad_Version = ProtocolV2, ad_Caps = caps, ad_Refs = []\<rparr>, r)"
    unfolding r1(2) r(2) by (simp add: accept_version_def)
  have tp: "tp_Open (git_transport dial) = git_Open dial" by (simp add: git_transport_def)
  have ops: "op_Advertisement git_ops = gc_reader" "op_Return git_ops = git_Return" by (simp_all add: git_ops_def)
  have "Dial git_ops dflt None (show_url ''git'' u) (git_only dial) =
      Inr \<lparr>s_conn = \<lparr>gc_reader = r, gc_writer = send [daemon_request u] (NewWriter (nc_dst net)),
          gc_redactedURL = RedactURL (show_url ''git'' u), gc_close = nc_close net, gc_closed = False\<rparr>,
        s_caps = convertCaps caps ProtocolV2, s_rawCaps = caps, s_refs = [], s_config = ?cfg,
        s_url = RedactURL (show_url ''git'' u), s_deadErr = None\<rparr>"
    by (simp add: Dial_def cfg parsed assms(2) Lookup_git Let_def tp opened pa ops git_Return_def convertRefs_def)
  moreover have "cfg_userAgent ?cfg = []" by (rule dialConfig.select_convs)
  ultimately show thesis using r(1) by (intro that)
qed

section \<open>Properties\<close>




end
