(* ===== verification/Conversation.thy ===== *)
theory Conversation
  imports Server_Loop Dial
begin

text \<open>
  The library and the server in one conversation over a \<open>git://\<close> connection.

  The bytes that flow are a fixed point: \<open>cb\<close> is what the client writes behind its daemon request on reading
  \<open>sb\<close>, and \<open>sb\<close> is what the server (\<open>src/internal/server/serve.go\<close>) writes on reading \<open>cb\<close>.
\<close>

section \<open>The two ends\<close>

definition daemon_replies :: "Store \<Rightarrow> Options \<Rightarrow> string \<Rightarrow> go_error option \<times> string" where
  "daemon_replies store opts cb =
     (case Serve (\<lambda>_. None) (NewReader (source_of cb)) (NewWriter empty_sink) store opts of
        (err, w, _, _) \<Rightarrow> (err, snk_out (wr_dst w)))"

text \<open>A network in which only the host of \<open>u\<close> answers, with the bytes \<open>sb\<close>.\<close>

definition peer :: "URL \<Rightarrow> string \<Rightarrow> string \<Rightarrow> go_error + NetConn" where
  "peer u sb addr = (if addr = hostAddress u then Inr \<lparr>nc_src = source_of sb, nc_dst = empty_sink, nc_close = None\<rparr>
     else Inl net_ErrClosed)"

definition client_sent :: "gitt_Conn \<Rightarrow> string" where
  "client_sent c = snk_out (wr_dst (gc_writer c))"

definition conversation :: "URL \<Rightarrow> Store \<Rightarrow> Options \<Rightarrow> string \<Rightarrow> string \<Rightarrow> bool" where
  "conversation u store opts sb sent \<longleftrightarrow>
     (\<exists>cb. daemon_replies store opts cb = (None, sb) \<and> sent = stream [daemon_request u] @ cb)"

definition servable :: "URL \<Rightarrow> Options \<Rightarrow> bool" where
  "servable u opts \<longleftrightarrow> wf_url u \<and> url_Scheme u = ''git'' \<and> length (url_Path u) + length (hostParameter u) \<le> 64000 \<and>
     list_all (\<lambda>c. \<not> isWireSpace c) (opt_Agent opts) \<and> length (opt_Agent opts) \<le> 65000 \<and>
     opt_PreferredProtocol opts = ProtocolV2"

section \<open>What the server sends\<close>

definition echoes :: "Store \<Rightarrow> Options \<Rightarrow> string list" where
  "echoes store opts = echo_lines (v2_caps store opts) []"

lemma cap_echoes: "list_all cap_line (echoes store opts)"
  by (auto simp: echoes_def echo_lines_def cap_line_def commandPrefix_def split: list.splits)

lemma fits_echoes: "list_all fits_line (echoes store opts)"
  by (cases "st_Algo store")
    (simp_all add: echoes_def echo_lines_def v2_caps_def fits_line_def MaxPayload_def DefaultUserAgent_def)

lemma caps_packets: "map (\<lambda>c. line_packet (show_capability c)) (v2_caps store opts) = map line_packet (v2_capabilities store opts)"
  unfolding show_v2_caps [symmetric] map_map comp_def ..

lemma wf_v2_advertisement: "servable u opts \<Longrightarrow> list_all wf_packet (v2_advertisement (v2_caps store opts))"
  using fits_v2_capabilities [of opts store]
  by (simp add: v2_advertisement_def caps_packets servable_def MaxPayload_def)

lemma daemon_answers:
  assumes "servable u opts" "list_all (can_answer store head refs) qs"
    and "list_all (\<lambda>q. list_all fits_line (request_lines q)) qs"
  shows "daemon_replies store opts (stream (concat (map (\<lambda>q. request_frame (request_name q) (echoes store opts) (request_lines q)) qs))) =
    (None, stream (v2_advertisement (v2_caps store opts) @ concat (map (answer store head refs) qs)))"
proof -
  let ?ps = "concat (map (\<lambda>q. request_frame (request_name q) (echoes store opts) (request_lines q)) qs)"
  let ?w = "send (v2_advertisement (v2_caps store opts)) (NewWriter empty_sink)"
  have adv: "writeV2Advertisement (NewWriter empty_sink) store opts = (None, ?w)"
    using writeV2Advertisement_send [OF unbounded_NewWriter fits_v2_capabilities] assms(1)
    by (simp add: v2_advertisement_def servable_def)
  have "fits_line (''command='' @ request_name q)" for q by (cases q) (simp_all add: fits_line_def MaxPayload_def)
  then have "list_all wf_packet (request_frame (request_name q) (echoes store opts) (request_lines q))" if "q \<in> set qs" for q
    using that assms(3) fits_echoes [of store opts] by (intro wf_request_frame) (auto simp: list_all_iff)
  then have "list_all wf_packet ?ps" by (simp add: list_all_iff)
  then have "pending (NewReader (source_of (stream ?ps))) = (?ps, io_EOF)" by (rule pending_NewReader)
  then obtain r' evs where "runV2CommandLoop (\<lambda>_. None) 0 (NewReader (source_of (stream ?ps))) ?w store [] =
      (None, send (concat (map (answer store head refs) qs)) ?w, r', evs)"
    using command_loop_run [of ?w "echoes store opts" store head refs qs io_EOF
        "NewReader (source_of (stream ?ps))" 0 "[]"] assms(2) cap_echoes [of store opts]
    by (auto simp del: stream_simps)
  with adv assms(1) show ?thesis
    by (simp add: daemon_replies_def Serve_def servable_def del: stream_simps)
qed

section \<open>What the client does\<close>

text \<open>The session after the dial, with the answers \<open>ps\<close> of the server still to come.\<close>

definition dialed :: "URL \<Rightarrow> Store \<Rightarrow> Options \<Rightarrow> Reader \<Rightarrow> gitt_Conn dialConfig \<Rightarrow> gitt_Conn Session" where
  "dialed u store opts r cfg =
     \<lparr>s_conn = \<lparr>gc_reader = r, gc_writer = send [daemon_request u] (NewWriter empty_sink),
        gc_redactedURL = RedactURL (show_url ''git'' u), gc_close = None, gc_closed = False\<rparr>,
      s_caps = convertCaps (v2_caps store opts) ProtocolV2, s_rawCaps = v2_caps store opts, s_refs = [], s_config = cfg,
      s_url = RedactURL (show_url ''git'' u), s_deadErr = None\<rparr>"

lemma dial_peer:
  assumes "servable u opts" "list_all wf_packet ps"
  obtains r cfg where "Dial git_ops dflt None (show_url ''git'' u)
      (git_only (peer u (stream (v2_advertisement (v2_caps store opts) @ ps)))) = Inr (dialed u store opts r cfg)"
    "pending r = (ps, io_EOF)" "cfg_userAgent cfg = []"
proof -
  let ?net = "\<lparr>nc_src = source_of (stream (v2_advertisement (v2_caps store opts) @ ps)), nc_dst = empty_sink, nc_close = None\<rparr>"
  have "list_all wf_packet (v2_advertisement (v2_caps store opts) @ ps)"
    using wf_v2_advertisement [OF assms(1)] assms(2) by simp
  then have p: "pending (NewReader (nc_src ?net)) = (v2_advertisement (v2_caps store opts) @ ps, io_EOF)"
    by (simp del: stream_simps)
  have "peer u (stream (v2_advertisement (v2_caps store opts) @ ps)) (hostAddress u) = Inr ?net"
    by (simp add: peer_def del: stream_simps)
  then show thesis
    using assms(1) wf_v2_caps p that
    by (elim Dial_git_v2 [where dflt = dflt and caps = "v2_caps store opts", rotated 3])
      (auto simp: servable_def dialed_def)
qed

lemma close_sent: "client_sent (s_conn (snd (Session_Close git_ops s))) = client_sent (s_conn s)"
  by (simp add: Session_Close_def git_ops_def git_Close_def client_sent_def closed_sink_def)

lemma dialed_simps [simp]:
  "live_v2 (dialed u store opts r cfg)" "\<not> gc_closed (s_conn (dialed u store opts r cfg))"
  "gc_reader (s_conn (dialed u store opts r cfg)) = r"
  by (simp_all add: dialed_def live_v2_def convertCaps_def Let_def)

lemma dialed_sends:
  assumes "cfg_userAgent cfg = []" "list_all fits_line (map (\<lambda>p. ''ref-prefix '' @ p) (rq_Prefixes args))"
  shows "op_Command git_ops (s_conn (dialed u store opts r cfg)) None ''ls-refs'' (ls_refs_body (dialed u store opts r cfg) args) =
    (Inr r, (s_conn (dialed u store opts r cfg))\<lparr>gc_writer := send (daemon_request u #
      request_frame ''ls-refs'' (echoes store opts) (ls_refs_lines (refs_args args) True)) (NewWriter empty_sink)\<rparr>)"
proof -
  have "ls_refs_body (dialed u store opts r cfg) args (send [daemon_request u] (NewWriter empty_sink)) =
      (None, send (daemon_request u # request_frame ''ls-refs'' (echoes store opts) (ls_refs_lines (refs_args args) True))
        (NewWriter empty_sink))"
    using EncodeLSRefs_send [of "send [daemon_request u] (NewWriter empty_sink)" "v2_caps store opts" "[]" "refs_args args"]
      fits_echoes [of store opts] assms
    by (simp add: ls_refs_body_def dialed_def echoes_def v2_caps_unborn refs_args_def)
  then show ?thesis by (simp add: git_ops_def git_Command_def) (simp add: dialed_def)
qed

lemma ref_packets: "list_all wf_v2_ref refs \<Longrightarrow> list_all2 ref_packet refs (map (\<lambda>r. line_packet (v2_ref_line r)) refs)"
  by (induction refs) (simp_all add: ref_packet_def parse_v2_ref_line v2_ref_line_not_ERR)

lemma git_Return_sent: "client_sent (git_Return c r) = client_sent c"
  by (simp add: git_Return_def client_sent_def)

text \<open>An \<open>ls-refs\<close> conversation, whatever the client does with the refs.\<close>

lemma ls_refs_conversation:
  assumes "servable u opts" "answerable store head refs (refs_args args)"
    and "list_all fits_line (map (\<lambda>p. ''ref-prefix '' @ p) (rq_Prefixes args))"
  obtains sb s r s' where "Dial git_ops dflt None (show_url ''git'' u) (git_only (peer u sb)) = Inr s"
    "live_v2 s" "c_Symrefs (s_caps s) = []"
    "Session_Refs git_ops None s args = (Inr (StreamSeq r), s')" "\<not> gc_closed (s_conn s')"
    "pending r = (map (\<lambda>r. line_packet (v2_ref_line r)) (ls_refs_answer store head refs (refs_args args)) @ flush_packet # [], io_EOF)"
    "conversation u store opts sb (client_sent (s_conn s'))"
proof -
  let ?q = "LsRefs (refs_args args) True"
  define sb where "sb = stream (v2_advertisement (v2_caps store opts) @ answer store head refs ?q)"
  have eff: "effective_args (refs_args args) True = refs_args args" by (simp add: effective_args_def)
  have ans: "answer store head refs ?q =
      map (\<lambda>r. line_packet (v2_ref_line r)) (ls_refs_answer store head refs (refs_args args)) @ flush_packet # []"
    by (simp add: eff)
  from assms(2) have wf: "list_all wf_packet (answer store head refs ?q)"
    unfolding ans answerable_def by (auto simp: list_all_iff fits_line_def)
  obtain r cfg where d: "Dial git_ops dflt None (show_url ''git'' u) (git_only (peer u sb)) =
      Inr (dialed u store opts r cfg)" "pending r = (answer store head refs ?q, io_EOF)" "cfg_userAgent cfg = []"
    using assms(1) wf unfolding sb_def by (rule dial_peer)
  let ?s = "dialed u store opts r cfg"
  let ?c = "(s_conn ?s)\<lparr>gc_writer := send (daemon_request u # request_frame ''ls-refs'' (echoes store opts)
      (ls_refs_lines (refs_args args) True)) (NewWriter empty_sink)\<rparr>"
  have refs: "Session_Refs git_ops None ?s args = (Inr (StreamSeq r), ?s\<lparr>s_conn := ?c\<rparr>)"
    using dialed_sends [OF d(3) assms(3), of u store opts r] dialed_simps(1) [of u store opts r cfg]
    by (simp add: Session_Refs_def live_v2_def checkAlive_def refsV2_def ls_refs_body_def [abs_def])
  let ?req = "request_frame ''ls-refs'' (echoes store opts) (ls_refs_lines (refs_args args) True)"
  have "list_all fits_line (ls_refs_lines (refs_args args) True)"
    using assms(3) by (simp add: ls_refs_lines_def refs_args_def fits_line_consts del: append.simps)
  then have "daemon_replies store opts (stream ?req) = (None, sb)"
    using daemon_answers [OF assms(1), of store head refs "[?q]"] assms(2) by (simp add: eff sb_def del: stream_simps)
  then have "conversation u store opts sb (client_sent ?c)"
    unfolding conversation_def client_sent_def by (intro exI [of _ "stream ?req"]) simp
  with d(1,2) refs show thesis
    unfolding ans
    by (intro that [of sb ?s r "?s\<lparr>s_conn := ?c\<rparr>"]) (simp_all add: dialed_def convertCaps_def Let_def live_v2_def)
qed

text \<open>A run over the response leaves the writer alone.\<close>

lemma run_seq_response:
  assumes "list_all wf_v2_ref refs" "\<not> gc_closed (s_conn s)"
    and "pending r = (map (\<lambda>r. line_packet (v2_ref_line r)) refs @ flush_packet # ps, e)"
  obtains s' where "run_seq git_ops s (StreamSeq r) yield acc =
      (feed yield (map (\<lambda>ref. (convertRef ref, None)) refs) acc, s')"
    "client_sent (s_conn s') = client_sent (s_conn s)" "s_url s' = s_url s"
proof -
  obtain r' where "run_stream git_ops s r yield acc =
      (feed yield (map (\<lambda>ref. (convertRef ref, None)) refs) acc, s\<lparr>s_conn := op_Return git_ops (s_conn s) r'\<rparr>)"
    using git.run_stream_ok [OF ref_packets [OF assms(1)] assms(3,2), of yield acc] by blast
  then show thesis
    by (intro that [of "s\<lparr>s_conn := op_Return git_ops (s_conn s) r'\<rparr>"])
      (simp_all add: run_seq_def git_Return_sent, simp add: git_ops_def git_Return_sent)
qed

lemma feed_default_branch:
  assumes "list_all (\<lambda>ref. rf_Symref ref = []) refs"
  shows "feed default_branch_body (map (\<lambda>ref. (ref, None)) refs) acc = acc"
  using assms by (induction refs) (simp_all add: default_branch_body_def)

section \<open>A small repository\<close>

definition sample_url :: URL where
  "sample_url = \<lparr>url_Scheme = ''git'', url_User = [], url_Host = ''h'', url_Port = [], url_Path = ''/r'', url_Raw = []\<rparr>"

definition sample_opts :: Options where
  "sample_opts = \<lparr>opt_Agent = [], opt_PreferredProtocol = ProtocolV2\<rparr>"

definition sample_head :: Head where
  "sample_head = \<lparr>hd_Symref = ''refs/heads/m'', hd_OID = [CHR 0xA1], hd_Unborn = False\<rparr>"

definition sample_ref :: RefEntry where
  "sample_ref = \<lparr>re_Name = ''refs/heads/m'', re_OID = [CHR 0xA1], re_Peeled = [], re_PeelKnown = True\<rparr>"

definition sample_store :: Store where
  "sample_store = \<lparr>st_Algo = SHA1, st_Head = Inr sample_head, st_IterRefs = [Inr sample_ref],
     st_Peel = (\<lambda>_. Inr ([], False)), st_ObjectInfo = (\<lambda>_. Inl os_ErrNotExist)\<rparr>"

lemma sample_servable: "servable sample_url sample_opts"
  by (simp add: servable_def sample_url_def sample_opts_def wf_url_def hostParameter_def)

lemma sample_answers:
  shows "ls_refs_answer sample_store sample_head [sample_ref] \<lparr>ra_Prefixes = [''refs/''], ra_Peel = True, ra_Symrefs = True, ra_Unborn = False\<rparr> =
      [\<lparr>ref_OID = ''a1'', ref_Name = ''refs/heads/m'', ref_Peeled = [], ref_Symref = [], ref_Unborn = False\<rparr>]"
    and "ls_refs_answer sample_store sample_head [sample_ref] (refs_args branch_request) =
      [\<lparr>ref_OID = ''a1'', ref_Name = ''HEAD'', ref_Peeled = [], ref_Symref = ''refs/heads/m'', ref_Unborn = False\<rparr>]"
proof -
  have hex: "Hex [CHR 0xA1] = ''a1''" by (simp add: hex_digits_def)
  have peel: "refPeel sample_store sample_ref = Inr ([], False)" by (simp add: refPeel_def sample_ref_def)
  show "ls_refs_answer sample_store sample_head [sample_ref] \<lparr>ra_Prefixes = [''refs/''], ra_Peel = True, ra_Symrefs = True, ra_Unborn = False\<rparr> =
      [\<lparr>ref_OID = ''a1'', ref_Name = ''refs/heads/m'', ref_Peeled = [], ref_Symref = [], ref_Unborn = False\<rparr>]"
    by (simp add: ls_refs_answer_def head_answer_def ref_answer_def peel peel_for_def refMatch_def)
      (simp add: sample_ref_def hex del: Hex_simps)
  show "ls_refs_answer sample_store sample_head [sample_ref] (refs_args branch_request) =
      [\<lparr>ref_OID = ''a1'', ref_Name = ''HEAD'', ref_Peeled = [], ref_Symref = ''refs/heads/m'', ref_Unborn = False\<rparr>]"
    by (simp add: ls_refs_answer_def head_answer_def ref_answer_def peel peel_for_def refMatch_def refs_args_def branch_request_def)
      (simp add: sample_ref_def sample_head_def hex IsZero_def del: Hex_simps)
qed

lemma sample_answerable:
  assumes "list_all fits_line (map v2_ref_line (ls_refs_answer sample_store sample_head [sample_ref] args))"
  shows "answerable sample_store sample_head [sample_ref] args"
proof -
  have "no_space ''refs/heads/m''" by (rule no_space_ascii) (simp add: is_ascii_space_def)
  moreover have "refPeel sample_store sample_ref = Inr ([], False)" by (simp add: refPeel_def sample_ref_def)
  ultimately show ?thesis
    using assms unfolding answerable_def
    by (simp add: sample_store_def del: no_space.simps)
      (simp add: sample_head_def sample_ref_def del: no_space.simps)
qed

section \<open>Properties\<close>



text \<open>C21: \<open>DefaultBranch\<close> against the server: it returns the target of the store's HEAD, born or unborn, in one
  \<open>ls-refs\<close> exchange; where HEAD is detached or names nothing the error matches \<open>ErrNoDefaultBranch\<close>. The
  connection is closed.\<close>

theorem DefaultBranch_conversation:
  assumes "servable u opts" "answerable store head refs (refs_args branch_request)"
  shows "\<exists>sb res c. DefaultBranch git_ops dflt None None (show_url ''git'' u) (git_only (peer u sb)) = (res, Some c) \<and>
    (if hd_Symref head \<noteq> [] \<and> (hd_Unborn head \<or> \<not> IsZero (hd_OID head)) then res = Inr (hd_Symref head)
     else case res of Inl err \<Rightarrow> errors_Is err ErrNoDefaultBranch \<and> pe_Op err = ''ls-refs'' | Inr _ \<Rightarrow> False) \<and>
    gc_closed c \<and> conversation u store opts sb (client_sent c)"
proof -
  let ?args = "refs_args branch_request"
  let ?refs = "ls_refs_answer store head refs ?args"
  let ?named = "hd_Symref head \<noteq> [] \<and> (hd_Unborn head \<or> \<not> IsZero (hd_OID head))"
  have "list_all fits_line (map (\<lambda>p. ''ref-prefix '' @ p) (rq_Prefixes branch_request))"
    by (simp add: branch_request_def fits_line_def MaxPayload_def)
  with assms obtain sb s r s1 where d: "Dial git_ops dflt None (show_url ''git'' u) (git_only (peer u sb)) = Inr s"
    "live_v2 s" "c_Symrefs (s_caps s) = []"
    "Session_Refs git_ops None s branch_request = (Inr (StreamSeq r), s1)" "\<not> gc_closed (s_conn s1)"
    "pending r = (map (\<lambda>r. line_packet (v2_ref_line r)) ?refs @ flush_packet # [], io_EOF)"
    "conversation u store opts sb (client_sent (s_conn s1))"
    by (rule ls_refs_conversation)
  obtain s2 where s2: "run_seq git_ops s1 (StreamSeq r) default_branch_body None =
      (feed default_branch_body (map (\<lambda>ref. (convertRef ref, None)) ?refs) None, s2)"
    "client_sent (s_conn s2) = client_sent (s_conn s1)"
    by (rule run_seq_response [OF wf_ls_refs_answer [OF assms(2)] d(5,6)])
  have rest: "feed default_branch_body (map (\<lambda>ref. (convertRef (ref_answer store ?args ref), None)) rs) acc = acc" for rs acc
    using feed_default_branch [of "map (\<lambda>ref. convertRef (ref_answer store ?args ref)) rs" acc]
    by (simp add: comp_def convertRef_def ref_answer_def list_all_iff)
  have fed: "feed default_branch_body (map (\<lambda>ref. (convertRef ref, None)) ?refs) None =
      (if ?named then Some (Inr (hd_Symref head)) else None)"
    using rest
    by (auto simp: ls_refs_answer_def head_answer_def refs_args_def branch_request_def refMatch_def
        default_branch_body_def convertRef_def comp_def)
  let ?c = "s_conn (snd (Session_Close git_ops s2))"
  let ?res = "if ?named then Inr (hd_Symref head) else branch_from_caps s2 (Session_Capabilities s)"
  have caps: "c_Version (Session_Capabilities s) = ProtocolV2" "c_Symrefs (Session_Capabilities s) = []"
    using d(2,3) by (simp_all add: Session_Capabilities_def cloneCapabilities_def live_v2_def)
  have "DefaultBranch git_ops dflt None None (show_url ''git'' u) (git_only (peer u sb)) = (?res, Some ?c)"
    using caps(1) by (simp add: DefaultBranch_def Let_def d(1,4) s2(1) fed closed_by_defer_def)
  moreover have "if ?named then ?res = Inr (hd_Symref head)
     else case ?res of Inl err \<Rightarrow> errors_Is err ErrNoDefaultBranch \<and> pe_Op err = ''ls-refs'' | Inr _ \<Rightarrow> False"
    by (simp add: branch_from_caps_def lookupHEADSymref_def caps)
  moreover have "gc_closed ?c" using git.defer_closes [of s2] by (simp add: closed_by_defer_def)
  moreover have "conversation u store opts sb (client_sent ?c)" using d(7) s2(2) by (simp add: close_sent)
  ultimately show ?thesis by blast
qed

theorem DefaultBranch_conversation_witness:
  "\<exists>sb c. DefaultBranch git_ops Map.empty None None (show_url ''git'' sample_url) (git_only (peer sample_url sb)) =
      (Inr ''refs/heads/m'', Some c) \<and> gc_closed c"
proof -
  have "answerable sample_store sample_head [sample_ref] (refs_args branch_request)"
    by (rule sample_answerable)
      (simp add: sample_answers v2_ref_line_def v2_ref_tokens_def fits_line_def MaxPayload_def)
  from DefaultBranch_conversation [OF sample_servable this, of Map.empty] show ?thesis
    by (auto simp: sample_head_def IsZero_def)
qed

end
