(* ===== verification/Go_Words.thy ===== *)
theory Go_Words
  imports Go_Prelude
begin

text \<open>
  Machine integers, byte order and slices. A byte is a \<^typ>\<open>char\<close>; \<open>byte_word\<close> is its conversion to an
  unsigned integer type. \<open>slice s a b\<close> is \<open>s[a:b]\<close>: \<open>None\<close> is the run-time panic.
\<close>

unbundle bit_operations_syntax

type_synonym u16 = "16 word"
type_synonym u32 = "32 word"
type_synonym u64 = "64 word"

definition byte_word :: "char \<Rightarrow> 'a::len word" where
  "byte_word c = word_of_nat (byte_val c)"

text \<open>\<open>binary.BigEndian\<close> on the first bytes of a slice.\<close>

definition be :: "string \<Rightarrow> 'a::len word" where
  "be s = foldl (\<lambda>w c. push_bit 8 w OR byte_word c) 0 s"

definition slice :: "string \<Rightarrow> nat \<Rightarrow> nat \<Rightarrow> string option" where
  "slice s a b = (if a \<le> b \<and> b \<le> length s then Some (take (b - a) (drop a s)) else None)"

text \<open>\<open>bytes.Compare\<close>.\<close>

definition bytes_Compare :: "string \<Rightarrow> string \<Rightarrow> int" where
  "bytes_Compare a b = (if a < b then -1 else if a = b then 0 else 1)"

lemma bytes_Compare_iff [simp]: "bytes_Compare a b = 0 \<longleftrightarrow> a = b" "0 < bytes_Compare a b \<longleftrightarrow> b < a"
  "0 \<le> bytes_Compare a b \<longleftrightarrow> b \<le> a" "bytes_Compare a b \<le> 0 \<longleftrightarrow> a \<le> b" "bytes_Compare a b = -1 \<longleftrightarrow> a < b"
  by (auto simp: bytes_Compare_def not_less)

text \<open>\<open>%#02x\<close> and \<open>%#08x\<close>: the prefix and the digits, padded with zeros to the width.\<close>

fun hex_nat :: "nat \<Rightarrow> string" where
  "hex_nat n = (if n < 16 then [hex_digits ! n] else hex_nat (n div 16) @ [hex_digits ! (n mod 16)])"

declare hex_nat.simps [simp del]

definition hex_padded :: "nat \<Rightarrow> nat \<Rightarrow> string" where
  "hex_padded width n = ''0x'' @ replicate (width - length (hex_nat n)) (CHR ''0'') @ hex_nat n"

text \<open>\<open>sort.Search\<close>: the least index in \<open>[i, j)\<close> whose test is true. \<open>None\<close>: a test panicked.\<close>

function search_loop :: "(nat \<Rightarrow> bool option) \<Rightarrow> nat \<Rightarrow> nat \<Rightarrow> nat option" where
  "search_loop f i j =
     (if i < j then
        let h = (i + j) div 2
        in case f h of
            None \<Rightarrow> None
          | Some b \<Rightarrow> if \<not> b then search_loop f (h + 1) j else search_loop f i h
      else Some i)"
  by pat_completeness auto
termination by (relation "measure (\<lambda>(f, i, j). j - i)") auto

declare search_loop.simps [simp del]

definition Search :: "nat \<Rightarrow> (nat \<Rightarrow> bool option) \<Rightarrow> nat option" where
  "Search n f = search_loop f 0 n"

section \<open>Lemmas\<close>

named_theorems word_simps \<open>bit operations as arithmetic on natural numbers\<close>

lemma unat_byte_word [word_simps]: "8 \<le> LENGTH('a) \<Longrightarrow> unat (byte_word c :: 'a::len word) = byte_val c"
proof -
  assume a: "8 \<le> LENGTH('a)"
  have "byte_val c < 2 ^ 8" by simp
  also have "\<dots> \<le> (2 :: nat) ^ LENGTH('a)" using a by (intro power_increasing) simp_all
  finally show ?thesis by (simp add: byte_word_def unat_of_nat)
qed

lemma and_low [word_simps]: "unat (w AND mask n) = unat w mod 2 ^ n"
  by (simp add: unsigned_take_bit_eq flip: take_bit_eq_mask) (simp add: take_bit_eq_mod)

lemma shift_or_nat: "y < 2 ^ n \<Longrightarrow> push_bit n x OR y = x * 2 ^ n + (y :: nat)"
proof -
  assume "y < 2 ^ n"
  then have y: "take_bit n y = y" by (simp add: take_bit_nat_eq_self)
  have "\<not> (bit (push_bit n x) i \<and> bit y i)" for i
    using y by (metis bit_push_bit_iff bit_take_bit_iff leD)
  then have "push_bit n x OR y = push_bit n x + y"
    by (intro disjunctive_add [symmetric]) auto
  then show ?thesis by (simp add: push_bit_eq_mult)
qed

lemma shift_or:
  fixes v w :: "'a::len word"
  assumes "unat w < 2 ^ n" "unat v * 2 ^ n + unat w < 2 ^ LENGTH('a)"
  shows "unat (push_bit n v OR w) = unat v * 2 ^ n + unat w"
proof -
  have "push_bit n (unat v) < 2 ^ LENGTH('a)" using assms(2) by (simp add: push_bit_eq_mult)
  then have "unat (push_bit n v) = push_bit n (unat v)"
    by (simp add: unsigned_push_bit_eq take_bit_nat_eq_self)
  then show ?thesis using assms(1) by (simp add: unsigned_or_eq shift_or_nat)
qed

lemma unat_be:
  assumes "8 * length s \<le> LENGTH('a)"
  shows "unat (be s :: 'a::len word) = foldl (\<lambda>n c. n * 256 + byte_val c) 0 s \<and>
    unat (be s :: 'a word) < 256 ^ length s"
  using assms
proof (induction s rule: rev_induct)
  case (snoc c s)
  let ?v = "be s :: 'a word"
  have IH: "unat ?v = foldl (\<lambda>n c. n * 256 + byte_val c) 0 s" "unat ?v < 256 ^ length s"
    using snoc by simp_all
  have "unat ?v * 256 + byte_val c < (unat ?v + 1) * 256" by simp
  also have "\<dots> \<le> 256 ^ length s * 256" using IH(2) by (intro mult_right_mono) simp_all
  finally have lt: "unat ?v * 256 + byte_val c < 256 ^ length (s @ [c])" by simp
  also have "(256 :: nat) ^ length (s @ [c]) = 2 ^ (8 * length (s @ [c]))"
    by (simp only: power_mult) simp
  also have "\<dots> \<le> 2 ^ LENGTH('a)" using snoc.prems by (intro power_increasing) simp_all
  finally have "unat ?v * 2 ^ 8 + unat (byte_word c :: 'a word) < 2 ^ LENGTH('a)"
    using snoc.prems by (simp add: unat_byte_word)
  then have "unat (push_bit 8 ?v OR byte_word c) = unat ?v * 2 ^ 8 + unat (byte_word c :: 'a word)"
    using snoc.prems by (intro shift_or) (simp_all add: unat_byte_word)
  then have "unat (be (s @ [c]) :: 'a word) = unat ?v * 256 + byte_val c"
    using snoc.prems by (simp add: be_def unat_byte_word)
  with IH(1) lt show ?case by simp
qed (simp add: be_def)

text \<open>\<open>sort.Search\<close> finds the boundary of a test that is false up to it and true from it on.\<close>

lemma search_loop_boundary:
  assumes "\<And>h. i \<le> h \<Longrightarrow> h < j \<Longrightarrow> f h = Some (k \<le> h)" "i \<le> k" "k \<le> j"
  shows "search_loop f i j = Some k"
  using assms
proof (induction "j - i" arbitrary: i j rule: less_induct)
  case less
  show ?case
  proof (cases "i < j")
    case True
    let ?h = "(i + j) div 2"
    have h: "i \<le> ?h" "?h < j" using True by simp_all
    with less.prems(1) have f: "f ?h = Some (k \<le> ?h)" by simp
    show ?thesis
    proof (cases "k \<le> ?h")
      case le: True
      have "search_loop f i ?h = Some k"
        using True h le less.prems by (intro less.hyps) (simp_all add: less_imp_diff_less)
      then show ?thesis using True f le by (subst search_loop.simps) simp
    next
      case gt: False
      have "search_loop f (?h + 1) j = Some k"
        using True h gt less.prems by (intro less.hyps) (auto intro: diff_less_mono2)
      then show ?thesis using True f gt by (subst search_loop.simps) simp
    qed
  next
    case False
    with less.prems show ?thesis by (subst search_loop.simps) simp
  qed
qed

lemma Search_boundary: "(\<And>h. h < n \<Longrightarrow> f h = Some (k \<le> h)) \<Longrightarrow> k \<le> n \<Longrightarrow> Search n f = Some k"
  unfolding Search_def by (rule search_loop_boundary) simp_all

text \<open>Whatever the tests answer, the search only panics where a test does.\<close>

lemma search_loop_total: "(\<And>h. h < j \<Longrightarrow> f h \<noteq> None) \<Longrightarrow> \<exists>k. search_loop f i j = Some k \<and> (i \<le> j \<longrightarrow> k \<le> j)"
proof (induction f i j rule: search_loop.induct)
  case (1 f i j)
  show ?case
  proof (cases "i < j")
    case True
    let ?h = "(i + j) div 2"
    have h: "?h < j" using True by simp
    with 1(3) obtain b where b: "f ?h = Some b" by blast
    show ?thesis
    proof (cases b)
      case True
      have "\<exists>k. search_loop f i ?h = Some k \<and> (i \<le> ?h \<longrightarrow> k \<le> ?h)"
        using True \<open>i < j\<close> b 1(3) h by (intro 1(2)) auto
      with True \<open>i < j\<close> b h show ?thesis by (subst search_loop.simps) (auto simp: Let_def)
    next
      case False
      have "\<exists>k. search_loop f (?h + 1) j = Some k \<and> (?h + 1 \<le> j \<longrightarrow> k \<le> j)"
        using False \<open>i < j\<close> b 1(3) by (intro 1(1)) auto
      with False \<open>i < j\<close> b h show ?thesis by (subst search_loop.simps) (auto simp: Let_def)
    qed
  next
    case False
    then show ?thesis by (subst search_loop.simps) simp
  qed
qed

lemma slice_Some: "slice s a b = Some t \<longleftrightarrow> a \<le> b \<and> b \<le> length s \<and> t = take (b - a) (drop a s)"
  by (auto simp: slice_def)

text \<open>Big-endian bytes of a number.\<close>

fun be_bytes :: "nat \<Rightarrow> nat \<Rightarrow> string" where
  "be_bytes 0 v = []"
| "be_bytes (Suc n) v = be_bytes n (v div 256) @ [char_of (v mod 256)]"

lemma length_be_bytes [simp]: "length (be_bytes n v) = n"
  by (induction n arbitrary: v) simp_all

lemma foldl_be_bytes: "foldl (\<lambda>n c. n * 256 + byte_val c) 0 (be_bytes n v) = v mod 256 ^ n"
proof (induction n arbitrary: v)
  case (Suc n)
  have "v mod (256 * 256 ^ n) = 256 * (v div 256 mod 256 ^ n) + v mod 256" by (rule mod_mult2_eq)
  with Suc show ?case by (simp add: mult.commute)
qed simp

lemma be_bytes_foldl: "be_bytes (length s) (foldl (\<lambda>n c. n * 256 + byte_val c) 0 s) = s"
  by (induction s rule: rev_induct) simp_all

lemma be_be_bytes:
  "8 * n \<le> LENGTH('a) \<Longrightarrow> v < 256 ^ n \<Longrightarrow> unat (be (be_bytes n v) :: 'a::len word) = v"
  using unat_be [of "be_bytes n v", where 'a = 'a] by (simp add: foldl_be_bytes)

lemma be_bytes_be: "8 * length s \<le> LENGTH('a) \<Longrightarrow> be_bytes (length s) (unat (be s :: 'a::len word)) = s"
  using unat_be [of s, where 'a = 'a] be_bytes_foldl [of s] by simp

lemma be_word: "8 * length s = LENGTH('a) \<Longrightarrow> (be s :: 'a::len word) = w \<longleftrightarrow> s = be_bytes (length s) (unat w)"
proof
  assume a: "8 * length s = LENGTH('a)" "s = be_bytes (length s) (unat w)"
  have "256 ^ length s = (2 :: nat) ^ (8 * length s)" by (simp only: power_mult) simp
  with a(1) have "unat w < 256 ^ length s" using unsigned_less [of w] by simp
  then have "unat (be (be_bytes (length s) (unat w)) :: 'a word) = unat w" using a(1) by (intro be_be_bytes) simp_all
  with a(2) show "be s = w" by (metis word_unat_eq_iff)
qed (use be_bytes_be [of s, where 'a = 'a] in auto)

end
