(* ===== verification/Reftable_Varint.thy ===== *)
theory Reftable_Varint
  imports Go_Words
begin

text \<open>
  Reftable's variable-length integers (\<open>src/internal/reftable/varint.go\<close>), on 64-bit words.

  \<open>encodeVarint\<close> is the format's encoding of a number, \<open>ofs_value\<close> the number a sequence of bytes stands
  for, both over unbounded numbers. The lemmas show that the decoder computes \<open>ofs_value\<close> without ever
  wrapping around, and that it accepts exactly the encodings of the 64-bit numbers, each in one way.
\<close>

section \<open>The decoder\<close>

definition ErrTruncatedRecord :: go_error where
  "ErrTruncatedRecord = Sentinel ''reftable: truncated record''"

definition ErrVarintOverflow :: go_error where
  "ErrVarintOverflow = Sentinel ''reftable: varint overflow''"

definition varintMaxBytes :: nat where
  "varintMaxBytes = 10"

function decodeVarint_loop :: "string \<Rightarrow> u64 \<Rightarrow> nat \<Rightarrow> char \<Rightarrow> go_error + u64 \<times> nat" where
  "decodeVarint_loop buf val i c =
     (if (byte_word c :: u64) AND 0x80 \<noteq> 0 then
        if varintMaxBytes \<le> i then
          Inl (Wrapf (''reftable: varint exceeds '' @ itoa_nat varintMaxBytes @ '' bytes: '') ErrVarintOverflow [])
        else
          let val = val + 1 in
          if drop_bit (64 - 7) val \<noteq> 0 then
            Inl (Wrapf ''reftable: varint value would overflow uint64: '' ErrVarintOverflow [])
          else if length buf \<le> i then
            Inl (Wrapf (''reftable: varint truncated at byte '' @ itoa_nat i @ '': '') ErrTruncatedRecord [])
          else
            let c = buf ! i; i = i + 1
            in decodeVarint_loop buf (push_bit 7 val OR (byte_word c AND 0x7F)) i c
      else Inr (val, i))"
  by pat_completeness auto
termination by (relation "measure (\<lambda>(buf, val, i, c). length buf - i)") auto

declare decodeVarint_loop.simps [simp del]

definition decodeVarint :: "string \<Rightarrow> go_error + u64 \<times> nat" where
  "decodeVarint buf =
     (if length buf = 0 then Inl (Wrapf ''reftable: empty buffer for varint: '' ErrTruncatedRecord [])
      else let c = buf ! 0 in decodeVarint_loop buf (byte_word c AND 0x7F) 1 c)"

section \<open>The format\<close>

definition more :: "char \<Rightarrow> bool" where
  "more c \<longleftrightarrow> 128 \<le> byte_val c"

fun encode_high :: "nat \<Rightarrow> string" where
  "encode_high v = (if v = 0 then [] else encode_high ((v - 1) div 128) @ [char_of (128 + (v - 1) mod 128)])"

declare encode_high.simps [simp del]

definition encodeVarint :: "nat \<Rightarrow> string" where
  "encodeVarint v = encode_high (v div 128) @ [char_of (v mod 128)]"

text \<open>The number of a sequence of bytes, last byte first in the recursion of the fold.\<close>

definition ofs_value :: "string \<Rightarrow> nat" where
  "ofs_value bs = foldl (\<lambda>v c. (v + 1) * 128 + byte_val c mod 128) (byte_val (hd bs) mod 128) (tl bs)"

fun ofs_bound :: "nat \<Rightarrow> nat" where
  "ofs_bound 0 = 0"
| "ofs_bound (Suc n) = (ofs_bound n + 1) * 128"

section \<open>Lemmas\<close>

lemma and_0x80: "(byte_word c :: u64) AND 0x80 = 0 \<longleftrightarrow> \<not> more c"
proof -
  have "(byte_word c :: u64) AND 2 ^ 7 = 0 \<longleftrightarrow> \<not> bit (byte_word c :: u64) 7"
    by (rule and_exp_eq_0_iff_not_bit)
  also have "bit (byte_word c :: u64) 7 \<longleftrightarrow> bit (byte_val c) 7"
    using bit_unsigned_iff [of "byte_word c :: u64" 7, where 'a = nat] unat_byte_word [of c, where 'a = 64] by simp
  also have "\<dots> \<longleftrightarrow> 128 \<le> byte_val c"
  proof -
    have "byte_val c < 2 * 128" using byte_val_less [of c] by simp
    then have "byte_val c div 128 < 2" by (rule less_mult_imp_div_less)
    then have "byte_val c div 128 = 0 \<or> byte_val c div 128 = 1" by linarith
    moreover have "byte_val c div 128 = 0 \<longleftrightarrow> byte_val c < 128" by (simp add: div_eq_0_iff)
    ultimately show ?thesis by (auto simp: bit_iff_odd)
  qed
  finally show ?thesis by (simp add: more_def)
qed

lemma and_0x7F: "unat ((byte_word c :: u64) AND 0x7F) = byte_val c mod 128"
proof -
  have "unat ((byte_word c :: u64) AND mask 7) = unat (byte_word c :: u64) mod 2 ^ 7" by (rule and_low)
  moreover have "(mask 7 :: u64) = 0x7F" by (simp add: mask_eq_exp_minus_1)
  ultimately show ?thesis by (simp add: unat_byte_word)
qed

lemma ofs_value_single: "ofs_value [c] = byte_val c mod 128"
  by (simp add: ofs_value_def)

lemma ofs_value_snoc: "bs \<noteq> [] \<Longrightarrow> ofs_value (bs @ [c]) = (ofs_value bs + 1) * 128 + byte_val c mod 128"
  by (cases bs) (simp_all add: ofs_value_def)

lemma ofs_value_bound: "bs \<noteq> [] \<Longrightarrow> ofs_value bs < ofs_bound (length bs)"
proof (induction bs rule: rev_nonempty_induct)
  case (snoc c bs)
  have "(ofs_value bs + 1) * 128 + byte_val c mod 128 < (ofs_value bs + 2) * 128"
    by (simp add: algebra_simps)
  also have "\<dots> \<le> (ofs_bound (length bs) + 1) * 128" using snoc by simp
  finally show ?case using snoc.hyps by (simp add: ofs_value_snoc)
qed (simp add: ofs_value_single)

lemma ofs_bound_mono: "m \<le> n \<Longrightarrow> ofs_bound m \<le> ofs_bound n"
proof (induction n)
  case (Suc n)
  have "ofs_bound n \<le> ofs_bound (Suc n)" by simp
  with Suc show ?case by (cases "m = Suc n") simp_all
qed simp

text \<open>Up to nine bytes the successor of a value fits into 64 bits: the code's \<open>val++\<close> does not wrap.\<close>

lemma ofs_bound_9: "ofs_bound 9 < 2 ^ 64"
proof -
  have "ofs_bound (Suc (Suc (Suc (Suc (Suc (Suc (Suc (Suc (Suc 0))))))))) = 9295997013522923648" by simp
  moreover have "Suc (Suc (Suc (Suc (Suc (Suc (Suc (Suc (Suc 0)))))))) = 9" by simp
  ultimately show ?thesis by simp
qed

lemma decode_step:
  fixes val :: u64
  assumes "unat val = v" "v + 1 < 2 ^ 64" "drop_bit (64 - 7) (val + 1) = 0"
  shows "unat (push_bit 7 (val + 1) OR (byte_word c AND 0x7F)) = (v + 1) * 128 + byte_val c mod 128"
    "v + 1 < 2 ^ 57"
proof -
  have "unat val + unat (1 :: u64) < 2 ^ LENGTH(64)" using assms(1,2) by simp
  then have v: "unat (val + 1) = v + 1" using assms(1) unat_add_lem [of val 1] by simp
  have "drop_bit 57 (unat (val + 1)) = 0"
    using assms(3) unat_drop_bit_eq [of 57 "val + 1"] by simp
  then show lt: "v + 1 < 2 ^ 57"
    unfolding v by (simp only: drop_bit_eq_div div_eq_0_iff) simp
  have "(v + 1) * 2 ^ 7 + byte_val c mod 128 < (v + 2) * 2 ^ 7" by (simp add: algebra_simps)
  also have "\<dots> \<le> 2 ^ 57 * 2 ^ 7" using lt by (intro mult_right_mono) simp_all
  finally have "unat (val + 1) * 2 ^ 7 + unat ((byte_word c :: u64) AND 0x7F) < 2 ^ LENGTH(64)"
    unfolding v and_0x7F by simp
  moreover have "unat ((byte_word c :: u64) AND 0x7F) < 2 ^ 7" unfolding and_0x7F by simp
  ultimately show "unat (push_bit 7 (val + 1) OR (byte_word c AND 0x7F)) = (v + 1) * 128 + byte_val c mod 128"
    by (subst shift_or) (simp_all add: v and_0x7F)
qed

definition is_varint :: "string \<Rightarrow> bool" where
  "is_varint bs \<longleftrightarrow> bs \<noteq> [] \<and> list_all more (butlast bs) \<and> \<not> more (last bs)"

definition high_value :: "string \<Rightarrow> nat" where
  "high_value bs = (if bs = [] then 0 else ofs_value bs + 1)"

lemma ofs_value_high: "ofs_value (bs @ [c]) = high_value bs * 128 + byte_val c mod 128"
  by (simp add: high_value_def ofs_value_single ofs_value_snoc)

lemma high_value_snoc: "high_value (bs @ [c]) = high_value bs * 128 + byte_val c mod 128 + 1"
  by (simp add: high_value_def [of "bs @ [c]"] ofs_value_high)

lemma high_value_encode: "high_value (encode_high v) = v"
proof (induction v rule: encode_high.induct)
  case (1 v)
  show ?case
  proof (cases "v = 0")
    case False
    then have "high_value (encode_high v) = (v - 1) div 128 * 128 + (128 + (v - 1) mod 128) mod 256 mod 128 + 1"
      using 1 by (subst encode_high.simps) (simp add: high_value_snoc)
    also have "(128 + (v - 1) mod 128) mod 256 mod 128 = (v - 1) mod 128"
      by (simp add: mod_mod_cancel)
    finally show ?thesis using False by simp
  qed (simp add: encode_high.simps [of 0] high_value_def)
qed

lemma ofs_value_encode: "ofs_value (encodeVarint v) = v"
  by (simp add: encodeVarint_def ofs_value_high high_value_encode)

lemma more_char:
  fixes n :: nat
  shows "n < 128 \<Longrightarrow> more (char_of (128 + n))" "n < 128 \<Longrightarrow> \<not> more (char_of n)"
  by (simp_all add: more_def)

lemma encode_high_more: "list_all more (encode_high v)"
proof (induction v rule: encode_high.induct)
  case (1 v)
  then show ?case by (subst encode_high.simps) (simp add: more_char del: of_char_of)
qed

lemma is_varint_encode: "is_varint (encodeVarint v)"
  by (simp add: is_varint_def encodeVarint_def encode_high_more more_char)

lemma high_byte: "128 \<le> n \<Longrightarrow> n < 256 \<Longrightarrow> 128 + n mod 128 = (n :: nat)"
  by (simp add: le_mod_geq)

lemma more_split:
  assumes "more c"
  shows "char_of (128 + byte_val c mod 128) = c"
proof -
  have "128 + byte_val c mod 128 = byte_val c"
    by (rule high_byte) (use assms in \<open>simp_all add: more_def\<close>)
  then show ?thesis by (simp only: char_of_char)
qed

lemma encode_high_value: "list_all more bs \<Longrightarrow> encode_high (high_value bs) = bs"
proof (induction bs rule: rev_induct)
  case Nil
  show ?case by (simp add: high_value_def encode_high.simps [of 0])
next
  case (snoc c bs)
  then show ?case by (subst encode_high.simps) (simp add: high_value_snoc more_split)
qed

lemma encode_value: "is_varint bs \<Longrightarrow> encodeVarint (ofs_value bs) = bs"
proof -
  assume a: "is_varint bs"
  then obtain hs c where bs: "bs = hs @ [c]" by (metis is_varint_def append_butlast_last_id)
  with a have "list_all more hs" "byte_val c < 128" by (simp_all add: is_varint_def more_def)
  then show ?thesis by (simp add: bs ofs_value_high encodeVarint_def encode_high_value)
qed

lemma is_varint_iff: "is_varint bs \<longleftrightarrow> (\<exists>v. bs = encodeVarint v)"
  using encode_value is_varint_encode by metis

lemma ofs_value_least: "bs \<noteq> [] \<Longrightarrow> ofs_bound (length bs - 1) \<le> ofs_value bs"
proof (induction bs rule: rev_nonempty_induct)
  case (snoc c bs)
  then obtain n where n: "length bs = Suc n" by (cases bs) simp_all
  with snoc have "ofs_bound n \<le> ofs_value bs" by simp
  then have "(ofs_bound n + 1) * 128 \<le> (ofs_value bs + 1) * 128" by simp
  then show ?case using snoc.hyps n by (simp add: ofs_value_snoc)
qed simp

lemma ofs_bound_10: "2 ^ 64 \<le> ofs_bound 10"
proof -
  have "ofs_bound (Suc 9) = (ofs_bound 9 + 1) * 128" by (rule ofs_bound.simps)
  moreover have "ofs_bound (Suc (Suc (Suc (Suc (Suc (Suc (Suc (Suc (Suc 0))))))))) = 9295997013522923648" by simp
  moreover have "Suc (Suc (Suc (Suc (Suc (Suc (Suc (Suc (Suc 0)))))))) = 9" by simp
  ultimately show ?thesis by simp
qed

lemma ofs_value_length: "bs \<noteq> [] \<Longrightarrow> ofs_value bs < 2 ^ 64 \<Longrightarrow> length bs \<le> 10"
proof (rule ccontr)
  assume a: "bs \<noteq> []" "ofs_value bs < 2 ^ 64" "\<not> length bs \<le> 10"
  then have "10 \<le> length bs - 1" by simp
  then have "ofs_bound 10 \<le> ofs_bound (length bs - 1)" by (rule ofs_bound_mono)
  with ofs_value_least [OF a(1)] ofs_bound_10 a(2) show False by linarith
qed

section \<open>The decoder computes the format\<close>

lemma last_nth: "pre \<noteq> [] \<Longrightarrow> (pre @ rest) ! (length pre - 1) = last pre"
  by (simp add: last_conv_nth nth_append)

lemma decodeVarint_loop_sound:
  assumes "decodeVarint_loop buf val i c = Inr (v, n)"
    and "buf = pre @ rest" "i = length pre" "pre \<noteq> []" "c = last pre" "list_all more (butlast pre)" "unat val = ofs_value pre"
    and "i \<le> varintMaxBytes"
  shows "\<exists>bs rest. buf = bs @ rest \<and> n = length bs \<and> is_varint bs \<and> unat v = ofs_value bs"
  using assms
proof (induction buf val i c arbitrary: pre rest rule: decodeVarint_loop.induct)
  case (1 buf val i c)
  show ?case
  proof (cases "more c")
    case False
    with 1(2) have "v = val" "n = i" by (simp_all add: decodeVarint_loop.simps and_0x80)
    with 1(3-8) False show ?thesis by (intro exI [of _ pre] exI [of _ rest]) (simp add: is_varint_def)
  next
    case True
    from 1(2) True have ok: "\<not> varintMaxBytes \<le> i" "drop_bit (64 - 7) (val + 1) = 0" "\<not> length buf \<le> i"
      "decodeVarint_loop buf (push_bit 7 (val + 1) OR (byte_word (buf ! i) AND 0x7F)) (i + 1) (buf ! i) = Inr (v, n)"
      by (simp_all add: decodeVarint_loop.simps [of buf val i c] and_0x80 Let_def split: if_splits)
    let ?c = "buf ! i" and ?pre = "pre @ [buf ! i]"
    have "i \<le> 9" using ok(1) by (simp add: varintMaxBytes_def)
    then have "ofs_bound i \<le> ofs_bound 9" by (rule ofs_bound_mono)
    with ofs_value_bound [OF 1(5)] 1(4) ofs_bound_9 have "ofs_value pre + 1 < 2 ^ 64" by simp
    note next_val = decode_step(1) [OF 1(8) this ok(2), of ?c]
    have buf: "buf = ?pre @ tl rest" using ok(3) 1(3,4) by (cases rest) (simp_all add: nth_append)
    have not_0: "(byte_word c :: u64) AND 0x80 \<noteq> 0" using True by (simp add: and_0x80)
    show ?thesis
    proof (rule 1(1) [OF not_0 ok(1) refl _ ok(3) refl refl ok(4) buf])
      show "\<not> drop_bit (64 - 7) (val + 1) \<noteq> 0" using ok(2) by simp
      show "list_all more (butlast ?pre)"
        using 1(6,7) True append_butlast_last_id [OF 1(5)] list_all_append [of more "butlast pre" "[last pre]"] by simp
      show "unat (push_bit 7 (val + 1) OR (byte_word ?c AND 0x7F)) = ofs_value ?pre"
        using next_val by (simp add: ofs_value_snoc 1(5))
    qed (use 1(4,5) ok(1) in simp_all)
  qed
qed

lemma decodeVarint_loop_complete:
  assumes "is_varint (pre @ suf)" "unat val = ofs_value pre" "pre \<noteq> []" "ofs_value (pre @ suf) < 2 ^ 64"
  shows "\<exists>v. decodeVarint_loop (pre @ suf @ rest) val (length pre) (last pre) = Inr (v, length (pre @ suf)) \<and>
    unat v = ofs_value (pre @ suf)"
  using assms
proof (induction suf arbitrary: pre val)
  case Nil
  then have "\<not> more (last pre)" by (simp add: is_varint_def)
  with Nil show ?case by (subst decodeVarint_loop.simps) (simp add: and_0x80)
next
  case (Cons c suf)
  let ?pre = "pre @ [c]"
  have all: "?pre @ suf = pre @ c # suf" by simp
  have more: "more (last pre)"
    using Cons.prems(1,3) by (auto simp: is_varint_def butlast_append list_all_iff)
  have len: "length pre < varintMaxBytes"
    using ofs_value_length [OF _ Cons.prems(4)] by (simp add: varintMaxBytes_def)
  have grows: "ofs_value bs \<le> ofs_value (bs @ cs)" if "bs \<noteq> []" for bs cs
  proof (induction cs rule: rev_induct)
    case (snoc c cs)
    with that show ?case by (simp add: ofs_value_snoc [of "bs @ cs"] flip: append_assoc)
  qed simp
  have le: "ofs_value ?pre < 2 ^ 64" using grows [of ?pre suf] Cons.prems(4) by simp
  then have lt: "(ofs_value pre + 1) * 128 < 2 ^ 64" using Cons.prems(3) by (simp add: ofs_value_snoc)
  then have "ofs_value pre + 1 < 2 ^ 57" by simp
  moreover have "unat (val + 1) = ofs_value pre + 1"
    using unat_add_lem [of val 1] Cons.prems(2) lt by simp
  ultimately have drop: "drop_bit (64 - 7) (val + 1) = 0"
    using unat_drop_bit_eq [of 57 "val + 1"] by (simp add: drop_bit_eq_div unat_eq_zero)
  let ?val = "push_bit 7 (val + 1) OR (byte_word c AND 0x7F)"
  have val: "unat ?val = ofs_value ?pre"
    using decode_step(1) [OF Cons.prems(2) _ drop, of c] lt Cons.prems(3) by (simp add: ofs_value_snoc)
  obtain v where "decodeVarint_loop (?pre @ suf @ rest) ?val (length ?pre) (last ?pre) = Inr (v, length (?pre @ suf))"
    "unat v = ofs_value (?pre @ suf)"
    using Cons.IH [of ?pre ?val] Cons.prems val all by auto
  moreover have "decodeVarint_loop (pre @ (c # suf) @ rest) val (length pre) (last pre) =
      decodeVarint_loop (?pre @ suf @ rest) ?val (length ?pre) (last ?pre)"
    using more len drop by (subst decodeVarint_loop.simps) (simp add: and_0x80 Let_def nth_append)
  ultimately show ?case by auto
qed

lemma decodeVarint_sound:
  assumes "decodeVarint buf = Inr (v, n)"
  obtains rest where "buf = encodeVarint (unat v) @ rest" "n = length (encodeVarint (unat v))"
proof -
  obtain c cs where buf: "buf = [c] @ cs" using assms by (cases buf) (auto simp: decodeVarint_def)
  with assms have run: "decodeVarint_loop buf (byte_word c AND 0x7F) 1 c = Inr (v, n)"
    by (simp add: decodeVarint_def)
  have "\<exists>bs rest. buf = bs @ rest \<and> n = length bs \<and> is_varint bs \<and> unat v = ofs_value bs"
    by (rule decodeVarint_loop_sound [OF run buf]) (simp_all add: and_0x7F ofs_value_single varintMaxBytes_def)
  with encode_value that show thesis by metis
qed

lemma decodeVarint_encode:
  assumes "v < 2 ^ 64"
  shows "decodeVarint (encodeVarint v @ rest) = Inr (word_of_nat v, length (encodeVarint v))"
proof -
  obtain c suf where c: "encodeVarint v = [c] @ suf"
    using is_varint_encode [of v] by (cases "encodeVarint v") (simp_all add: is_varint_def)
  have "\<exists>w. decodeVarint_loop ([c] @ suf @ rest) (byte_word c AND 0x7F) (length [c]) (last [c]) = Inr (w, length ([c] @ suf)) \<and>
      unat w = ofs_value ([c] @ suf)"
    by (rule decodeVarint_loop_complete)
      (use is_varint_encode [of v] ofs_value_encode [of v] assms in \<open>simp_all add: c and_0x7F ofs_value_single\<close>)
  then obtain w where w: "decodeVarint_loop ([c] @ suf @ rest) (byte_word c AND 0x7F) 1 c = Inr (w, length ([c] @ suf))"
    "unat w = v"
    using ofs_value_encode [of v] by (auto simp: c)
  moreover have "word_of_nat v = w" using w(2) by auto
  ultimately show ?thesis by (simp add: decodeVarint_def c)
qed

lemma decodeVarint_error: "decodeVarint buf = Inl e \<Longrightarrow> errors_Is e ErrTruncatedRecord \<or> errors_Is e ErrVarintOverflow"
proof -
  have "decodeVarint_loop buf val i c = Inl e \<Longrightarrow> errors_Is e ErrTruncatedRecord \<or> errors_Is e ErrVarintOverflow" for val i c
  proof (induction buf val i c rule: decodeVarint_loop.induct)
    case (1 buf val i c)
    from 1(2) show ?case
      by (subst (asm) decodeVarint_loop.simps) (use 1(1) in \<open>fastforce simp: Let_def split: if_splits\<close>)
  qed
  then show "decodeVarint buf = Inl e \<Longrightarrow> errors_Is e ErrTruncatedRecord \<or> errors_Is e ErrVarintOverflow"
    by (auto simp: decodeVarint_def Let_def split: if_splits)
qed

lemma decodeVarint_consumes:
  assumes "decodeVarint buf = Inr (v, n)"
  shows "0 < n" "n \<le> 10" "n \<le> length buf" "unat v < ofs_bound n"
proof -
  obtain rest where r: "buf = encodeVarint (unat v) @ rest" "n = length (encodeVarint (unat v))"
    using assms by (rule decodeVarint_sound)
  have ne: "encodeVarint (unat v) \<noteq> []" by (simp add: encodeVarint_def)
  with r show "0 < n" "n \<le> length buf" by simp_all
  show "n \<le> 10"
    unfolding r(2) using ofs_value_length [OF ne] unsigned_less [of v] by (simp add: ofs_value_encode)
  show "unat v < ofs_bound n"
    unfolding r(2) using ofs_value_bound [OF ne] by (simp add: ofs_value_encode)
qed

section \<open>Properties\<close>

text \<open>C32: The decoder accepts exactly the encodings of the 64-bit numbers, each in its only form, whatever
  follows, and consumes exactly the encoding: no accepted value has wrapped around.\<close>

theorem decodeVarint_exact:
  "(decodeVarint buf = Inr (v, n)) =
    (\<exists>rest. buf = encodeVarint (unat v) @ rest \<and> n = length (encodeVarint (unat v)))"
proof
  assume "decodeVarint buf = Inr (v, n)"
  then show "\<exists>rest. buf = encodeVarint (unat v) @ rest \<and> n = length (encodeVarint (unat v))"
    using decodeVarint_sound by blast
next
  assume "\<exists>rest. buf = encodeVarint (unat v) @ rest \<and> n = length (encodeVarint (unat v))"
  then show "decodeVarint buf = Inr (v, n)"
    using decodeVarint_encode [of "unat v"] unsigned_less [of v] by auto
qed

text \<open>Every outcome of the decoder is bounded: a success consumes between one and ten of the bytes there
  are, and its value is below the bound of its length; every failure is one of the two sentinels.\<close>

theorem decodeVarint_bounds:
  "case decodeVarint buf of
     Inl e \<Rightarrow> errors_Is e ErrTruncatedRecord \<or> errors_Is e ErrVarintOverflow
   | Inr (v, n) \<Rightarrow> 0 < n \<and> n \<le> 10 \<and> n \<le> length buf \<and> unat v < ofs_bound n"
  using decodeVarint_error decodeVarint_consumes by (auto split: sum.split)


end
