(* ===== verification/Reftable_Record.thy ===== *)
theory Reftable_Record
  imports Reftable_Varint Objfmt_Hash
begin

text \<open>
  Reftable records (\<open>src/internal/reftable/record_key.go\<close>, \<open>record_ref.go\<close>).

  The code reuses two key buffers between decodes; the model builds every key anew. The hash type parameter
  is an \<open>Algo\<close>. Lengths are compared as numbers, as Go's \<open>uint64(len(s))\<close> never loses a length.

  The lemmas: a record is read back from its encoding behind any previous key, and every outcome of the
  decoders is classified and stays inside the buffer.
\<close>

section \<open>Keys\<close>

definition decodeKey :: "string \<Rightarrow> string \<Rightarrow> go_error + string \<times> nat \<times> nat" where
  "decodeKey buf prevKey = (case decodeVarint buf of
      Inl err \<Rightarrow> Inl (Wrapf ''reftable: prefix_length: '' err [])
    | Inr (prefixLen, n1) \<Rightarrow>
        let rest = drop n1 buf
        in case decodeVarint rest of
          Inl err \<Rightarrow> Inl (Wrapf ''reftable: suffix_length|extra: '' err [])
        | Inr (packed, n2) \<Rightarrow>
            let extra = unat (packed AND 0x7);
                suffixLen = unat (drop_bit 3 packed);
                rest = drop n2 rest
            in if length rest < suffixLen then
                Inl (Wrapf (''reftable: suffix wants '' @ itoa_nat suffixLen @ '' bytes, have '' @ itoa_nat (length rest) @ '': '')
                  ErrTruncatedRecord [])
              else if length prevKey < unat prefixLen then
                Inl (Wrapf (''reftable: prefix_length '' @ itoa_nat (unat prefixLen) @ '' exceeds prev key '' @
                  itoa_nat (length prevKey) @ '': '') ErrTruncatedRecord [])
              else Inr (take (unat prefixLen) prevKey @ take suffixLen rest, extra, n1 + n2 + suffixLen))"

section \<open>Ref records\<close>

definition ErrUnsupportedValueType :: go_error where
  "ErrUnsupportedValueType = Sentinel ''reftable: unsupported value_type''"

definition ErrUpdateIndexOverflow :: go_error where
  "ErrUpdateIndexOverflow = Sentinel ''reftable: update_index overflow''"

record refRecord =
  rr_Name :: string
  rr_Target :: string
  rr_Value :: Hash
  rr_Peeled :: Hash
  rr_ValueType :: nat

definition refValueDeletion :: nat where "refValueDeletion = 0"
definition refValueSingle :: nat where "refValueSingle = 1"
definition refValuePeeled :: nat where "refValuePeeled = 2"
definition refValueSymref :: nat where "refValueSymref = 3"

lemmas refValue_defs = refValueDeletion_def refValueSingle_def refValuePeeled_def refValueSymref_def

text \<open>The switch on the value type, over what follows the update index.\<close>

definition ref_value :: "Algo \<Rightarrow> refRecord \<Rightarrow> string \<Rightarrow> nat \<Rightarrow> go_error + refRecord \<times> nat" where
  "ref_value a rec rest consumed =
     (let hashSize = Algo_Size a; valueType = rr_ValueType rec in
      if valueType = refValueDeletion then Inr (rec, consumed)
      else if valueType = refValueSingle then
        (if length rest < hashSize then
           Inl (Wrapf (''reftable: ref_record value wants '' @ itoa_nat hashSize @ '' bytes, have '' @
             itoa_nat (length rest) @ '': '') ErrTruncatedRecord [])
         else Inr (rec\<lparr>rr_Value := take hashSize rest\<rparr>, consumed + hashSize))
      else if valueType = refValuePeeled then
        (if length rest < 2 * hashSize then
           Inl (Wrapf (''reftable: ref_record value+peeled want '' @ itoa_nat (2 * hashSize) @ '' bytes, have '' @
             itoa_nat (length rest) @ '': '') ErrTruncatedRecord [])
         else Inr (rec\<lparr>rr_Value := take hashSize rest, rr_Peeled := take hashSize (drop hashSize rest)\<rparr>,
           consumed + 2 * hashSize))
      else if valueType = refValueSymref then
        (case decodeVarint rest of
           Inl err \<Rightarrow> Inl (Wrapf ''reftable: ref_record target_len: '' err [])
         | Inr (targetLen, n3) \<Rightarrow>
             let rest = drop n3 rest in
             if length rest < unat targetLen then
               Inl (Wrapf (''reftable: ref_record target wants '' @ itoa_nat (unat targetLen) @ '' bytes, have '' @
                 itoa_nat (length rest) @ '': '') ErrTruncatedRecord [])
             else Inr (rec\<lparr>rr_Target := take (unat targetLen) rest\<rparr>, consumed + (n3 + unat targetLen)))
      else Inl (Wrapf (''reftable: value_type 0x'' @ hex_nat valueType @ '': '') ErrUnsupportedValueType []))"

definition decodeRefRecord :: "Algo \<Rightarrow> string \<Rightarrow> string \<Rightarrow> u64 \<Rightarrow> go_error + refRecord \<times> nat" where
  "decodeRefRecord a buf prevKey minUpdateIndex = (case decodeKey buf prevKey of
      Inl err \<Rightarrow> Inl (Wrapf ''reftable: ref_record key: '' err [])
    | Inr (key, valueType, n1) \<Rightarrow>
        let rest = drop n1 buf
        in case decodeVarint rest of
          Inl err \<Rightarrow> Inl (Wrapf ''reftable: ref_record update_index_delta: '' err [])
        | Inr (delta, n2) \<Rightarrow>
            if - 1 - minUpdateIndex < delta then
              Inl (Wrapf (''reftable: min '' @ itoa_nat (unat minUpdateIndex) @ '' + delta '' @ itoa_nat (unat delta) @
                '' wraps uint64: '') ErrUpdateIndexOverflow [])
            else ref_value a \<lparr>rr_Name = key, rr_Target = [], rr_Value = zero_hash a, rr_Peeled = zero_hash a,
                rr_ValueType = valueType\<rparr> (drop n2 rest) (n1 + n2))"

section \<open>The format\<close>

text \<open>A key sharing \<open>p\<close> bytes with its predecessor.\<close>

definition encodeKey :: "nat \<Rightarrow> nat \<Rightarrow> string \<Rightarrow> string" where
  "encodeKey p extra key =
     encodeVarint p @ encodeVarint ((length key - p) * 8 + extra) @ drop p key"

definition key_fits :: "string \<Rightarrow> nat \<Rightarrow> nat \<Rightarrow> string \<Rightarrow> bool" where
  "key_fits prev p extra key \<longleftrightarrow> p \<le> length prev \<and> take p key = take p prev \<and> p \<le> length key \<and> extra < 8 \<and>
     length prev < 2 ^ 60 \<and> length key < 2 ^ 60"

definition encode_value :: "refRecord \<Rightarrow> string" where
  "encode_value r =
     (if rr_ValueType r = refValueDeletion then []
      else if rr_ValueType r = refValueSingle then rr_Value r
      else if rr_ValueType r = refValuePeeled then rr_Value r @ rr_Peeled r
      else encodeVarint (length (rr_Target r)) @ rr_Target r)"

definition encodeRefRecord :: "nat \<Rightarrow> nat \<Rightarrow> refRecord \<Rightarrow> string" where
  "encodeRefRecord p delta r = encodeKey p (rr_ValueType r) (rr_Name r) @ encodeVarint delta @ encode_value r"

text \<open>A record has the fields of its value type; the others are zero.\<close>

definition wf_record :: "Algo \<Rightarrow> refRecord \<Rightarrow> bool" where
  "wf_record a r \<longleftrightarrow> rr_ValueType r \<in> {refValueDeletion, refValueSingle, refValuePeeled, refValueSymref} \<and>
     wf_hash a (rr_Value r) \<and> wf_hash a (rr_Peeled r) \<and>
     (rr_ValueType r \<noteq> refValueSymref \<longrightarrow> rr_Target r = []) \<and>
     (rr_ValueType r \<noteq> refValuePeeled \<longrightarrow> rr_Peeled r = zero_hash a) \<and>
     (rr_ValueType r \<notin> {refValueSingle, refValuePeeled} \<longrightarrow> rr_Value r = zero_hash a)"

section \<open>Lemmas\<close>

lemma unat_low3: "unat ((w :: u64) AND 0x7) = unat w mod 8"
proof -
  have "(mask 3 :: u64) = 0x7" by (simp add: mask_eq_exp_minus_1)
  then show ?thesis using and_low [of w 3] by simp
qed

lemma unat_high3: "unat (drop_bit 3 (w :: u64)) = unat w div 8"
  unfolding unat_drop_bit_eq by (simp add: drop_bit_eq_div)

lemma decodeVarint_word:
  assumes "v < 2 ^ 64"
  obtains w where "\<And>rest. decodeVarint (encodeVarint v @ rest) = Inr (w, length (encodeVarint v))" "unat w = v"
  using that [of "word_of_nat v"] decodeVarint_encode [OF assms] assms by (simp add: unat_of_nat)

lemma decodeKey_encode:
  assumes "key_fits prev p extra key"
  shows "decodeKey (encodeKey p extra key @ rest) prev = Inr (key, extra, length (encodeKey p extra key))"
proof -
  define m where "m = (length key - p) * 8 + extra"
  have p: "p \<le> length prev" "take p prev = take p key" "p \<le> length key" "p < 2 ^ 64"
    and m: "m < 2 ^ 64" "m div 8 = length key - p" "m mod 8 = extra"
    using assms by (auto simp: key_fits_def m_def)
  obtain vp where vp: "\<And>rest. decodeVarint (encodeVarint p @ rest) = Inr (vp, length (encodeVarint p))" "unat vp = p"
    by (rule decodeVarint_word [OF p(4)]) blast
  obtain vm where vm: "\<And>rest. decodeVarint (encodeVarint m @ rest) = Inr (vm, length (encodeVarint m))" "unat vm = m"
    by (rule decodeVarint_word [OF m(1)]) blast
  have high: "unat (drop_bit 3 vm) = length key - p" using vm(2) m(2) unat_high3 [of vm] by simp
  have low: "unat (vm AND 7) = extra" using vm(2) m(3) by (simp add: unat_low3)
  show ?thesis
    unfolding encodeKey_def m_def [symmetric] append_assoc decodeKey_def vp(1) sum.case prod.case Let_def
    using p(1,3) by (simp add: vm(1) vp(2) high low p(2), arith)
qed

lemma decodeKey_cases:
  assumes "decodeKey buf prev = Inr (key, extra, n)"
  shows "0 < n" "n \<le> length buf" "extra < 8"
  using assms decodeVarint_consumes
  by (fastforce simp: decodeKey_def Let_def unat_low3 split: sum.splits prod.splits if_splits)+

lemma decodeKey_error:
  "decodeKey buf prev = Inl e \<Longrightarrow> errors_Is e ErrTruncatedRecord \<or> errors_Is e ErrVarintOverflow"
  by (auto simp: decodeKey_def Let_def dest: decodeVarint_error split: sum.splits prod.splits if_splits)

lemma ref_value_encode:
  assumes "wf_record a r" "length (rr_Target r) < 2 ^ 64"
  shows "ref_value a (r\<lparr>rr_Target := [], rr_Value := zero_hash a, rr_Peeled := zero_hash a\<rparr>) (encode_value r @ rest) n =
    Inr (r, n + length (encode_value r))"
proof -
  have z: "length (zero_hash a) = Algo_Size a" by (simp add: zero_hash_def)
  show ?thesis
  proof (cases "rr_ValueType r = refValueSymref")
    case True
    let ?r = "r\<lparr>rr_Target := [], rr_Value := zero_hash a, rr_Peeled := zero_hash a\<rparr>"
    obtain w where w: "\<And>rest. decodeVarint (encodeVarint (length (rr_Target r)) @ rest) =
        Inr (w, length (encodeVarint (length (rr_Target r))))" "unat w = length (rr_Target r)"
      by (rule decodeVarint_word [OF assms(2)]) blast
    have "?r\<lparr>rr_Target := rr_Target r\<rparr> = r"
      using assms(1) True by (cases r) (simp add: wf_record_def refValue_defs)
    with True show ?thesis by (simp add: ref_value_def encode_value_def refValue_defs w Let_def)
  next
    case False
    with assms(1) show ?thesis
      by (cases r) (auto simp: ref_value_def encode_value_def wf_record_def wf_hash_def refValue_defs Let_def z)
  qed
qed

text \<open>A record read back from its encoding.\<close>

lemma decodeRefRecord_encode:
  assumes "wf_record a r" "key_fits prev p (rr_ValueType r) (rr_Name r)" "unat mui + delta < 2 ^ 64"
    and "length (rr_Target r) < 2 ^ 64"
  shows "decodeRefRecord a (encodeRefRecord p delta r @ rest) prev mui = Inr (r, length (encodeRefRecord p delta r))"
proof -
  have delta: "decodeVarint (encodeVarint delta @ more) = Inr (word_of_nat delta, length (encodeVarint delta))" for more
    using assms(3) by (simp add: decodeVarint_encode)
  have "unat (- 1 :: u64) = 2 ^ 64 - 1" by (simp add: unsigned_minus_1_eq_mask mask_eq_exp_minus_1)
  then have "unat (- 1 - mui) = 2 ^ 64 - 1 - unat mui" by (subst unat_sub) simp_all
  then have no_wrap: "\<not> - 1 - mui < word_of_nat delta"
    using assms(3) by (simp add: word_less_nat_alt unat_of_nat)
  have base: "\<lparr>rr_Name = rr_Name r, rr_Target = [], rr_Value = zero_hash a, rr_Peeled = zero_hash a, rr_ValueType = rr_ValueType r\<rparr> =
      r\<lparr>rr_Target := [], rr_Value := zero_hash a, rr_Peeled := zero_hash a\<rparr>" by (cases r) simp
  show ?thesis
    unfolding decodeRefRecord_def encodeRefRecord_def append_assoc decodeKey_encode [OF assms(2)]
    by (simp add: Let_def delta no_wrap base ref_value_encode [OF assms(1,4)])
qed

lemma decodeRefRecord_cases:
  assumes "decodeRefRecord a buf prev mui = Inr (r, n)"
  shows "0 < n" "n \<le> length buf" "wf_record a r"
proof -
  obtain key t n1 delta n2 where k: "decodeKey buf prev = Inr (key, t, n1)" "decodeVarint (drop n1 buf) = Inr (delta, n2)"
    "ref_value a \<lparr>rr_Name = key, rr_Target = [], rr_Value = zero_hash a, rr_Peeled = zero_hash a, rr_ValueType = t\<rparr>
      (drop n2 (drop n1 buf)) (n1 + n2) = Inr (r, n)"
    using assms by (auto simp: decodeRefRecord_def Let_def split: sum.splits prod.splits if_splits)
  have n: "0 < n1" "n1 \<le> length buf" "n2 \<le> length buf - n1"
    using decodeKey_cases [OF k(1)] decodeVarint_consumes [OF k(2)] by simp_all
  show "0 < n"
    using k(3) n(1) by (auto simp: ref_value_def Let_def split: sum.splits prod.splits if_splits)
  have t: "n3 \<le> length buf - n1 - n2" if "decodeVarint (drop (n2 + n1) buf) = Inr (l, n3)" for l n3
    using decodeVarint_consumes(3) [OF that] by simp
  show "n \<le> length buf"
    using k(3) n by (auto simp: ref_value_def Let_def split: sum.splits prod.splits if_splits dest!: t)
  have "length (take (Algo_Size a) s) = Algo_Size a" if "\<not> length s < Algo_Size a" for s :: string
    using that by simp
  then show "wf_record a r"
    using k(3) by (auto simp: ref_value_def wf_record_def wf_hash_def zero_hash_def Let_def refValue_defs
        split: sum.splits prod.splits if_splits)
qed

end
