(* ===== verification/Reftable_Format.thy ===== *)
theory Reftable_Format
  imports Reftable_Record
begin

text \<open>
  The header and footer of a reftable file (\<open>src/internal/reftable/format.go\<close>).

  \<open>crc32\<close> is \<open>crc32.Checksum\<close> with the IEEE polynomial, bit by bit. A byte is read as the word it stands for.
  The lemmas: the header parser accepts exactly the encodings of the well-formed headers, and a file with
  a proper footer passes the check.
\<close>

section \<open>Header\<close>

definition ErrShortFile :: go_error where "ErrShortFile = Sentinel ''reftable: file too short''"
definition ErrBadMagic :: go_error where "ErrBadMagic = Sentinel ''reftable: bad magic''"
definition ErrUnsupportedVersion :: go_error where "ErrUnsupportedVersion = Sentinel ''reftable: unsupported version''"
definition ErrBadHashID :: go_error where "ErrBadHashID = Sentinel ''reftable: bad hash id''"
definition ErrTrailerChecksum :: go_error where "ErrTrailerChecksum = Sentinel ''reftable: trailer checksum mismatch''"

definition magic :: string where "magic = ''REFT''"
definition headerSizeV1 :: nat where "headerSizeV1 = 24"
definition headerSizeV2 :: nat where "headerSizeV2 = 28"
definition footerSizeV1 :: nat where "footerSizeV1 = headerSizeV1 + 5 * 8 + 4"
definition footerSizeV2 :: nat where "footerSizeV2 = headerSizeV2 + 5 * 8 + 4"
definition hashIDSHA1 :: u32 where "hashIDSHA1 = 0x73686131"
definition hashIDSHA256 :: u32 where "hashIDSHA256 = 0x73323536"

lemmas format_defs = magic_def headerSizeV1_def headerSizeV2_def footerSizeV1_def footerSizeV2_def
  hashIDSHA1_def hashIDSHA256_def

record header =
  h_version :: nat
  h_blockSize :: u32
  h_minUpdateIndex :: u64
  h_maxUpdateIndex :: u64
  h_algo :: Algo

definition h_size :: "header \<Rightarrow> nat" where
  "h_size h = (if h_version h = 2 then headerSizeV2 else headerSizeV1)"

definition h_footerSize :: "header \<Rightarrow> nat" where
  "h_footerSize h = (if h_version h = 2 then footerSizeV2 else footerSizeV1)"

definition parseHeader :: "string \<Rightarrow> go_error + header" where
  "parseHeader buf =
     (if length buf < headerSizeV1 then
        Inl (Wrapf (''reftable: have '' @ itoa_nat (length buf) @ '' bytes, need '' @ itoa_nat headerSizeV1 @
          '' for header: '') ErrShortFile [])
      else if take 4 buf \<noteq> magic then
        Inl (Wrapf (''reftable: magic '' @ quote (take 4 buf) @ '' != '' @ quote magic @ '': '') ErrBadMagic [])
      else
        let ver = byte_val (buf ! 4) in
        if ver \<noteq> 1 \<and> ver \<noteq> 2 then
          Inl (Wrapf (''reftable: version '' @ itoa_nat ver @ '': '') ErrUnsupportedVersion [])
        else if ver = 2 \<and> length buf < headerSizeV2 then
          Inl (Wrapf (''reftable: have '' @ itoa_nat (length buf) @ '' bytes, need '' @ itoa_nat headerSizeV2 @
            '' for v2 header: '') ErrShortFile [])
        else
          let h = \<lparr>h_version = ver,
              h_blockSize = push_bit 16 (byte_word (buf ! 5)) OR push_bit 8 (byte_word (buf ! 6)) OR byte_word (buf ! 7),
              h_minUpdateIndex = be (take 8 (drop 8 buf)), h_maxUpdateIndex = be (take 8 (drop 16 buf)), h_algo = SHA1\<rparr>
          in if ver = 1 then Inr h
            else
              let tag = (be (take 4 (drop 24 buf)) :: u32)
              in if tag = hashIDSHA1 then Inr (h\<lparr>h_algo := SHA1\<rparr>)
                else if tag = hashIDSHA256 then Inr (h\<lparr>h_algo := SHA256\<rparr>)
                else Inl (Wrapf (''reftable: hash id '' @ hex_padded 8 (unat tag) @ '': '') ErrBadHashID []))"

section \<open>Footer\<close>

definition crc_bit :: "u32 \<Rightarrow> u32" where
  "crc_bit w = (if w AND 1 = 1 then drop_bit 1 w XOR 0xEDB88320 else drop_bit 1 w)"

definition crc_byte :: "u32 \<Rightarrow> char \<Rightarrow> u32" where
  "crc_byte w c = (crc_bit ^^ 8) (w XOR byte_word c)"

definition crc32 :: "string \<Rightarrow> u32" where
  "crc32 s = NOT (foldl crc_byte (NOT 0) s)"

definition verifyTrailer :: "string \<Rightarrow> header \<Rightarrow> go_error option" where
  "verifyTrailer f h =
     (let footerLen = h_footerSize h; headerLen = h_size h in
      if length f < headerLen + footerLen then
        Some (Wrapf (''reftable: have '' @ itoa_nat (length f) @ '' bytes, need at least '' @
          itoa_nat (headerLen + footerLen) @ '' for header and footer: '') ErrShortFile [])
      else
        let footer = drop (length f - footerLen) f in
        if take headerLen footer \<noteq> take headerLen f then
          Some (New ''reftable: footer header copy diverges from file header'')
        else
          let want = (be (drop (footerLen - 4) footer) :: u32);
              got = crc32 (take (footerLen - 4) footer)
          in if got \<noteq> want then
              Some (Wrapf (''reftable: trailer crc '' @ hex_padded 8 (unat got) @ '' != '' @ hex_padded 8 (unat want) @ '': '')
                ErrTrailerChecksum [])
            else None)"

text \<open>\<open>readRefIndexPosition\<close> of \<open>src/internal/reftable/seek.go\<close>.\<close>

definition readRefIndexPosition :: "string \<Rightarrow> header \<Rightarrow> u64" where
  "readRefIndexPosition f h = be (take 8 (drop (h_size h) (drop (length f - h_footerSize h) f)))"

section \<open>The format\<close>

definition wf_header :: "header \<Rightarrow> bool" where
  "wf_header h \<longleftrightarrow> (h_version h = 1 \<and> h_algo h = SHA1 \<or> h_version h = 2) \<and> unat (h_blockSize h) < 2 ^ 24"

definition encodeHeader :: "header \<Rightarrow> string" where
  "encodeHeader h = magic @ [char_of (h_version h)] @ be_bytes 3 (unat (h_blockSize h)) @
     be_bytes 8 (unat (h_minUpdateIndex h)) @ be_bytes 8 (unat (h_maxUpdateIndex h)) @
     (if h_version h = 2 then be_bytes 4 (unat (case h_algo h of SHA1 \<Rightarrow> hashIDSHA1 | SHA256 \<Rightarrow> hashIDSHA256)) else [])"

text \<open>\<open>positions\<close>: the five section offsets.\<close>

definition encodeFooter :: "header \<Rightarrow> string \<Rightarrow> string" where
  "encodeFooter h positions = (let covered = encodeHeader h @ positions in covered @ be_bytes 4 (unat (crc32 covered)))"

section \<open>Lemmas\<close>

lemma length_encodeHeader: "length (encodeHeader h) = h_size h"
  by (simp add: encodeHeader_def h_size_def format_defs)

lemma be24_eq: "push_bit 16 (byte_word a) OR push_bit 8 (byte_word b) OR (byte_word c :: u32) = be [a, b, c]"
  by (simp add: be_def push_bit_or push_bit_push_bit or.assoc)

lemma take_3: "i + 3 \<le> length s \<Longrightarrow> take 3 (drop i s) = [s ! i, s ! (i + 1), s ! (i + 2)]"
  by (simp add: numeral_3_eq_3 take_Suc_conv_app_nth)

lemma blockSize_eq:
  "8 \<le> length s \<Longrightarrow> push_bit 16 (byte_word (s ! 5)) OR push_bit 8 (byte_word (s ! 6)) OR (byte_word (s ! 7) :: u32) =
    be (take 3 (drop 5 s))"
  using take_3 [of 5 s] by (simp add: be24_eq)

lemma be_words [simp]:
  "be (be_bytes 8 (unat w)) = (w :: u64)" "be (be_bytes 4 (unat v)) = (v :: u32)"
  "unat (v :: u32) < 2 ^ 24 \<Longrightarrow> be (be_bytes 3 (unat v)) = (v :: u32)"
  using be_word [of "be_bytes 8 (unat w)" w] be_word [of "be_bytes 4 (unat v)" v]
    be_be_bytes [of 3 "unat v", where 'a = 32] by (simp_all add: word_unat_eq_iff)

lemma hash_ids: "hashIDSHA256 \<noteq> hashIDSHA1"
  by (simp add: hashIDSHA1_def hashIDSHA256_def)

lemma parseHeader_encode:
  assumes "wf_header h"
  shows "parseHeader (encodeHeader h @ rest) = Inr h"
proof -
  have size: "unat (h_blockSize h) < 2 ^ 24" and v: "h_version h = 1 \<and> h_algo h = SHA1 \<or> h_version h = 2"
    using assms by (simp_all add: wf_header_def)
  have "length (encodeHeader h @ rest) = h_size h + length rest" by (simp add: length_encodeHeader)
  then have len: "8 \<le> length (encodeHeader h @ rest)" by (simp add: h_size_def format_defs)
  from v show ?thesis
    unfolding parseHeader_def blockSize_eq [OF len]
    by (elim disjE conjE; cases "h_algo h")
      (simp_all add: encodeHeader_def format_defs(1-5) be_words(3) [OF size] hash_ids Let_def)
qed

lemma be_bytes_slice:
  "i + 8 \<le> length s \<Longrightarrow> be_bytes 8 (unat (be (take 8 (drop i s)) :: u64)) = take 8 (drop i s)"
  "i + 4 \<le> length s \<Longrightarrow> be_bytes 4 (unat (be (take 4 (drop i s)) :: u32)) = take 4 (drop i s)"
  "i + 3 \<le> length s \<Longrightarrow> be_bytes 3 (unat (be (take 3 (drop i s)) :: u32)) = take 3 (drop i s)"
  using be_bytes_be [of "take 8 (drop i s)", where 'a = 64] be_bytes_be [of "take 4 (drop i s)", where 'a = 32]
    be_bytes_be [of "take 3 (drop i s)", where 'a = 32] by simp_all

lemma be_3_bound: "unat (be (take 3 s) :: u32) < 2 ^ 24"
proof -
  have "length (take 3 s) \<le> 3" by simp
  then have "8 * length (take 3 s) \<le> LENGTH(32)" by (simp del: length_take)
  then have "unat (be (take 3 s) :: u32) < 256 ^ length (take 3 s)" by (rule unat_be [THEN conjunct2])
  also have "(256 :: nat) ^ length (take 3 s) \<le> 256 ^ 3" by (intro power_increasing) simp_all
  finally show ?thesis by simp
qed

lemma take_parts: "i + n \<le> length s \<Longrightarrow> take (i + n) s = take i s @ take n (drop i s)"
  by (rule take_add)

lemma parseHeader_decode:
  assumes "parseHeader buf = Inr h"
  shows "wf_header h" "take (h_size h) buf = encodeHeader h" "h_size h \<le> length buf"
proof -
  let ?ver = "byte_val (buf ! 4)"
  have len: "24 \<le> length buf" and m: "take 4 buf = magic" and ver: "?ver = 1 \<or> ?ver = 2"
    and v2: "?ver = 2 \<Longrightarrow> 28 \<le> length buf"
    using assms by (auto simp: parseHeader_def format_defs Let_def split: if_splits)
  then have "8 \<le> length buf" by simp
  note eq = blockSize_eq [OF this]
  let ?h = "\<lparr>h_version = ?ver, h_blockSize = be (take 3 (drop 5 buf)), h_minUpdateIndex = be (take 8 (drop 8 buf)),
    h_maxUpdateIndex = be (take 8 (drop 16 buf)), h_algo = SHA1\<rparr>"
  have h: "?ver = 1 \<and> h = ?h \<or> ?ver = 2 \<and> be (take 4 (drop 24 buf)) = hashIDSHA1 \<and> h = ?h \<or>
      ?ver = 2 \<and> be (take 4 (drop 24 buf)) = hashIDSHA256 \<and> h = ?h\<lparr>h_algo := SHA256\<rparr>"
    using assms unfolding parseHeader_def eq by (auto simp: Let_def split: if_splits)
  then show "wf_header h" using be_3_bound [of "drop 5 buf"] by (auto simp: wf_header_def)
  have s5: "take 5 buf = magic @ [buf ! 4]"
    using len m take_parts [of 4 1 buf] by (simp add: take_Suc_conv_app_nth)
  have "take 24 buf = take 5 buf @ take 3 (drop 5 buf) @ take 8 (drop 8 buf) @ take 8 (drop 16 buf)"
    using len take_parts [of 5 3 buf] take_parts [of 8 8 buf] take_parts [of 16 8 buf] by simp
  then have t24: "take 24 buf = magic @ [char_of ?ver] @ be_bytes 3 (unat (be (take 3 (drop 5 buf)) :: u32)) @
      be_bytes 8 (unat (be (take 8 (drop 8 buf)) :: u64)) @ be_bytes 8 (unat (be (take 8 (drop 16 buf)) :: u64))"
    using len by (simp add: be_bytes_slice s5)
  have id4: "?ver = 2 \<Longrightarrow> take 28 buf = take 24 buf @ be_bytes 4 (unat (be (take 4 (drop 24 buf)) :: u32))"
    using v2 take_parts [of 24 4 buf] by (simp add: be_bytes_slice)
  from h show "take (h_size h) buf = encodeHeader h"
  proof (elim disjE conjE)
    assume "?ver = 1" "h = ?h"
    then show ?thesis using t24 by (simp add: h_size_def encodeHeader_def headerSizeV1_def)
  next
    assume a: "?ver = 2" "be (take 4 (drop 24 buf)) = hashIDSHA1" "h = ?h"
    show ?thesis unfolding a(3) h_size_def encodeHeader_def headerSizeV2_def using t24 id4 a(1,2) by simp
  next
    assume a: "?ver = 2" "be (take 4 (drop 24 buf)) = hashIDSHA256" "h = ?h\<lparr>h_algo := SHA256\<rparr>"
    show ?thesis unfolding a(3) h_size_def encodeHeader_def headerSizeV2_def using t24 id4 a(1,2) by simp
  qed
  show "h_size h \<le> length buf"
    using h len v2 by (auto simp: h_size_def format_defs)
qed

lemma length_encodeFooter: "length positions = 40 \<Longrightarrow> length (encodeFooter h positions) = h_footerSize h"
  by (simp add: encodeFooter_def Let_def length_encodeHeader h_size_def h_footerSize_def format_defs)

lemma verifyTrailer_encode:
  assumes "length positions = 40"
  shows "verifyTrailer (encodeHeader h @ body @ encodeFooter h positions) h = None"
    and "readRefIndexPosition (encodeHeader h @ body @ encodeFooter h positions) h = be (take 8 positions)"
proof -
  let ?f = "encodeHeader h @ body @ encodeFooter h positions" and ?covered = "encodeHeader h @ positions"
  have len: "length (encodeFooter h positions) = h_footerSize h" using assms by (rule length_encodeFooter)
  then have foot: "drop (length ?f - h_footerSize h) ?f = encodeFooter h positions" by simp
  have covered: "h_footerSize h - 4 = length ?covered"
    using assms by (simp add: length_encodeHeader h_size_def h_footerSize_def format_defs)
  have crc: "drop (h_footerSize h - 4) (encodeFooter h positions) = be_bytes 4 (unat (crc32 ?covered))"
    "take (h_footerSize h - 4) (encodeFooter h positions) = ?covered"
    unfolding covered by (simp_all add: encodeFooter_def Let_def)
  have head: "take (h_size h) (encodeFooter h positions) = take (h_size h) ?f"
    by (simp add: encodeFooter_def Let_def flip: length_encodeHeader)
  show "verifyTrailer ?f h = None"
    unfolding verifyTrailer_def Let_def foot crc head using len by (simp add: length_encodeHeader)
  show "readRefIndexPosition ?f h = be (take 8 positions)"
    unfolding readRefIndexPosition_def foot using assms
    by (simp add: encodeFooter_def Let_def flip: length_encodeHeader)
qed

section \<open>Properties\<close>

text \<open>The header parser accepts exactly the files that begin with the encoding of a well-formed header
  (version 1 with its implicit SHA-1, or version 2 with a known hash id), and yields that header.\<close>

theorem parseHeader_exact:
  "(parseHeader buf = Inr h) = (wf_header h \<and> (\<exists>rest. buf = encodeHeader h @ rest))"
proof
  assume "parseHeader buf = Inr h"
  with parseHeader_decode [OF this] show "wf_header h \<and> (\<exists>rest. buf = encodeHeader h @ rest)"
    by (metis append_take_drop_id)
next
  assume "wf_header h \<and> (\<exists>rest. buf = encodeHeader h @ rest)"
  then show "parseHeader buf = Inr h" using parseHeader_encode by blast
qed


end
