(* ===== verification/Reftable_Block.thy ===== *)
theory Reftable_Block
  imports Reftable_Format
begin

text \<open>
  Blocks and their restart tables (\<open>src/internal/reftable/block.go\<close>), with Go's unsigned arithmetic.

  Every index into a block is in range where the code takes it: \<open>parseBlock_facts\<close> collects what a parsed
  block satisfies, and the later theories read offsets as numbers through it. \<open>encode_block\<close> is the format.
\<close>

section \<open>Blocks\<close>

definition ErrTruncatedBlock :: go_error where "ErrTruncatedBlock = Sentinel ''reftable: truncated block''"
definition ErrBadBlockType :: go_error where "ErrBadBlockType = Sentinel ''reftable: unknown block type''"
definition ErrLogBlockUnsupported :: go_error where
  "ErrLogBlockUnsupported = Sentinel ''reftable: log blocks not supported''"

definition blockTypeRef :: char where "blockTypeRef = CHR ''r''"
definition blockTypeIndex :: char where "blockTypeIndex = CHR ''i''"
definition blockTypeObj :: char where "blockTypeObj = CHR ''o''"
definition blockTypeLog :: char where "blockTypeLog = CHR ''g''"

lemmas blockType_defs = blockTypeRef_def blockTypeIndex_def blockTypeObj_def blockTypeLog_def

record block =
  b_type :: char
  b_len :: u32
  b_restarts :: u16
  b_bytes :: string
  b_first :: u32
  b_table :: u32

definition be24 :: "string \<Rightarrow> u32" where
  "be24 s = push_bit 16 (byte_word (s ! 0)) OR push_bit 8 (byte_word (s ! 1)) OR byte_word (s ! 2)"

text \<open>\<open>%q\<close> of a printable byte.\<close>

definition quote_byte :: "char \<Rightarrow> string" where
  "quote_byte c = [CHR 0x27, c, CHR 0x27]"

definition itoa_word :: "'a::len word \<Rightarrow> string" where
  "itoa_word w = itoa_nat (unat w)"

fun check_restarts :: "string \<Rightarrow> nat \<Rightarrow> u32 \<Rightarrow> nat list \<Rightarrow> go_error option" where
  "check_restarts bytes tableStart fbo [] = None"
| "check_restarts bytes tableStart fbo (i # is) =
     (let off = be24 (take 3 (drop (tableStart + 3 * i) bytes))
      in if off < fbo then
          Some (Wrapf (''reftable: restart_offset '' @ itoa_word off @ '' below firstByteOffset '' @ itoa_word fbo @ '': '')
            ErrTruncatedBlock [])
        else check_restarts bytes tableStart fbo is)"

definition parseBlock :: "string \<Rightarrow> u32 \<Rightarrow> go_error + block" where
  "parseBlock buf firstByteOffset =
     (if (word_of_nat (length buf) :: u32) < firstByteOffset + 4 then
        Inl (Wrapf (''reftable: have '' @ itoa_nat (length buf) @ '' bytes, need '' @ itoa_word (firstByteOffset + 4) @
          '' for block header: '') ErrTruncatedBlock [])
      else
        let blockType = buf ! unat firstByteOffset in
        if blockType = blockTypeLog then
          Inl (Wrapf (''reftable: block type '' @ quote_byte blockType @ '': '') ErrLogBlockUnsupported [])
        else if blockType \<noteq> blockTypeRef \<and> blockType \<noteq> blockTypeIndex \<and> blockType \<noteq> blockTypeObj then
          Inl (Wrapf (''reftable: block type '' @ hex_padded 2 (byte_val blockType) @ '': '') ErrBadBlockType [])
        else
          let blockLen = be24 (take 3 (drop (unat (firstByteOffset + 1)) buf)) in
          if (word_of_nat (length buf) :: u32) < blockLen then
            Inl (Wrapf (''reftable: block_len '' @ itoa_word blockLen @ '' exceeds buffer '' @ itoa_nat (length buf) @ '': '')
              ErrTruncatedBlock [])
          else if blockLen < firstByteOffset + 9 then
            Inl (Wrapf (''reftable: block_len '' @ itoa_word blockLen @ '' too small for restart table: '') ErrTruncatedBlock [])
          else
            let bytes = take (unat blockLen) buf;
                restartCount = (be (take 2 (drop (unat (blockLen - 2)) bytes)) :: u16)
            in if restartCount = 0 then Inl (Wrapf ''reftable: empty restart table: '' ErrTruncatedBlock [])
              else
                let tableStart = uint blockLen - 2 - 3 * uint restartCount in
                if tableStart < uint firstByteOffset + 4 then
                  Inl (Wrapf (''reftable: restart table of '' @ itoa_word restartCount @ '' entries does not fit in block_len '' @
                    itoa_word blockLen @ '': '') ErrTruncatedBlock [])
                else (case check_restarts bytes (nat tableStart) firstByteOffset [0..<unat restartCount] of
                    Some err \<Rightarrow> Inl err
                  | None \<Rightarrow> Inr \<lparr>b_type = blockType, b_len = blockLen, b_restarts = restartCount, b_bytes = bytes,
                      b_first = firstByteOffset, b_table = word_of_int tableStart\<rparr>))"

definition restart :: "block \<Rightarrow> nat \<Rightarrow> u32" where
  "restart b i = (let off = b_table b + 3 * word_of_nat i in be24 (take 3 (drop (unat off) (b_bytes b))) - b_first b)"

text \<open>The index of the largest restart at or before the probe, or -1. \<open>None\<close>: the comparison panicked.\<close>

definition seekRestart :: "block \<Rightarrow> (nat \<Rightarrow> int option) \<Rightarrow> int option" where
  "seekRestart b cmp = (case Search (unat (b_restarts b)) (\<lambda>i. case cmp i of None \<Rightarrow> None | Some c \<Rightarrow> Some (0 < c)) of
      None \<Rightarrow> None
    | Some idx \<Rightarrow> Some (int idx - 1))"

text \<open>\<open>blockLen - 2 - 3 * uint32(restartCount)\<close>.\<close>

definition recordsEnd :: "block \<Rightarrow> u32" where
  "recordsEnd b = b_len b - 2 - 3 * ucast (b_restarts b)"

section \<open>What a parsed block satisfies\<close>

lemma be24_be: "length s = 3 \<Longrightarrow> be24 s = be s"
  by (auto simp: be24_def be24_eq length_Suc_conv numeral_3_eq_3)

lemma check_restarts_None:
  "check_restarts bytes ts fbo is = None \<longleftrightarrow> (\<forall>i\<in>set is. fbo \<le> be24 (take 3 (drop (ts + 3 * i) bytes)))"
  by (induction "is") (auto simp: Let_def not_less)

lemma unat_u32: "n < 2 ^ 32 \<Longrightarrow> unat (word_of_nat n :: u32) = n"
  by (simp add: unat_of_nat)

definition wf_block :: "block \<Rightarrow> bool" where
  "wf_block b \<longleftrightarrow>
     length (b_bytes b) = unat (b_len b) \<and> unat (b_len b) < 2 ^ 24 \<and> 0 < unat (b_restarts b) \<and>
     unat (b_first b) + 4 \<le> unat (recordsEnd b) \<and>
     unat (recordsEnd b) + 3 * unat (b_restarts b) + 2 = unat (b_len b) \<and>
     b_table b = recordsEnd b \<and>
     (\<forall>i < unat (b_restarts b). b_first b \<le> be24 (take 3 (drop (unat (recordsEnd b) + 3 * i) (b_bytes b)))) \<and>
     b_type b \<in> {blockTypeRef, blockTypeIndex, blockTypeObj}"

lemma be24_bound: "length s = 3 \<Longrightarrow> unat (be24 s) < 2 ^ 24"
  using be_3_bound [of s] by (simp add: be24_be)

lemma unat_word_len: "unat (word_of_nat n :: u32) \<le> n"
  by (simp add: unat_of_nat)

lemma parseBlock_facts:
  assumes "parseBlock buf fbo = Inr b" "unat fbo \<le> 28"
  shows "wf_block b" "b_first b = fbo" "b_bytes b = take (unat (b_len b)) buf" "unat (b_len b) \<le> length buf"
    "unat (b_len b) \<le> unat (word_of_nat (length buf) :: u32)"
    "b_type b = buf ! unat fbo"
proof -
  let ?len = "be24 (take 3 (drop (unat (fbo + 1)) buf))"
  let ?rc = "be (take 2 (drop (unat (?len - 2)) (take (unat ?len) buf))) :: u16"
  have ok: "\<not> (word_of_nat (length buf) :: u32) < fbo + 4" "\<not> (word_of_nat (length buf) :: u32) < ?len" "\<not> ?len < fbo + 9"
    "buf ! unat fbo \<in> {blockTypeRef, blockTypeIndex, blockTypeObj}" "?rc \<noteq> 0"
    "\<not> uint ?len - 2 - 3 * uint ?rc < uint fbo + 4"
    "check_restarts (take (unat ?len) buf) (nat (uint ?len - 2 - 3 * uint ?rc)) fbo [0..<unat ?rc] = None"
    "b = \<lparr>b_type = buf ! unat fbo, b_len = ?len, b_restarts = ?rc, b_bytes = take (unat ?len) buf, b_first = fbo,
      b_table = word_of_int (uint ?len - 2 - 3 * uint ?rc)\<rparr>"
    using assms(1) unfolding parseBlock_def Let_def
    by (simp_all only: sum.distinct sum.inject simp_thms insert_iff empty_iff split: if_split_asm option.split_asm) blast+
  have f4: "unat (fbo + 4) = unat fbo + 4" "unat (fbo + 1) = unat fbo + 1"
    using assms(2) unat_add_lem [of fbo 4] unat_add_lem [of fbo 1] by simp_all
  have "unat fbo + 4 \<le> unat (word_of_nat (length buf) :: u32)"
    using ok(1) by (simp add: word_less_nat_alt f4)
  also have "\<dots> \<le> length buf" by (rule unat_word_len)
  finally have len3: "length (take 3 (drop (unat (fbo + 1)) buf)) = 3" by (simp add: f4)
  show "b_first b = fbo" "b_type b = buf ! unat fbo" using ok(8) by simp_all
  show wl: "unat (b_len b) \<le> unat (word_of_nat (length buf) :: u32)"
    using ok(2) unfolding ok(8) by (simp add: word_less_nat_alt)
  then show bl: "unat (b_len b) \<le> length buf" using unat_word_len [of "length buf"] by linarith
  show bytes: "b_bytes b = take (unat (b_len b)) buf" using ok(8) by simp
  have L: "b_len b = ?len" and R: "b_restarts b = ?rc" using ok(8) by simp_all
  have small: "unat (b_len b) < 2 ^ 24" unfolding L using len3 by (rule be24_bound)
  have rc: "0 < unat (b_restarts b)" "unat (b_restarts b) < 2 ^ 16"
    unfolding R using ok(5) unsigned_less [of ?rc] by (simp_all add: unat_gt_0)
  have "\<not> uint (b_len b) - 2 - 3 * uint (b_restarts b) < uint fbo + 4" unfolding L R by (rule ok(6))
  then have "int (unat fbo) + 4 + 3 * int (unat (b_restarts b)) + 2 \<le> int (unat (b_len b))"
    unfolding uint_nat by linarith
  then have nats: "unat fbo + 4 + 3 * unat (b_restarts b) + 2 \<le> unat (b_len b)" by linarith
  have "unat (b_restarts b) < 2 ^ 32" using rc(2) by simp
  then have uc: "unat (ucast (b_restarts b) :: u32) = unat (b_restarts b)"
    by (simp add: unsigned_ucast_eq take_bit_nat_eq_self)
  have "unat (3 * (ucast (b_restarts b) :: u32)) = 3 * unat (b_restarts b)"
    using unat_mult_lem [of 3 "ucast (b_restarts b) :: u32"] rc(2) uc by simp
  moreover have "unat (b_len b - 2) = unat (b_len b) - 2" using nats by (subst unat_sub) (simp_all add: word_le_nat_alt)
  ultimately have re: "unat (recordsEnd b) = unat (b_len b) - 2 - 3 * unat (b_restarts b)"
    unfolding recordsEnd_def using nats by (subst unat_sub) (simp_all add: word_le_nat_alt)
  have int_ts: "uint ?len - 2 - 3 * uint ?rc = int (unat (recordsEnd b))"
    unfolding re using nats unfolding uint_nat L R by linarith
  then have nat_ts: "nat (uint ?len - 2 - 3 * uint ?rc) = unat (recordsEnd b)" by simp
  have "b_table b = word_of_int (uint ?len - 2 - 3 * uint ?rc)" using ok(8) by simp
  then have table: "b_table b = recordsEnd b" unfolding int_ts by simp
  have "\<forall>i < unat (b_restarts b). b_first b \<le> be24 (take 3 (drop (unat (recordsEnd b) + 3 * i) (b_bytes b)))"
    using ok(7) unfolding check_restarts_None nat_ts by (simp add: R L bytes [unfolded L] \<open>b_first b = fbo\<close>)
  moreover have "unat fbo + 4 \<le> unat (recordsEnd b)" "unat (recordsEnd b) + 3 * unat (b_restarts b) + 2 = unat (b_len b)"
    using nats re by linarith+
  ultimately show "wf_block b"
    using small rc table bl bytes ok(4)
    unfolding wf_block_def \<open>b_first b = fbo\<close> \<open>b_type b = buf ! unat fbo\<close> by simp
qed

text \<open>Offsets as numbers: the restart table and the restarts themselves.\<close>

lemma restart_nat:
  assumes "wf_block b" "i < unat (b_restarts b)"
  shows "unat (restart b i) = unat (be24 (take 3 (drop (unat (recordsEnd b) + 3 * i) (b_bytes b)))) - unat (b_first b)"
proof -
  have "unat (recordsEnd b) + 3 * i < 2 ^ 24" using assms by (simp add: wf_block_def)
  then have lt: "unat (recordsEnd b) + 3 * i < 2 ^ 32" "i < 2 ^ 32" by simp_all
  have "unat (3 * word_of_nat i :: u32) = 3 * i"
    using unat_mult_lem [of 3 "word_of_nat i :: u32"] lt by (simp add: unat_of_nat)
  then have "unat (recordsEnd b + 3 * word_of_nat i) = unat (recordsEnd b) + 3 * i"
    using unat_add_lem [of "recordsEnd b" "3 * word_of_nat i"] lt(1) by simp
  moreover have "b_first b \<le> be24 (take 3 (drop (unat (recordsEnd b) + 3 * i) (b_bytes b)))" "b_table b = recordsEnd b"
    using assms by (simp_all add: wf_block_def)
  ultimately show ?thesis
    by (simp add: restart_def Let_def unat_sub)
qed

section \<open>The format\<close>

text \<open>
  A block behind the bytes \<open>pre\<close> that it shares its frame with (the file header for the first block, else
  nothing), with its records and the offsets in that frame of its restarts.
\<close>

definition encode_block :: "string \<Rightarrow> char \<Rightarrow> string \<Rightarrow> nat list \<Rightarrow> string" where
  "encode_block pre typ records restarts =
     pre @ [typ] @ be_bytes 3 (length pre + 4 + length records + 3 * length restarts + 2) @ records @
     concat (map (be_bytes 3) restarts) @ be_bytes 2 (length restarts)"

definition wf_layout :: "string \<Rightarrow> string \<Rightarrow> nat list \<Rightarrow> bool" where
  "wf_layout pre records restarts \<longleftrightarrow> length pre \<le> 28 \<and> restarts \<noteq> [] \<and> length restarts < 2 ^ 16 \<and>
     list_all (\<lambda>r. length pre \<le> r \<and> r < 2 ^ 24) restarts \<and>
     length pre + 4 + length records + 3 * length restarts + 2 < 2 ^ 24"

lemma length_table [simp]: "length (concat (map (be_bytes 3) rs)) = 3 * length rs"
  by (induction rs) simp_all

lemma length_encode_block:
  "length (encode_block pre typ records restarts) = length pre + 4 + length records + 3 * length restarts + 2"
  by (simp add: encode_block_def)

lemma table_entry:
  "i < length rs \<Longrightarrow> take 3 (drop (3 * i) (concat (map (be_bytes 3) rs) @ rest)) = be_bytes 3 (rs ! i)"
proof (induction rs arbitrary: i)
  case (Cons r rs)
  show ?case
  proof (cases i)
    case (Suc j)
    then have "drop (3 * i) (be_bytes 3 r @ concat (map (be_bytes 3) rs) @ rest) = drop (3 * j) (concat (map (be_bytes 3) rs) @ rest)"
      by simp
    with Suc Cons show ?thesis by simp
  qed simp
qed simp

lemma drop_prefix: "e = g @ s \<Longrightarrow> n = length g \<Longrightarrow> drop (n + k) e = drop k s"
  by simp

lemma parseBlock_encode:
  assumes "wf_layout pre records restarts" "typ \<in> {blockTypeRef, blockTypeIndex, blockTypeObj}"
    and "length (encode_block pre typ records restarts @ rest) < 2 ^ 32"
  obtains b where "parseBlock (encode_block pre typ records restarts @ rest) (word_of_nat (length pre)) = Inr b"
    "b_bytes b = encode_block pre typ records restarts" "b_type b = typ" "b_first b = word_of_nat (length pre)"
    "unat (b_restarts b) = length restarts" "unat (recordsEnd b) = length pre + 4 + length records"
    "unat (b_len b) = length (encode_block pre typ records restarts)"
    "\<And>i. i < length restarts \<Longrightarrow> unat (restart b i) = restarts ! i - length pre"
proof -
  let ?enc = "encode_block pre typ records restarts" and ?fbo = "word_of_nat (length pre) :: u32"
  let ?buf = "?enc @ rest" and ?n = "length (encode_block pre typ records restarts)"
  have n24: "?n < 2 ^ 24" and rc: "length restarts < 2 ^ 16" "restarts \<noteq> []" and pre: "length pre \<le> 28"
    using assms(1) by (simp_all add: wf_layout_def length_encode_block)
  have buf: "?buf = pre @ [typ] @ be_bytes 3 ?n @ records @ concat (map (be_bytes 3) restarts) @ be_bytes 2 (length restarts) @ rest"
    unfolding length_encode_block by (simp only: encode_block_def append_assoc)
  have fbo: "unat ?fbo = length pre" using pre by (simp add: unat_of_nat)
  have f: "unat (?fbo + 4) = length pre + 4" "unat (?fbo + 1) = length pre + 1" "unat (?fbo + 9) = length pre + 9"
    using pre fbo unat_add_lem [of ?fbo 4] unat_add_lem [of ?fbo 1] unat_add_lem [of ?fbo 9] by simp_all
  have wlen: "unat (word_of_nat (length ?buf) :: u32) = length ?buf" using assms(3) by (rule unat_u32)
  have big: "length pre + 9 \<le> ?n" "?n \<le> length ?buf" using rc(2) by (cases restarts; simp add: length_encode_block)+
  have tb: "?buf ! unat ?fbo = typ" unfolding fbo buf by (simp add: nth_append)
  have "take 3 (drop (unat (?fbo + 1)) ?buf) = be_bytes 3 ?n" unfolding f buf by simp
  then have bl: "unat (be24 (take 3 (drop (unat (?fbo + 1)) ?buf))) = ?n"
    using be_be_bytes [of 3 ?n, where 'a = 32] n24 by (simp add: be24_be)
  define L where "L = be24 (take 3 (drop (unat (?fbo + 1)) ?buf))"
  have L: "unat L = ?n" unfolding L_def by (rule bl)
  have L2: "unat (L - 2) = ?n - 2" using big(1) L by (subst unat_sub) (simp_all add: word_le_nat_alt)
  have takeL: "take (unat L) ?buf = ?enc" unfolding L by simp
  define R where "R = (be (take 2 (drop (unat (L - 2)) ?enc)) :: u16)"
  let ?h = "pre @ [typ] @ be_bytes 3 ?n @ records @ concat (map (be_bytes 3) restarts)"
  have "?enc = ?h @ be_bytes 2 (length restarts)"
    unfolding length_encode_block by (simp only: encode_block_def append_assoc)
  moreover have "?n - 2 = length ?h" by (simp add: length_encode_block)
  ultimately have "drop (?n - 2 + 0) ?enc = drop 0 (be_bytes 2 (length restarts))" by (rule drop_prefix)
  then have R: "unat R = length restarts"
    unfolding R_def L2 using be_be_bytes [of 2 "length restarts", where 'a = 16] rc(1) by (simp del: drop_append)
  have R0: "R \<noteq> 0" using R rc(2) by auto
  let ?ts = "length pre + 4 + length records"
  have ts: "uint L - 2 - 3 * uint R = int ?ts"
    unfolding uint_nat L R length_encode_block by simp
  have entry: "take 3 (drop (?ts + 3 * i) ?enc) = be_bytes 3 (restarts ! i)" if "i < length restarts" for i
  proof -
    let ?g = "pre @ [typ] @ be_bytes 3 ?n @ records"
    have "?enc = ?g @ concat (map (be_bytes 3) restarts) @ be_bytes 2 (length restarts)"
      unfolding length_encode_block by (simp only: encode_block_def append_assoc)
    moreover have "?ts = length ?g" by simp
    ultimately have "drop (?ts + 3 * i) ?enc = drop (3 * i) (concat (map (be_bytes 3) restarts) @ be_bytes 2 (length restarts))"
      by (rule drop_prefix)
    with table_entry [OF that] show ?thesis by simp
  qed
  have off: "unat (be24 (take 3 (drop (?ts + 3 * i) ?enc))) = restarts ! i" "length pre \<le> restarts ! i"
    if "i < length restarts" for i
  proof -
    have r: "restarts ! i < 2 ^ 24" "length pre \<le> restarts ! i"
      using assms(1) that by (simp_all add: wf_layout_def list_all_length)
    then show "unat (be24 (take 3 (drop (?ts + 3 * i) ?enc))) = restarts ! i" "length pre \<le> restarts ! i"
      unfolding entry [OF that] using be_be_bytes [of 3 "restarts ! i", where 'a = 32] by (simp_all add: be24_be)
  qed
  have check: "check_restarts ?enc ?ts ?fbo [0..<unat R] = None"
    unfolding check_restarts_None R by (auto simp: word_le_nat_alt fbo off)
  let ?b = "\<lparr>b_type = typ, b_len = L, b_restarts = R, b_bytes = ?enc, b_first = ?fbo, b_table = word_of_int (int ?ts)\<rparr>"
  have c: "\<not> (word_of_nat (length ?buf) :: u32) < ?fbo + 4" "\<not> (word_of_nat (length ?buf) :: u32) < L" "\<not> L < ?fbo + 9"
    unfolding word_less_nat_alt wlen f L using big by linarith+
  have ct: "\<not> int ?ts < uint ?fbo + 4" unfolding uint_nat fbo by simp
  have ty: "typ \<noteq> blockTypeLog" "\<not> (typ \<noteq> blockTypeRef \<and> typ \<noteq> blockTypeIndex \<and> typ \<noteq> blockTypeObj)"
    using assms(2) by (auto simp: blockType_defs)
  have p: "parseBlock ?buf ?fbo = Inr ?b"
    unfolding parseBlock_def Let_def tb L_def [symmetric] takeL R_def [symmetric] ts
    by (simp only: c ct ty R0 check if_False nat_int option.case)
  have fbo28: "unat ?fbo \<le> 28" using pre fbo by simp
  note facts = parseBlock_facts [OF p fbo28]
  have "unat (recordsEnd ?b) + 3 * unat (b_restarts ?b) + 2 = unat (b_len ?b)"
    using facts(1) unfolding wf_block_def by blast
  then have re: "unat (recordsEnd ?b) = ?ts"
    unfolding block.select_convs L R length_encode_block by linarith
  have "unat (restart ?b i) = restarts ! i - length pre" if "i < length restarts" for i
    using restart_nat [OF facts(1), of i] that off(1) [OF that] unfolding re by (simp add: R fbo)
  with p re show thesis by (intro that [of ?b]) (simp_all add: R L)
qed

end
