(* ===== verification/Reftable_Reader.thy ===== *)
theory Reftable_Reader
  imports Reftable_Block Wire_Responses
begin

text \<open>
  Reading one reftable file (\<open>src/internal/reftable/reader.go\<close>) from its bytes: opening, and the walk over
  the ref blocks.

  The iterator is modelled with its consumer, which sees a record or an error and says whether to go on.
  The memory map is the bytes of the file. The lemmas: on a file in the format the walk feeds the consumer
  exactly the records, block by block.
\<close>

section \<open>Opening\<close>

definition ErrMixedHashAlgo :: go_error where
  "ErrMixedHashAlgo = Sentinel ''reftable: stack has mixed hash algorithms''"

record reftable_Reader =
  rt_file :: string
  rt_header :: header
  rt_closed :: bool

text \<open>\<open>fs\<close> is the file system: the bytes behind a path, or the error of opening or reading it.\<close>

definition OpenReader :: "Algo \<Rightarrow> (string \<Rightarrow> go_error + string) \<Rightarrow> string \<Rightarrow> go_error + reftable_Reader" where
  "OpenReader a fs path = (case fs path of
      Inl err \<Rightarrow> Inl err
    | Inr f \<Rightarrow>
        if length f < headerSizeV1 then
          Inl (Wrapf (''reftable: have '' @ itoa_nat (length f) @ '' bytes, need '' @ itoa_nat headerSizeV1 @ '' for header: '')
            ErrShortFile [])
        else case parseHeader f of
          Inl err \<Rightarrow> Inl err
        | Inr h \<Rightarrow>
            if Algo_Size (h_algo h) \<noteq> Algo_Size a then
              Inl (Wrapf (''reftable: file '' @ path @ '' declares '' @ Algo_String (h_algo h) @ '', reader instantiated for '' @
                itoa_nat (Algo_Size a) @ ''-byte hash: '') ErrMixedHashAlgo [])
            else (case verifyTrailer f h of
                Some err \<Rightarrow> Inl err
              | None \<Rightarrow> Inr \<lparr>rt_file = f, rt_header = h, rt_closed = False\<rparr>))"

definition reftable_HashAlgo :: "reftable_Reader \<Rightarrow> Algo" where
  "reftable_HashAlgo r = h_algo (rt_header r)"

text \<open>\<open>unmap\<close> is the error of releasing the mapping.\<close>

definition reftable_Close :: "go_error option \<Rightarrow> reftable_Reader \<Rightarrow> go_error option \<times> reftable_Reader" where
  "reftable_Close unmap r = (if rt_closed r then (None, r) else (unmap, r\<lparr>rt_file := [], rt_closed := True\<rparr>))"

section \<open>The walk over the ref blocks\<close>

record RefRecord =
  rec_Name :: string
  rec_Target :: string
  rec_Value :: Hash
  rec_Peeled :: Hash

definition liftRefRecord :: "refRecord \<Rightarrow> RefRecord" where
  "liftRefRecord r = \<lparr>rec_Name = rr_Name r, rec_Target = rr_Target r, rec_Value = rr_Value r, rec_Peeled = rr_Peeled r\<rparr>"

definition zero_refRecord :: "Algo \<Rightarrow> refRecord" where
  "zero_refRecord a = \<lparr>rr_Name = [], rr_Target = [], rr_Value = zero_hash a, rr_Peeled = zero_hash a, rr_ValueType = 0\<rparr>"

definition roundUp :: "u32 \<Rightarrow> u32 \<Rightarrow> u32" where
  "roundUp v m = ((v + m - 1) div m) * m"

type_synonym 's record_consumer = "refRecord \<times> go_error option \<Rightarrow> 's \<Rightarrow> bool \<times> 's"

text \<open>\<open>blk.bytes[cur:recordsEnd]\<close>, for \<open>cur < recordsEnd\<close>.\<close>

definition records_from :: "block \<Rightarrow> u32 \<Rightarrow> string" where
  "records_from b cur = take (unat (recordsEnd b) - unat cur) (drop (unat cur) (b_bytes b))"

lemma advance:
  assumes "cur < recordsEnd b" "0 < n" "n \<le> length (records_from b cur)"
  shows "unat (cur + word_of_nat n) = unat cur + n" "unat cur + n \<le> unat (recordsEnd b)"
proof -
  show le: "unat cur + n \<le> unat (recordsEnd b)"
    using assms(1,3) by (simp add: records_from_def word_less_nat_alt, linarith)
  also have "\<dots> < 2 ^ 32" using unsigned_less [of "recordsEnd b"] by simp
  finally have lt: "unat cur + n < 2 ^ 32" .
  then have "unat (word_of_nat n :: u32) = n" by (intro unat_u32) simp
  with lt show "unat (cur + word_of_nat n) = unat cur + n"
    using unat_add_lem [of cur "word_of_nat n"] by simp
qed

text \<open>The loop over the records of a block: whether the iterator returned, the last key, and the consumer.\<close>

function block_refs ::
  "'s record_consumer \<Rightarrow> Algo \<Rightarrow> u64 \<Rightarrow> u32 \<Rightarrow> block \<Rightarrow> u32 \<Rightarrow> string \<Rightarrow> 's \<Rightarrow> bool \<times> string \<times> 's" where
  "block_refs yield a minUpdateIndex pos b cur prev s =
     (if cur < recordsEnd b then
        (case decodeRefRecord a (records_from b cur) prev minUpdateIndex of
           Inl err \<Rightarrow> (True, prev, snd (yield (zero_refRecord a,
             Some (Wrapf (''reftable: decode ref_record at '' @ itoa_word (pos + cur) @ '': '') err [])) s))
         | Inr (rec, n) \<Rightarrow> (case yield (rec, None) s of (go_on, s') \<Rightarrow>
             if \<not> go_on then (True, prev, s')
             else block_refs yield a minUpdateIndex pos b (cur + word_of_nat n) (rr_Name rec) s'))
      else (False, prev, s))"
  by pat_completeness auto
termination
proof (relation "measure (\<lambda>(yield, a, mui, pos, b, cur, prev, s). unat (recordsEnd b) - unat cur)")
  fix yield :: "'s record_consumer" and a mui pos and b :: block and cur prev s x rec n y go_on s'
  assume a: "cur < recordsEnd b" "decodeRefRecord a (records_from b cur) prev mui = Inr x" "(rec, n) = x"
  have n: "0 < n" "n \<le> length (records_from b cur)"
    using decodeRefRecord_cases [of a "records_from b cur" prev mui rec n] a(2,3) by simp_all
  note advance [OF a(1) n]
  with n(1) a(1) show "((yield, a, mui, pos, b, cur + word_of_nat n, rr_Name rec, s'), yield, a, mui, pos, b, cur, prev, s)
    \<in> measure (\<lambda>(yield, a, mui, pos, b, cur, prev, s). unat (recordsEnd b) - unat cur)"
    by (simp add: word_less_nat_alt)
qed simp

declare block_refs.simps [simp del]

lemma unat_u32_less: "unat (w :: u32) < 4294967296"
  using unsigned_less [of w] by simp

lemma advances: "p < q \<Longrightarrow> 4294967296 - unat q < 4294967296 - unat (p :: u32)"
  using unat_u32_less [of q] by (simp add: word_less_nat_alt)

function iter_blocks ::
  "'s record_consumer \<Rightarrow> Algo \<Rightarrow> string \<Rightarrow> header \<Rightarrow> u32 \<Rightarrow> bool \<Rightarrow> string \<Rightarrow> 's \<Rightarrow> 's" where
  "iter_blocks yield a f h pos first prev s =
     (if pos < (word_of_nat (length f) :: u32) then
        let firstByteOffset = (if first then word_of_nat (h_size h) else 0 :: u32);
            slice = (if first then f else drop (unat pos) f)
        in if (word_of_nat (length slice) :: u32) \<le> firstByteOffset then s
          else if slice ! unat firstByteOffset \<noteq> blockTypeRef then s
          else (case parseBlock slice firstByteOffset of
              Inl err \<Rightarrow> snd (yield (zero_refRecord a,
                Some (Wrapf (''reftable: parse ref block at '' @ itoa_word pos @ '': '') err [])) s)
            | Inr b \<Rightarrow> (case block_refs yield a (h_minUpdateIndex h) pos b (firstByteOffset + 4) prev s of (returned, prev', s') \<Rightarrow>
                if returned then s'
                else
                  let nextPos = pos + b_len b;
                      nextPos = (if 0 < h_blockSize h then roundUp nextPos (h_blockSize h) else nextPos)
                  in if nextPos \<le> pos then snd (yield (zero_refRecord a,
                      Some (Wrapf (''reftable: block at '' @ itoa_word pos @ '' does not advance: '') ErrTruncatedBlock [])) s')
                    else iter_blocks yield a f h nextPos False prev' s'))
      else s)"
  by pat_completeness auto
termination
  by (relation "measure (\<lambda>(yield, a, f, h, pos, first, prev, s). 4294967296 - unat pos)")
    (auto simp: not_le intro!: advances split: if_splits)

declare iter_blocks.simps [simp del]

definition iterAllRefs :: "Algo \<Rightarrow> reftable_Reader \<Rightarrow> 's record_consumer \<Rightarrow> 's \<Rightarrow> 's" where
  "iterAllRefs a r yield s = iter_blocks yield a (rt_file r) (rt_header r) 0 True [] s"

definition IterRefs_body :: "Algo \<Rightarrow> (RefRecord \<times> go_error option \<Rightarrow> 's \<Rightarrow> bool \<times> 's) \<Rightarrow> 's record_consumer" where
  "IterRefs_body a yield item s = (case item of
      (rec, Some err) \<Rightarrow> (False, snd (yield (liftRefRecord (zero_refRecord a), Some err) s))
    | (rec, None) \<Rightarrow> if rr_ValueType rec = refValueDeletion then (True, s) else yield (liftRefRecord rec, None) s)"

definition IterRefs :: "Algo \<Rightarrow> reftable_Reader \<Rightarrow> (RefRecord \<times> go_error option \<Rightarrow> 's \<Rightarrow> bool \<times> 's) \<Rightarrow> 's \<Rightarrow> 's" where
  "IterRefs a r yield s = iterAllRefs a r (IterRefs_body a yield) s"

section \<open>Files in the format\<close>

text \<open>The records of a block: each with the length of the prefix it shares and its update index delta.\<close>

type_synonym ref_entry = "nat \<times> nat \<times> refRecord"

fun encode_records :: "ref_entry list \<Rightarrow> string" where
  "encode_records [] = []"
| "encode_records ((p, d, r) # rs) = encodeRefRecord p d r @ encode_records rs"

definition entry_record :: "ref_entry \<Rightarrow> refRecord" where
  "entry_record e = snd (snd e)"

fun wf_records :: "Algo \<Rightarrow> u64 \<Rightarrow> string \<Rightarrow> ref_entry list \<Rightarrow> bool" where
  "wf_records a mui prev [] \<longleftrightarrow> True"
| "wf_records a mui prev ((p, d, r) # rs) \<longleftrightarrow>
     wf_record a r \<and> key_fits prev p (rr_ValueType r) (rr_Name r) \<and> unat mui + d < 2 ^ 64 \<and>
     length (rr_Target r) < 2 ^ 64 \<and> wf_records a mui (rr_Name r) rs"

text \<open>A ref block: its records and the offsets of its restarts.\<close>

type_synonym ref_block = "ref_entry list \<times> nat list"

definition last_name :: "string \<Rightarrow> ref_entry list \<Rightarrow> string" where
  "last_name prev rs = (if rs = [] then prev else rr_Name (entry_record (last rs)))"

definition aligned :: "nat \<Rightarrow> nat \<Rightarrow> nat" where
  "aligned m n = (if m = 0 then n else (n + m - 1) div m * m)"

text \<open>The ref blocks from a position on, each padded to the block size, then the other sections.\<close>

fun encode_blocks :: "nat \<Rightarrow> nat \<Rightarrow> string \<Rightarrow> ref_block list \<Rightarrow> string \<Rightarrow> string" where
  "encode_blocks m pos pre [] tail = pre @ tail"
| "encode_blocks m pos pre ((rs, restarts) # bl) tail =
     (let e = encode_block pre blockTypeRef (encode_records rs) restarts
      in e @ replicate (aligned m (pos + length e) - (pos + length e)) (CHR 0x00) @
         encode_blocks m (aligned m (pos + length e)) [] bl tail)"

fun wf_blocks :: "Algo \<Rightarrow> u64 \<Rightarrow> string \<Rightarrow> string \<Rightarrow> ref_block list \<Rightarrow> bool" where
  "wf_blocks a mui pre prev [] \<longleftrightarrow> True"
| "wf_blocks a mui pre prev ((rs, restarts) # bl) \<longleftrightarrow>
     wf_layout pre (encode_records rs) restarts \<and> wf_records a mui prev rs \<and> wf_blocks a mui [] (last_name prev rs) bl"

definition block_entries :: "ref_block list \<Rightarrow> ref_entry list" where
  "block_entries bl = concat (map fst bl)"

text \<open>What follows the ref blocks does not look like one.\<close>

definition ends_refs :: "string \<Rightarrow> bool" where
  "ends_refs tail \<longleftrightarrow> tail \<noteq> [] \<and> hd tail \<noteq> blockTypeRef"

text \<open>The consumer's state after some items, and whether it still goes on.\<close>

fun feed_go :: "('x \<Rightarrow> 's \<Rightarrow> bool \<times> 's) \<Rightarrow> 'x list \<Rightarrow> 's \<Rightarrow> bool \<times> 's" where
  "feed_go yield [] s = (True, s)"
| "feed_go yield (x # xs) s = (case yield x s of (go_on, s') \<Rightarrow> if go_on then feed_go yield xs s' else (False, s'))"

lemma feed_feed_go: "feed yield xs s = snd (feed_go yield xs s)"
  by (induction xs arbitrary: s) (auto split: prod.split)

lemma feed_go_append: "feed_go yield (xs @ ys) s =
    (case feed_go yield xs s of (go_on, s') \<Rightarrow> if go_on then feed_go yield ys s' else (False, s'))"
  by (induction xs arbitrary: s) (auto split: prod.split)

definition entry_items :: "ref_entry list \<Rightarrow> (refRecord \<times> go_error option) list" where
  "entry_items rs = map (\<lambda>e. (entry_record e, None)) rs"

lemma entry_items_simps [simp]:
  "entry_items [] = []" "entry_items ((p, d, r) # rs) = (r, None) # entry_items rs"
  "entry_items (rs @ rs') = entry_items rs @ entry_items rs'"
  by (simp_all add: entry_items_def entry_record_def)

lemma last_name_simps [simp]: "last_name prev [] = prev"
  "last_name prev ((p, d, r) # rs) = last_name (rr_Name r) rs"
  by (simp_all add: last_name_def entry_record_def)

section \<open>The walk on a file in the format\<close>

lemma block_refs_encode:
  assumes "wf_records a mui prev rs" "records_from b cur = encode_records rs" "cur \<le> recordsEnd b"
    and "unat (recordsEnd b) = unat cur + length (encode_records rs)"
  shows "\<exists>prev'. block_refs yield a mui pos b cur prev s =
      (\<not> fst (feed_go yield (entry_items rs) s), prev', snd (feed_go yield (entry_items rs) s)) \<and>
    (fst (feed_go yield (entry_items rs) s) \<longrightarrow> prev' = last_name prev rs)"
  using assms
proof (induction rs arbitrary: prev cur s)
  case Nil
  then have "\<not> cur < recordsEnd b" by (simp add: word_less_nat_alt)
  then show ?case by (subst block_refs.simps) simp
next
  case (Cons e rs)
  obtain p d r where e: "e = (p, d, r)" by (cases e)
  let ?n = "length (encodeRefRecord p d r)"
  have dec: "decodeRefRecord a (records_from b cur) prev mui = Inr (r, ?n)"
    unfolding Cons.prems(2) e encode_records.simps
    by (rule decodeRefRecord_encode) (use Cons.prems(1) e in simp_all)
  note n = decodeRefRecord_cases [OF dec]
  have "cur < recordsEnd b"
    using n(1) Cons.prems(4) e by (simp add: word_less_nat_alt)
  note adv = advance [OF this n(1,2)]
  let ?cur = "cur + word_of_nat ?n"
  have next_from: "records_from b ?cur = encode_records rs"
  proof -
    have "records_from b ?cur = drop ?n (records_from b cur)"
      unfolding records_from_def adv(1) by (simp add: drop_take add.commute)
    then show ?thesis unfolding Cons.prems(2) e by simp
  qed
  obtain go s' where y: "yield (r, None) s = (go, s')" by fastforce
  have step: "block_refs yield a mui pos b cur prev s =
      (if go then block_refs yield a mui pos b ?cur (rr_Name r) s' else (True, prev, s'))"
    using \<open>cur < recordsEnd b\<close> by (subst block_refs.simps) (simp add: dec y)
  show ?case
  proof (cases go)
    case True
    have "\<exists>prev'. block_refs yield a mui pos b ?cur (rr_Name r) s' =
        (\<not> fst (feed_go yield (entry_items rs) s'), prev', snd (feed_go yield (entry_items rs) s')) \<and>
      (fst (feed_go yield (entry_items rs) s') \<longrightarrow> prev' = last_name (rr_Name r) rs)"
      by (rule Cons.IH) (use Cons.prems e adv next_from in \<open>simp_all add: word_le_nat_alt\<close>)
    with True step y e show ?thesis by simp
  qed (use step y e in simp)
qed

lemma aligned_ge: "n \<le> aligned m n" "m > 0 \<Longrightarrow> aligned m n < n + m"
proof -
  have "n \<le> (n + m - 1) div m * m \<and> (n + m - 1) div m * m < n + m" if "m > 0"
  proof -
    have "(n + m - 1) div m * m + (n + m - 1) mod m = n + m - 1" by (rule div_mult_mod_eq)
    moreover have "(n + m - 1) mod m < m" using that by simp
    ultimately show ?thesis using that by linarith
  qed
  then show "n \<le> aligned m n" "m > 0 \<Longrightarrow> aligned m n < n + m" by (simp_all add: aligned_def)
qed

lemma roundUp_aligned:
  assumes "unat v + unat m < 2 ^ 32" "0 < m"
  shows "unat (roundUp v m) = aligned (unat m) (unat v)"
proof -
  have m: "0 < unat m" using assms(2) by (simp add: word_less_nat_alt)
  have "unat (v + m) = unat v + unat m" using unat_add_lem [of v m] assms(1) by simp
  then have "unat (v + m - 1) = unat v + unat m - 1"
    using m by (subst unat_sub) (simp_all add: word_le_nat_alt)
  then have d: "unat ((v + m - 1) div m) = (unat v + unat m - 1) div unat m" by (simp add: unat_div)
  have "aligned (unat m) (unat v) < 2 ^ 32" using aligned_ge(2) [OF m, of "unat v"] assms(1) by linarith
  then show ?thesis
    using unat_mult_lem [of "(v + m - 1) div m" m] m by (simp add: roundUp_def d aligned_def)
qed


text \<open>Where the ref blocks end, the loops over them stop.\<close>

lemma blocks_end:
  fixes f :: string
  assumes "(if first then f else drop pos f) = pre @ tail"
    and "pos < length f" "length f + 2 ^ 24 < 2 ^ 32" "ends_refs tail"
    and "if first then pos = 0 \<and> length pre = h_size h else pre = []"
  defines "sl \<equiv> if first then f else drop pos f"
    and "fbo \<equiv> if first then word_of_nat (h_size h) else 0 :: u32"
  shows "unat (word_of_nat pos :: u32) = pos" "\<not> word_of_nat (length sl) \<le> fbo" "sl ! unat fbo \<noteq> blockTypeRef"
proof -
  show "unat (word_of_nat pos :: u32) = pos" using assms(2,3) by (auto intro!: unat_u32)
  have "length sl \<le> length f" by (simp add: sl_def)
  then have len: "unat (word_of_nat (length sl) :: u32) = length sl"
    using assms(3) by (intro unat_u32) linarith
  have "h_size h < 2 ^ 32" by (simp add: h_size_def format_defs)
  then have fbo: "unat fbo = length pre" using assms(5) unat_u32 by (auto simp: fbo_def split: if_splits)
  have sl: "sl = pre @ tail" using assms(1) by (simp add: sl_def)
  show "\<not> word_of_nat (length sl) \<le> fbo"
    unfolding word_le_nat_alt len fbo unfolding sl using assms(4) by (simp add: ends_refs_def)
  show "sl ! unat fbo \<noteq> blockTypeRef"
    unfolding fbo sl using assms(4) by (cases tail) (simp_all add: ends_refs_def nth_append)
qed

text \<open>One ref block of a file in the format, as the loops over the blocks see it, and where the next one is.\<close>

lemma block_step:
  fixes f :: string
  assumes "(if first then f else drop pos f) =
      encode_blocks (unat (h_blockSize h)) pos pre ((rs, restarts) # bl) tail"
    and "pos < length f" "length f + 2 ^ 24 < 2 ^ 32" "unat (h_blockSize h) < 2 ^ 24" "ends_refs tail"
    and "if first then pos = 0 \<and> length pre = h_size h else pre = []"
    and "wf_layout pre (encode_records rs) restarts"
  defines "sl \<equiv> if first then f else drop pos f"
    and "fbo \<equiv> if first then word_of_nat (h_size h) else 0 :: u32"
    and "e \<equiv> encode_block pre blockTypeRef (encode_records rs) restarts"
  obtains b nxt where "unat (word_of_nat pos :: u32) = pos" "word_of_nat pos < (word_of_nat (length f) :: u32)"
    "\<not> word_of_nat (length sl) \<le> fbo" "sl ! unat fbo = blockTypeRef" "parseBlock sl fbo = Inr b"
    "b_bytes b = e" "records_from b (fbo + 4) = encode_records rs" "unat (fbo + 4) = length pre + 4"
    "unat (recordsEnd b) = length pre + 4 + length (encode_records rs)" "fbo = word_of_nat (length pre)"
    "(if 0 < h_blockSize h then roundUp (word_of_nat pos + b_len b) (h_blockSize h) else word_of_nat pos + b_len b) =
      word_of_nat nxt"
    "\<not> word_of_nat nxt \<le> (word_of_nat pos :: u32)"
    "drop nxt f = encode_blocks (unat (h_blockSize h)) nxt [] bl tail" "nxt < length f"
proof -
  let ?m = "unat (h_blockSize h)"
  define nxt where "nxt = aligned ?m (pos + length e)"
  let ?pad = "replicate (nxt - (pos + length e)) (CHR 0x00)"
  let ?rest = "?pad @ encode_blocks ?m nxt [] bl tail"
  have sl: "sl = e @ ?rest" using assms(1) by (simp add: Let_def sl_def e_def nxt_def)
  have pos: "unat (word_of_nat pos :: u32) = pos" "unat (word_of_nat (length f) :: u32) = length f"
    using assms(2,3) by (auto intro!: unat_u32)
  have "length sl \<le> length f" by (simp add: sl_def)
  then have len: "unat (word_of_nat (length sl) :: u32) = length sl" and slen32: "length sl < 2 ^ 32"
    using assms(3) by (auto intro!: unat_u32)
  have "h_size h < 2 ^ 32" by (simp add: h_size_def format_defs)
  then have fbo: "unat fbo = length pre" "fbo = word_of_nat (length pre)"
    using assms(6) unat_u32 by (auto simp: fbo_def split: if_splits)
  have e: "length pre + 9 \<le> length e" "length e < 2 ^ 24"
    using assms(7) unfolding e_def by (cases restarts; simp add: wf_layout_def length_encode_block)+
  obtain b where b: "parseBlock sl fbo = Inr b" "b_bytes b = e" "b_type b = blockTypeRef" "b_first b = fbo"
    "unat (recordsEnd b) = length pre + 4 + length (encode_records rs)" "unat (b_len b) = length e"
    unfolding sl fbo(2) e_def
    by (rule parseBlock_encode [OF assms(7), of blockTypeRef ?rest]) (use slen32 sl in \<open>simp_all add: e_def\<close>)
  have pre: "length pre \<le> 28" using assms(7) by (simp add: wf_layout_def)
  have "unat fbo \<le> 28" unfolding fbo(1) by (rule pre)
  note facts = parseBlock_facts [OF b(1) this]
  have cur: "unat (fbo + 4) = length pre + 4"
    using unat_add_lem [of fbo 4] pre unfolding fbo(1) by simp
  have "e = (pre @ [blockTypeRef] @ be_bytes 3 (length e)) @ encode_records rs @
      concat (map (be_bytes 3) restarts) @ be_bytes 2 (length restarts)"
    unfolding e_def length_encode_block by (simp only: encode_block_def append_assoc)
  then have "drop (length pre + 4 + 0) e = drop 0 (encode_records rs @ concat (map (be_bytes 3) restarts) @ be_bytes 2 (length restarts))"
    by (rule drop_prefix) simp
  then have recs: "records_from b (fbo + 4) = encode_records rs"
    unfolding records_from_def b(2,5) cur by simp
  have "length (e @ ?rest) + (if first then 0 else pos) = length f"
    unfolding sl [symmetric] sl_def using assms(2,6) by auto
  then have f_len: "pos + length e + length ?rest = length f" using assms(6) by (auto split: if_splits)
  have sum: "unat (word_of_nat pos + b_len b) = pos + length e"
    using unat_add_lem [of "word_of_nat pos" "b_len b"] pos b(6) f_len assms(3) by simp
  let ?nxt = "if 0 < h_blockSize h then roundUp (word_of_nat pos + b_len b) (h_blockSize h) else word_of_nat pos + b_len b"
  have nxt: "unat ?nxt = nxt"
  proof (cases "0 < h_blockSize h")
    case True
    have "unat (word_of_nat pos + b_len b) + ?m < 2 ^ 32"
      unfolding sum using f_len assms(3,4) by linarith
    from roundUp_aligned [OF this True] True show ?thesis unfolding nxt_def sum by simp
  next
    case False
    then have "?m = 0" by (simp add: word_less_nat_alt)
    with False show ?thesis unfolding nxt_def by (simp add: sum aligned_def)
  qed
  then have nxt_word: "?nxt = word_of_nat nxt" unfolding nxt [symmetric] by simp
  have next_ge: "pos + length e \<le> nxt" unfolding nxt_def by (rule aligned_ge)
  have grows: "\<not> word_of_nat nxt \<le> (word_of_nat pos :: u32)"
    unfolding nxt_word [symmetric] word_le_nat_alt nxt pos using next_ge e(1) by linarith
  have tail: "encode_blocks m q [] bl' tail \<noteq> []" for m q bl'
    using assms(5) by (cases bl') (auto simp: ends_refs_def Let_def encode_block_def)
  have drop_next: "drop nxt f = encode_blocks ?m nxt [] bl tail"
  proof -
    have "drop (pos + length (e @ ?pad)) f = drop (length (e @ ?pad)) sl"
      using assms(6) by (auto split: if_splits simp: add.commute sl_def)
    also have "\<dots> = encode_blocks ?m nxt [] bl tail" unfolding sl by simp
    finally show ?thesis using next_ge by simp
  qed
  have in_file: "nxt < length f"
    using tail [of ?m nxt bl] drop_next by (metis drop_all leI)
  show thesis
  proof (rule that)
    show "word_of_nat pos < (word_of_nat (length f) :: u32)" unfolding word_less_nat_alt pos by (rule assms(2))
    show "\<not> word_of_nat (length sl) \<le> fbo"
      unfolding word_le_nat_alt len fbo(1) unfolding sl using e(1) by simp
    show "sl ! unat fbo = blockTypeRef" using facts(6) b(3) by simp
  qed (rule pos b recs cur fbo nxt_word grows drop_next in_file)+
qed

lemma iter_blocks_encode:
  assumes "(if first then f else drop pos f) = encode_blocks (unat (h_blockSize h)) pos pre bl tail"
    and "pos < length f" "length f + 2 ^ 24 < 2 ^ 32" "unat (h_blockSize h) < 2 ^ 24" "ends_refs tail"
    and "if first then pos = 0 \<and> length pre = h_size h else pre = []"
    and "wf_blocks a (h_minUpdateIndex h) pre prev bl"
  shows "iter_blocks yield a f h (word_of_nat pos) first prev s = feed yield (entry_items (block_entries bl)) s"
  using assms
proof (induction bl arbitrary: pos first pre prev s)
  case (Nil pos first pre prev s)
  have "(if first then f else drop pos f) = pre @ tail" using Nil.prems(1) by simp
  note e = blocks_end [OF this Nil.prems(2,3,5,6)]
  from e show ?case
    by (subst iter_blocks.simps)
      (simp only: Let_def if_False if_True if_cancel not_False_eq_True block_entries_def list.map concat.simps
        entry_items_simps feed.simps)
next
  case (Cons rb bl pos first pre prev s)
  obtain rs restarts where rb: "rb = (rs, restarts)" by (cases rb)
  let ?mui = "h_minUpdateIndex h"
  have lay: "wf_layout pre (encode_records rs) restarts" "wf_records a ?mui prev rs"
    "wf_blocks a ?mui [] (last_name prev rs) bl" using Cons.prems(7) by (simp_all add: rb)
  let ?fbo = "if first then word_of_nat (h_size h) else 0 :: u32"
  obtain b nxt where b: "unat (word_of_nat pos :: u32) = pos" "word_of_nat pos < (word_of_nat (length f) :: u32)"
    "\<not> word_of_nat (length (if first then f else drop pos f)) \<le> ?fbo"
    "(if first then f else drop pos f) ! unat ?fbo = blockTypeRef"
    "parseBlock (if first then f else drop pos f) ?fbo = Inr b"
    "b_bytes b = encode_block pre blockTypeRef (encode_records rs) restarts"
    "records_from b (?fbo + 4) = encode_records rs" "unat (?fbo + 4) = length pre + 4"
    "unat (recordsEnd b) = length pre + 4 + length (encode_records rs)" "?fbo = word_of_nat (length pre)"
    "(if 0 < h_blockSize h then roundUp (word_of_nat pos + b_len b) (h_blockSize h) else word_of_nat pos + b_len b) =
      word_of_nat nxt"
    "\<not> word_of_nat nxt \<le> (word_of_nat pos :: u32)"
    "drop nxt f = encode_blocks (unat (h_blockSize h)) nxt [] bl tail" "nxt < length f"
    by (rule block_step [OF Cons.prems(1) [unfolded rb] Cons.prems(2-6) lay(1)])
  obtain prev' where walk: "block_refs yield a ?mui (word_of_nat pos) b (?fbo + 4) prev s =
      (\<not> fst (feed_go yield (entry_items rs) s), prev', snd (feed_go yield (entry_items rs) s))"
    "fst (feed_go yield (entry_items rs) s) \<longrightarrow> prev' = last_name prev rs"
    using block_refs_encode [OF lay(2) b(7) _ _, of yield "word_of_nat pos" s] b(8,9)
    by (auto simp: word_le_nat_alt)
  have step: "iter_blocks yield a f h (word_of_nat pos) first prev s =
      (if fst (feed_go yield (entry_items rs) s)
       then iter_blocks yield a f h (word_of_nat nxt) False prev' (snd (feed_go yield (entry_items rs) s))
       else snd (feed_go yield (entry_items rs) s))"
    using b(2-5,11,12) walk(1)
    by (subst iter_blocks.simps) (simp only: b(1) Let_def if_True if_False sum.case prod.case not_not simp_thms, simp)
  have "iter_blocks yield a f h (word_of_nat nxt) False (last_name prev rs) s' = feed yield (entry_items (block_entries bl)) s'" for s'
    by (rule Cons.IH [of False nxt "[]"]) (use b(13,14) Cons.prems(3,4,5) lay(3) in simp_all)
  with step walk(2) show ?case
    by (simp add: rb block_entries_def feed_feed_go feed_go_append split: prod.split)
qed

section \<open>Whole files\<close>

text \<open>A file: the header, the ref blocks, the other sections, and the footer with the section positions.\<close>

definition encode_table :: "header \<Rightarrow> ref_block list \<Rightarrow> string \<Rightarrow> string \<Rightarrow> string" where
  "encode_table h bl sections positions =
     encode_blocks (unat (h_blockSize h)) 0 (encodeHeader h) bl (sections @ encodeFooter h positions)"

definition wf_table :: "Algo \<Rightarrow> header \<Rightarrow> ref_block list \<Rightarrow> string \<Rightarrow> string \<Rightarrow> bool" where
  "wf_table a h bl sections positions \<longleftrightarrow>
     wf_header h \<and> h_algo h = a \<and> wf_blocks a (h_minUpdateIndex h) (encodeHeader h) [] bl \<and>
     length positions = 40 \<and> (sections = [] \<or> hd sections \<noteq> blockTypeRef) \<and>
     length (encode_table h bl sections positions) + 2 ^ 24 < 2 ^ 32"

lemma encode_blocks_split:
  obtains body where "\<And>tail. encode_blocks m pos pre bl tail = pre @ body @ tail"
proof -
  have "\<exists>body. \<forall>tail. encode_blocks m pos pre bl tail = pre @ body @ tail"
  proof (induction bl arbitrary: pos pre)
    case Nil
    show ?case by (intro exI [of _ "[]"]) simp
  next
    case (Cons rb bl)
    obtain rs restarts where rb: "rb = (rs, restarts)" by (cases rb)
    let ?e = "encode_block pre blockTypeRef (encode_records rs) restarts"
    obtain body where "\<forall>tail. encode_blocks m (aligned m (pos + length ?e)) [] bl tail = [] @ body @ tail"
      using Cons by blast
    moreover have "\<exists>rest. ?e = pre @ rest" by (simp add: encode_block_def)
    then obtain rest where "?e = pre @ rest" by blast
    ultimately show ?case
      by (intro exI [of _ "rest @ replicate (aligned m (pos + length ?e) - (pos + length ?e)) (CHR 0x00) @ body"])
        (simp add: rb Let_def)
  qed
  then show thesis using that by blast
qed

lemma ends_refs_footer: "sections = [] \<or> hd sections \<noteq> blockTypeRef \<Longrightarrow> ends_refs (sections @ encodeFooter h positions)"
  by (cases sections) (auto simp: ends_refs_def encodeFooter_def Let_def encodeHeader_def magic_def blockTypeRef_def)

lemma table_read:
  assumes "wf_table a h bl sections positions" "fs path = Inr (encode_table h bl sections positions)"
  shows "OpenReader a fs path = Inr \<lparr>rt_file = encode_table h bl sections positions, rt_header = h, rt_closed = False\<rparr>"
    and "readRefIndexPosition (encode_table h bl sections positions) h = be (take 8 positions)"
proof -
  let ?f = "encode_table h bl sections positions"
  obtain body where body: "\<And>tail. encode_blocks (unat (h_blockSize h)) 0 (encodeHeader h) bl tail = encodeHeader h @ body @ tail"
    by (rule encode_blocks_split) blast
  have f: "?f = encodeHeader h @ (body @ sections) @ encodeFooter h positions"
    by (simp add: encode_table_def body)
  have wf: "wf_header h" "h_algo h = a" "length positions = 40" using assms(1) by (simp_all add: wf_table_def)
  have "headerSizeV1 \<le> length ?f"
    unfolding f by (simp add: length_encodeHeader h_size_def format_defs)
  moreover have "parseHeader ?f = Inr h" unfolding f by (rule parseHeader_encode [OF wf(1)])
  moreover have "verifyTrailer ?f h = None" unfolding f by (rule verifyTrailer_encode [OF wf(3)])
  ultimately show "OpenReader a fs path = Inr \<lparr>rt_file = ?f, rt_header = h, rt_closed = False\<rparr>"
    by (simp add: OpenReader_def assms(2) wf(2))
  show "readRefIndexPosition ?f h = be (take 8 positions)" unfolding f by (rule verifyTrailer_encode [OF wf(3)])
qed

lemma iterAllRefs_table:
  assumes "wf_table a h bl sections positions"
  shows "iterAllRefs a \<lparr>rt_file = encode_table h bl sections positions, rt_header = h, rt_closed = c\<rparr> yield s =
    feed yield (entry_items (block_entries bl)) s"
proof -
  let ?f = "encode_table h bl sections positions"
  have t: "wf_blocks a (h_minUpdateIndex h) (encodeHeader h) [] bl" "length ?f + 2 ^ 24 < 2 ^ 32"
    "ends_refs (sections @ encodeFooter h positions)" "unat (h_blockSize h) < 2 ^ 24"
    using assms ends_refs_footer by (simp_all add: wf_table_def wf_header_def)
  obtain body where "\<And>tail. encode_blocks (unat (h_blockSize h)) 0 (encodeHeader h) bl tail = encodeHeader h @ body @ tail"
    by (rule encode_blocks_split) blast
  then have "0 < length ?f"
    by (simp add: encode_table_def length_encodeHeader h_size_def format_defs)
  then have "iter_blocks yield a ?f h (word_of_nat 0) True [] s = feed yield (entry_items (block_entries bl)) s"
    by (intro iter_blocks_encode [where pre = "encodeHeader h"]) (use t in \<open>simp_all add: encode_table_def length_encodeHeader\<close>)
  then show ?thesis by (simp add: iterAllRefs_def)
qed

definition visible :: "ref_entry list \<Rightarrow> RefRecord list" where
  "visible es = map (\<lambda>e. liftRefRecord (entry_record e)) (filter (\<lambda>e. rr_ValueType (entry_record e) \<noteq> refValueDeletion) es)"

lemma feed_IterRefs: "feed (IterRefs_body a yield) (entry_items es) s = feed yield (map (\<lambda>r. (r, None)) (visible es)) s"
  by (induction es arbitrary: s)
    (auto simp: IterRefs_body_def visible_def entry_items_def split: prod.split)


end
