(* ===== verification/Reftable_Stack.thy ===== *)
theory Reftable_Stack
  imports Reftable_Reader "HOL-Library.AList"
begin

text \<open>
  The merged view of a stack of reftables (\<open>src/internal/reftable/stack.go\<close>).

  The file system is a function from paths to contents and \<open>join\<close> is \<open>filepath.Join\<close>. The merged map is an
  association list. Readers closed on a failing open are not part of the result.

  The abstract view is \<open>newest\<close>: the last record of a name over all tables decides. The lemmas show that the
  stack is this view, in name order.
\<close>

section \<open>The code\<close>

definition ErrInvalidTablesList :: go_error where
  "ErrInvalidTablesList = Sentinel ''reftable: invalid tables.list''"

record Stack =
  sk_readers :: "reftable_Reader list"
  sk_merged :: "(string \<times> RefRecord) list"
  sk_sorted :: "string list"
  sk_algo :: "Algo option"

text \<open>\<open>bytes.Split\<close> at a byte.\<close>

fun Split :: "string \<Rightarrow> char \<Rightarrow> string list" where
  "Split [] c = [[]]"
| "Split (x # s) c = (if x = c then [] # Split s c else (x # hd (Split s c)) # tl (Split s c))"

fun tables_loop :: "string list \<Rightarrow> go_error + string list" where
  "tables_loop [] = Inr []"
| "tables_loop (p # ps) =
     (if length p = 0 then Inl (Wrapf ''reftable: empty line in tables.list: '' ErrInvalidTablesList [])
      else case tables_loop ps of Inl err \<Rightarrow> Inl err | Inr out \<Rightarrow> Inr (p # out))"

definition parseTablesList :: "string \<Rightarrow> go_error + string list" where
  "parseTablesList raw =
     (if length raw = 0 then Inr []
      else
        let trimmed = (if last raw = CHR 0x0A then butlast raw else raw)
        in tables_loop (Split trimmed (CHR 0x0A)))"

fun open_readers ::
  "Algo \<Rightarrow> (string \<Rightarrow> go_error + string) \<Rightarrow> (string \<Rightarrow> string \<Rightarrow> string) \<Rightarrow> string \<Rightarrow> string list \<Rightarrow> go_error + reftable_Reader list" where
  "open_readers a fs join dir [] = Inr []"
| "open_readers a fs join dir (basename # names) = (case OpenReader a fs (join dir basename) of
      Inl err \<Rightarrow> Inl err
    | Inr r \<Rightarrow> (case open_readers a fs join dir names of Inl err \<Rightarrow> Inl err | Inr rs \<Rightarrow> Inr (r # rs)))"

text \<open>The body of the loop over a table's records: the error it returned, and the map.\<close>

definition merge_body :: "(go_error option \<times> (string \<times> RefRecord) list) record_consumer" where
  "merge_body item st = (case item of
      (rec, Some err) \<Rightarrow> (False, (Some err, snd st))
    | (rec, None) \<Rightarrow>
        if rr_ValueType rec = refValueDeletion then (True, (fst st, AList.delete (rr_Name rec) (snd st)))
        else (True, (fst st, AList.update (rr_Name rec) (liftRefRecord rec) (snd st))))"

fun merge_tables :: "Algo \<Rightarrow> reftable_Reader list \<Rightarrow> (string \<times> RefRecord) list \<Rightarrow> go_error + (string \<times> RefRecord) list" where
  "merge_tables a [] merged = Inr merged"
| "merge_tables a (r # rs) merged = (case iterAllRefs a r merge_body (None, merged) of
      (Some err, _) \<Rightarrow> Inl err
    | (None, merged') \<Rightarrow> merge_tables a rs merged')"

definition OpenStack ::
  "Algo \<Rightarrow> (string \<Rightarrow> go_error + string) \<Rightarrow> (string \<Rightarrow> string \<Rightarrow> string) \<Rightarrow> string \<Rightarrow> go_error + Stack" where
  "OpenStack a fs join dir =
     (let manifest = join dir ''tables.list'' in
      case fs manifest of
        Inl err \<Rightarrow> Inl (Wrapf (''reftable: read '' @ manifest @ '': '') err [])
      | Inr raw \<Rightarrow> (case parseTablesList raw of
          Inl err \<Rightarrow> Inl err
        | Inr names \<Rightarrow>
            if length names = 0 then Inr \<lparr>sk_readers = [], sk_merged = [], sk_sorted = [], sk_algo = None\<rparr>
            else (case open_readers a fs join dir names of
                Inl err \<Rightarrow> Inl err
              | Inr readers \<Rightarrow> (case merge_tables a readers [] of
                  Inl err \<Rightarrow> Inl err
                | Inr merged \<Rightarrow> Inr \<lparr>sk_readers = readers, sk_merged = merged, sk_sorted = sort (map fst merged),
                    sk_algo = Some (reftable_HashAlgo (hd readers))\<rparr>))))"

definition Stack_HashAlgo :: "Stack \<Rightarrow> Algo option" where
  "Stack_HashAlgo s = sk_algo s"

definition Stack_Len :: "Stack \<Rightarrow> nat" where
  "Stack_Len s = length (sk_merged s)"

text \<open>The zero value of a missing key is never yielded: \<open>sorted\<close> lists the keys.\<close>

fun Stack_iter :: "(string \<times> RefRecord) list \<Rightarrow> string list \<Rightarrow> (RefRecord \<times> go_error option \<Rightarrow> 's \<Rightarrow> bool \<times> 's) \<Rightarrow> 's \<Rightarrow> 's" where
  "Stack_iter merged [] yield s = s"
| "Stack_iter merged (name # names) yield s =
     (case yield (the (map_of merged name), None) s of (go_on, s') \<Rightarrow>
        if \<not> go_on then s' else Stack_iter merged names yield s')"

definition Stack_IterRefs :: "Stack \<Rightarrow> (RefRecord \<times> go_error option \<Rightarrow> 's \<Rightarrow> bool \<times> 's) \<Rightarrow> 's \<Rightarrow> 's" where
  "Stack_IterRefs s = Stack_iter (sk_merged s) (sk_sorted s)"

definition Stack_FindRef :: "Stack \<Rightarrow> string \<Rightarrow> RefRecord option" where
  "Stack_FindRef s name = map_of (sk_merged s) name"

text \<open>\<open>unmap\<close>: the error of releasing a reader's mapping.\<close>

fun close_readers :: "(reftable_Reader \<Rightarrow> go_error option) \<Rightarrow> reftable_Reader list \<Rightarrow> go_error option" where
  "close_readers unmap [] = None"
| "close_readers unmap (r # rs) =
     (let first = fst (reftable_Close (unmap r) r); others = close_readers unmap rs
      in if first \<noteq> None then first else others)"

definition Stack_Close :: "(reftable_Reader \<Rightarrow> go_error option) \<Rightarrow> Stack \<Rightarrow> go_error option \<times> Stack" where
  "Stack_Close unmap s =
     (if sk_readers s = [] then (None, s)
      else (close_readers unmap (sk_readers s), s\<lparr>sk_readers := [], sk_merged := [], sk_sorted := []\<rparr>))"

section \<open>Manifests\<close>

lemma Split_ne [simp]: "Split s c \<noteq> []"
  by (cases s) simp_all

lemma Split_parts: "p \<in> set (Split s c) \<Longrightarrow> c \<notin> set p"
proof (induction s arbitrary: p)
  case (Cons x s)
  obtain q qs where q: "Split s c = q # qs" by (cases "Split s c") simp_all
  then have "c \<notin> set q" using Cons.IH [of q] by simp
  with Cons q show ?case by (auto split: if_splits)
qed simp

lemma Split_none: "c \<notin> set p \<Longrightarrow> Split p c = [p]"
  by (induction p) auto

lemma Split_append: "c \<notin> set p \<Longrightarrow> Split (p @ c # s) c = p # Split s c"
  by (induction p) auto

lemma Split_join: "ps \<noteq> [] \<Longrightarrow> list_all (\<lambda>p. c \<notin> set p) ps \<Longrightarrow> Split (join_with [c] ps) c = ps"
  by (induction "[c]" ps rule: join_with.induct) (simp_all add: Split_none Split_append)

lemma join_Split: "join_with [c] (Split s c) = s"
proof (induction s)
  case (Cons x s)
  obtain q qs where q: "Split s c = q # qs" by (cases "Split s c") simp_all
  then have "join_with [c] (Split (x # s) c) = x # join_with [c] (q # qs)" by (cases qs) simp_all
  also have "join_with [c] (q # qs) = s" using Cons.IH unfolding q .
  finally show ?case .
qed simp

lemma tables_loop_eq: "tables_loop ps =
    (if [] \<in> set ps then Inl (Wrapf ''reftable: empty line in tables.list: '' ErrInvalidTablesList []) else Inr ps)"
  by (induction ps) auto

definition lines_of :: "string list \<Rightarrow> string" where
  "lines_of ns = concat (map (\<lambda>n. n @ [CHR 0x0A]) ns)"

definition wf_names :: "string list \<Rightarrow> bool" where
  "wf_names ns \<longleftrightarrow> [] \<notin> set ns \<and> list_all (\<lambda>n. CHR 0x0A \<notin> set n) ns"

lemma lines_of_join: "ns \<noteq> [] \<Longrightarrow> lines_of ns = join_with [CHR 0x0A] ns @ [CHR 0x0A]"
  unfolding lines_of_def by (induction "[CHR 0x0A :: char]" ns rule: join_with.induct) simp_all

lemma last_join: "ns \<noteq> [] \<Longrightarrow> last ns \<noteq> [] \<Longrightarrow> join_with [c] ns \<noteq> [] \<and> last (join_with [c] ns) = last (last ns)"
  by (induction "[c]" ns rule: join_with.induct) auto

lemma parse_lines: "wf_names ns \<Longrightarrow> ns \<noteq> [] \<Longrightarrow> raw = join_with [CHR 0x0A] ns @ [CHR 0x0A] \<or> raw = join_with [CHR 0x0A] ns \<Longrightarrow>
    parseTablesList raw = Inr ns"
proof -
  assume a: "wf_names ns" "ns \<noteq> []" "raw = join_with [CHR 0x0A] ns @ [CHR 0x0A] \<or> raw = join_with [CHR 0x0A] ns"
  have "last ns \<in> set ns" using a(2) by simp
  then have l: "last ns \<noteq> []" "CHR 0x0A \<notin> set (last ns)"
    using a(1) unfolding wf_names_def list_all_iff by metis+
  then have "last (last ns) \<noteq> CHR 0x0A" using last_in_set by metis
  with last_join [OF a(2) l(1), of "CHR 0x0A"] a(3)
  have "raw \<noteq> []" "(if last raw = CHR 0x0A then butlast raw else raw) = join_with [CHR 0x0A] ns" by auto
  then show "parseTablesList raw = Inr ns"
    using a(1,2) by (simp add: parseTablesList_def Split_join tables_loop_eq wf_names_def)
qed

lemma parse_lines_sound:
  assumes "parseTablesList raw = Inr ns"
  shows "wf_names ns" "raw = join_with [CHR 0x0A] ns \<or> raw = lines_of ns"
proof -
  have "wf_names ns \<and> (raw = join_with [CHR 0x0A] ns \<or> raw = lines_of ns)"
  proof (cases "raw = []")
    case True
    with assms show ?thesis by (simp add: parseTablesList_def wf_names_def)
  next
    case False
    let ?t = "if last raw = CHR 0x0A then butlast raw else raw"
    have "Split ?t (CHR 0x0A) = ns" "[] \<notin> set ns"
      using assms False by (auto simp: parseTablesList_def tables_loop_eq Let_def split: if_splits)
    moreover from this(1) have "ns \<noteq> []" "join_with [CHR 0x0A] ns = ?t" using join_Split by auto
    moreover have "raw = ?t \<or> raw = ?t @ [CHR 0x0A]" using append_butlast_last_id [OF False] by metis
    ultimately show ?thesis using Split_parts by (auto simp: wf_names_def list_all_iff lines_of_join)
  qed
  then show "wf_names ns" "raw = join_with [CHR 0x0A] ns \<or> raw = lines_of ns" by simp_all
qed

section \<open>The merged view\<close>

definition newest :: "ref_entry list \<Rightarrow> string \<Rightarrow> refRecord option" where
  "newest es name =
     (let named = filter (\<lambda>e. rr_Name (entry_record e) = name) es
      in if named = [] then None else Some (entry_record (last named)))"

definition view :: "ref_entry list \<Rightarrow> string \<Rightarrow> RefRecord option" where
  "view es name = (case newest es name of
      None \<Rightarrow> None
    | Some r \<Rightarrow> if rr_ValueType r = refValueDeletion then None else Some (liftRefRecord r))"

lemma newest_snoc: "newest (es @ [e]) name = (if rr_Name (entry_record e) = name then Some (entry_record e) else newest es name)"
  by (simp add: newest_def Let_def)

lemma view_snoc: "view (es @ [e]) name = (if rr_Name (entry_record e) = name
    then (if rr_ValueType (entry_record e) = refValueDeletion then None else Some (liftRefRecord (entry_record e)))
    else view es name)"
  by (simp add: view_def newest_snoc)

lemma feed_merge:
  assumes "map_of merged = view es0" "distinct (map fst merged)"
  shows "\<exists>merged'. feed merge_body (entry_items es) (None, merged) = (None, merged') \<and>
    map_of merged' = view (es0 @ es) \<and> distinct (map fst merged')"
  using assms
proof (induction es arbitrary: merged es0)
  case (Cons e es)
  let ?r = "entry_record e"
  let ?m = "if rr_ValueType ?r = refValueDeletion then AList.delete (rr_Name ?r) merged
    else AList.update (rr_Name ?r) (liftRefRecord ?r) merged"
  have "map_of ?m = view (es0 @ [e])"
    using Cons.prems(1) by (auto simp: view_snoc fun_eq_iff delete_conv' update_conv')
  moreover have "distinct (map fst ?m)"
    using Cons.prems(2) by (auto intro: distinct_delete distinct_update)
  ultimately obtain merged' where "feed merge_body (entry_items es) (None, ?m) = (None, merged')"
    "map_of merged' = view ((es0 @ [e]) @ es)" "distinct (map fst merged')"
    using Cons.IH by blast
  moreover have "feed merge_body (entry_items (e # es)) (None, merged) = feed merge_body (entry_items es) (None, ?m)"
    by (simp add: entry_items_def) (simp add: merge_body_def [of "(_, None)"])
  ultimately show ?case by (intro exI [of _ merged']) simp
qed simp

text \<open>A table of the stack, as it was written.\<close>

record table =
  tb_header :: header
  tb_blocks :: "ref_block list"
  tb_sections :: string
  tb_positions :: string

definition table_bytes :: "table \<Rightarrow> string" where
  "table_bytes t = encode_table (tb_header t) (tb_blocks t) (tb_sections t) (tb_positions t)"

definition table_ok :: "Algo \<Rightarrow> table \<Rightarrow> bool" where
  "table_ok a t \<longleftrightarrow> wf_table a (tb_header t) (tb_blocks t) (tb_sections t) (tb_positions t)"

definition table_reader :: "table \<Rightarrow> reftable_Reader" where
  "table_reader t = \<lparr>rt_file = table_bytes t, rt_header = tb_header t, rt_closed = False\<rparr>"

definition table_entries :: "table list \<Rightarrow> ref_entry list" where
  "table_entries ts = concat (map (\<lambda>t. block_entries (tb_blocks t)) ts)"

lemma open_readers_tables:
  assumes "list_all2 (\<lambda>n t. fs (join dir n) = Inr (table_bytes t) \<and> table_ok a t) names ts"
  shows "open_readers a fs join dir names = Inr (map table_reader ts)"
  using assms
proof (induction names ts rule: list_all2_induct)
  case (Cons n names t ts)
  then have "OpenReader a fs (join dir n) = Inr (table_reader t)"
    using table_read(1) [of a "tb_header t" "tb_blocks t" "tb_sections t" "tb_positions t" fs "join dir n"]
    by (simp add: table_ok_def table_bytes_def table_reader_def)
  with Cons show ?case by simp
qed simp

lemma merge_tables_view:
  assumes "list_all (table_ok a) ts" "map_of merged = view es0" "distinct (map fst merged)"
  shows "\<exists>merged'. merge_tables a (map table_reader ts) merged = Inr merged' \<and>
    map_of merged' = view (es0 @ table_entries ts) \<and> distinct (map fst merged')"
  using assms
proof (induction ts arbitrary: merged es0)
  case Nil
  then show ?case by (simp add: table_entries_def)
next
  case (Cons t ts)
  obtain merged1 where m: "feed merge_body (entry_items (block_entries (tb_blocks t))) (None, merged) = (None, merged1)"
    "map_of merged1 = view (es0 @ block_entries (tb_blocks t))" "distinct (map fst merged1)"
    using feed_merge [OF Cons.prems(2,3)] by blast
  have "iterAllRefs a (table_reader t) merge_body (None, merged) = (None, merged1)"
    using iterAllRefs_table [of a "tb_header t" "tb_blocks t" "tb_sections t" "tb_positions t" False merge_body "(None, merged)"]
      Cons.prems(1) m(1)
    by (simp add: table_ok_def table_reader_def table_bytes_def)
  with Cons.IH [OF _ m(2,3)] Cons.prems(1) show ?case by (simp add: table_entries_def)
qed

lemma Stack_iter_feed: "Stack_iter merged names yield s = feed yield (map (\<lambda>n. (the (map_of merged n), None)) names) s"
  by (induction names arbitrary: s) (auto split: prod.split)

lemma OpenStack_view:
  assumes "fs (join dir ''tables.list'') = Inr (lines_of names)" "wf_names names"
    and "list_all2 (\<lambda>n t. fs (join dir n) = Inr (table_bytes t) \<and> table_ok a t) names ts"
  obtains s where "OpenStack a fs join dir = Inr s" "map_of (sk_merged s) = view (table_entries ts)"
    "distinct (map fst (sk_merged s))" "sk_sorted s = sort (map fst (sk_merged s))"
proof (cases "names = []")
  case True
  with assms that [of "\<lparr>sk_readers = [], sk_merged = [], sk_sorted = [], sk_algo = None\<rparr>"] show thesis
    by (simp add: OpenStack_def Let_def parseTablesList_def lines_of_def table_entries_def view_def newest_def fun_eq_iff)
next
  case False
  have parsed: "parseTablesList (lines_of names) = Inr names"
    using parse_lines [OF assms(2) False] lines_of_join [OF False] by blast
  have "list_all (table_ok a) ts" using assms(3) by (auto simp: list_all2_conv_all_nth list_all_length)
  then obtain merged where m: "merge_tables a (map table_reader ts) [] = Inr merged"
    "map_of merged = view (table_entries ts)" "distinct (map fst merged)"
    using merge_tables_view [of a ts "[]" "[]"] by (auto simp: view_def newest_def fun_eq_iff)
  note opened = open_readers_tables [where fs = fs and join = join and dir = dir and names = names and ts = ts, OF assms(3)]
  show thesis
    by (rule that [of "\<lparr>sk_readers = map table_reader ts, sk_merged = merged, sk_sorted = sort (map fst merged),
        sk_algo = Some (reftable_HashAlgo (hd (map table_reader ts)))\<rparr>"])
      (use False m in \<open>simp_all add: OpenStack_def Let_def assms(1) parsed opened\<close>)
qed

section \<open>Properties\<close>

text \<open>A manifest is accepted exactly when it is a sequence of non-empty lines, the last of which may lack its
  newline, and it is read as those lines.\<close>

theorem parseTablesList_exact:
  "(parseTablesList raw = Inr names) = (wf_names names \<and> (raw = join_with [CHR 0x0A] names \<or> raw = lines_of names))"
proof
  assume a: "wf_names names \<and> (raw = join_with [CHR 0x0A] names \<or> raw = lines_of names)"
  show "parseTablesList raw = Inr names"
  proof (cases "names = []")
    case True
    with a show ?thesis by (auto simp: parseTablesList_def lines_of_def)
  next
    case False
    with a parse_lines [of names raw] lines_of_join [OF False] show ?thesis by auto
  qed
qed (use parse_lines_sound in blast)

text \<open>C4: The stack is the newest record of each name: over tables as they are written, in the order of the
  manifest, \<open>FindRef\<close> finds a name exactly when the last record of the name over all tables is not a deletion,
  and returns that record; \<open>IterRefs\<close> feeds its consumer exactly these refs, once each, in name order, until it stops.\<close>

theorem stack_newest_wins:
  assumes "fs (join dir ''tables.list'') = Inr (lines_of names)" "wf_names names"
    and "list_all2 (\<lambda>n t. fs (join dir n) = Inr (table_bytes t) \<and> table_ok a t) names ts"
  shows "\<exists>s found. OpenStack a fs join dir = Inr s \<and> Stack_FindRef s = view (table_entries ts) \<and>
    Stack_IterRefs s yield acc = feed yield (map (\<lambda>n. (the (view (table_entries ts) n), None)) found) acc \<and>
    sorted found \<and> distinct found \<and> set found = dom (view (table_entries ts)) \<and> Stack_Len s = length found"
proof -
  obtain s where s: "OpenStack a fs join dir = Inr s" "map_of (sk_merged s) = view (table_entries ts)"
    "distinct (map fst (sk_merged s))" "sk_sorted s = sort (map fst (sk_merged s))"
    using assms by (rule OpenStack_view)
  have "dom (view (table_entries ts)) = set (sk_sorted s)"
    unfolding s(2) [symmetric] s(4) by (simp add: dom_map_of_conv_image_fst)
  with s show ?thesis
    by (intro exI [of _ s] exI [of _ "sk_sorted s"])
      (simp add: Stack_FindRef_def Stack_IterRefs_def Stack_iter_feed Stack_Len_def fun_eq_iff)
qed

text \<open>Two small tables: the second deletes what the first has and adds another ref.\<close>

definition sample_record :: "string \<Rightarrow> nat \<Rightarrow> refRecord" where
  "sample_record name t = \<lparr>rr_Name = name, rr_Target = [], rr_Value = zero_hash SHA1, rr_Peeled = zero_hash SHA1,
     rr_ValueType = t\<rparr>"

definition sample_table :: "ref_entry list \<Rightarrow> table" where
  "sample_table es = \<lparr>tb_header = \<lparr>h_version = 1, h_blockSize = 0, h_minUpdateIndex = 0, h_maxUpdateIndex = 0, h_algo = SHA1\<rparr>,
     tb_blocks = [(es, [28])], tb_sections = [], tb_positions = replicate 40 (CHR 0x00)\<rparr>"

definition old_entries :: "ref_entry list" where
  "old_entries = [(0, 0, sample_record ''a'' 1)]"

definition new_entries :: "ref_entry list" where
  "new_entries = [(0, 0, sample_record ''a'' 0), (0, 0, sample_record ''b'' 1)]"

lemma sample_table_ok: "table_ok SHA1 (sample_table old_entries)" "table_ok SHA1 (sample_table new_entries)"
proof -
  have "length (encodeVarint n) = 1" if "n < 128" for n
    using that by (simp add: encodeVarint_def encode_high.simps [of 0])
  then have l: "length (encode_records old_entries) \<le> 100" "length (encode_records new_entries) \<le> 100"
    by (simp_all add: old_entries_def new_entries_def encodeRefRecord_def encodeKey_def sample_record_def encode_value_def
        refValue_defs zero_hash_def)
  have w: "wf_records SHA1 0 [] old_entries" "wf_records SHA1 0 [] new_entries"
    by (simp_all add: old_entries_def new_entries_def sample_record_def wf_record_def key_fits_def refValue_defs wf_hash_def zero_hash_def)
  have "table_ok SHA1 (sample_table es)" if "length (encode_records es) \<le> 100" "wf_records SHA1 0 [] es" for es
    using that
    by (simp add: table_ok_def sample_table_def wf_table_def wf_header_def wf_layout_def length_encodeHeader h_size_def
        format_defs(1-5) encode_table_def Let_def aligned_def length_encode_block length_encodeFooter h_footerSize_def)
  with l w show "table_ok SHA1 (sample_table old_entries)" "table_ok SHA1 (sample_table new_entries)" by simp_all
qed

theorem stack_newest_wins_witness:
  "let fs = (\<lambda>p. if p = ''d/tables.list'' then Inr (lines_of [''1'', ''2'']) else if p = ''d/1'' then Inr (table_bytes (sample_table old_entries))
         else if p = ''d/2'' then Inr (table_bytes (sample_table new_entries)) else Inl os_ErrNotExist);
       join = (\<lambda>d n. d @ CHR ''/'' # n)
   in \<exists>s. OpenStack SHA1 fs join ''d'' = Inr s \<and> Stack_FindRef s ''a'' = None \<and>
     Stack_FindRef s ''b'' = Some (liftRefRecord (sample_record ''b'' 1))"
proof -
  let ?fs = "\<lambda>p. if p = ''d/tables.list'' then Inr (lines_of [''1'', ''2'']) else if p = ''d/1'' then Inr (table_bytes (sample_table old_entries))
         else if p = ''d/2'' then Inr (table_bytes (sample_table new_entries)) else Inl os_ErrNotExist"
  let ?join = "\<lambda>d n. d @ CHR ''/'' # n" and ?ts = "[sample_table old_entries, sample_table new_entries]"
  have "table_entries ?ts = old_entries @ new_entries"
    by (simp add: table_entries_def sample_table_def block_entries_def)
  then have v: "view (table_entries ?ts) ''a'' = None" "view (table_entries ?ts) ''b'' = Some (liftRefRecord (sample_record ''b'' 1))"
    by (simp_all add: view_def newest_def old_entries_def new_entries_def entry_record_def sample_record_def refValue_defs)
  have fs: "?fs (?join ''d'' ''tables.list'') = Inr (lines_of [''1'', ''2''])" by simp
  have names: "wf_names [''1'', ''2'']" by (simp add: wf_names_def)
  have "list_all2 (\<lambda>n t. ?fs (?join ''d'' n) = Inr (table_bytes t) \<and> table_ok SHA1 t) [''1'', ''2''] ?ts"
    using sample_table_ok by simp
  note run = stack_newest_wins [where fs = ?fs and join = ?join and dir = "''d''" and names = "[''1'', ''2'']" and a = SHA1 and
      ts = ?ts and yield = "\<lambda>_ (s :: nat). (True, s)" and acc = 0, OF fs names this]
  then obtain s where "OpenStack SHA1 ?fs ?join ''d'' = Inr s" "Stack_FindRef s = view (table_entries ?ts)" by (elim exE conjE)
  then show ?thesis unfolding Let_def using v by (intro exI [of _ s]) simp
qed


end
