(* ===== verification/Reftable_Seek.thy ===== *)
theory Reftable_Seek
  imports Reftable_Stack
begin

text \<open>
  Looking up one ref in a reftable file (\<open>src/internal/reftable/seek.go\<close>, \<open>Reader.FindRef\<close> of
  \<open>reader.go\<close>): the descent of the ref index, the walk without one, and the scan of the leaf block.

  A result \<open>None\<close> is a run-time panic: \<open>parseBlock\<close> checks that restart offsets do not lie before the block,
  not that they lie before the end of its records, and the binary search slices the block at them
  (\<open>descendIndex_panics\<close>). The probe counter and the reused key buffer have no counterpart.
\<close>

section \<open>The code\<close>

text \<open>The linear scan of an index block; \<open>prior\<close> is the position in the record before.\<close>

function index_scan :: "block \<Rightarrow> string \<Rightarrow> u32 \<Rightarrow> string \<Rightarrow> u64 option \<Rightarrow> go_error + u64" where
  "index_scan b probe cur prevKey prior =
     (if cur < recordsEnd b then
        (case decodeKey (records_from b cur) prevKey of
           Inl err \<Rightarrow> Inl (Wrapf (''reftable: decode index key at offset '' @ itoa_word cur @ '': '') err [])
         | Inr (key, _, n) \<Rightarrow> (case decodeVarint (records_from b (cur + word_of_nat n)) of
             Inl err \<Rightarrow> Inl (Wrapf (''reftable: decode index block_position at offset '' @ itoa_word cur @ '': '') err [])
           | Inr (blockPos, m) \<Rightarrow>
               if 0 \<le> bytes_Compare key probe then Inr blockPos
               else index_scan b probe (cur + (word_of_nat n + word_of_nat m)) key (Some blockPos)))
      else (case prior of
          Some p \<Rightarrow> Inr p
        | None \<Rightarrow> Inl (Wrapf ''reftable: index block has no records: '' ErrTruncatedBlock [])))"
  by pat_completeness auto
termination
proof (relation "measure (\<lambda>(b, probe, cur, prevKey, prior). unat (recordsEnd b) - unat cur)")
  fix b :: block and probe cur prevKey and prior :: "u64 option" and x key y extra n z blockPos m
  assume a: "cur < recordsEnd b" "decodeKey (records_from b cur) prevKey = Inr x" "(key, y) = x" "(extra, n) = y"
    "decodeVarint (records_from b (cur + word_of_nat n)) = Inr z" "(blockPos, m) = z"
  have n: "0 < n" "n \<le> length (records_from b cur)"
    using decodeKey_cases [of "records_from b cur" prevKey key extra n] a(2-4) by simp_all
  note adv = advance [OF a(1) n]
  have m: "0 < m" "m \<le> length (records_from b (cur + word_of_nat n))"
    using decodeVarint_consumes [of "records_from b (cur + word_of_nat n)" blockPos m] a(5,6) by simp_all
  then have "0 < length (records_from b (cur + word_of_nat n))" by linarith
  then have "cur + word_of_nat n < recordsEnd b" by (simp add: records_from_def word_less_nat_alt)
  note adv2 = advance [OF this m]
  then have "unat (cur + (word_of_nat n + word_of_nat m)) = unat cur + n + m" "unat cur + n + m \<le> unat (recordsEnd b)"
    unfolding add.assoc [symmetric] using adv(1) by simp_all
  then show "((b, probe, cur + (word_of_nat n + word_of_nat m), key, Some blockPos), b, probe, cur, prevKey, prior)
    \<in> measure (\<lambda>(b, probe, cur, prevKey, prior). unat (recordsEnd b) - unat cur)"
    using n(1) a(1) by (simp add: word_less_nat_alt)
qed simp

declare index_scan.simps [simp del]

definition restart_key_cmp :: "block \<Rightarrow> string \<Rightarrow> nat \<Rightarrow> int option" where
  "restart_key_cmp b probe i = (case slice (b_bytes b) (unat (restart b i)) (unat (recordsEnd b)) of
      None \<Rightarrow> None
    | Some s \<Rightarrow> (case decodeKey s [] of
        Inl err \<Rightarrow> Some 1
      | Inr (key, _, _) \<Rightarrow> Some (bytes_Compare key probe)))"

definition descendIndex :: "block \<Rightarrow> string \<Rightarrow> (go_error + u64) option" where
  "descendIndex b probe = (case seekRestart b (restart_key_cmp b probe) of
      None \<Rightarrow> None
    | Some idx \<Rightarrow>
        let scanFrom = (if 0 \<le> idx then restart b (nat idx) else 4)
        in Some (index_scan b probe scanFrom [] None))"

definition maxDepth :: nat where "maxDepth = 64"

fun seekIndexed_loop :: "nat \<Rightarrow> string \<Rightarrow> header \<Rightarrow> u64 \<Rightarrow> string \<Rightarrow> (go_error + string \<times> u32) option" where
  "seekIndexed_loop 0 f h pos probe =
     Some (Inl (Wrapf (''reftable: ref index exceeds '' @ itoa_nat maxDepth @ '' levels: '') ErrTruncatedBlock []))"
| "seekIndexed_loop (Suc k) f h pos probe =
     (if length f \<le> unat pos then
        Some (Inl (Wrapf (''reftable: block_position '' @ itoa_word pos @ '' outside file ('' @ itoa_nat (length f) @ '' bytes): '')
          ErrTruncatedBlock []))
      else
        let firstByteOffset = (if pos = 0 then word_of_nat (h_size h) else 0 :: u32);
            slice = (if pos = 0 then f else drop (unat pos) f)
        in case parseBlock slice firstByteOffset of
          Inl err \<Rightarrow> Some (Inl (Wrapf (''reftable: parse block at '' @ itoa_word pos @ '': '') err []))
        | Inr b \<Rightarrow>
            if b_type b = blockTypeRef then Some (Inr (b_bytes b, firstByteOffset))
            else if b_type b = blockTypeIndex then
              (case descendIndex b probe of
                 None \<Rightarrow> None
               | Some (Inl err) \<Rightarrow> Some (Inl (Wrapf (''reftable: index at '' @ itoa_word pos @ '': '') err []))
               | Some (Inr nxt) \<Rightarrow>
                   if nxt = pos then
                     Some (Inl (Wrapf (''reftable: index at '' @ itoa_word pos @ '' points to itself: '') ErrTruncatedBlock []))
                   else seekIndexed_loop k f h nxt probe)
            else Some (Inl (Wrapf (''reftable: unexpected block type '' @ quote_byte (b_type b) @ '' under ref index: '')
              ErrBadBlockType [])))"

definition seekIndexed :: "string \<Rightarrow> header \<Rightarrow> u64 \<Rightarrow> string \<Rightarrow> (go_error + string \<times> u32) option" where
  "seekIndexed f h indexRoot probe = seekIndexed_loop maxDepth f h indexRoot probe"

text \<open>\<open>prior\<close>: the block before, with its offset; none in the first iteration.\<close>

definition seek_result :: "(string \<times> u32) option \<Rightarrow> go_error + string \<times> u32" where
  "seek_result prior = (case prior of None \<Rightarrow> Inl (New ''reftable: file has no ref blocks'') | Some x \<Rightarrow> Inr x)"

function seekLinear_loop :: "string \<Rightarrow> header \<Rightarrow> string \<Rightarrow> u32 \<Rightarrow> (string \<times> u32) option \<Rightarrow> go_error + string \<times> u32" where
  "seekLinear_loop f h probe pos prior =
     (if pos < (word_of_nat (length f) :: u32) then
        let first = (prior = None);
            firstByteOffset = (if first then word_of_nat (h_size h) else 0 :: u32);
            slice = (if first then f else drop (unat pos) f)
        in if (word_of_nat (length slice) :: u32) \<le> firstByteOffset then seek_result prior
          else if slice ! unat firstByteOffset \<noteq> blockTypeRef then seek_result prior
          else (case parseBlock slice firstByteOffset of
              Inl err \<Rightarrow> Inl (Wrapf (''reftable: parse ref block at '' @ itoa_word pos @ '': '') err [])
            | Inr b \<Rightarrow> (case decodeKey (drop (unat (firstByteOffset + 4)) (b_bytes b)) [] of
                Inl err \<Rightarrow> Inl (Wrapf (''reftable: decode first key in block at '' @ itoa_word pos @ '': '') err [])
              | Inr (firstKey, _, _) \<Rightarrow>
                  if \<not> first \<and> 0 < bytes_Compare firstKey probe then seek_result prior
                  else
                    let nextPos = pos + b_len b;
                        nextPos = (if 0 < h_blockSize h then roundUp nextPos (h_blockSize h) else nextPos)
                    in if nextPos \<le> pos then
                        Inl (Wrapf (''reftable: block at '' @ itoa_word pos @ '' does not advance: '') ErrTruncatedBlock [])
                      else seekLinear_loop f h probe nextPos (Some (b_bytes b, firstByteOffset))))
      else seek_result prior)"
  by pat_completeness auto
termination
  by (relation "measure (\<lambda>(f, h, probe, pos, prior). 4294967296 - unat pos)")
    (auto simp: not_le intro!: advances split: if_splits)

declare seekLinear_loop.simps [simp del]

definition seekLinear :: "string \<Rightarrow> header \<Rightarrow> string \<Rightarrow> go_error + string \<times> u32" where
  "seekLinear f h probe = seekLinear_loop f h probe 0 None"

definition seekToLeaf :: "string \<Rightarrow> header \<Rightarrow> u64 \<Rightarrow> string \<Rightarrow> (go_error + string \<times> u32) option" where
  "seekToLeaf f h indexRoot probe =
     (if indexRoot = 0 then Some (seekLinear f h probe) else seekIndexed f h indexRoot probe)"

text \<open>The scan of the leaf block.\<close>

function find_loop :: "Algo \<Rightarrow> u64 \<Rightarrow> block \<Rightarrow> string \<Rightarrow> u32 \<Rightarrow> string \<Rightarrow> go_error + RefRecord option" where
  "find_loop a minUpdateIndex b probe cur prev =
     (if cur < recordsEnd b then
        (case decodeRefRecord a (records_from b cur) prev minUpdateIndex of
           Inl err \<Rightarrow> Inl (Wrapf (''reftable: decode ref_record at '' @ itoa_word cur @ '': '') err [])
         | Inr (rec, n) \<Rightarrow>
             let cmp = bytes_Compare (rr_Name rec) probe in
             if cmp = 0 then
               (if rr_ValueType rec = refValueDeletion then Inr None else Inr (Some (liftRefRecord rec)))
             else if 0 < cmp then Inr None
             else find_loop a minUpdateIndex b probe (cur + word_of_nat n) (rr_Name rec))
      else Inr None)"
  by pat_completeness auto
termination
proof (relation "measure (\<lambda>(a, mui, b, probe, cur, prev). unat (recordsEnd b) - unat cur)")
  fix a mui and b :: block and probe cur prev x rec n y
  assume a: "cur < recordsEnd b" "decodeRefRecord a (records_from b cur) prev mui = Inr x" "(rec, n) = x"
  have n: "0 < n" "n \<le> length (records_from b cur)"
    using decodeRefRecord_cases [of a "records_from b cur" prev mui rec n] a(2,3) by simp_all
  note advance [OF a(1) n]
  with n(1) a(1) show "((a, mui, b, probe, cur + word_of_nat n, rr_Name rec), a, mui, b, probe, cur, prev)
    \<in> measure (\<lambda>(a, mui, b, probe, cur, prev). unat (recordsEnd b) - unat cur)"
    by (simp add: word_less_nat_alt)
qed simp

declare find_loop.simps [simp del]

definition reftable_FindRef :: "Algo \<Rightarrow> reftable_Reader \<Rightarrow> string \<Rightarrow> (go_error + RefRecord option) option" where
  "reftable_FindRef a r name =
     (let indexRoot = readRefIndexPosition (rt_file r) (rt_header r) in
      case seekToLeaf (rt_file r) (rt_header r) indexRoot name of
        None \<Rightarrow> None
      | Some (Inl err) \<Rightarrow> Some (Inl err)
      | Some (Inr (leaf, firstByteOffset)) \<Rightarrow> (case parseBlock leaf firstByteOffset of
          Inl err \<Rightarrow> Some (Inl err)
        | Inr b \<Rightarrow>
            if b_type b \<noteq> blockTypeRef then
              Some (Inl (Wrapf (''reftable: expected ref block, got '' @ quote_byte (b_type b) @ '': '') ErrBadBlockType []))
            else Some (find_loop a (h_minUpdateIndex (rt_header r)) b name (firstByteOffset + 4) [])))"

section \<open>Lookup without an index\<close>

text \<open>Entries in strictly ascending order of their names, as the format requires.\<close>

definition entry_name :: "ref_entry \<Rightarrow> string" where
  "entry_name e = rr_Name (entry_record e)"

definition ascending :: "ref_entry list \<Rightarrow> bool" where
  "ascending es \<longleftrightarrow> sorted_wrt (<) (map entry_name es)"

lemma entry_name_simp [simp]: "entry_name (p, d, r) = rr_Name r"
  by (simp add: entry_name_def entry_record_def)

lemma newest_append: "newest (es @ es') name =
    (case newest es' name of Some r \<Rightarrow> Some r | None \<Rightarrow> newest es name)"
  by (simp add: newest_def Let_def)

lemma newest_None: "newest es name = None \<longleftrightarrow> name \<notin> entry_name ` set es"
  by (auto simp: newest_def Let_def filter_empty_conv entry_name_def)

lemma view_append1: "name \<notin> entry_name ` set es' \<Longrightarrow> view (es @ es') name = view es name"
  using newest_None [of es' name] by (simp add: view_def newest_append)

lemma view_append2: "name \<notin> entry_name ` set es \<Longrightarrow> view (es @ es') name = view es' name"
  using newest_None [of es name] by (simp add: view_def newest_append split: option.split)

lemma view_Nil [simp]: "view [] name = None"
  by (simp add: view_def newest_def)

lemma view_absent: "name \<notin> entry_name ` set es \<Longrightarrow> view es name = None"
  using view_append1 [of name es "[]"] by simp

lemma ascending_append: "ascending (es @ es') \<longleftrightarrow> ascending es \<and> ascending es' \<and>
    (\<forall>e \<in> set es. \<forall>e' \<in> set es'. entry_name e < entry_name e')"
  by (simp add: ascending_def sorted_wrt_append)

lemma ascending_Cons: "ascending (e # es) \<longleftrightarrow> ascending es \<and> (\<forall>e' \<in> set es. entry_name e < entry_name e')"
  by (auto simp: ascending_def)

text \<open>The scan of a block in the format is the lookup in its entries.\<close>

lemma find_loop_encode:
  assumes "wf_records a mui prev rs" "records_from b cur = encode_records rs" "cur \<le> recordsEnd b"
    and "unat (recordsEnd b) = unat cur + length (encode_records rs)" "ascending rs"
  shows "find_loop a mui b probe cur prev = Inr (view rs probe)"
  using assms
proof (induction rs arbitrary: prev cur)
  case Nil
  then have "\<not> cur < recordsEnd b" by (simp add: word_less_nat_alt)
  then show ?case by (subst find_loop.simps) simp
next
  case (Cons e rs)
  obtain p d r where e: "e = (p, d, r)" by (cases e)
  let ?n = "length (encodeRefRecord p d r)"
  have dec: "decodeRefRecord a (records_from b cur) prev mui = Inr (r, ?n)"
    unfolding Cons.prems(2) e encode_records.simps
    by (rule decodeRefRecord_encode) (use Cons.prems(1) e in simp_all)
  note n = decodeRefRecord_cases [OF dec]
  have lt: "cur < recordsEnd b" using n(1) Cons.prems(4) e by (simp add: word_less_nat_alt)
  note adv = advance [OF lt n(1,2)]
  let ?cur = "cur + word_of_nat ?n"
  have "records_from b ?cur = drop ?n (records_from b cur)"
    unfolding records_from_def adv(1) by (simp add: drop_take add.commute)
  then have next_from: "records_from b ?cur = encode_records rs" unfolding Cons.prems(2) e by simp
  have asc: "ascending rs" "\<forall>e' \<in> set rs. rr_Name r < entry_name e'"
    using Cons.prems(5) by (simp_all add: ascending_Cons e)
  have IH: "find_loop a mui b probe ?cur (rr_Name r) = Inr (view rs probe)"
    by (rule Cons.IH) (use Cons.prems e adv next_from asc in \<open>simp_all add: word_le_nat_alt\<close>)
  have step: "find_loop a mui b probe cur prev =
      (if rr_Name r = probe then Inr (if rr_ValueType r = refValueDeletion then None else Some (liftRefRecord r))
       else if probe < rr_Name r then Inr None else find_loop a mui b probe ?cur (rr_Name r))"
    using lt by (subst find_loop.simps) (simp add: dec Let_def)
  consider "rr_Name r = probe" | "probe < rr_Name r" | "rr_Name r < probe" by (rule linorder_cases) blast+
  then show ?case
  proof cases
    case 1
    then have "probe \<notin> entry_name ` set rs" using asc(2) by force
    then have "view (e # rs) probe = view [e] probe" using view_append1 [of probe rs "[e]"] by simp
    with step 1 show ?thesis by (simp add: view_def newest_def e entry_record_def)
  next
    case 2
    then have "probe \<notin> entry_name ` set (e # rs)" using asc(2) by (auto simp: e dest: order.strict_trans)
    then have "view (e # rs) probe = None" by (rule view_absent)
    with step 2 show ?thesis by auto
  next
    case 3
    then have "view (e # rs) probe = view rs probe" using view_append2 [of probe "[e]" rs] by (auto simp: e)
    with step 3 IH show ?thesis by auto
  qed
qed

text \<open>A block that has all the entries of a name that the table has.\<close>

definition leaf_for :: "Algo \<Rightarrow> u64 \<Rightarrow> string \<Rightarrow> ref_entry list \<Rightarrow> string \<times> u32 \<Rightarrow> bool" where
  "leaf_for a mui probe es leaf \<longleftrightarrow> (\<exists>pre rs restarts.
     leaf = (encode_block pre blockTypeRef (encode_records rs) restarts, word_of_nat (length pre)) \<and>
     wf_layout pre (encode_records rs) restarts \<and> wf_records a mui [] rs \<and> ascending rs \<and> view es probe = view rs probe)"

lemma leaf_for_find:
  assumes "leaf_for a mui probe es (leaf, fbo)"
  obtains b where "parseBlock leaf fbo = Inr b" "b_type b = blockTypeRef"
    "find_loop a mui b probe (fbo + 4) [] = Inr (view es probe)"
proof -
  obtain pre rs restarts where l: "leaf = encode_block pre blockTypeRef (encode_records rs) restarts" "fbo = word_of_nat (length pre)"
    "wf_layout pre (encode_records rs) restarts" "wf_records a mui [] rs" "ascending rs" "view es probe = view rs probe"
    using assms by (auto simp: leaf_for_def)
  let ?rest = "concat (map (be_bytes 3) restarts) @ be_bytes 2 (length restarts)"
  have lens: "length leaf < 2 ^ 32" "length pre \<le> 28"
    using l(3) unfolding l(1) by (simp_all add: wf_layout_def length_encode_block)
  obtain b where b: "parseBlock leaf fbo = Inr b" "b_bytes b = leaf" "b_type b = blockTypeRef"
    "unat (recordsEnd b) = length pre + 4 + length (encode_records rs)"
    using parseBlock_encode [OF l(3), of blockTypeRef "[]"] lens(1) unfolding l(1,2) by auto
  have "unat fbo = length pre" unfolding l(2) using lens(2) by (intro unat_u32) simp
  then have cur: "unat (fbo + 4) = length pre + 4" using unat_add_lem [of fbo 4] lens(2) by simp
  have "leaf = (pre @ [blockTypeRef] @ be_bytes 3 (length leaf)) @ encode_records rs @ ?rest"
    unfolding l(1) length_encode_block by (simp only: encode_block_def append_assoc)
  then have "drop (length pre + 4 + 0) leaf = drop 0 (encode_records rs @ ?rest)"
    by (rule drop_prefix) simp
  then have "records_from b (fbo + 4) = encode_records rs"
    unfolding records_from_def b(2,4) cur by simp
  from find_loop_encode [OF l(4) this _ _ l(5), of probe] cur b(4)
  have "find_loop a mui b probe (fbo + 4) [] = Inr (view es probe)" by (simp add: word_le_nat_alt l(6))
  with b show thesis by (intro that)
qed


text \<open>Blocks that can be read on their own: not empty, the first record with its whole name.\<close>

definition self_contained :: "ref_block list \<Rightarrow> bool" where
  "self_contained bl \<longleftrightarrow> list_all (\<lambda>(rs, _). rs \<noteq> [] \<and> fst (hd rs) = 0) bl"

lemma wf_records_start: "wf_records a mui prev rs \<Longrightarrow> rs \<noteq> [] \<Longrightarrow> fst (hd rs) = 0 \<Longrightarrow> wf_records a mui [] rs"
  by (cases rs rule: list.exhaust) (auto simp: key_fits_def)

lemma first_key:
  assumes "wf_records a mui prev rs" "rs \<noteq> []" "fst (hd rs) = 0"
  obtains x n where "decodeKey (encode_records rs @ rest) [] = Inr (entry_name (hd rs), x, n)"
proof -
  obtain p d r rs' where rs: "rs = (p, d, r) # rs'" using assms(2) by (cases rs) auto
  have "key_fits [] p (rr_ValueType r) (rr_Name r)"
    using assms(1,3) by (auto simp: rs key_fits_def)
  from decodeKey_encode [OF this] that show thesis by (auto simp: rs encodeRefRecord_def)
qed

lemma leaf_for_extend:
  assumes "wf_layout pre (encode_records rs) restarts" "wf_records a mui prev rs" "rs \<noteq> []" "fst (hd rs) = 0"
    and "ascending (es @ rs)" "es = [] \<or> entry_name (hd rs) \<le> probe"
  shows "leaf_for a mui probe (es @ rs)
    (encode_block pre blockTypeRef (encode_records rs) restarts, word_of_nat (length pre))"
proof -
  have "probe \<notin> entry_name ` set es"
  proof (cases "es = []")
    case False
    then have "entry_name e < probe" if "e \<in> set es" for e
      using assms(3,5,6) that by (auto simp: ascending_append intro: order.strict_trans2 hd_in_set)
    then show ?thesis by force
  qed simp
  then have "view (es @ rs) probe = view rs probe" by (rule view_append2)
  moreover have "wf_records a mui [] rs" using assms(2-4) by (rule wf_records_start)
  moreover have "ascending rs" using assms(5) by (simp add: ascending_append)
  ultimately show ?thesis using assms(1) by (auto simp: leaf_for_def)
qed

lemma leaf_for_stop:
  assumes "leaf_for a mui probe es leaf" "ascending (es @ es')" "es' = [] \<or> probe < entry_name (hd es')"
  shows "leaf_for a mui probe (es @ es') leaf"
proof -
  have "probe \<notin> entry_name ` set es'"
  proof (cases es')
    case (Cons e es'')
    then have "probe < entry_name e'" if "e' \<in> set es'" for e'
      using assms(2,3) that by (auto simp: ascending_append ascending_Cons)
    then show ?thesis by force
  qed simp
  from view_append1 [OF this, of es] assms(1) show ?thesis by (simp add: leaf_for_def)
qed

lemma seekLinear_encode:
  assumes "(if prior = None then f else drop pos f) = encode_blocks (unat (h_blockSize h)) pos pre bl tail"
    and "pos < length f" "length f + 2 ^ 24 < 2 ^ 32" "unat (h_blockSize h) < 2 ^ 24" "ends_refs tail"
    and "if prior = None then pos = 0 \<and> length pre = h_size h else pre = []"
    and "wf_blocks a (h_minUpdateIndex h) pre prev bl" "self_contained bl"
    and "ascending (es @ block_entries bl)"
    and "case prior of None \<Rightarrow> es = [] \<and> bl \<noteq> [] | Some leaf \<Rightarrow> leaf_for a (h_minUpdateIndex h) probe es leaf"
  shows "\<exists>leaf. seekLinear_loop f h probe (word_of_nat pos) prior = Inr leaf \<and>
    leaf_for a (h_minUpdateIndex h) probe (es @ block_entries bl) leaf"
  using assms
proof (induction bl arbitrary: pos prior pre prev es)
  case (Nil pos prior pre prev es)
  then obtain leaf where leaf: "prior = Some leaf" "leaf_for a (h_minUpdateIndex h) probe es leaf"
    by (auto split: option.splits)
  have "(if prior = None then f else drop pos f) = pre @ tail" using Nil.prems(1) by simp
  note e = blocks_end [OF this Nil.prems(2,3,5,6)]
  have "seekLinear_loop f h probe (word_of_nat pos) prior = seek_result prior"
    using e by (subst seekLinear_loop.simps) (simp only: Let_def if_False if_True if_cancel not_False_eq_True)
  then show ?case using leaf by (simp add: seek_result_def block_entries_def)
next
  case (Cons rb bl pos prior pre prev es)
  obtain rs restarts where rb: "rb = (rs, restarts)" by (cases rb)
  let ?mui = "h_minUpdateIndex h"
  have lay: "wf_layout pre (encode_records rs) restarts" "wf_records a ?mui prev rs"
    "wf_blocks a ?mui [] (last_name prev rs) bl" using Cons.prems(7) by (simp_all add: rb)
  have self: "rs \<noteq> []" "fst (hd rs) = 0" "self_contained bl"
    using Cons.prems(8) by (simp_all add: self_contained_def rb)
  have es': "block_entries (rb # bl) = rs @ block_entries bl" by (simp add: rb block_entries_def)
  have asc: "ascending ((es @ rs) @ block_entries bl)" using Cons.prems(9) by (simp add: es')
  let ?fbo = "if prior = None then word_of_nat (h_size h) else 0 :: u32"
  let ?e = "encode_block pre blockTypeRef (encode_records rs) restarts"
  obtain b nxt where b: "unat (word_of_nat pos :: u32) = pos" "word_of_nat pos < (word_of_nat (length f) :: u32)"
    "\<not> word_of_nat (length (if prior = None then f else drop pos f)) \<le> ?fbo"
    "(if prior = None then f else drop pos f) ! unat ?fbo = blockTypeRef"
    "parseBlock (if prior = None then f else drop pos f) ?fbo = Inr b"
    "b_bytes b = ?e" "records_from b (?fbo + 4) = encode_records rs" "unat (?fbo + 4) = length pre + 4"
    "unat (recordsEnd b) = length pre + 4 + length (encode_records rs)" "?fbo = word_of_nat (length pre)"
    "(if 0 < h_blockSize h then roundUp (word_of_nat pos + b_len b) (h_blockSize h) else word_of_nat pos + b_len b) =
      word_of_nat nxt"
    "\<not> word_of_nat nxt \<le> (word_of_nat pos :: u32)"
    "drop nxt f = encode_blocks (unat (h_blockSize h)) nxt [] bl tail" "nxt < length f"
    by (rule block_step [OF Cons.prems(1) [unfolded rb] Cons.prems(2-6) lay(1)])
  have drop_e: "drop (unat (?fbo + 4)) (b_bytes b) =
      encode_records rs @ concat (map (be_bytes 3) restarts) @ be_bytes 2 (length restarts)"
    unfolding b(6,8) by (simp add: encode_block_def)
  obtain x n where key: "decodeKey (drop (unat (?fbo + 4)) (b_bytes b)) [] = Inr (entry_name (hd rs), x, n)"
    unfolding drop_e by (rule first_key [OF lay(2) self(1,2)])
  have step: "seekLinear_loop f h probe (word_of_nat pos) prior =
      (if prior \<noteq> None \<and> probe < entry_name (hd rs) then seek_result prior
       else seekLinear_loop f h probe (word_of_nat nxt) (Some (?e, ?fbo)))"
    using b(2-5,11,12) key
    by (subst seekLinear_loop.simps)
      (simp only: b(1,6) Let_def if_True if_False sum.case prod.case not_not simp_thms bytes_Compare_iff)
  show ?case
  proof (cases "prior \<noteq> None \<and> probe < entry_name (hd rs)")
    case True
    then obtain leaf where leaf: "prior = Some leaf" "leaf_for a ?mui probe es leaf"
      using Cons.prems(10) by auto
    have "leaf_for a ?mui probe (es @ block_entries (rb # bl)) leaf"
      by (rule leaf_for_stop [OF leaf(2) Cons.prems(9)]) (use True self(1) in \<open>simp add: es'\<close>)
    with step True leaf(1) show ?thesis by (simp add: seek_result_def)
  next
    case False
    have "es = [] \<or> entry_name (hd rs) \<le> probe" using False Cons.prems(10) by (cases prior) (auto simp: not_less)
    moreover have "ascending (es @ rs)" using asc by (simp add: ascending_append)
    ultimately have "leaf_for a ?mui probe (es @ rs) (?e, ?fbo)"
      unfolding b(10) using leaf_for_extend [OF lay(1,2) self(1,2)] by simp
    then have "\<exists>leaf. seekLinear_loop f h probe (word_of_nat nxt) (Some (?e, ?fbo)) = Inr leaf \<and>
        leaf_for a ?mui probe ((es @ rs) @ block_entries bl) leaf"
      by (intro Cons.IH [of "Some (?e, ?fbo)" nxt "[]" "last_name prev rs" "es @ rs"])
        (use b(13,14) Cons.prems(3,4,5) lay(3) self(3) asc in simp_all)
    then show ?thesis unfolding step if_not_P [OF False] es' by (simp only: append_assoc)
  qed
qed


lemma table_nonempty: "0 < length (encode_table h bl sections positions)"
proof -
  obtain body where "\<And>tail. encode_blocks (unat (h_blockSize h)) 0 (encodeHeader h) bl tail = encodeHeader h @ body @ tail"
    by (rule encode_blocks_split) blast
  then show ?thesis by (simp add: encode_table_def length_encodeHeader h_size_def format_defs)
qed

lemma seekLinear_table:
  assumes "wf_table a h bl sections positions" "bl \<noteq> []" "self_contained bl" "ascending (block_entries bl)"
  obtains leaf where "seekLinear (encode_table h bl sections positions) h probe = Inr leaf"
    "leaf_for a (h_minUpdateIndex h) probe (block_entries bl) leaf"
proof -
  let ?f = "encode_table h bl sections positions"
  have t: "wf_blocks a (h_minUpdateIndex h) (encodeHeader h) [] bl" "length ?f + 2 ^ 24 < 2 ^ 32"
    "ends_refs (sections @ encodeFooter h positions)" "unat (h_blockSize h) < 2 ^ 24"
    using assms(1) ends_refs_footer by (simp_all add: wf_table_def wf_header_def)
  have "\<exists>leaf. seekLinear_loop ?f h probe (word_of_nat 0) None = Inr leaf \<and>
      leaf_for a (h_minUpdateIndex h) probe ([] @ block_entries bl) leaf"
    by (rule seekLinear_encode [where pre = "encodeHeader h" and es = "[]"])
      (use t table_nonempty [of h bl sections positions] assms(2-4) in \<open>simp_all add: encode_table_def length_encodeHeader\<close>)
  with that show thesis by (auto simp: seekLinear_def)
qed

text \<open>A table that holds no refs (only log records, say) makes the lookup fail, where the iterator yields nothing.\<close>

lemma FindRef_no_refs:
  assumes "wf_table a h [] sections positions" "be (take 8 positions) = (0 :: u64)"
  shows "reftable_FindRef a \<lparr>rt_file = encode_table h [] sections positions, rt_header = h, rt_closed = False\<rparr> name =
    Some (Inl (New ''reftable: file has no ref blocks''))"
proof -
  let ?f = "encode_table h [] sections positions"
  have t: "length ?f + 2 ^ 24 < 2 ^ 32" "ends_refs (sections @ encodeFooter h positions)"
    using assms(1) ends_refs_footer by (simp_all add: wf_table_def)
  have eq: "(if True then ?f else drop 0 ?f) = encodeHeader h @ sections @ encodeFooter h positions" by (simp add: encode_table_def)
  have "if True then 0 = (0::nat) \<and> length (encodeHeader h) = h_size h else encodeHeader h = []" by (simp add: length_encodeHeader)
  note e = blocks_end [OF eq table_nonempty t this]
  from e(2,3) have "seekLinear_loop ?f h name 0 None = seek_result None"
    by (subst seekLinear_loop.simps) (simp add: Let_def)
  moreover have "readRefIndexPosition ?f h = 0"
    using table_read(2) [OF assms(1), of "\<lambda>_. Inr ?f"] assms(2) by simp
  ultimately show ?thesis by (simp add: reftable_FindRef_def seekToLeaf_def seekLinear_def seek_result_def)
qed

text \<open>A restart offset beyond the records of an index block is accepted by \<open>parseBlock\<close> and makes the descent
  slice out of bounds.\<close>

lemma descendIndex_panics:
  "\<exists>f b. parseBlock f 0 = Inr b \<and> b_type b = blockTypeIndex \<and> descendIndex b ''x'' = None"
proof -
  let ?f = "encode_block [] blockTypeIndex [] [100]"
  have lay: "wf_layout [] [] [100]" by (simp add: wf_layout_def)
  have "length (?f @ []) < 2 ^ 32" by (simp add: length_encode_block)
  from parseBlock_encode [OF lay _ this]
  obtain b where b: "parseBlock ?f 0 = Inr b" "b_type b = blockTypeIndex" "unat (b_restarts b) = 1"
    "unat (recordsEnd b) = 4" "unat (restart b 0) = 100" by auto
  have "restart_key_cmp b ''x'' 0 = None"
    unfolding restart_key_cmp_def b(4,5) by (simp add: slice_def)
  then have "descendIndex b ''x'' = None"
    by (simp add: descendIndex_def seekRestart_def Search_def search_loop.simps b(3))
  with b(1,2) show ?thesis by blast
qed

section \<open>Properties\<close>




end
