(* ===== verification/Go_Filesystem.thy ===== *)
theory Go_Filesystem
  imports Objfmt_Hash
begin

text \<open>
  The file system and Go's \<open>path/filepath\<close> on a Unix system, as the object store uses them.

  The library only reads, so a file system is the record \<open>OS\<close> of the answers it gives: to \<open>os.Open\<close> (the bytes a
  read yields and the error it ends in), \<open>os.ReadFile\<close>, \<open>os.Stat\<close>, \<open>os.ReadDir\<close> (names in order, and whether each
  is a directory) and, for \<open>filepath.WalkDir\<close>, the tree below a path. Nothing is assumed of how the answers hang
  together; a theorem that needs it says so.

  \<open>Clean\<close>, \<open>Join\<close>, \<open>Dir\<close>, \<open>Base\<close> and \<open>IsAbs\<close> are computed on the elements between the slashes.
\<close>

section \<open>Files\<close>

record FileInfo =
  fi_IsDir :: bool
  fi_IsRegular :: bool
  fi_ModTime :: int

text \<open>A directory with the error its listing ends in, if any.\<close>

datatype dir_tree = Regular_File | Other_File | Directory "(string \<times> dir_tree) list" "go_error option"

record OS =
  os_Open :: "string \<Rightarrow> go_error + Source"
  os_ReadFile :: "string \<Rightarrow> go_error + string"
  os_Stat :: "string \<Rightarrow> go_error + FileInfo"
  os_ReadDir :: "string \<Rightarrow> go_error + (string \<times> bool) list"
  os_Tree :: "string \<Rightarrow> go_error + dir_tree"

section \<open>Paths\<close>

fun path_elements :: "string \<Rightarrow> string \<Rightarrow> string list" where
  "path_elements cur [] = [cur]"
| "path_elements cur (c # s) = (if c = CHR ''/'' then cur # path_elements [] s else path_elements (cur @ [c]) s)"

text \<open>The elements kept so far, the last one first.\<close>

definition clean_element :: "bool \<Rightarrow> string \<Rightarrow> string list \<Rightarrow> string list" where
  "clean_element rooted e out =
     (if e = [] \<or> e = ''.'' then out
      else if e = ''..'' then
        (case out of
           [] \<Rightarrow> if rooted then [] else [''..'']
         | x # xs \<Rightarrow> if x = ''..'' then ''..'' # out else xs)
      else e # out)"

fun join_elements :: "string list \<Rightarrow> string" where
  "join_elements [] = []"
| "join_elements [e] = e"
| "join_elements (e # es) = e @ CHR ''/'' # join_elements es"

definition IsAbs :: "string \<Rightarrow> bool" where
  "IsAbs p = HasPrefix p ''/''"

definition Clean :: "string \<Rightarrow> string" where
  "Clean p =
     (let es = rev (fold (clean_element (IsAbs p)) (path_elements [] p) []) in
      if IsAbs p then CHR ''/'' # join_elements es else if es = [] then ''.'' else join_elements es)"

text \<open>\<open>filepath.Join\<close>: leading empty elements are ignored.\<close>

definition Join_path :: "string list \<Rightarrow> string" where
  "Join_path es = (case dropWhile (\<lambda>e. e = []) es of [] \<Rightarrow> [] | es' \<Rightarrow> Clean (join_elements es'))"

definition Dir :: "string \<Rightarrow> string" where
  "Dir p = Clean (rev (dropWhile (\<lambda>c. c \<noteq> CHR ''/'') (rev p)))"

definition Base :: "string \<Rightarrow> string" where
  "Base p =
     (if p = [] then ''.''
      else let b = last (path_elements [] (TrimRight p [CHR ''/''])) in if b = [] then ''/'' else b)"

lemma Clean_examples:
  "Clean ''a//b/./c/../d'' = ''a/b/d''" "Clean ''/../x/'' = ''/x''" "Clean ''../../y'' = ''../../y''" "Clean [] = ''.''"
  "Join_path [[], ''a'', ''../b''] = ''b''" "Dir ''/r/objects'' = ''/r''" "Base ''/r/p.idx'' = ''p.idx''" "Base ''//'' = ''/''"
  by code_simp+

section \<open>Lemmas\<close>

text \<open>An element that \<open>Clean\<close> keeps as it is.\<close>

definition plain_element :: "string \<Rightarrow> bool" where
  "plain_element e \<longleftrightarrow> e \<noteq> [] \<and> e \<noteq> ''.'' \<and> e \<noteq> ''..'' \<and> CHR ''/'' \<notin> set e"

lemma path_elements_plain: "CHR ''/'' \<notin> set e \<Longrightarrow> path_elements cur e = [cur @ e]"
  by (induction e arbitrary: cur) auto

lemma path_elements_cons: "CHR ''/'' \<notin> set e \<Longrightarrow> path_elements cur (e @ CHR ''/'' # s) = (cur @ e) # path_elements [] s"
  by (induction e arbitrary: cur) auto

lemma path_elements_join:
  "es \<noteq> [] \<Longrightarrow> list_all (\<lambda>e. CHR ''/'' \<notin> set e) es \<Longrightarrow> path_elements [] (join_elements es) = es"
  by (induction es rule: join_elements.induct) (auto simp: path_elements_plain path_elements_cons)

lemma clean_plain: "list_all plain_element es \<Longrightarrow> fold (clean_element rooted) es out = rev es @ out"
  by (induction es arbitrary: out) (auto simp: clean_element_def plain_element_def)

lemma join_elements_append: "es \<noteq> [] \<Longrightarrow> fs \<noteq> [] \<Longrightarrow> join_elements (es @ fs) = join_elements es @ CHR ''/'' # join_elements fs"
  by (induction es rule: join_elements.induct) (auto simp: neq_Nil_conv)

lemma path_elements_append: "path_elements cur (p @ CHR ''/'' # s) = path_elements cur p @ path_elements [] s"
  by (induction p arbitrary: cur) auto

section \<open>Clean paths\<close>

text \<open>
  The elements of a path after \<open>Clean\<close>, and the path made of them. \<open>clean_list\<close> are the lists of elements that
  \<open>Clean\<close> leaves alone, the last element first.
\<close>

definition clean_elements :: "string \<Rightarrow> string list" where
  "clean_elements p = rev (fold (clean_element (IsAbs p)) (path_elements [] p) [])"

definition path_of :: "bool \<Rightarrow> string list \<Rightarrow> string" where
  "path_of rooted es = (if rooted then CHR ''/'' # join_elements es else if es = [] then ''.'' else join_elements es)"

fun clean_list :: "bool \<Rightarrow> string list \<Rightarrow> bool" where
  "clean_list rooted [] \<longleftrightarrow> True"
| "clean_list rooted (x # xs) \<longleftrightarrow> clean_list rooted xs \<and> x \<noteq> [] \<and> x \<noteq> ''.'' \<and> CHR ''/'' \<notin> set x \<and>
     (x = ''..'' \<longrightarrow> \<not> rooted \<and> (xs = [] \<or> hd xs = ''..''))"

lemma Clean_path_of: "Clean p = path_of (IsAbs p) (clean_elements p)"
  by (simp add: Clean_def path_of_def clean_elements_def Let_def)

lemma path_elements_no_slash: "CHR ''/'' \<notin> set cur \<Longrightarrow> list_all (\<lambda>e. CHR ''/'' \<notin> set e) (path_elements cur p)"
  by (induction p arbitrary: cur) simp_all

lemma clean_list_step: "clean_list r out \<Longrightarrow> CHR ''/'' \<notin> set e \<Longrightarrow> clean_list r (clean_element r e out)"
  by (cases out) (auto simp: clean_element_def)

lemma clean_list_fold:
  "list_all (\<lambda>e. CHR ''/'' \<notin> set e) es \<Longrightarrow> clean_list r out \<Longrightarrow> clean_list r (fold (clean_element r) es out)"
  by (induction es arbitrary: out) (simp_all add: clean_list_step)

lemma clean_elements_clean: "clean_list (IsAbs p) (rev (clean_elements p))"
  unfolding clean_elements_def rev_rev_ident
  by (rule clean_list_fold) (simp_all add: path_elements_no_slash)

lemma clean_list_again: "clean_list r out \<Longrightarrow> fold (clean_element r) (rev out) [] = out"
  by (induction out) (auto simp: clean_element_def split: list.split)

lemma clean_list_slash: "clean_list r out \<Longrightarrow> e \<in> set out \<Longrightarrow> CHR ''/'' \<notin> set e \<and> e \<noteq> []"
  by (induction out) auto

lemma IsAbs_path_of:
  assumes "clean_list r (rev es)"
  shows "IsAbs (path_of r es) = r"
proof (cases es)
  case Nil
  then show ?thesis by (simp add: path_of_def IsAbs_def)
next
  case (Cons e es')
  obtain t where t: "join_elements es = e @ t" unfolding Cons by (cases es') simp_all
  have "CHR ''/'' \<notin> set e \<and> e \<noteq> []" using clean_list_slash [OF assms, of e] Cons by simp
  then have "\<not> IsAbs (join_elements es)" unfolding t by (cases e) (auto simp: IsAbs_def)
  then show ?thesis by (simp add: path_of_def Cons IsAbs_def)
qed

lemma clean_elements_path_of:
  assumes "clean_list r (rev es)"
  shows "clean_elements (path_of r es) = es"
proof -
  have "list_all (\<lambda>e. CHR ''/'' \<notin> set e) es" using clean_list_slash [OF assms] by (simp add: list_all_iff)
  then have p: "es \<noteq> [] \<Longrightarrow> path_elements [] (join_elements es) = es" by (intro path_elements_join)
  have skip: "clean_element r' [] [] = []" "clean_element r' ''.'' [] = []" for r' by (simp_all add: clean_element_def)
  have again: "fold (clean_element r) es [] = rev es" using clean_list_again [OF assms] by simp
  have "rev (fold (clean_element r) (path_elements [] (path_of r es)) []) = es"
  proof (cases "es = []")
    case True
    then show ?thesis by (simp add: path_of_def skip)
  next
    case False
    with p [OF False] again show ?thesis by (cases r) (simp_all add: path_of_def skip)
  qed
  then show ?thesis unfolding clean_elements_def IsAbs_path_of [OF assms] .
qed

text \<open>Joining plain elements to any path appends them to its clean elements.\<close>

lemma Join_path_plain:
  assumes "list_all plain_element ns" "ns \<noteq> []"
  shows "Join_path (d # ns) = path_of (IsAbs d) (clean_elements d @ ns)"
proof -
  have ns: "list_all (\<lambda>e. CHR ''/'' \<notin> set e) ns" using assms(1) by (simp add: list_all_iff plain_element_def)
  obtain n ms where n: "ns = n # ms" "n \<noteq> []" "CHR ''/'' \<notin> set n" using assms by (cases ns) (auto simp: plain_element_def)
  obtain c m where c: "n = c # m" using n(2) by (cases n) auto
  have "c \<noteq> CHR ''/''" using n(3) by (auto simp: c)
  then have abs: "\<not> IsAbs (join_elements ns)" unfolding n(1) c by (cases ms) (simp_all add: IsAbs_def)
  show ?thesis
  proof (cases "d = []")
    case True
    have "Join_path (d # ns) = Clean (join_elements ns)" by (simp add: True Join_path_def n)
    also have "\<dots> = path_of False ns"
      using abs assms(2) by (simp add: Clean_path_of clean_elements_def path_elements_join [OF assms(2) ns] clean_plain [OF assms(1)])
    finally show ?thesis by (simp add: True clean_elements_def clean_element_def IsAbs_def)
  next
    case False
    have d: "IsAbs (d @ CHR ''/'' # s) = IsAbs d" for s using False by (cases d) (simp_all add: IsAbs_def)
    have "Join_path (d # ns) = Clean (d @ CHR ''/'' # join_elements ns)" by (simp add: False Join_path_def n)
    then show ?thesis
      by (simp add: Clean_path_of d clean_elements_def path_elements_append path_elements_join [OF assms(2) ns] clean_plain [OF assms(1)])
  qed
qed

lemma clean_list_plain: "clean_list r (rev es) \<Longrightarrow> list_all plain_element ns \<Longrightarrow> clean_list r (rev (es @ ns))"
  by (induction ns rule: rev_induct) (auto simp: plain_element_def)

lemma Join_path_of:
  "clean_list r (rev es) \<Longrightarrow> plain_element n \<Longrightarrow> Join_path [path_of r es, n] = path_of r (es @ [n])"
  using Join_path_plain [of "[n]" "path_of r es"] by (simp add: IsAbs_path_of clean_elements_path_of)

section \<open>Relative paths\<close>

text \<open>\<open>filepath.Rel\<close>, on the elements: the common ones are dropped, what is left of the base becomes \<open>..\<close>.\<close>

fun strip_common :: "string list \<Rightarrow> string list \<Rightarrow> string list \<times> string list" where
  "strip_common (b # bs) (t # ts) = (if b = t then strip_common bs ts else (b # bs, t # ts))"
| "strip_common bs ts = (bs, ts)"

definition rel_elements :: "string \<Rightarrow> string list" where
  "rel_elements p = (if p = ''/'' then [[]] else path_elements [] p)"

definition Rel :: "string \<Rightarrow> string \<Rightarrow> go_error + string" where
  "Rel base targ =
     (let b = Clean base; t = Clean targ; cannot = New (''Rel: can't make '' @ targ @ '' relative to '' @ base) in
      if t = b then Inr ''.''
      else let b = (if b = ''.'' then [] else b) in
        if IsAbs b \<noteq> IsAbs t then Inl cannot
        else case strip_common (if b = [] then [] else rel_elements b) (rel_elements t) of
          (bs, ts) \<Rightarrow>
            if bs \<noteq> [] \<and> ts \<noteq> [] \<and> hd bs = ''..'' then Inl cannot
            else Inr (join_elements (replicate (length bs) ''..'' @ ts)))"

lemma Rel_examples:
  "Rel ''/r/.git'' ''/r/.git/refs/tags/v1'' = Inr ''refs/tags/v1''" "Rel [] ''refs/x'' = Inr ''refs/x''" "Rel ''/'' ''/refs'' = Inr ''refs''"
  "Rel ''a/b'' ''a/c/d'' = Inr ''../c/d''" "Rel ''a'' ''a'' = Inr ''.''" "Rel ''/a'' ''/'' = Inr ''..''"
  by code_simp+

lemma strip_common_append: "strip_common bs (bs @ ts) = ([], ts)"
  by (induction bs) (cases ts; simp)+

text \<open>Below its base, a path is relative to it the elements that follow.\<close>

lemma Rel_below:
  assumes "list_all plain_element ns" "ns \<noteq> []"
  shows "Rel d (path_of (IsAbs d) (clean_elements d @ ns)) = Inr (join_elements ns)"
proof -
  let ?r = "IsAbs d" and ?es = "clean_elements d"
  have c: "clean_list ?r (rev ?es)" "clean_list ?r (rev (?es @ ns))"
    using clean_elements_clean [of d] clean_list_plain assms(1) by simp_all
  have clean: "Clean (path_of ?r (?es @ ns)) = path_of ?r (?es @ ns)" "Clean d = path_of ?r ?es"
    unfolding Clean_path_of IsAbs_path_of [OF c(2)] clean_elements_path_of [OF c(2)] by (rule refl)+
  have slash: "list_all (\<lambda>e. CHR ''/'' \<notin> set e) (?es @ ns)" using clean_list_slash [OF c(2)] by (auto simp: list_all_iff)
  have words: "rel_elements (path_of ?r es) = (if ?r then [[]] else []) @ es" if es: "es \<noteq> []" "clean_list ?r (rev es)" for es
  proof -
    have "list_all (\<lambda>e. CHR ''/'' \<notin> set e) es" using clean_list_slash [OF es(2)] by (simp add: list_all_iff)
    then have p: "path_elements [] (join_elements es) = es" by (rule path_elements_join [OF es(1)])
    have "CHR ''/'' \<notin> set e \<and> e \<noteq> []" if "e \<in> set es" for e using clean_list_slash [OF es(2)] that by simp
    then have "join_elements es \<noteq> []" "join_elements es \<noteq> ''/''"
      using es(1) by (cases es rule: join_elements.cases; fastforce simp: append_eq_Cons_conv)+
    with p es(1) show ?thesis by (simp add: rel_elements_def path_of_def)
  qed
  have dot: "path_of ?r ?es = ''.'' \<longleftrightarrow> \<not> ?r \<and> ?es = []"
    using clean_elements_path_of [OF c(1)] c(1) by (auto simp: path_of_def clean_elements_def clean_element_def)
  have ne: "path_of ?r (?es @ ns) \<noteq> path_of ?r ?es"
    using clean_elements_path_of [OF c(1)] clean_elements_path_of [OF c(2)] assms(2) by (metis append_self_conv)
  have abs: "IsAbs (path_of ?r ?es) = ?r" "IsAbs (path_of ?r (?es @ ns)) = ?r" using IsAbs_path_of c by blast+
  have t: "rel_elements (path_of ?r (?es @ ns)) = (if ?r then [[]] else []) @ ?es @ ns" using words [OF _ c(2)] assms(2) by simp
  show ?thesis
  proof (cases "path_of ?r ?es = ''.''")
    case True
    then have "\<not> ?r" "?es = []" using dot by simp_all
    with t abs ne show ?thesis unfolding Rel_def Let_def clean True by (simp add: IsAbs_def)
  next
    case False
    have "path_of ?r ?es \<noteq> [] \<and> rel_elements (path_of ?r ?es) = (if ?r then [[]] else []) @ ?es"
    proof (cases "?es = []")
      case True
      with False show ?thesis by (simp add: path_of_def rel_elements_def split: if_splits)
    next
      case False
      then obtain e es where e: "?es = e # es" by (cases ?es) auto
      then have "e \<noteq> []" using clean_list_slash [OF c(1), of e] by simp
      then have "join_elements ?es \<noteq> []" unfolding e by (cases es) simp_all
      with False show ?thesis using words [OF False c(1)] by (simp add: path_of_def)
    qed
    then show ?thesis
      using t abs ne False strip_common_append [of ?es ns] unfolding Rel_def Let_def clean by simp
  qed
qed

lemma TrimRight_ends: "s = [] \<or> last s \<noteq> c \<Longrightarrow> TrimRight s [c] = s"
  by (induction s rule: rev_induct) (simp_all add: TrimRight_def)

lemma path_elements_ne [simp]: "path_elements cur n \<noteq> []"
  by (induction n arbitrary: cur) simp_all

lemma join_path_elements: "join_elements (path_elements cur n) = cur @ n"
proof (induction n arbitrary: cur)
  case (Cons c n)
  have "join_elements (x # path_elements [] n) = x @ CHR ''/'' # join_elements (path_elements [] n)" for x
    using path_elements_ne [of "[]" n] by (cases "path_elements [] n") simp_all
  with Cons show ?case by simp
qed simp

text \<open>The base of a path is its last element; a joined name is joined element by element.\<close>

lemma last_join_elements: "es \<noteq> [] \<Longrightarrow> last es \<noteq> [] \<Longrightarrow> join_elements es \<noteq> [] \<and> last (join_elements es) = last (last es)"
  by (induction es rule: join_elements.induct) auto

lemma Base_path_of:
  assumes "clean_list r (rev (es @ [e]))"
  shows "Base (path_of r (es @ [e])) = e"
proof -
  have e: "CHR ''/'' \<notin> set e" "e \<noteq> []" using clean_list_slash [OF assms, of e] by simp_all
  have l: "join_elements (es @ [e]) \<noteq> []" "last (join_elements (es @ [e])) = last e"
    using last_join_elements [of "es @ [e]"] e(2) by simp_all
  have "last e \<noteq> CHR ''/''" using e last_in_set [of e] by metis
  then have t: "TrimRight (path_of r (es @ [e])) [CHR ''/''] = path_of r (es @ [e])"
    using l by (intro TrimRight_ends) (simp add: path_of_def)
  have "list_all (\<lambda>e. CHR ''/'' \<notin> set e) (es @ [e])" using clean_list_slash [OF assms] by (auto simp: list_all_iff)
  then have "path_elements [] (join_elements (es @ [e])) = es @ [e]" by (intro path_elements_join) simp_all
  then have "last (path_elements [] (path_of r (es @ [e]))) = e" by (simp add: path_of_def)
  with t e(2) l(1) show ?thesis by (simp add: Base_def Let_def path_of_def)
qed

lemma Join_path_joined: "ns \<noteq> [] \<Longrightarrow> hd ns \<noteq> [] \<Longrightarrow> Join_path [d, join_elements ns] = Join_path (d # ns)"
  by (cases ns rule: join_elements.cases) (simp_all add: Join_path_def)

end
