(* ===== verification/Refname.thy ===== *)
theory Refname
  imports Go_Prelude
begin

text \<open>
  The format rules of ref names (\<open>src/internal/objstore/refname.go\<close>), as the two loops of the code, and
  their specification as the rules the code's comment lists.

  The index pair \<open>start\<close>, \<open>i\<close> of \<open>checkRefnameFormat\<close> is the component read so far and the rest of
  the name; the byte \<open>last\<close> of \<open>checkRefnameComponent\<close> is an argument of its loop, 0 at the start.
\<close>

section \<open>Definitions\<close>

definition hasDotLockSuffix :: "string \<Rightarrow> bool" where
  "hasDotLockSuffix c = (if length c < length ''.lock'' then False
     else drop (length c - length ''.lock'') c = ''.lock'')"

definition forbidden_byte :: "char \<Rightarrow> bool" where
  "forbidden_byte ch \<longleftrightarrow> byte_val ch < 0x20 \<or> byte_val ch = 0x7F \<or> ch = CHR '' '' \<or> ch = CHR 0x09 \<or>
     ch = CHR ''~'' \<or> ch = CHR ''^'' \<or> ch = CHR '':'' \<or> ch = CHR ''?'' \<or> ch = CHR ''['' \<or>
     ch = CHR 0x5C \<or> ch = CHR ''*'' \<or> ch = CHR ''/''"

fun checkRefnameComponent_loop :: "char \<Rightarrow> string \<Rightarrow> bool" where
  "checkRefnameComponent_loop prev [] = True"
| "checkRefnameComponent_loop prev (ch # c) =
     (if forbidden_byte ch then False
      else if ch = CHR ''.'' \<and> prev = CHR ''.'' then False
      else if ch = CHR ''{'' \<and> prev = CHR ''@'' then False
      else checkRefnameComponent_loop ch c)"

definition checkRefnameComponent :: "string \<Rightarrow> bool" where
  "checkRefnameComponent c =
     (if c = [] then False
      else if hd c = CHR ''.'' then False
      else if hasDotLockSuffix c then False
      else checkRefnameComponent_loop (CHR 0x00) c)"

fun checkRefnameFormat_loop :: "string \<Rightarrow> string \<Rightarrow> bool" where
  "checkRefnameFormat_loop part [] = checkRefnameComponent part"
| "checkRefnameFormat_loop part (ch # name) =
     (if ch \<noteq> CHR ''/'' then checkRefnameFormat_loop (part @ [ch]) name
      else if \<not> checkRefnameComponent part then False
      else checkRefnameFormat_loop [] name)"

definition checkRefnameFormat :: "string \<Rightarrow> bool" where
  "checkRefnameFormat name =
     (if name = [] \<or> name = ''@'' then False
      else if last name = CHR ''.'' then False
      else checkRefnameFormat_loop [] name)"

section \<open>The rules\<close>

text \<open>The components of a name: what its slashes separate.\<close>

fun components :: "string \<Rightarrow> string list" where
  "components [] = [[]]"
| "components (c # s) =
     (if c = CHR ''/'' then [] # components s
      else (c # hd (components s)) # tl (components s))"

definition component_ok :: "string \<Rightarrow> bool" where
  "component_ok c \<longleftrightarrow> c \<noteq> [] \<and> \<not> HasPrefix c ''.'' \<and> \<not> HasSuffix c ''.lock'' \<and>
     \<not> sublist ''..'' c \<and> \<not> sublist [CHR ''@'', CHR ''{''] c \<and> list_all (\<lambda>ch. \<not> forbidden_byte ch) c"

definition refname_ok :: "string \<Rightarrow> bool" where
  "refname_ok name \<longleftrightarrow> name \<noteq> [] \<and> name \<noteq> ''@'' \<and> \<not> HasSuffix name ''.'' \<and>
     list_all component_ok (components name)"

section \<open>Lemmas\<close>

lemma hasDotLockSuffix_conv: "hasDotLockSuffix c \<longleftrightarrow> HasSuffix c ''.lock''"
  by (auto simp: hasDotLockSuffix_def HasSuffix_def)

lemma sublist_pair_Cons: "sublist [a, b] (x # xs) \<longleftrightarrow> x = a \<and> xs \<noteq> [] \<and> hd xs = b \<or> sublist [a, b] xs"
  by (cases xs) (auto simp: sublist_Cons_right)

lemma component_loop_conv:
  "checkRefnameComponent_loop prev c \<longleftrightarrow>
     \<not> sublist ''..'' (prev # c) \<and> \<not> sublist [CHR ''@'', CHR ''{''] (prev # c) \<and> list_all (\<lambda>ch. \<not> forbidden_byte ch) c"
proof (induction c arbitrary: prev)
  case Nil
  show ?case by (simp add: sublist_pair_Cons)
next
  case (Cons ch c)
  show ?case
    unfolding checkRefnameComponent_loop.simps Cons.IH sublist_pair_Cons [of _ _ prev] by auto
qed

lemma checkRefnameComponent_conv: "checkRefnameComponent c \<longleftrightarrow> component_ok c"
proof (cases c)
  case Nil
  then show ?thesis by (simp add: checkRefnameComponent_def component_ok_def)
next
  case (Cons ch cs)
  have "sublist [a, b] (CHR 0x00 # c) \<longleftrightarrow> sublist [a, b] c" if "a \<noteq> CHR 0x00" for a b
    using that by (auto simp: sublist_pair_Cons [of a b "CHR 0x00" c])
  then show ?thesis
    using Cons by (auto simp: checkRefnameComponent_def component_ok_def component_loop_conv
        hasDotLockSuffix_conv HasPrefix_def)
qed

lemma components_not_Nil [simp]: "components s \<noteq> []"
  by (cases s) auto

lemma checkRefnameFormat_loop_conv:
  "checkRefnameFormat_loop part s \<longleftrightarrow>
     list_all component_ok ((part @ hd (components s)) # tl (components s))"
proof (induction s arbitrary: part)
  case Nil
  show ?case by (simp add: checkRefnameComponent_conv)
next
  case (Cons c s)
  have "list_all component_ok (components s) \<longleftrightarrow>
      component_ok (hd (components s)) \<and> list_all component_ok (tl (components s))"
    by (cases "components s") simp_all
  with Cons show ?case by (auto simp: checkRefnameComponent_conv)
qed

lemma checkRefnameFormat_conv: "checkRefnameFormat name \<longleftrightarrow> refname_ok name"
proof -
  have "list_all component_ok (([] @ hd (components name)) # tl (components name)) = list_all component_ok (components name)"
    by (cases "components name") simp_all
  then show ?thesis
    unfolding checkRefnameFormat_def refname_ok_def checkRefnameFormat_loop_conv
    by (auto simp: HasSuffix_single)
qed

lemma set_components: "set s \<subseteq> {CHR ''/''} \<union> (\<Union>c\<in>set (components s). set c)"
proof (induction s)
  case (Cons c s)
  then show ?case by (cases "components s") auto
qed simp

lemma refname_byte:
  assumes "checkRefnameFormat name" "ch \<in> set name"
  shows "ch = CHR ''/'' \<or> \<not> forbidden_byte ch"
proof (cases "ch = CHR ''/''")
  case False
  with assms(2) set_components obtain c where "c \<in> set (components name)" "ch \<in> set c" by fast
  with assms(1) show ?thesis
    by (auto simp: checkRefnameFormat_conv refname_ok_def component_ok_def list_all_iff)
qed simp

section \<open>Properties\<close>


end
