(* ===== verification/Packed_Refs.thy ===== *)
theory Packed_Refs
  imports Refname Objfmt_Hash
begin

text \<open>
  The parser of \<open>packed-refs\<close> (\<open>src/internal/objstore/packed_refs.go\<close>).

  The map keyed by ref name is a partial function; \<open>bufio.Scanner\<close> is the list of its lines with its
  limit on their length; the loop's local variables are the record \<open>packed_state\<close>, and \<open>packed_line\<close>
  is the body of the loop for one line.

  The properties: a file as Git writes it is read back to its entries; whatever was accepted, every name
  is valid and every id has the right width; a \<open>sorted\<close> trait that survived is true.
\<close>

section \<open>Values\<close>

record packedEntry =
  pe_oid :: Hash
  pe_peeled :: Hash
  pe_peelKnown :: bool
  pe_fromPacked :: bool

record packedTraits =
  pt_peeled :: bool
  pt_fullyPeeled :: bool
  pt_sorted :: bool

record packedRefs =
  pr_refs :: "string \<rightharpoonup> packedEntry"
  pr_traits :: packedTraits

definition ErrCorruptObject :: go_error where
  "ErrCorruptObject = Sentinel ''objstore: object corrupt or unresolvable''"

definition no_traits :: packedTraits where
  "no_traits = \<lparr>pt_peeled = False, pt_fullyPeeled = False, pt_sorted = False\<rparr>"

section \<open>Lines of a file\<close>

text \<open>\<open>bufio.ScanLines\<close>; the first argument is the line being collected.\<close>

fun scan_lines :: "string \<Rightarrow> string \<Rightarrow> string list" where
  "scan_lines cur [] = (if cur = [] then [] else [cur])"
| "scan_lines cur (c # cs) =
     (if c = CHR 0x0A then cur # scan_lines [] cs else scan_lines (cur @ [c]) cs)"

definition dropCR :: "string \<Rightarrow> string" where
  "dropCR l = (if l \<noteq> [] \<and> last l = CHR 0x0D then butlast l else l)"

text \<open>The size the scanner's buffer may grow to: a line and its line feed must fit.\<close>

definition max_scan_token :: nat where
  "max_scan_token = 1048576"

definition bufio_ErrTooLong :: go_error where
  "bufio_ErrTooLong = Sentinel ''bufio.Scanner: token too long''"

section \<open>The parser\<close>

fun add_traits :: "packedTraits \<Rightarrow> string list \<Rightarrow> packedTraits" where
  "add_traits traits [] = traits"
| "add_traits traits (tok # toks) = add_traits
     (if tok = ''peeled'' then traits\<lparr>pt_peeled := True\<rparr>
      else if tok = ''fully-peeled'' then traits\<lparr>pt_fullyPeeled := True\<rparr>
      else if tok = ''sorted'' then traits\<lparr>pt_sorted := True\<rparr>
      else traits) toks"

definition parsePackedRefTraits :: "string \<Rightarrow> packedTraits" where
  "parsePackedRefTraits line =
     (case CutPrefix (TrimSpace (TrimLeft line ''#'')) ''pack-refs with:'' of
        None \<Rightarrow> no_traits
      | Some rest \<Rightarrow> add_traits no_traits (Fields rest))"

record packed_state =
  ps_lineNo :: nat
  ps_seenAny :: bool
  ps_lastRef :: string
  ps_out :: packedRefs

definition packed_err :: "nat \<Rightarrow> string \<Rightarrow> go_error" where
  "packed_err lineNo msg =
     Wrapf (''objstore: packed-refs line '' @ itoa_nat lineNo @ '': '' @ msg @ '': '') ErrCorruptObject []"

definition zero_entry :: "Algo \<Rightarrow> packedEntry" where
  "zero_entry a = \<lparr>pe_oid = zero_hash a, pe_peeled = zero_hash a, pe_peelKnown = False, pe_fromPacked = False\<rparr>"

text \<open>A peel line; \<open>st\<close> is the state with the line already counted.\<close>

definition packed_peel_line :: "Algo \<Rightarrow> string \<Rightarrow> string \<Rightarrow> packed_state \<Rightarrow> go_error + packed_state" where
  "packed_peel_line a raw line st =
     (if ps_lastRef st = [] then
        Inl (packed_err (ps_lineNo st) (''peel without preceding ref '' @ quote raw))
      else
        let entry = (case pr_refs (ps_out st) (ps_lastRef st) of None \<Rightarrow> zero_entry a | Some entry \<Rightarrow> entry) in
        if pe_peelKnown entry then
          Inl (packed_err (ps_lineNo st) (''duplicate peel for '' @ quote (ps_lastRef st) @ '': '' @ quote raw))
        else let peelHex = tl line in
          if length peelHex \<noteq> 2 * Algo_Size a then
            Inl (packed_err (ps_lineNo st) (''peel hex length '' @ itoa_nat (length peelHex) @ '', want '' @
              itoa_nat (2 * Algo_Size a) @ '' '' @ quote raw))
          else case ParseHexAs a peelHex of
              Inl _ \<Rightarrow> Inl (packed_err (ps_lineNo st) (''parse peel '' @ quote raw))
            | Inr peeled \<Rightarrow> Inr (st\<lparr>ps_out := (ps_out st)\<lparr>pr_refs := (pr_refs (ps_out st))
                (ps_lastRef st \<mapsto> entry\<lparr>pe_peeled := peeled, pe_peelKnown := True\<rparr>)\<rparr>\<rparr>))"

definition packed_ref_line :: "Algo \<Rightarrow> string \<Rightarrow> string \<Rightarrow> packed_state \<Rightarrow> go_error + packed_state" where
  "packed_ref_line a raw line st = (case Cut line (CHR '' '') of (oidHex, name, ok) \<Rightarrow>
     if \<not> ok \<or> name = [] \<or> hd name = CHR '' '' \<or> hd name = CHR 0x09 \<or> hd name = CHR ''^'' then
       Inl (packed_err (ps_lineNo st) (''missing separator '' @ quote raw))
     else if \<not> checkRefnameFormat name then
       Inl (packed_err (ps_lineNo st) (''invalid refname '' @ quote name))
     else if length oidHex \<noteq> 2 * Algo_Size a then
       Inl (packed_err (ps_lineNo st) (''oid hex length '' @ itoa_nat (length oidHex) @ '', want '' @
         itoa_nat (2 * Algo_Size a) @ '' '' @ quote raw))
     else case ParseHexAs a oidHex of
         Inl _ \<Rightarrow> Inl (packed_err (ps_lineNo st) (''parse oid '' @ quote raw))
       | Inr oid \<Rightarrow>
           let out = ps_out st;
               traits = (if pt_sorted (pr_traits out) \<and> ps_lastRef st \<noteq> [] \<and> name < ps_lastRef st
                 then (pr_traits out)\<lparr>pt_sorted := False\<rparr> else pr_traits out)
           in Inr (st\<lparr>ps_lastRef := name, ps_out := \<lparr>pr_refs = (pr_refs out)(name \<mapsto>
                \<lparr>pe_oid = oid, pe_peeled = zero_hash a, pe_peelKnown = False, pe_fromPacked = True\<rparr>),
                pr_traits = traits\<rparr>\<rparr>))"

definition packed_line :: "Algo \<Rightarrow> string \<Rightarrow> packed_state \<Rightarrow> go_error + packed_state" where
  "packed_line a scanned st0 =
     (let st = st0\<lparr>ps_lineNo := ps_lineNo st0 + 1\<rparr>;
          raw = TrimRight scanned [CHR 0x0D, CHR 0x0A];
          line = TrimRight raw [CHR '' '', CHR 0x09]
      in if line = [] then Inr st
         else if hd line = CHR ''#'' then
           Inr (st\<lparr>ps_seenAny := True, ps_out := (if \<not> ps_seenAny st
             then (ps_out st)\<lparr>pr_traits := parsePackedRefTraits line\<rparr> else ps_out st)\<rparr>)
         else if hd line = CHR ''^'' then packed_peel_line a raw line (st\<lparr>ps_seenAny := True\<rparr>)
         else packed_ref_line a raw line (st\<lparr>ps_seenAny := True\<rparr>))"

fun packed_loop :: "Algo \<Rightarrow> string list \<Rightarrow> go_error \<Rightarrow> packed_state \<Rightarrow> go_error + packedRefs" where
  "packed_loop a [] e st =
     (if e = io_EOF then Inr (ps_out st) else Inl (Wrapf ''objstore: read packed-refs: '' e []))"
| "packed_loop a (l # ls) e st =
     (if max_scan_token \<le> length l then Inl (Wrapf ''objstore: read packed-refs: '' bufio_ErrTooLong [])
      else case packed_line a (dropCR l) st of
          Inl e' \<Rightarrow> Inl e'
        | Inr st' \<Rightarrow> packed_loop a ls e st')"

definition empty_packed_state :: packed_state where
  "empty_packed_state = \<lparr>ps_lineNo = 0, ps_seenAny = False, ps_lastRef = [],
     ps_out = \<lparr>pr_refs = Map.empty, pr_traits = no_traits\<rparr>\<rparr>"

definition parsePackedRefs :: "Algo \<Rightarrow> Source \<Rightarrow> go_error + packedRefs" where
  "parsePackedRefs a r = packed_loop a (scan_lines [] (src_rest r)) (src_end r) empty_packed_state"

section \<open>Lemmas on lines\<close>

lemma scan_lines_line:
  "CHR 0x0A \<notin> set l \<Longrightarrow> scan_lines cur (l @ CHR 0x0A # s) = (cur @ l) # scan_lines [] s"
  by (induction l arbitrary: cur) auto

lemma scan_lines_file:
  "list_all (\<lambda>l. CHR 0x0A \<notin> set l) ls \<Longrightarrow> scan_lines [] (concat (map (\<lambda>l. l @ [CHR 0x0A]) ls)) = ls"
  by (induction ls) (auto simp: scan_lines_line)

lemma TrimRight_id: "s = [] \<or> last s \<notin> set cs \<Longrightarrow> TrimRight s cs = s"
  by (cases s rule: rev_cases) (auto simp: TrimRight_def)

lemma TrimRight_not:
  assumes "last s \<in> set t" "a \<notin> set t" "b \<notin> set t"
  shows "TrimRight s [a, b] = s"
proof -
  have "last s \<noteq> a" "last s \<noteq> b" using assms by metis+
  then show ?thesis by (intro TrimRight_id) simp
qed

lemma TrimRight_append: "set t \<subseteq> set cs \<Longrightarrow> TrimRight (s @ t) cs = TrimRight s cs"
  by (induction t arbitrary: s rule: rev_induct) (auto simp: TrimRight_def)

lemma dropCR_id: "l = [] \<or> last l \<noteq> CHR 0x0D \<Longrightarrow> dropCR l = l"
  by (auto simp: dropCR_def)

section \<open>Files as Git writes them\<close>

definition entry_lines :: "string \<times> packedEntry \<Rightarrow> string list" where
  "entry_lines ne = (case ne of (name, e) \<Rightarrow>
     (Hex (pe_oid e) @ '' '' @ name) # (if pe_peelKnown e then [CHR ''^'' # Hex (pe_peeled e)] else []))"

definition traits_words :: "packedTraits \<Rightarrow> string list" where
  "traits_words t = (if pt_peeled t then [''peeled''] else []) @ (if pt_fullyPeeled t then [''fully-peeled''] else []) @
     (if pt_sorted t then [''sorted''] else [])"

definition traits_line :: "packedTraits \<Rightarrow> string" where
  "traits_line t = ''# pack-refs with:'' @ concat (map (\<lambda>w. '' '' @ w) (traits_words t))"

text \<open>Git ends the header with a space.\<close>

definition packed_file :: "packedTraits option \<Rightarrow> (string \<times> packedEntry) list \<Rightarrow> string" where
  "packed_file t entries = concat (map (\<lambda>l. l @ [CHR 0x0A])
     ((case t of None \<Rightarrow> [] | Some t \<Rightarrow> [traits_line t @ '' '']) @ concat (map entry_lines entries)))"

definition wf_packed_entry :: "Algo \<Rightarrow> string \<times> packedEntry \<Rightarrow> bool" where
  "wf_packed_entry a ne = (case ne of (name, e) \<Rightarrow>
     checkRefnameFormat name \<and> length name < 1000000 \<and> wf_hash a (pe_oid e) \<and> wf_hash a (pe_peeled e) \<and>
     (\<not> pe_peelKnown e \<longrightarrow> pe_peeled e = zero_hash a) \<and> pe_fromPacked e)"

lemma wf_hash_Hex: "wf_hash a h \<Longrightarrow> length (Hex h) = 2 * Algo_Size a \<and> Hex h \<noteq> []"
  by (cases a) (auto simp: wf_hash_def)

lemma Hex_not_char: "c \<notin> set hex_digits \<Longrightarrow> c \<notin> set (Hex h)"
  using Hex_chars by blast

lemma last_Hex: "h \<noteq> [] \<Longrightarrow> last (Hex h) \<in> set hex_digits"
  by (metis Hex_chars Hex_simps(2) last_in_set list.discI neq_Nil_conv)

lemma hex_digits_not [simp]:
  "CHR '' '' \<notin> set hex_digits" "CHR 0x09 \<notin> set hex_digits" "CHR 0x0D \<notin> set hex_digits" "CHR 0x0A \<notin> set hex_digits"
  "CHR ''#'' \<notin> set hex_digits" "CHR ''^'' \<notin> set hex_digits"
  by (simp_all add: hex_digits_def)

lemma refname_not:
  assumes "checkRefnameFormat name"
  shows "CHR '' '' \<notin> set name" "CHR 0x09 \<notin> set name" "CHR 0x0D \<notin> set name" "CHR 0x0A \<notin> set name"
    "CHR ''^'' \<notin> set name" "name \<noteq> []"
proof -
  have *: "ch \<notin> set name" if "forbidden_byte ch" "ch \<noteq> CHR ''/''" for ch
    using that refname_byte [OF assms] by blast
  show "CHR '' '' \<notin> set name" "CHR 0x09 \<notin> set name" "CHR 0x0D \<notin> set name" "CHR 0x0A \<notin> set name" "CHR ''^'' \<notin> set name"
    by (rule *; simp add: forbidden_byte_def)+
  show "name \<noteq> []" using assms by (simp add: checkRefnameFormat_def split: if_splits)
qed

definition registered :: "Algo \<Rightarrow> string \<Rightarrow> Hash \<Rightarrow> packed_state \<Rightarrow> packed_state" where
  "registered a name oid st = st\<lparr>ps_lineNo := ps_lineNo st + 1, ps_seenAny := True, ps_lastRef := name,
     ps_out := \<lparr>pr_refs = (pr_refs (ps_out st))(name \<mapsto>
         \<lparr>pe_oid = oid, pe_peeled = zero_hash a, pe_peelKnown = False, pe_fromPacked = True\<rparr>),
       pr_traits = (if pt_sorted (pr_traits (ps_out st)) \<and> name < ps_lastRef st
         then (pr_traits (ps_out st))\<lparr>pt_sorted := False\<rparr> else pr_traits (ps_out st))\<rparr>\<rparr>"

lemma packed_line_ref:
  assumes "checkRefnameFormat name" "wf_hash a oid"
  shows "packed_line a (Hex oid @ '' '' @ name) st = Inr (registered a name oid st)"
proof -
  let ?l = "Hex oid @ CHR '' '' # name"
  note n = refname_not [OF assms(1)]
  have last: "last ?l = last name" "last name \<in> set name" using n(6) by simp_all
  have trim: "TrimRight ?l [CHR 0x0D, CHR 0x0A] = ?l" "TrimRight ?l [CHR '' '', CHR 0x09] = ?l"
    by (rule TrimRight_not; use n last in simp)+
  have hd: "hd ?l \<noteq> CHR ''#''" "hd ?l \<noteq> CHR ''^''"
    using wf_hash_Hex [OF assms(2)] Hex_chars [of "hd (Hex oid)" oid] hex_digits_not by (auto simp: hd_append)
  have name: "hd name \<noteq> CHR '' ''" "hd name \<noteq> CHR 0x09" "hd name \<noteq> CHR ''^''"
    using n list.set_sel(1) [OF n(6)] by metis+
  have cut: "Cut ?l (CHR '' '') = (Hex oid, name, True)"
    by (rule Cut_found) (rule Hex_not_char, simp)
  have last_le: "ps_lastRef st \<noteq> [] \<and> name < ps_lastRef st \<longleftrightarrow> name < ps_lastRef st" by auto
  show ?thesis
    using wf_hash_Hex [OF assms(2)] assms n(6) name hd
    by (simp add: packed_line_def trim packed_ref_line_def cut registered_def Let_def)
qed

lemma packed_line_peel:
  assumes "wf_hash a peeled" "ps_lastRef st \<noteq> []" "pr_refs (ps_out st) (ps_lastRef st) = Some e" "\<not> pe_peelKnown e"
  shows "packed_line a (CHR ''^'' # Hex peeled) st = Inr (st\<lparr>ps_lineNo := ps_lineNo st + 1, ps_seenAny := True,
    ps_out := (ps_out st)\<lparr>pr_refs := (pr_refs (ps_out st))(ps_lastRef st \<mapsto> e\<lparr>pe_peeled := peeled, pe_peelKnown := True\<rparr>)\<rparr>\<rparr>)"
proof -
  let ?l = "CHR ''^'' # Hex peeled"
  have last: "last ?l \<in> set hex_digits"
    using wf_hash_Hex [OF assms(1)] last_Hex [of peeled] by auto
  have trim: "TrimRight ?l [CHR 0x0D, CHR 0x0A] = ?l" "TrimRight ?l [CHR '' '', CHR 0x09] = ?l"
    by (rule TrimRight_not [OF last]; rule hex_digits_not)+
  show ?thesis
    using wf_hash_Hex [OF assms(1)] assms
    by (simp add: packed_line_def trim packed_peel_line_def Let_def)
qed

section \<open>Round trip\<close>

definition after_entry :: "Algo \<Rightarrow> string \<times> packedEntry \<Rightarrow> packed_state \<Rightarrow> packed_state" where
  "after_entry a ne st = (case ne of (name, e) \<Rightarrow>
     let reg = registered a name (pe_oid e) st in
     if pe_peelKnown e then reg\<lparr>ps_lineNo := ps_lineNo st + 2,
       ps_out := (ps_out reg)\<lparr>pr_refs := (pr_refs (ps_out st))(name \<mapsto> e)\<rparr>\<rparr> else reg)"

lemma entry_lines_short:
  "wf_packed_entry a ne \<Longrightarrow> list_all (\<lambda>l. length l < max_scan_token \<and> CHR 0x0A \<notin> set l \<and> dropCR l = l) (entry_lines ne)"
proof -
  assume w: "wf_packed_entry a ne"
  obtain name e where ne: "ne = (name, e)" by fastforce
  have ok: "checkRefnameFormat name" "wf_hash a (pe_oid e)" "wf_hash a (pe_peeled e)" "length name < 1000000"
    using w by (simp_all add: wf_packed_entry_def ne)
  note n = refname_not [OF ok(1)]
  have "last name \<in> set name" using n(6) by simp
  then have "last name \<noteq> CHR 0x0D" using n(3) by metis
  then have ref: "dropCR (Hex (pe_oid e) @ CHR '' '' # name) = Hex (pe_oid e) @ CHR '' '' # name"
    using n(6) by (intro dropCR_id) simp
  have pe: "Hex (pe_peeled e) \<noteq> []" "length (Hex (pe_peeled e)) = 2 * Algo_Size a"
    using wf_hash_Hex [OF ok(3)] by auto
  then have "last (Hex (pe_peeled e)) \<in> set hex_digits" by (intro last_Hex) auto
  then have "last (Hex (pe_peeled e)) \<noteq> CHR 0x0D" using hex_digits_not(3) by metis
  then have peel: "dropCR (CHR ''^'' # Hex (pe_peeled e)) = CHR ''^'' # Hex (pe_peeled e)"
    using pe by (intro dropCR_id) simp
  have len: "Algo_Size a \<le> 32" by (cases a) simp_all
  show ?thesis
    using ref peel len ok(4) n(4) wf_hash_Hex [OF ok(2)] pe Hex_not_char [OF hex_digits_not(4)]
    by (simp add: ne entry_lines_def max_scan_token_def)
qed

lemma packed_loop_entry:
  assumes "wf_packed_entry a ne"
  shows "packed_loop a (entry_lines ne @ ls) e st = packed_loop a ls e (after_entry a ne st)"
proof -
  obtain name p where ne: "ne = (name, p)" by fastforce
  have ok: "checkRefnameFormat name" "wf_hash a (pe_oid p)" "wf_hash a (pe_peeled p)" "pe_fromPacked p"
    using assms by (simp_all add: wf_packed_entry_def ne)
  note short = entry_lines_short [OF assms, unfolded ne entry_lines_def]
  note ref = packed_line_ref [OF ok(1,2), of st]
  have reg: "ps_lastRef (registered a name (pe_oid p) st) = name"
    "pr_refs (ps_out (registered a name (pe_oid p) st)) name = Some \<lparr>pe_oid = pe_oid p, pe_peeled = zero_hash a,
       pe_peelKnown = False, pe_fromPacked = True\<rparr>" by (simp_all add: registered_def)
  have peel: "packed_line a (CHR ''^'' # Hex (pe_peeled p)) (registered a name (pe_oid p) st) = Inr (after_entry a ne st)"
    if "pe_peelKnown p"
    using that ok(4) packed_line_peel [OF ok(3), of "registered a name (pe_oid p) st"] refname_not(6) [OF ok(1)]
    by (simp add: reg after_entry_def ne Let_def) (cases p; cases st; simp add: registered_def)
  show ?thesis
  proof (cases "pe_peelKnown p")
    case True
    then show ?thesis using short ref peel by (simp add: ne entry_lines_def)
  next
    case False
    then show ?thesis using short ref by (simp add: ne entry_lines_def after_entry_def)
  qed
qed

lemma packed_loop_entries:
  "list_all (wf_packed_entry a) es \<Longrightarrow>
     packed_loop a (concat (map entry_lines es)) io_EOF st = Inr (ps_out (fold (after_entry a) es st))"
  by (induction es arbitrary: st) (simp_all add: packed_loop_entry)

lemma after_entry_simps:
  assumes "wf_packed_entry a ne"
  shows "pr_refs (ps_out (after_entry a ne st)) = (pr_refs (ps_out st))(fst ne \<mapsto> snd ne)"
    and "ps_lastRef (after_entry a ne st) = fst ne"
    and "pr_traits (ps_out (after_entry a ne st)) = (pr_traits (ps_out st))\<lparr>pt_sorted :=
      pt_sorted (pr_traits (ps_out st)) \<and> ps_lastRef st \<le> fst ne\<rparr>"
  using assms
  by (auto simp: after_entry_def wf_packed_entry_def registered_def Let_def split: prod.splits
      intro!: packedEntry.equality packedTraits.equality)

lemma fold_after_entry:
  "list_all (wf_packed_entry a) es \<Longrightarrow>
     ps_out (fold (after_entry a) es st) =
       \<lparr>pr_refs = pr_refs (ps_out st) ++ map_of (rev es), pr_traits = (pr_traits (ps_out st))\<lparr>pt_sorted :=
          pt_sorted (pr_traits (ps_out st)) \<and> sorted (ps_lastRef st # map fst es)\<rparr>\<rparr>"
proof (induction es arbitrary: st)
  case Nil
  show ?case by simp
next
  case (Cons ne es)
  then have w: "wf_packed_entry a ne" by simp
  obtain name e where ne: "ne = (name, e)" by fastforce
  have "sorted (ps_lastRef st # name # map fst es) \<longleftrightarrow> ps_lastRef st \<le> name \<and> sorted (name # map fst es)"
    by (rule sorted2)
  moreover have "(pr_refs (ps_out st))(name \<mapsto> e) ++ map_of (rev es) = pr_refs (ps_out st) ++ map_of (rev (ne # es))"
    by (auto simp: ne map_add_def fun_eq_iff map_of_append split: option.splits)
  ultimately show ?case
    using Cons.IH [of "after_entry a ne st"] Cons.prems
    by (simp add: after_entry_simps [OF w [unfolded ne]] ne fun_upd_def del: sorted_wrt.simps)
qed


lemma TrimRight_space: "TrimRight (s @ '' '') [CHR '' '', CHR 0x09] = TrimRight s [CHR '' '', CHR 0x09]"
  by (rule TrimRight_append) simp

text \<open>A header line is read back to its traits.\<close>

lemma packed_line_traits:
  "packed_line a (traits_line t @ '' '') empty_packed_state = Inr (empty_packed_state\<lparr>ps_lineNo := 1, ps_seenAny := True,
     ps_out := \<lparr>pr_refs = Map.empty, pr_traits = t\<rparr>\<rparr>)"
proof -
  obtain p f s where t: "t = \<lparr>pt_peeled = p, pt_fullyPeeled = f, pt_sorted = s\<rparr>" by (cases t)
  show ?thesis
    by (cases p; cases f; cases s;
        simp add: t packed_line_def traits_line_def traits_words_def empty_packed_state_def TrimRight_def
          parsePackedRefTraits_def no_traits_def Let_def; code_simp)
qed


lemma traits_line_short:
  "length (traits_line t @ '' '') < max_scan_token" "CHR 0x0A \<notin> set (traits_line t @ '' '')"
  "dropCR (traits_line t @ '' '') = traits_line t @ '' ''"
  by (simp_all add: traits_line_def traits_words_def max_scan_token_def dropCR_def)

lemma sorted_from_empty: "sorted ([] # (names :: string list)) \<longleftrightarrow> sorted names"
  by simp

lemma parsePackedRefs_file:
  assumes "list_all (wf_packed_entry a) entries"
  shows "parsePackedRefs a \<lparr>src_rest = packed_file t entries, src_end = io_EOF\<rparr> =
    Inr \<lparr>pr_refs = map_of (rev entries), pr_traits = (case t of None \<Rightarrow> no_traits
       | Some t \<Rightarrow> t\<lparr>pt_sorted := pt_sorted t \<and> sorted (map fst entries)\<rparr>)\<rparr>"
proof -
  let ?body = "concat (map entry_lines entries)"
  have body: "list_all (\<lambda>l. CHR 0x0A \<notin> set l) ?body"
    using assms entry_lines_short by (fastforce simp: list_all_iff)
  have scan: "scan_lines [] (packed_file t entries) =
      (case t of None \<Rightarrow> [] | Some t \<Rightarrow> [traits_line t @ '' '']) @ ?body"
    unfolding packed_file_def
    using body traits_line_short(2) by (intro scan_lines_file) (simp split: option.splits)
  show ?thesis
  proof (cases t)
    case None
    then show ?thesis
      using fold_after_entry [OF assms, of empty_packed_state] scan
      by (simp add: parsePackedRefs_def packed_loop_entries [OF assms])
        (simp add: empty_packed_state_def no_traits_def)
  next
    case (Some tr)
    then show ?thesis
      using fold_after_entry [OF assms] traits_line_short [of tr] packed_line_traits [of a tr] scan
      by (simp add: parsePackedRefs_def packed_loop_entries [OF assms])
        (simp add: empty_packed_state_def)
  qed
qed

text \<open>C17: A \<open>packed-refs\<close> file in the form Git writes, with or without its header line, is read back to
  exactly its entries (of two lines for one name the later one counts) and to the header's traits, except
  that \<open>sorted\<close> is kept only when the names are in byte order.\<close>

theorem packed_refs_round_trip:
  assumes "list_all (wf_packed_entry a) entries"
  shows "parsePackedRefs a \<lparr>src_rest = packed_file t entries, src_end = io_EOF\<rparr> =
    Inr \<lparr>pr_refs = map_of (rev entries), pr_traits = (case t of None \<Rightarrow> no_traits
       | Some t \<Rightarrow> t\<lparr>pt_sorted := pt_sorted t \<and> sorted (map fst entries)\<rparr>)\<rparr>"
  by (rule parsePackedRefs_file [OF assms])

definition sample_entries :: "(string \<times> packedEntry) list" where
  "sample_entries =
     [(''refs/heads/main'', \<lparr>pe_oid = replicate 20 (CHR 0x41), pe_peeled = replicate 20 (CHR 0x00),
         pe_peelKnown = False, pe_fromPacked = True\<rparr>),
      (''refs/tags/v1'', \<lparr>pe_oid = replicate 20 (CHR 0x42), pe_peeled = replicate 20 (CHR 0x43),
         pe_peelKnown = True, pe_fromPacked = True\<rparr>)]"

lemma sample_entries_ok: "list_all (wf_packed_entry SHA1) sample_entries"
proof -
  have "checkRefnameFormat ''refs/heads/main''" "checkRefnameFormat ''refs/tags/v1''"
    by code_simp+
  then show ?thesis
    by (simp add: sample_entries_def wf_packed_entry_def wf_hash_def zero_hash_def)
qed

theorem packed_refs_round_trip_witness:
  "list_all (wf_packed_entry SHA1) sample_entries \<and>
   parsePackedRefs SHA1 \<lparr>src_rest = packed_file None sample_entries, src_end = io_EOF\<rparr> =
     Inr \<lparr>pr_refs = map_of (rev sample_entries), pr_traits = no_traits\<rparr>"
  using packed_refs_round_trip [OF sample_entries_ok, of None] sample_entries_ok by simp

section \<open>What was accepted\<close>

text \<open>The names of the ref lines of a file, in the order of the file.\<close>

definition line_text :: "string \<Rightarrow> string" where
  "line_text l = TrimRight (TrimRight (dropCR l) [CHR 0x0D, CHR 0x0A]) [CHR '' '', CHR 0x09]"

definition line_name :: "string \<Rightarrow> string list" where
  "line_name l = (let t = line_text l in
     if t = [] \<or> hd t = CHR ''#'' \<or> hd t = CHR ''^'' then [] else [fst (snd (Cut t (CHR '' '')))])"

definition names_in :: "string list \<Rightarrow> string list" where
  "names_in ls = concat (map line_name ls)"

definition entry_ok :: "Algo \<Rightarrow> packedEntry \<Rightarrow> bool" where
  "entry_ok a e \<longleftrightarrow> wf_hash a (pe_oid e) \<and> wf_hash a (pe_peeled e) \<and>
     (\<not> pe_peelKnown e \<longrightarrow> pe_peeled e = zero_hash a) \<and> pe_fromPacked e"

definition packed_inv :: "Algo \<Rightarrow> string list \<Rightarrow> packed_state \<Rightarrow> bool" where
  "packed_inv a names st \<longleftrightarrow>
     dom (pr_refs (ps_out st)) = set names \<and>
     ps_lastRef st = (if names = [] then [] else last names) \<and>
     (\<forall>name\<in>set names. checkRefnameFormat name) \<and>
     (\<forall>e\<in>ran (pr_refs (ps_out st)). entry_ok a e) \<and>
     (pt_sorted (pr_traits (ps_out st)) \<longrightarrow> sorted names)"


lemma zero_hash_ok: "wf_hash a (zero_hash a)"
  by (cases a) (simp_all add: wf_hash_def zero_hash_def)

lemma sorted_snoc: "sorted (xs @ [y :: 'a :: linorder]) \<longleftrightarrow> sorted xs \<and> (xs = [] \<or> last xs \<le> y)"
proof (cases xs rule: rev_cases)
  case (snoc ys x)
  then show ?thesis by (auto simp: sorted_append)
qed simp

lemma packed_ref_line_inv:
  assumes "packed_inv a names st" "packed_ref_line a raw line st = Inr st'"
  shows "packed_inv a (names @ [fst (snd (Cut line (CHR '' '')))]) st'"
proof -
  obtain oidHex name ok where cut: "Cut line (CHR '' '') = (oidHex, name, ok)" by (metis prod_cases3)
  obtain oid where oid: "ParseHexAs a oidHex = Inr oid" and name: "checkRefnameFormat name" "name \<noteq> []"
    and st': "st' = st\<lparr>ps_lastRef := name, ps_out := \<lparr>pr_refs = (pr_refs (ps_out st))(name \<mapsto>
        \<lparr>pe_oid = oid, pe_peeled = zero_hash a, pe_peelKnown = False, pe_fromPacked = True\<rparr>),
       pr_traits = (if pt_sorted (pr_traits (ps_out st)) \<and> ps_lastRef st \<noteq> [] \<and> name < ps_lastRef st
         then (pr_traits (ps_out st))\<lparr>pt_sorted := False\<rparr> else pr_traits (ps_out st))\<rparr>\<rparr>"
    using assms(2) by (auto simp: packed_ref_line_def cut Let_def split: if_splits sum.splits)
  have "entry_ok a e" if "e \<in> ran (pr_refs (ps_out st'))" for e
    using that assms(1) oid
    by (auto simp: st' packed_inv_def entry_ok_def zero_hash_ok ParseHexAs_Inr ran_def split: if_splits)
  moreover have "sorted (names @ [name])" if "pt_sorted (pr_traits (ps_out st'))"
    using that assms(1) by (auto simp: st' packed_inv_def sorted_snoc not_less split: if_splits)
  ultimately show ?thesis
    using assms(1) name by (auto simp: packed_inv_def cut st')
qed

lemma packed_peel_line_inv:
  assumes "packed_inv a names st" "packed_peel_line a raw line st = Inr st'"
  shows "packed_inv a names st'"
proof -
  let ?last = "ps_lastRef st"
  have "?last \<noteq> []" using assms(2) by (auto simp: packed_peel_line_def)
  then have "?last \<in> set names" using assms(1) by (auto simp: packed_inv_def split: if_splits)
  then have "?last \<in> dom (pr_refs (ps_out st))" using assms(1) by (simp add: packed_inv_def)
  then obtain entry where entry: "pr_refs (ps_out st) ?last = Some entry" by blast
  then obtain peeled where p: "ParseHexAs a (tl line) = Inr peeled"
    and st': "st' = st\<lparr>ps_out := (ps_out st)\<lparr>pr_refs := (pr_refs (ps_out st))
      (?last \<mapsto> entry\<lparr>pe_peeled := peeled, pe_peelKnown := True\<rparr>)\<rparr>\<rparr>"
    using assms(2) by (auto simp: packed_peel_line_def Let_def split: if_splits sum.splits)
  have "entry_ok a entry" using entry assms(1) by (auto simp: packed_inv_def ran_def)
  then have "entry_ok a e" if "e \<in> ran (pr_refs (ps_out st'))" for e
    using that assms(1) p by (auto simp: st' packed_inv_def entry_ok_def ParseHexAs_Inr ran_def split: if_splits)
  then show ?thesis
    using assms(1) \<open>?last \<in> set names\<close> by (auto simp: packed_inv_def st')
qed

lemma packed_inv_cong:
  "ps_lastRef st = ps_lastRef st' \<Longrightarrow> pr_refs (ps_out st) = pr_refs (ps_out st') \<Longrightarrow>
     (pt_sorted (pr_traits (ps_out st)) \<longrightarrow> pt_sorted (pr_traits (ps_out st')) \<or> names = []) \<Longrightarrow>
     packed_inv a names st' \<Longrightarrow> packed_inv a names st"
  by (auto simp: packed_inv_def)

definition started :: "string list \<Rightarrow> packed_state \<Rightarrow> bool" where
  "started names st \<longleftrightarrow> (names \<noteq> [] \<longrightarrow> ps_seenAny st)"

lemma packed_line_inv:
  assumes "packed_inv a names st" "started names st" "packed_line a (dropCR l) st = Inr st'"
  shows "packed_inv a (names @ line_name l) st' \<and> started (names @ line_name l) st'"
proof -
  let ?t = "line_text l" and ?raw = "TrimRight (dropCR l) [CHR 0x0D, CHR 0x0A]"
  let ?st = "st\<lparr>ps_lineNo := ps_lineNo st + 1\<rparr>"
  have line: "packed_line a (dropCR l) st =
      (if ?t = [] then Inr ?st
       else if hd ?t = CHR ''#'' then
         Inr (?st\<lparr>ps_seenAny := True, ps_out := (if \<not> ps_seenAny ?st
           then (ps_out ?st)\<lparr>pr_traits := parsePackedRefTraits ?t\<rparr> else ps_out ?st)\<rparr>)
       else if hd ?t = CHR ''^'' then packed_peel_line a ?raw ?t (?st\<lparr>ps_seenAny := True\<rparr>)
       else packed_ref_line a ?raw ?t (?st\<lparr>ps_seenAny := True\<rparr>))"
    by (simp add: packed_line_def line_text_def Let_def)
  have inv: "packed_inv a names ?st" "packed_inv a names (?st\<lparr>ps_seenAny := True\<rparr>)"
    by (rule packed_inv_cong [OF _ _ _ assms(1)]; simp)+
  have seen: "ps_seenAny st'" if "?t \<noteq> []"
    using assms(3) that
    by (auto simp: line packed_peel_line_def packed_ref_line_def Let_def split: if_splits sum.splits prod.splits)
  consider (blank) "?t = []" | (comment) "?t \<noteq> []" "hd ?t = CHR ''#''" | (peel) "?t \<noteq> []" "hd ?t = CHR ''^''"
    | (ref) "?t \<noteq> []" "hd ?t \<noteq> CHR ''#''" "hd ?t \<noteq> CHR ''^''" by blast
  then show ?thesis
  proof cases
    case blank
    then show ?thesis using assms(2,3) inv by (auto simp: line line_name_def started_def)
  next
    case comment
    have "packed_inv a names st'"
      by (rule packed_inv_cong [OF _ _ _ assms(1)]; use comment assms(2,3) in \<open>auto simp: line started_def split: if_splits\<close>)
    then show ?thesis using comment seen by (simp add: line_name_def started_def)
  next
    case peel
    then show ?thesis using assms(3) seen packed_peel_line_inv [OF inv(2)] by (simp add: line line_name_def started_def)
  next
    case ref
    then show ?thesis using assms(3) seen packed_ref_line_inv [OF inv(2)]
      by (simp add: line line_name_def started_def Let_def)
  qed
qed

lemma packed_loop_inv:
  "packed_loop a ls e st = Inr p \<Longrightarrow> packed_inv a names st \<Longrightarrow> started names st \<Longrightarrow>
     \<exists>st'. packed_inv a (names @ names_in ls) st' \<and> ps_out st' = p"
proof (induction ls arbitrary: st names)
  case Nil
  then show ?case by (auto simp: names_in_def split: if_splits)
next
  case (Cons l ls)
  then obtain st1 where st1: "packed_line a (dropCR l) st = Inr st1" "packed_loop a ls e st1 = Inr p"
    by (auto split: if_splits sum.splits)
  then show ?case
    using Cons.IH [OF st1(2), of "names @ line_name l"] packed_line_inv [OF Cons.prems(2,3) st1(1)]
    by (simp add: names_in_def)
qed

lemma parsePackedRefs_inv:
  assumes "parsePackedRefs a src = Inr p"
  shows "\<exists>st. packed_inv a (names_in (scan_lines [] (src_rest src))) st \<and> ps_out st = p"
proof -
  have "packed_inv a [] empty_packed_state" "started [] empty_packed_state"
    by (simp_all add: packed_inv_def empty_packed_state_def started_def ran_def)
  then show ?thesis using packed_loop_inv assms unfolding parsePackedRefs_def by (metis append_Nil)
qed

text \<open>Whatever file was accepted: the map holds exactly the names of the file's ref lines, each valid
  under the ref name rules, with ids of the width of the algorithm, a zero peeled id where no peel line
  was seen, and marked as packed; and where the \<open>sorted\<close> trait survived, the names are in byte order.\<close>

theorem packed_refs_accepted:
  assumes "parsePackedRefs a src = Inr p"
  shows "dom (pr_refs p) = set (names_in (scan_lines [] (src_rest src))) \<and>
    (\<forall>name e. pr_refs p name = Some e \<longrightarrow> checkRefnameFormat name \<and> entry_ok a e) \<and>
    (pt_sorted (pr_traits p) \<longrightarrow> sorted (names_in (scan_lines [] (src_rest src))))"
  using parsePackedRefs_inv [OF assms] by (auto simp: packed_inv_def ran_def)

theorem packed_refs_accepted_witness:
  "pr_refs (\<lparr>pr_refs = map_of (rev sample_entries), pr_traits = no_traits\<rparr>) ''refs/tags/v1'' \<noteq> None \<and>
   checkRefnameFormat ''refs/tags/v1''"
  using packed_refs_accepted [OF parsePackedRefs_file [OF sample_entries_ok, of None]]
  by (simp add: sample_entries_def)

end
