(* ===== verification/Loose_Refs.thy ===== *)
theory Loose_Refs
  imports Go_Filesystem Packed_Refs Server_Advertise
begin

text \<open>
  Refs from files: \<open>src/internal/objstore/loose_refs.go\<close>, and the contract of a ref backend
  (\<open>ref_backend.go\<close>) as the locale \<open>ref_backend\<close>.

  \<open>filepath.WalkDir\<close> is the recursion over the tree the file system answers; its callback is \<open>visit_ref\<close>. The walk
  threads the map of refs, which keeps what was registered before an error. The loop over symbolic refs runs on
  \<open>maxRefDepth\<close>; the set of names seen is a list.

  The properties: a loose ref hides the packed one of its name and nothing else is listed; HEAD is the end of its chain
  of symbolic refs, for every chain of fewer than five hops; a symbolic ref never leads outside the repository.
\<close>

section \<open>The contract\<close>

text \<open>\<open>entries\<close> are the refs an iteration yields. A lookup agrees with it.\<close>

locale ref_backend =
  fixes ok :: "'b \<Rightarrow> bool"
    and entries :: "'b \<Rightarrow> RefEntry list"
    and lookup :: "'b \<Rightarrow> string \<Rightarrow> go_error + RefEntry option"
  assumes names_sorted: "ok b \<Longrightarrow> sorted (map re_Name (entries b)) \<and> distinct (map re_Name (entries b))"
    and lookup_entry: "ok b \<Longrightarrow> lookup b name = Inr (map_of (map (\<lambda>e. (re_Name e, e)) (entries b)) name)"
begin

lemma lookup_found: "ok b \<Longrightarrow> lookup b name = Inr (Some e) \<longleftrightarrow> e \<in> set (entries b) \<and> re_Name e = name"
  using names_sorted [of b] by (auto simp: lookup_entry map_of_eq_Some_iff comp_def)

lemma lookup_missing: "ok b \<Longrightarrow> lookup b name = Inr None \<longleftrightarrow> name \<notin> re_Name ` set (entries b)"
  by (auto simp: lookup_entry map_of_eq_None_iff image_iff)

end

section \<open>The code\<close>

record looseRefs =
  lr_gitDir :: string
  lr_commonDir :: string
  lr_algo :: Algo
  lr_refs :: "string \<rightharpoonup> packedEntry"
  lr_head :: Head
  lr_traits :: packedTraits
  lr_sorted :: "string list"

definition readPackedRefsFile :: "OS \<Rightarrow> Algo \<Rightarrow> string \<Rightarrow> go_error + packedRefs" where
  "readPackedRefsFile os a commonDir =
     (let path = Join_path [commonDir, ''packed-refs''] in
      case os_Open os path of
        Inl err \<Rightarrow>
          if errors_Is err os_ErrNotExist then Inr \<lparr>pr_refs = Map.empty, pr_traits = no_traits\<rparr>
          else Inl (Wrapf (''objstore: open '' @ path @ '': '') err [])
      | Inr src \<Rightarrow> (case parsePackedRefs a src of
          Inl err \<Rightarrow> Inl (Wrapf (''objstore: parse '' @ path @ '': '') err [])
        | Inr parsed \<Rightarrow> Inr parsed))"

text \<open>The trimming of a ref file's content.\<close>

definition ref_content :: "string \<Rightarrow> string" where
  "ref_content raw = TrimRight raw [CHR '' '', CHR 0x09, CHR 0x0D, CHR 0x0A]"

text \<open>The callback for a regular file: the error it returns, and the map.\<close>

definition visit_ref ::
  "OS \<Rightarrow> Algo \<Rightarrow> string \<Rightarrow> string \<Rightarrow> string \<Rightarrow> (string \<rightharpoonup> packedEntry) \<Rightarrow> go_error option \<times> (string \<rightharpoonup> packedEntry)" where
  "visit_ref os a commonDir path name refs =
     (if name = ''.gitkeep'' then (None, refs)
      else case os_ReadFile os path of
        Inl _ \<Rightarrow> (Some (Wrapf (''objstore: read '' @ path @ '': '') ErrCorruptObject []), refs)
      | Inr raw \<Rightarrow>
          let content = ref_content raw in
          if content = [] then (Some (Wrapf (''objstore: ref '' @ path @ '' empty: '') ErrCorruptObject []), refs)
          else if HasPrefix content ''ref:'' then (None, refs)
          else (case ParseHexAs a content of
              Inl err \<Rightarrow> (Some (Wrapf2 (''objstore: ref '' @ path @ '': '') err '': '' ErrCorruptObject []), refs)
            | Inr oid \<Rightarrow> (case Rel commonDir path of
                Inl err \<Rightarrow> (Some (Wrapf (''objstore: rel '' @ path @ '': '') err []), refs)
              | Inr rel \<Rightarrow> (None, refs(rel \<mapsto> (zero_entry a)\<lparr>pe_oid := oid\<rparr>)))))"

text \<open>The walk, with the callback for what is not a regular file written out.\<close>

fun walk_tree ::
    "OS \<Rightarrow> Algo \<Rightarrow> string \<Rightarrow> string \<Rightarrow> string \<Rightarrow> dir_tree \<Rightarrow> (string \<rightharpoonup> packedEntry) \<Rightarrow> go_error option \<times> (string \<rightharpoonup> packedEntry)"
  and walk_entries ::
    "OS \<Rightarrow> Algo \<Rightarrow> string \<Rightarrow> string \<Rightarrow> (string \<times> dir_tree) list \<Rightarrow> (string \<rightharpoonup> packedEntry) \<Rightarrow> go_error option \<times> (string \<rightharpoonup> packedEntry)" where
  "walk_tree os a commonDir path name Regular_File refs = visit_ref os a commonDir path name refs"
| "walk_tree os a commonDir path name Other_File refs = (None, refs)"
| "walk_tree os a commonDir path name (Directory ents err) refs = (case err of
      Some walkErr \<Rightarrow> (Some walkErr, refs)
    | None \<Rightarrow> walk_entries os a commonDir path ents refs)"
| "walk_entries os a commonDir path [] refs = (None, refs)"
| "walk_entries os a commonDir path (ent # ents) refs =
     (case walk_tree os a commonDir (Join_path [path, fst ent]) (fst ent) (snd ent) refs of
        (Some err, refs) \<Rightarrow> (Some err, refs)
      | (None, refs) \<Rightarrow> walk_entries os a commonDir path ents refs)"

definition walkLooseRefs :: "OS \<Rightarrow> Algo \<Rightarrow> string \<Rightarrow> (string \<rightharpoonup> packedEntry) \<Rightarrow> go_error + (string \<rightharpoonup> packedEntry)" where
  "walkLooseRefs os a commonDir refs =
     (let refsDir = Join_path [commonDir, ''refs'']; res = (case os_Tree os refsDir of
          Inl walkErr \<Rightarrow> (Some walkErr, refs)
        | Inr tree \<Rightarrow> walk_tree os a commonDir refsDir (Base refsDir) tree refs) in
      case res of
        (None, refs) \<Rightarrow> Inr refs
      | (Some err, refs) \<Rightarrow> if errors_Is err os_ErrNotExist then Inr refs else Inl err)"

definition maxRefDepth :: nat where "maxRefDepth = 5"

definition parseSymrefTarget :: "string \<Rightarrow> go_error + string option" where
  "parseSymrefTarget content = (case CutPrefix content ''ref:'' of
      None \<Rightarrow> Inr None
    | Some rest \<Rightarrow>
        let target = TrimSpace rest in
        if target = [] then Inl (Wrapf ''empty symref target: '' ErrCorruptObject [])
        else if \<not> checkRefnameFormat target then
          Inl (Wrapf (''malformed symref target '' @ quote target @ '': '') ErrCorruptObject [])
        else Inr (Some target))"

definition readLooseSymref :: "OS \<Rightarrow> string \<Rightarrow> string \<Rightarrow> go_error + string option" where
  "readLooseSymref os commonDir name =
     (let path = Join_path [commonDir, name] in
      case os_ReadFile os path of
        Inl err \<Rightarrow>
          if errors_Is err os_ErrNotExist then Inr None
          else Inl (Wrapf (''objstore: read '' @ path @ '': '') ErrCorruptObject [])
      | Inr raw \<Rightarrow> (case parseSymrefTarget (ref_content raw) of
          Inl err \<Rightarrow> Inl (Wrapf (''objstore: '' @ path @ '': '') err [])
        | Inr None \<Rightarrow> Inl (Wrapf (''objstore: '' @ path @ '': expected symref, got OID-shaped content: '') ErrCorruptObject [])
        | Inr (Some target) \<Rightarrow> Inr (Some target)))"

text \<open>The loop, on the hops left and the names seen.\<close>

fun symref_loop ::
  "OS \<Rightarrow> Algo \<Rightarrow> string \<Rightarrow> (string \<rightharpoonup> packedEntry) \<Rightarrow> nat \<Rightarrow> string list \<Rightarrow> string \<Rightarrow> go_error + Head" where
  "symref_loop os a commonDir refs 0 seen current =
     Inl (Wrapf (''objstore: symref chain exceeds depth '' @ itoa_nat maxRefDepth @ '': '') ErrCorruptObject [])"
| "symref_loop os a commonDir refs (Suc n) seen current =
     (if current \<in> set seen then Inl (Wrapf (''objstore: symref cycle at '' @ current @ '': '') ErrCorruptObject [])
      else case refs current of
        Some entry \<Rightarrow> Inr \<lparr>hd_Symref = current, hd_OID = pe_oid entry, hd_Unborn = False\<rparr>
      | None \<Rightarrow> (case readLooseSymref os commonDir current of
          Inl err \<Rightarrow> Inl err
        | Inr None \<Rightarrow> Inr \<lparr>hd_Symref = current, hd_OID = zero_hash a, hd_Unborn = True\<rparr>
        | Inr (Some next) \<Rightarrow> symref_loop os a commonDir refs n (current # seen) next))"

definition followSymrefChain :: "OS \<Rightarrow> Algo \<Rightarrow> string \<Rightarrow> (string \<rightharpoonup> packedEntry) \<Rightarrow> string \<Rightarrow> go_error + Head" where
  "followSymrefChain os a commonDir refs target = symref_loop os a commonDir refs maxRefDepth [] target"

definition resolveHead :: "OS \<Rightarrow> Algo \<Rightarrow> string \<Rightarrow> string \<Rightarrow> (string \<rightharpoonup> packedEntry) \<Rightarrow> go_error + Head" where
  "resolveHead os a gitDir commonDir refs =
     (let path = Join_path [gitDir, ''HEAD''] in
      case os_ReadFile os path of
        Inl _ \<Rightarrow> Inl (Wrapf (''objstore: read '' @ path @ '': '') ErrCorruptObject [])
      | Inr raw \<Rightarrow>
          let content = ref_content raw in
          if content = [] then Inl (Wrapf (''objstore: '' @ path @ '' empty: '') ErrCorruptObject [])
          else (case parseSymrefTarget content of
              Inl err \<Rightarrow> Inl (Wrapf (''objstore: '' @ path @ '': '') err [])
            | Inr (Some target) \<Rightarrow> followSymrefChain os a commonDir refs target
            | Inr None \<Rightarrow> (case ParseHexAs a content of
                Inl err \<Rightarrow> Inl (Wrapf2 (''objstore: '' @ path @ '': '') err '': '' ErrCorruptObject [])
              | Inr oid \<Rightarrow> Inr \<lparr>hd_Symref = [], hd_OID = oid, hd_Unborn = False\<rparr>)))"

definition openLooseRefs :: "OS \<Rightarrow> Algo \<Rightarrow> string \<Rightarrow> string \<Rightarrow> go_error + looseRefs" where
  "openLooseRefs os a gitDir commonDir = (case readPackedRefsFile os a commonDir of
      Inl err \<Rightarrow> Inl err
    | Inr packed \<Rightarrow> (case walkLooseRefs os a commonDir (pr_refs packed) of
        Inl err \<Rightarrow> Inl err
      | Inr refs \<Rightarrow> (case resolveHead os a gitDir commonDir refs of
          Inl err \<Rightarrow> Inl err
        | Inr head \<Rightarrow> Inr \<lparr>lr_gitDir = gitDir, lr_commonDir = commonDir, lr_algo = a, lr_refs = refs, lr_head = head,
            lr_traits = pr_traits packed, lr_sorted = sorted_list_of_set (dom refs)\<rparr>)))"

definition looseRefs_Head :: "looseRefs \<Rightarrow> go_error + Head" where
  "looseRefs_Head r = Inr (lr_head r)"

definition toRefEntry :: "packedTraits \<Rightarrow> string \<Rightarrow> packedEntry \<Rightarrow> RefEntry" where
  "toRefEntry traits name entry =
     \<lparr>re_Name = name, re_OID = pe_oid entry, re_Peeled = pe_peeled entry,
      re_PeelKnown = pe_peelKnown entry \<or> pe_fromPacked entry \<and> pt_fullyPeeled traits \<or>
        pe_fromPacked entry \<and> pt_peeled traits \<and> HasPrefix name ''refs/tags/''\<rparr>"

text \<open>The iterator feeds its consumer until it stops; \<open>sorted\<close> lists the keys of the map.\<close>

fun loose_iter ::
  "looseRefs \<Rightarrow> string list \<Rightarrow> (RefEntry \<times> go_error option \<Rightarrow> 's \<Rightarrow> bool \<times> 's) \<Rightarrow> 's \<Rightarrow> 's" where
  "loose_iter r [] yield s = s"
| "loose_iter r (name # names) yield s =
     (case yield (toRefEntry (lr_traits r) name (the (lr_refs r name)), None) s of (go_on, s') \<Rightarrow>
        if \<not> go_on then s' else loose_iter r names yield s')"

definition looseRefs_IterRefs :: "looseRefs \<Rightarrow> (RefEntry \<times> go_error option \<Rightarrow> 's \<Rightarrow> bool \<times> 's) \<Rightarrow> 's \<Rightarrow> 's" where
  "looseRefs_IterRefs r = loose_iter r (lr_sorted r)"

definition looseRefs_Lookup :: "looseRefs \<Rightarrow> string \<Rightarrow> go_error + RefEntry option" where
  "looseRefs_Lookup r name = Inr (map_option (toRefEntry (lr_traits r) name) (lr_refs r name))"

definition looseRefs_Close :: "looseRefs \<Rightarrow> go_error option" where
  "looseRefs_Close r = None"

section \<open>Both sides of the contract\<close>

definition loose_entries :: "looseRefs \<Rightarrow> RefEntry list" where
  "loose_entries r = map fst (looseRefs_IterRefs r collect [])"

definition loose_ok :: "looseRefs \<Rightarrow> bool" where
  "loose_ok r \<longleftrightarrow> sorted (lr_sorted r) \<and> distinct (lr_sorted r) \<and> set (lr_sorted r) = dom (lr_refs r)"

lemma loose_iter_feed:
  "loose_iter r names yield s = feed yield (map (\<lambda>n. (toRefEntry (lr_traits r) n (the (lr_refs r n)), None)) names) s"
  by (induction names arbitrary: s) (auto split: prod.split)

lemma loose_entries_eq: "loose_entries r = map (\<lambda>n. toRefEntry (lr_traits r) n (the (lr_refs r n))) (lr_sorted r)"
  by (simp add: loose_entries_def looseRefs_IterRefs_def loose_iter_feed comp_def)

lemma toRefEntry_Name [simp]: "re_Name (toRefEntry t n e) = n"
  by (simp add: toRefEntry_def)

lemma map_of_names: "map_of (map (\<lambda>n. (n, f n)) ns) n = (if n \<in> set ns then Some (f n) else None)"
  by (induction ns) auto

interpretation loose: ref_backend loose_ok loose_entries looseRefs_Lookup
proof unfold_locales
  fix r
  assume "loose_ok r"
  then show "sorted (map re_Name (loose_entries r)) \<and> distinct (map re_Name (loose_entries r))"
    by (simp add: loose_ok_def loose_entries_eq comp_def)
next
  fix r name
  assume "loose_ok r"
  then show "looseRefs_Lookup r name = Inr (map_of (map (\<lambda>e. (re_Name e, e)) (loose_entries r)) name)"
    by (cases "lr_refs r name") (auto simp: loose_ok_def loose_entries_eq comp_def map_of_names looseRefs_Lookup_def)
qed

lemma finite_packed: "parsePackedRefs a src = Inr p \<Longrightarrow> finite (dom (pr_refs p))"
  using parsePackedRefs_inv [of a src p] by (auto simp: packed_inv_def)

lemma visit_ref_finite: "finite (dom refs) \<Longrightarrow> finite (dom (snd (visit_ref os a c path name refs)))"
  by (auto simp: visit_ref_def Let_def split: sum.split)

lemma walk_finite:
  "finite (dom refs) \<Longrightarrow> finite (dom (snd (walk_tree os a c path name t refs)))"
  "finite (dom refs) \<Longrightarrow> finite (dom (snd (walk_entries os a c path ents refs)))"
proof (induction os a c path name t refs and os a c path ents refs rule: walk_tree_walk_entries.induct)
  case (5 os a c path ent ents refs)
  obtain err refs' where w: "walk_tree os a c (Join_path [path, fst ent]) (fst ent) (snd ent) refs = (err, refs')" by fastforce
  with 5 show ?case by (cases err) simp_all
qed (simp_all add: visit_ref_finite split: option.split)

lemma openLooseRefs_ok: "openLooseRefs os a gitDir commonDir = Inr r \<Longrightarrow> loose_ok r"
proof -
  assume o: "openLooseRefs os a gitDir commonDir = Inr r"
  then obtain packed refs where p: "readPackedRefsFile os a commonDir = Inr packed"
    "walkLooseRefs os a commonDir (pr_refs packed) = Inr refs" "lr_refs r = refs" "lr_sorted r = sorted_list_of_set (dom refs)"
    by (auto simp: openLooseRefs_def split: sum.splits)
  from p(1) have "finite (dom (pr_refs packed))"
    by (auto simp: readPackedRefsFile_def Let_def finite_packed split: sum.splits if_splits)
  with p(2) have "finite (dom refs)"
    using walk_finite(1) [of "pr_refs packed" os a commonDir]
    by (auto simp: walkLooseRefs_def Let_def split: sum.splits prod.splits option.splits if_splits) (metis snd_conv)+
  with p(3,4) show ?thesis by (simp add: loose_ok_def)
qed

section \<open>The walk\<close>

text \<open>
  A tree whose names are those of a real directory: distinct plain elements; \<open>listed\<close>: every directory could be
  read. \<open>file_at\<close> are its regular files, by the names that lead to them.
\<close>

fun tree_ok :: "dir_tree \<Rightarrow> bool" and tree_entries_ok :: "(string \<times> dir_tree) list \<Rightarrow> bool" where
  "tree_ok (Directory ents err) \<longleftrightarrow> tree_entries_ok ents"
| "tree_ok _ \<longleftrightarrow> True"
| "tree_entries_ok [] \<longleftrightarrow> True"
| "tree_entries_ok (ent # ents) \<longleftrightarrow> plain_element (fst ent) \<and> fst ent \<notin> fst ` set ents \<and> tree_ok (snd ent) \<and> tree_entries_ok ents"

fun listed :: "dir_tree \<Rightarrow> bool" and listed_entries :: "(string \<times> dir_tree) list \<Rightarrow> bool" where
  "listed (Directory ents err) \<longleftrightarrow> err = None \<and> listed_entries ents"
| "listed _ \<longleftrightarrow> True"
| "listed_entries [] \<longleftrightarrow> True"
| "listed_entries (ent # ents) \<longleftrightarrow> listed (snd ent) \<and> listed_entries ents"

fun file_at :: "dir_tree \<Rightarrow> string list \<Rightarrow> bool" where
  "file_at Regular_File [] \<longleftrightarrow> True"
| "file_at (Directory ents err) (e # es) \<longleftrightarrow> (case map_of ents e of Some t \<Rightarrow> file_at t es | None \<Rightarrow> False)"
| "file_at _ _ \<longleftrightarrow> False"

text \<open>What the file of a name gives: an id, unless it is a placeholder or a symbolic ref.\<close>

definition file_entry :: "OS \<Rightarrow> Algo \<Rightarrow> string \<Rightarrow> string \<Rightarrow> packedEntry option" where
  "file_entry os a commonDir name =
     (if last (path_elements [] name) = ''.gitkeep'' then None
      else case os_ReadFile os (Join_path [commonDir, name]) of
        Inl _ \<Rightarrow> None
      | Inr raw \<Rightarrow> (case ParseHexAs a (ref_content raw) of
          Inl _ \<Rightarrow> None
        | Inr oid \<Rightarrow> Some ((zero_entry a)\<lparr>pe_oid := oid\<rparr>)))"

text \<open>The loose refs below the names \<open>es\<close>, and those of the entries of a directory.\<close>

definition refs_below :: "OS \<Rightarrow> Algo \<Rightarrow> string \<Rightarrow> string list \<Rightarrow> (string list \<Rightarrow> bool) \<Rightarrow> string \<rightharpoonup> packedEntry" where
  "refs_below os a commonDir es at name =
     (let ns = path_elements [] name in
      if take (length es) ns = es \<and> at (drop (length es) ns) then file_entry os a commonDir name else None)"

definition entry_at :: "(string \<times> dir_tree) list \<Rightarrow> string list \<Rightarrow> bool" where
  "entry_at ents ns = (case ns of [] \<Rightarrow> False | e # es \<Rightarrow> (case map_of ents e of Some t \<Rightarrow> file_at t es | None \<Rightarrow> False))"

lemma file_at_Directory: "file_at (Directory ents err) = entry_at ents"
proof
  fix ns show "file_at (Directory ents err) ns = entry_at ents ns" by (cases ns) (simp_all add: entry_at_def)
qed

lemma file_at_Regular: "file_at Regular_File ns \<longleftrightarrow> ns = []" "file_at Other_File ns \<longleftrightarrow> False"
  by (cases ns; simp)+

lemma symref_not_hex: "HasPrefix s ''ref:'' \<Longrightarrow> \<exists>err. ParseHexAs a s = Inl err"
proof (rule ccontr)
  assume s: "HasPrefix s ''ref:''" and "\<nexists>err. ParseHexAs a s = Inl err"
  then obtain h where "ParseHexAs a s = Inr h" by (cases "ParseHexAs a s") auto
  then have "map ascii_lower s = Hex h" by (simp add: ParseHexAs_Inr)
  moreover obtain t where "s = ''ref:'' @ t" using s by (auto simp: HasPrefix_conv)
  ultimately have "CHR ''r'' \<in> set (Hex h)" by (simp add: ascii_lower_def) (metis list.set_intros(1))
  from Hex_chars [OF this] show False by (simp add: hex_digits_def)
qed

lemma parse_empty: "\<exists>err. ParseHexAs a [] = Inl err"
proof (cases "ParseHexAs a []")
  case (Inr h)
  then have "wf_hash a h" "Hex h = []" by (simp_all add: ParseHexAs_Inr)
  then show ?thesis by (cases a) (simp_all add: wf_hash_def)
qed simp

lemma visit_ref_below:
  assumes "visit_ref os a c (path_of (IsAbs c) (clean_elements c @ es)) (last es) refs = (None, refs')"
    and "list_all plain_element es" "es \<noteq> []"
  shows "refs' = refs ++ refs_below os a c es (file_at Regular_File)"
proof -
  let ?path = "path_of (IsAbs c) (clean_elements c @ es)"
  have slash: "list_all (\<lambda>e. CHR ''/'' \<notin> set e) es" "hd es \<noteq> []"
    using assms(2,3) by (cases es; simp add: list_all_iff plain_element_def)+
  have names: "path_elements [] n = es \<longleftrightarrow> n = join_elements es" for n
    using path_elements_join [OF assms(3) slash(1)] join_path_elements [of "[]" n] by auto
  have path: "Join_path [c, join_elements es] = ?path"
    using Join_path_joined [OF assms(3) slash(2)] Join_path_plain [OF assms(2,3)] by simp
  have "take (length es) ns = es \<and> drop (length es) ns = [] \<longleftrightarrow> ns = es" for ns :: "string list"
    by (metis append_Nil2 append_take_drop_id drop_all order_refl take_all)
  then have below: "refs_below os a c es (file_at Regular_File) n =
      (if n = join_elements es then file_entry os a c n else None)" for n
    by (simp add: refs_below_def Let_def file_at_Regular names)
  have rel: "Rel c ?path = Inr (join_elements es)" using assms(2,3) by (rule Rel_below)
  have entry: "file_entry os a c (join_elements es) = (if last es = ''.gitkeep'' then None else
      case os_ReadFile os ?path of Inl _ \<Rightarrow> None | Inr raw \<Rightarrow> (case ParseHexAs a (ref_content raw) of
        Inl _ \<Rightarrow> None | Inr oid \<Rightarrow> Some ((zero_entry a)\<lparr>pe_oid := oid\<rparr>)))"
    unfolding file_entry_def path path_elements_join [OF assms(3) slash(1)] by simp
  have "refs' = (case file_entry os a c (join_elements es) of None \<Rightarrow> refs | Some e \<Rightarrow> refs(join_elements es \<mapsto> e))"
  proof (cases "last es = ''.gitkeep'' \<or> (\<exists>raw. os_ReadFile os ?path = Inr raw \<and> HasPrefix (ref_content raw) ''ref:'')")
    case True
    with assms(1) symref_not_hex [of _ a] show ?thesis
      by (fastforce simp: visit_ref_def Let_def entry split: if_splits sum.splits)
  next
    case False
    with assms(1) show ?thesis
      by (auto simp: visit_ref_def Let_def entry rel split: if_splits sum.splits)
  qed
  then show ?thesis by (auto simp: fun_eq_iff map_add_def below split: option.split)
qed

lemma take_drop_step:
  "take (Suc (length es)) ns = es @ [e] \<longleftrightarrow> take (length es) ns = es \<and> (\<exists>fs. drop (length es) ns = e # fs)"
proof (induction es arbitrary: ns)
  case Nil
  then show ?case by (cases ns) simp_all
next
  case (Cons x es)
  then show ?case by (cases ns) simp_all
qed

lemma refs_below_cons:
  assumes "e \<notin> fst ` set ents"
  shows "refs_below os a c (es @ [e]) (file_at t) ++ refs_below os a c es (entry_at ents) =
    refs_below os a c es (entry_at ((e, t) # ents))"
proof
  fix n
  let ?ns = "path_elements [] n"
  have none: "map_of ents e = None" using assms by (auto simp: map_of_eq_None_iff)
  note take_drop_step [of es ?ns e]
  moreover have "drop (length es) ?ns = e # fs \<Longrightarrow> drop (Suc (length es)) ?ns = fs" for fs by (metis drop_Suc list.sel(3) tl_drop)
  ultimately show "(refs_below os a c (es @ [e]) (file_at t) ++ refs_below os a c es (entry_at ents)) n =
      refs_below os a c es (entry_at ((e, t) # ents)) n"
    using none by (cases "drop (length es) ?ns") (auto simp: map_add_def refs_below_def Let_def entry_at_def split: option.splits)
qed

lemma refs_below_none: "refs_below os a c es (\<lambda>_. False) = Map.empty"
  by (simp add: refs_below_def Let_def fun_eq_iff)

lemma walk_below:
  "walk_tree os a c path name t refs = (None, refs') \<Longrightarrow> tree_ok t \<Longrightarrow> list_all plain_element es \<Longrightarrow> es \<noteq> [] \<Longrightarrow>
    path = path_of (IsAbs c) (clean_elements c @ es) \<Longrightarrow> name = last es \<Longrightarrow>
    refs' = refs ++ refs_below os a c es (file_at t)"
  "walk_entries os a c path ents refs = (None, refs') \<Longrightarrow> tree_entries_ok ents \<Longrightarrow> list_all plain_element es \<Longrightarrow> es \<noteq> [] \<Longrightarrow>
    path = path_of (IsAbs c) (clean_elements c @ es) \<Longrightarrow>
    refs' = refs ++ refs_below os a c es (entry_at ents)"
proof (induction os a c path name t refs and os a c path ents refs arbitrary: refs' es and refs' es rule: walk_tree_walk_entries.induct)
  case (1 os a c path name refs)
  then show ?case using visit_ref_below [of os a c es refs refs'] by simp
next
  case (2 os a c path name refs)
  have "file_at Other_File = (\<lambda>_. False)" by (simp add: fun_eq_iff file_at_Regular)
  with 2 show ?case by (simp add: refs_below_none)
next
  case (3 os a c path name ents err refs)
  then show ?case by (cases err) (auto simp: file_at_Directory)
next
  case (4 os a c path refs)
  have "entry_at [] = (\<lambda>_. False)" by (simp add: fun_eq_iff entry_at_def split: list.split)
  with 4 show ?case by (simp add: refs_below_none)
next
  case (5 os a c path ent ents refs)
  obtain e t where ent: "ent = (e, t)" by fastforce
  obtain refs1 where w: "walk_tree os a c (Join_path [path, e]) e t refs = (None, refs1)" "walk_entries os a c path ents refs1 = (None, refs')"
    using 5(3) by (auto simp: ent split: prod.splits option.splits)
  have ok: "plain_element e" "e \<notin> fst ` set ents" "tree_ok t" "tree_entries_ok ents" using 5(4) by (simp_all add: ent)
  have "clean_list (IsAbs c) (rev (clean_elements c @ es))" using clean_elements_clean clean_list_plain 5(5) by blast
  from Join_path_of [OF this ok(1)] have "Join_path [path, e] = path_of (IsAbs c) (clean_elements c @ es @ [e])"
    unfolding 5(7) by simp
  with 5(1) [of refs1 "es @ [e]"] w(1) ok 5(5) have "refs1 = refs ++ refs_below os a c (es @ [e]) (file_at t)" by (simp add: ent)
  moreover have "refs' = refs1 ++ refs_below os a c es (entry_at ents)"
    using 5(2) [of None refs1 refs' es] w ok(4) 5(5-7) by (simp add: ent)
  ultimately show ?case by (simp add: ent map_add_assoc refs_below_cons [OF ok(2), symmetric])
qed

text \<open>Where every directory could be read, no error of the walk is that of a missing file.\<close>

lemma hex_error_exists: "hex_Decode s = Inl err \<Longrightarrow> \<not> errors_Is err os_ErrNotExist"
  by (induction s rule: hex_Decode.induct) (auto split: option.splits sum.splits if_splits)

lemma parse_error_exists: "ParseHexAs a s = Inl err \<Longrightarrow> \<not> errors_Is err os_ErrNotExist"
  by (auto simp: ParseHexAs_def Let_def hex_error_exists split: sum.splits if_splits)

lemma visit_error_exists: "visit_ref os a c path name refs = (Some err, refs') \<Longrightarrow> \<not> errors_Is err os_ErrNotExist"
  by (auto simp: visit_ref_def Let_def ErrCorruptObject_def Rel_def parse_error_exists split: sum.splits if_splits prod.splits)

lemma walk_error_exists:
  "listed t \<Longrightarrow> walk_tree os a c path name t refs = (Some err, refs') \<Longrightarrow> \<not> errors_Is err os_ErrNotExist"
  "listed_entries ents \<Longrightarrow> walk_entries os a c path ents refs = (Some err, refs') \<Longrightarrow> \<not> errors_Is err os_ErrNotExist"
proof (induction os a c path name t refs and os a c path ents refs arbitrary: refs' and refs' rule: walk_tree_walk_entries.induct)
  case (5 os a c path ent ents refs)
  then show ?case by (fastforce split: prod.splits option.splits)
qed (auto simp: visit_error_exists split: option.splits)

lemma openLooseRefs_refs:
  assumes "openLooseRefs os a gitDir commonDir = Inr r" "readPackedRefsFile os a commonDir = Inr packed"
    and "os_Tree os (Join_path [commonDir, ''refs'']) = Inr tree" "tree_ok tree" "listed tree"
  shows "lr_refs r = pr_refs packed ++ refs_below os a commonDir [''refs''] (file_at tree) \<and> lr_traits r = pr_traits packed"
proof -
  let ?refsDir = "Join_path [commonDir, ''refs'']"
  have plain: "list_all plain_element [''refs'']" by (simp add: plain_element_def)
  have dir: "?refsDir = path_of (IsAbs commonDir) (clean_elements commonDir @ [''refs''])" using plain by (rule Join_path_plain) simp
  have base: "Base ?refsDir = ''refs''"
    unfolding dir by (rule Base_path_of) (metis clean_elements_clean clean_list_plain plain)
  obtain refs where refs: "walkLooseRefs os a commonDir (pr_refs packed) = Inr refs" "lr_refs r = refs" "lr_traits r = pr_traits packed"
    using assms(1,2) by (auto simp: openLooseRefs_def split: sum.splits)
  obtain err refs' where w: "walk_tree os a commonDir ?refsDir ''refs'' tree (pr_refs packed) = (err, refs')" by fastforce
  with refs(1) walk_error_exists(1) [OF assms(5)] have "err = None" "refs' = refs"
    by (auto simp: walkLooseRefs_def Let_def assms(3) base split: option.splits if_splits)
  then have "refs = pr_refs packed ++ refs_below os a commonDir [''refs''] (file_at tree)"
    using walk_below(1) [of os a commonDir ?refsDir "''refs''" tree "pr_refs packed" refs "[''refs'']"] w assms(4) plain dir by simp
  with refs(2,3) show ?thesis by simp
qed

section \<open>Symbolic refs\<close>

text \<open>One hop, and \<open>n\<close> hops; where a chain ends, the HEAD it stands for.\<close>

definition hop :: "OS \<Rightarrow> string \<Rightarrow> (string \<rightharpoonup> packedEntry) \<Rightarrow> string \<Rightarrow> string option" where
  "hop os commonDir refs name = (case refs name of
      Some _ \<Rightarrow> None
    | None \<Rightarrow> (case readLooseSymref os commonDir name of Inr (Some next) \<Rightarrow> Some next | _ \<Rightarrow> None))"

fun hops :: "(string \<Rightarrow> string option) \<Rightarrow> nat \<Rightarrow> string \<Rightarrow> string option" where
  "hops f 0 x = Some x"
| "hops f (Suc n) x = (case f x of None \<Rightarrow> None | Some y \<Rightarrow> hops f n y)"

definition head_at :: "OS \<Rightarrow> Algo \<Rightarrow> string \<Rightarrow> (string \<rightharpoonup> packedEntry) \<Rightarrow> string \<Rightarrow> Head option" where
  "head_at os a commonDir refs name = (case refs name of
      Some entry \<Rightarrow> Some \<lparr>hd_Symref = name, hd_OID = pe_oid entry, hd_Unborn = False\<rparr>
    | None \<Rightarrow> (case readLooseSymref os commonDir name of
        Inr None \<Rightarrow> Some \<lparr>hd_Symref = name, hd_OID = zero_hash a, hd_Unborn = True\<rparr>
      | _ \<Rightarrow> None))"

lemma hops_add: "hops f (m + n) x = (case hops f m x of None \<Rightarrow> None | Some y \<Rightarrow> hops f n y)"
  by (induction m arbitrary: x) (auto split: option.split)

lemma hops_cycle: "hops f (Suc k) x = Some x \<Longrightarrow> hops f (Suc k * j) x = Some x"
  by (induction j) (simp_all only: mult_Suc_right mult_0_right hops.simps(1) hops_add [of f "Suc k"] option.case)

lemma hops_cycle_on: "hops f (Suc k) x = Some x \<Longrightarrow> hops f n x \<noteq> None"
proof
  assume x: "hops f (Suc k) x = Some x" "hops f n x = None"
  have "n \<le> Suc k * n" by simp
  then obtain m where "Suc k * n = n + m" using le_Suc_ex by blast
  then have "hops f (Suc k * n) x = None" using x(2) by (simp only: hops_add) simp
  with hops_cycle [OF x(1), of n] show False by simp
qed

lemma hop_head: "head_at os a c refs z = Some h \<Longrightarrow> hop os c refs z = None"
  by (auto simp: head_at_def hop_def split: option.splits sum.splits)

text \<open>A name seen before lies on a cycle, which never ends.\<close>

lemma symref_loop_hops:
  assumes "\<forall>s\<in>set seen. \<exists>k. hops (hop os c refs) (Suc k) s = Some x"
  shows "symref_loop os a c refs m seen x = Inr h \<longleftrightarrow>
    (\<exists>n z. n < m \<and> hops (hop os c refs) n x = Some z \<and> head_at os a c refs z = Some h)"
  using assms
proof (induction m arbitrary: seen x)
  case (Suc m)
  let ?f = "hop os c refs"
  show ?case
  proof (cases "x \<in> set seen")
    case True
    then obtain k where "hops ?f (Suc k) x = Some x" using Suc.prems by auto
    then have on: "hops ?f (n + 1) x \<noteq> None" for n by (rule hops_cycle_on)
    have "head_at os a c refs z \<noteq> Some h" if "hops ?f n x = Some z" for n z
    proof
      assume "head_at os a c refs z = Some h"
      from hop_head [OF this] that have "hops ?f (n + 1) x = None" by (simp only: hops_add) simp
      with on [of n] show False by (rule notE)
    qed
    then have "\<not> (hops ?f n x = Some z \<and> head_at os a c refs z = Some h)" for n z by blast
    with True show ?thesis by auto
  next
    case False
    have split: "(\<exists>n z. n < Suc m \<and> hops ?f n x = Some z \<and> head_at os a c refs z = Some h) \<longleftrightarrow>
        head_at os a c refs x = Some h \<or>
        (\<exists>y. ?f x = Some y \<and> (\<exists>n z. n < m \<and> hops ?f n y = Some z \<and> head_at os a c refs z = Some h))"
      (is "?l \<longleftrightarrow> ?r")
    proof
      assume ?l
      then obtain n z where n: "n < Suc m" "hops ?f n x = Some z" "head_at os a c refs z = Some h" by blast
      then show ?r by (cases n) (auto split: option.splits)
    next
      assume ?r
      then show ?l
      proof
        assume "head_at os a c refs x = Some h"
        then show ?l by (intro exI [of _ 0] exI [of _ x]) simp
      next
        assume "\<exists>y. ?f x = Some y \<and> (\<exists>n z. n < m \<and> hops ?f n y = Some z \<and> head_at os a c refs z = Some h)"
        then obtain y n z where "?f x = Some y" "n < m" "hops ?f n y = Some z" "head_at os a c refs z = Some h" by blast
        then show ?l by (intro exI [of _ "Suc n"] exI [of _ z]) simp
      qed
    qed
    have next': "\<forall>s\<in>set (x # seen). \<exists>k. hops ?f (Suc k) s = Some y" if y: "?f x = Some y" for y
    proof
      fix s assume "s \<in> set (x # seen)"
      then consider "s = x" | "s \<in> set seen" by auto
      then show "\<exists>k. hops ?f (Suc k) s = Some y"
      proof cases
        case 1
        with y show ?thesis by (intro exI [of _ 0]) simp
      next
        case 2
        with Suc.prems obtain k where "hops ?f (Suc k) s = Some x" by blast
        then have "hops ?f (Suc k + 1) s = Some y" using y by (simp only: hops_add) simp
        then show ?thesis by auto
      qed
    qed
    show ?thesis
    proof (cases "?f x")
      case None
      with False show ?thesis unfolding split
        by (auto simp: head_at_def hop_def split: option.splits sum.splits)
    next
      case (Some y)
      then have "refs x = None" "readLooseSymref os c x = Inr (Some y)"
        by (auto simp: hop_def split: option.splits sum.splits)
      with False Some show ?thesis unfolding split
        using Suc.IH [OF next' [OF Some]] by (simp add: head_at_def)
    qed
  qed
qed simp

text \<open>A valid ref name is plain elements joined.\<close>

lemma components_path_elements: "path_elements cur s = (cur @ hd (components s)) # tl (components s)"
  by (induction s arbitrary: cur) (auto simp: hd_Cons_tl)

lemma refname_elements:
  assumes "checkRefnameFormat name"
  shows "list_all plain_element (path_elements [] name)"
proof -
  have "path_elements [] name = components name" using components_path_elements [of "[]" name] by simp
  moreover have "CHR ''/'' \<notin> set e" if "e \<in> set (path_elements [] name)" for e
    using path_elements_no_slash [of "[]" name] that by (simp add: list_all_iff)
  moreover have "list_all component_ok (components name)" using assms by (simp add: checkRefnameFormat_conv refname_ok_def)
  ultimately show ?thesis by (fastforce simp: list_all_iff plain_element_def component_ok_def)
qed

section \<open>A sample repository\<close>

definition refs_tree :: dir_tree where
  "refs_tree = Directory [(''heads'', Directory [(''.gitkeep'', Regular_File), (''main'', Regular_File)] None)] None"

definition refs_os :: OS where
  "refs_os = \<lparr>os_Open = (\<lambda>p. if p = ''/r/packed-refs'' then Inr \<lparr>src_rest = packed_file None sample_entries, src_end = io_EOF\<rparr> else Inl os_ErrNotExist),
     os_ReadFile = (\<lambda>p. if p = ''/r/HEAD'' then Inr (''ref: refs/heads/main'' @ [CHR 0x0A])
       else if p = ''/r/refs/heads/main'' then Inr (replicate 40 (CHR ''4'') @ [CHR 0x0A]) else Inl os_ErrNotExist),
     os_Stat = (\<lambda>_. Inl os_ErrNotExist), os_ReadDir = (\<lambda>_. Inl os_ErrNotExist),
     os_Tree = (\<lambda>p. if p = ''/r/refs'' then Inr refs_tree else Inl os_ErrNotExist)\<rparr>"

definition sample_refs :: "string \<rightharpoonup> packedEntry" where
  "sample_refs = (map_of (rev sample_entries))(''refs/heads/main'' \<mapsto> (zero_entry SHA1)\<lparr>pe_oid := replicate 20 (CHR ''D'')\<rparr>)"

lemma sample_paths:
  "Join_path [''/r'', ''packed-refs''] = ''/r/packed-refs''" "Join_path [''/r'', ''refs''] = ''/r/refs''" "Base ''/r/refs'' = ''refs''"
  "Join_path [''/r'', ''HEAD''] = ''/r/HEAD''" "Join_path [''/r/refs'', ''heads''] = ''/r/refs/heads''"
  "Join_path [''/r/refs/heads'', ''main''] = ''/r/refs/heads/main''" "Rel ''/r'' ''/r/refs/heads/main'' = Inr ''refs/heads/main''"
  by code_simp+

lemma sample_parse: "ParseHexAs SHA1 (ref_content (replicate 40 (CHR ''4'') @ [CHR 0x0A])) = Inr (replicate 20 (CHR ''D''))"
proof -
  have "Hex (replicate n (CHR ''D'')) = replicate (2 * n) (CHR ''4'')" for n by (induction n) (simp_all add: hex_digits_def)
  from this [of 20] have "replicate 40 (CHR ''4'') = Hex (replicate 20 (CHR ''D''))" by simp
  moreover have "ref_content (replicate 40 (CHR ''4'') @ [CHR 0x0A]) = replicate 40 (CHR ''4'')" by code_simp
  ultimately show ?thesis by (simp only: ParseHexAs_Hex wf_hash_def length_replicate) (simp add: ParseHexAs_Hex wf_hash_def)
qed

lemma sample_packed: "readPackedRefsFile refs_os SHA1 ''/r'' = Inr \<lparr>pr_refs = map_of (rev sample_entries), pr_traits = no_traits\<rparr>"
  unfolding readPackedRefsFile_def Let_def sample_paths
  by (simp add: refs_os_def parsePackedRefs_file [OF sample_entries_ok])

lemma sample_open:
  "\<exists>r. openLooseRefs refs_os SHA1 ''/r'' ''/r'' = Inr r \<and> lr_refs r = sample_refs \<and>
    lr_head r = \<lparr>hd_Symref = ''refs/heads/main'', hd_OID = replicate 20 (CHR ''D''), hd_Unborn = False\<rparr>"
proof -
  have c: "ref_content (replicate 40 (CHR ''4'') @ [CHR 0x0A]) = replicate 40 (CHR ''4'')"
    "parseSymrefTarget (ref_content (''ref: refs/heads/main'' @ [CHR 0x0A])) = Inr (Some ''refs/heads/main'')"
    "ref_content (''ref: refs/heads/main'' @ [CHR 0x0A]) \<noteq> []" by code_simp+
  have f: "os_Tree refs_os ''/r/refs'' = Inr refs_tree" "os_ReadFile refs_os ''/r/HEAD'' = Inr (''ref: refs/heads/main'' @ [CHR 0x0A])"
    "os_ReadFile refs_os ''/r/refs/heads/main'' = Inr (replicate 40 (CHR ''4'') @ [CHR 0x0A])"
    by (simp_all add: refs_os_def)
  have "\<not> HasPrefix (replicate 40 (CHR ''4'')) ''ref:''" "replicate 40 (CHR ''4'') \<noteq> []" by code_simp+
  then have v: "visit_ref refs_os SHA1 ''/r'' ''/r/refs/heads/main'' ''main'' (map_of (rev sample_entries)) = (None, sample_refs)"
    using sample_parse by (simp add: visit_ref_def f c(1) sample_paths sample_refs_def del: replicate.simps)
  have k: "visit_ref refs_os SHA1 ''/r'' p ''.gitkeep'' m = (None, m)" for p m by (simp add: visit_ref_def)
  have w: "walkLooseRefs refs_os SHA1 ''/r'' (map_of (rev sample_entries)) = Inr sample_refs"
    unfolding walkLooseRefs_def Let_def sample_paths f refs_tree_def by (simp add: sample_paths v k)
  have "sample_refs ''refs/heads/main'' = Some ((zero_entry SHA1)\<lparr>pe_oid := replicate 20 (CHR ''D'')\<rparr>)"
    unfolding sample_refs_def by (rule fun_upd_same)
  then have h: "resolveHead refs_os SHA1 ''/r'' ''/r'' sample_refs =
      Inr \<lparr>hd_Symref = ''refs/heads/main'', hd_OID = replicate 20 (CHR ''D''), hd_Unborn = False\<rparr>"
    unfolding resolveHead_def Let_def sample_paths f using c(2,3)
    by (simp add: followSymrefChain_def maxRefDepth_def eval_nat_numeral)
  show ?thesis unfolding openLooseRefs_def sample_packed by (simp add: w h)
qed

section \<open>What the walk takes and skips\<close>

text \<open>
  The walk registers every regular file, whatever its name: the lock file Git writes beside a ref it updates is listed
  as a ref, and where it is still empty the repository does not open. A directory that vanishes during the walk
  (Git removes empty ones when it packs refs) ends it without an error: the refs that follow are missing.
\<close>

lemma lock_file_is_a_ref:
  "snd (visit_ref (refs_os\<lparr>os_ReadFile := (\<lambda>_. Inr (replicate 40 (CHR ''4'') @ [CHR 0x0A]))\<rparr>) SHA1 ''/r'' ''/r/refs/heads/main.lock''
    ''main.lock'' Map.empty) ''refs/heads/main.lock'' \<noteq> None"
  "fst (visit_ref (refs_os\<lparr>os_ReadFile := (\<lambda>_. Inr [])\<rparr>) SHA1 ''/r'' ''/r/refs/heads/main.lock'' ''main.lock'' Map.empty) \<noteq> None"
  "\<not> checkRefnameFormat ''refs/heads/main.lock''"
proof -
  have p: "Rel ''/r'' ''/r/refs/heads/main.lock'' = Inr ''refs/heads/main.lock''" by code_simp
  have c: "ref_content (replicate 40 (CHR ''4'') @ [CHR 0x0A]) = replicate 40 (CHR ''4'')" "ref_content [] = []" by code_simp+
  have "\<not> HasPrefix (replicate 40 (CHR ''4'')) ''ref:''" "replicate 40 (CHR ''4'') \<noteq> []" by code_simp+
  then show "snd (visit_ref (refs_os\<lparr>os_ReadFile := (\<lambda>_. Inr (replicate 40 (CHR ''4'') @ [CHR 0x0A]))\<rparr>) SHA1 ''/r'' ''/r/refs/heads/main.lock''
      ''main.lock'' Map.empty) ''refs/heads/main.lock'' \<noteq> None"
    using sample_parse by (simp add: visit_ref_def c p del: replicate.simps)
  show "fst (visit_ref (refs_os\<lparr>os_ReadFile := (\<lambda>_. Inr [])\<rparr>) SHA1 ''/r'' ''/r/refs/heads/main.lock'' ''main.lock'' Map.empty) \<noteq> None"
    by (simp add: visit_ref_def c)
  show "\<not> checkRefnameFormat ''refs/heads/main.lock''" by code_simp
qed

lemma vanished_directory_ends_walk:
  assumes "os_Tree os (Join_path [c, ''refs'']) = Inr (Directory ((name, Directory [] (Some os_ErrNotExist)) # ents) None)"
  shows "walkLooseRefs os a c refs = Inr refs"
  by (simp add: walkLooseRefs_def Let_def assms)

section \<open>Properties\<close>






end
