(* ===== verification/Reftable_Refs.thy ===== *)
theory Reftable_Refs
  imports Loose_Refs Reftable_Stack
begin

text \<open>
  Refs from a reftable stack: \<open>src/internal/objstore/reftable_backend.go\<close>, over \<open>Reftable_Stack\<close>. The interface value
  that holds one of the two backends (\<open>ref_backend.go\<close>) is the datatype \<open>refBackend\<close>; its operations are the dispatch.

  Both implementations, and the dispatch, interpret the contract \<open>ref_backend\<close>.
\<close>

section \<open>The code\<close>

record reftableBackend =
  rb_gitDir :: string
  rb_commonDir :: string
  rb_location :: string
  rb_stack :: Stack
  rb_head :: Head

definition resolveReftableDir :: "string \<Rightarrow> string \<Rightarrow> string \<Rightarrow> string" where
  "resolveReftableDir gitDir commonDir location =
     (if location = [] then Join_path [commonDir, ''reftable'']
      else if IsAbs location then Clean location
      else Clean (Join_path [gitDir, location]))"

definition resolveReftableHead :: "Algo \<Rightarrow> Stack \<Rightarrow> go_error + Head" where
  "resolveReftableHead a stack = (case Stack_FindRef stack ''HEAD'' of
      None \<Rightarrow> Inl (Wrapf ''objstore: HEAD record absent from reftable stack: '' ErrCorruptObject [])
    | Some rec \<Rightarrow>
        if length (rec_Target rec) \<noteq> 0 then
          let target = rec_Target rec in
          (case Stack_FindRef stack target of
            None \<Rightarrow> Inr \<lparr>hd_Symref = target, hd_OID = zero_hash a, hd_Unborn = True\<rparr>
          | Some tgtRec \<Rightarrow> Inr \<lparr>hd_Symref = target, hd_OID = rec_Value tgtRec, hd_Unborn = False\<rparr>)
        else if \<not> IsZero (rec_Value rec) then Inr \<lparr>hd_Symref = [], hd_OID = rec_Value rec, hd_Unborn = False\<rparr>
        else Inl (Wrapf ''objstore: HEAD record present but empty: '' ErrCorruptObject []))"

definition openReftableBackend :: "OS \<Rightarrow> Algo \<Rightarrow> string \<Rightarrow> string \<Rightarrow> string \<Rightarrow> go_error + reftableBackend" where
  "openReftableBackend os a gitDir commonDir location =
     (let reftableDir = resolveReftableDir gitDir commonDir location in
      case OpenStack a (os_ReadFile os) (\<lambda>d n. Join_path [d, n]) reftableDir of
        Inl err \<Rightarrow> Inl (Wrapf (''objstore: open reftable '' @ reftableDir @ '': '') err [])
      | Inr stack \<Rightarrow> (case resolveReftableHead a stack of
          Inl err \<Rightarrow> Inl err
        | Inr head \<Rightarrow> Inr \<lparr>rb_gitDir = gitDir, rb_commonDir = commonDir, rb_location = location, rb_stack = stack, rb_head = head\<rparr>))"

definition reftableBackend_Head :: "reftableBackend \<Rightarrow> go_error + Head" where
  "reftableBackend_Head b = Inr (rb_head b)"

definition refEntryFromReftable :: "RefRecord \<Rightarrow> RefEntry" where
  "refEntryFromReftable rec =
     \<lparr>re_Name = rec_Name rec, re_OID = rec_Value rec, re_Peeled = rec_Peeled rec, re_PeelKnown = True\<rparr>"

definition zero_RefEntry :: "Hash \<Rightarrow> RefEntry" where
  "zero_RefEntry z = \<lparr>re_Name = [], re_OID = z, re_Peeled = z, re_PeelKnown = False\<rparr>"

text \<open>The body of the loop over the stack's records.\<close>

definition reftable_body ::
  "(RefEntry \<times> go_error option \<Rightarrow> 's \<Rightarrow> bool \<times> 's) \<Rightarrow> RefRecord \<times> go_error option \<Rightarrow> 's \<Rightarrow> bool \<times> 's" where
  "reftable_body yield item s = (case item of
      (rec, Some err) \<Rightarrow> (False, snd (yield (zero_RefEntry (rec_Value rec), Some err) s))
    | (rec, None) \<Rightarrow>
        if rec_Name rec = ''HEAD'' then (True, s)
        else if length (rec_Target rec) \<noteq> 0 then (True, s)
        else yield (refEntryFromReftable rec, None) s)"

definition reftableBackend_IterRefs :: "reftableBackend \<Rightarrow> (RefEntry \<times> go_error option \<Rightarrow> 's \<Rightarrow> bool \<times> 's) \<Rightarrow> 's \<Rightarrow> 's" where
  "reftableBackend_IterRefs b yield = Stack_IterRefs (rb_stack b) (reftable_body yield)"

definition reftableBackend_Lookup :: "reftableBackend \<Rightarrow> string \<Rightarrow> go_error + RefEntry option" where
  "reftableBackend_Lookup b name =
     (if name = ''HEAD'' then Inr None
      else case Stack_FindRef (rb_stack b) name of
        None \<Rightarrow> Inr None
      | Some rec \<Rightarrow> if length (rec_Target rec) \<noteq> 0 then Inr None else Inr (Some (refEntryFromReftable rec)))"

definition reftableBackend_Close :: "(reftable_Reader \<Rightarrow> go_error option) \<Rightarrow> reftableBackend \<Rightarrow> go_error option \<times> reftableBackend" where
  "reftableBackend_Close unmap b = (case Stack_Close unmap (rb_stack b) of (err, stack) \<Rightarrow> (err, b\<lparr>rb_stack := stack\<rparr>))"

section \<open>The contract\<close>

text \<open>What an opened stack guarantees: its sorted names are those of its records, which carry their names.\<close>

definition stack_ok :: "Stack \<Rightarrow> bool" where
  "stack_ok s \<longleftrightarrow> distinct (map fst (sk_merged s)) \<and> sk_sorted s = sort (map fst (sk_merged s)) \<and>
     (\<forall>(name, rec) \<in> set (sk_merged s). rec_Name rec = name)"

definition reftable_entries :: "reftableBackend \<Rightarrow> RefEntry list" where
  "reftable_entries b = map fst (reftableBackend_IterRefs b collect [])"

definition observable :: "RefRecord \<Rightarrow> bool" where
  "observable rec \<longleftrightarrow> rec_Name rec \<noteq> ''HEAD'' \<and> rec_Target rec = []"

lemma feed_reftable_body:
  "feed (reftable_body yield) (map (\<lambda>n. (f n, None)) names) s =
   feed yield (map (\<lambda>r. (refEntryFromReftable r, None)) (filter observable (map f names))) s"
  by (induction names arbitrary: s) (auto simp: reftable_body_def observable_def split: prod.split)

lemma reftableBackend_IterRefs_feed:
  "reftableBackend_IterRefs b yield s = feed yield (map (\<lambda>r. (refEntryFromReftable r, None))
    (filter observable (map (\<lambda>n. the (map_of (sk_merged (rb_stack b)) n)) (sk_sorted (rb_stack b))))) s"
  by (simp add: reftableBackend_IterRefs_def Stack_IterRefs_def Stack_iter_feed feed_reftable_body)

lemma reftable_entries_eq:
  "reftable_entries b = map refEntryFromReftable
    (filter observable (map (\<lambda>n. the (map_of (sk_merged (rb_stack b)) n)) (sk_sorted (rb_stack b))))"
  by (simp add: reftable_entries_def reftableBackend_IterRefs_feed comp_def)

lemma refEntryFromReftable_Name [simp]: "re_Name (refEntryFromReftable r) = rec_Name r"
  by (simp add: refEntryFromReftable_def)

lemma sorted_filter_names: "sorted ns \<Longrightarrow> sorted (filter P ns)" for ns :: "string list"
  using sorted_filter [of "\<lambda>x. x" ns P] by simp

lemma stack_names:
  assumes "stack_ok s" "n \<in> set (sk_sorted s)"
  shows "rec_Name (the (map_of (sk_merged s) n)) = n"
proof -
  have "n \<in> fst ` set (sk_merged s)" using assms by (auto simp: stack_ok_def)
  then obtain r where "map_of (sk_merged s) n = Some r" by (metis map_of_eq_None_iff not_None_eq)
  with assms(1) map_of_SomeD [OF this] show ?thesis by (auto simp: stack_ok_def)
qed

interpretation reftable: ref_backend "\<lambda>b :: reftableBackend. stack_ok (rb_stack b)" reftable_entries reftableBackend_Lookup
proof unfold_locales
  fix b :: reftableBackend
  let ?s = "rb_stack b"
  assume ok: "stack_ok ?s"
  let ?recs = "map (\<lambda>n. the (map_of (sk_merged ?s) n)) (sk_sorted ?s)"
  have names: "\<forall>n \<in> set ns. rec_Name (f n) = n \<Longrightarrow> map rec_Name (filter observable (map f ns)) = filter (\<lambda>n. observable (f n)) ns" for f ns
    by (induction ns) auto
  have "map rec_Name (filter observable ?recs) = filter (\<lambda>n. observable (the (map_of (sk_merged ?s) n))) (sk_sorted ?s)"
    by (rule names) (simp add: stack_names [OF ok])
  moreover have "sorted (sk_sorted ?s)" "distinct (sk_sorted ?s)" using ok by (simp_all add: stack_ok_def)
  ultimately show "sorted (map re_Name (reftable_entries b)) \<and> distinct (map re_Name (reftable_entries b))"
    by (simp add: reftable_entries_eq comp_def sorted_filter_names)
next
  fix b :: reftableBackend and name
  let ?s = "rb_stack b" and ?get = "\<lambda>n. the (map_of (sk_merged (rb_stack b)) n)"
  assume ok: "stack_ok ?s"
  have set: "set (sk_sorted ?s) = dom (map_of (sk_merged ?s))" using ok by (simp add: stack_ok_def dom_map_of_conv_image_fst)
  have names: "\<forall>n \<in> set ns. rec_Name (?get n) = n \<Longrightarrow> map_of (map (\<lambda>r. (rec_Name r, refEntryFromReftable r)) (filter observable (map ?get ns))) name =
      (if name \<in> set ns \<and> observable (?get name) then Some (refEntryFromReftable (?get name)) else None)" for ns
    by (induction ns) auto
  show "reftableBackend_Lookup b name = Inr (map_of (map (\<lambda>e. (re_Name e, e)) (reftable_entries b)) name)"
  proof (cases "map_of (sk_merged ?s) name")
    case None
    with names [of "sk_sorted ?s"] stack_names [OF ok] set show ?thesis
      by (auto simp: reftable_entries_eq reftableBackend_Lookup_def Stack_FindRef_def comp_def domIff)
  next
    case (Some r)
    with stack_names [OF ok, of name] set have "rec_Name r = name" by (simp add: domI)
    with Some names [of "sk_sorted ?s"] stack_names [OF ok] set show ?thesis
      by (auto simp: reftable_entries_eq reftableBackend_Lookup_def Stack_FindRef_def comp_def observable_def)
  qed
qed

text \<open>Whatever the tables hold, an opened stack is one: the walk keeps what its consumer keeps.\<close>

lemma block_refs_keeps:
  "(\<And>item s. P s \<Longrightarrow> P (snd (yield item s))) \<Longrightarrow> P s \<Longrightarrow> P (snd (snd (block_refs yield a mui pos b cur prev s)))"
proof (induction yield a mui pos b cur prev s rule: block_refs.induct)
  case (1 yield a mui pos b cur prev s)
  show ?case
  proof (cases "cur < recordsEnd b")
    case False
    with 1(3) show ?thesis by (subst block_refs.simps) simp
  next
    case True
    show ?thesis
    proof (cases "decodeRefRecord a (records_from b cur) prev mui")
      case (Inl err)
      with True 1(2,3) show ?thesis by (subst block_refs.simps) simp
    next
      case (Inr x)
      obtain rec n where x: "x = (rec, n)" by fastforce
      obtain go_on s' where y: "yield (rec, None) s = (go_on, s')" by fastforce
      have s': "P s'" using 1(2) [OF 1(3), of "(rec, None)"] y by simp
      show ?thesis
      proof (cases go_on)
        case True
        have "P (snd (snd (block_refs yield a mui pos b (cur + word_of_nat n) (rr_Name rec) s')))"
          using 1(1) [OF \<open>cur < recordsEnd b\<close> Inr x [symmetric] y [symmetric]] True 1(2) s' by blast
        with \<open>cur < recordsEnd b\<close> Inr x y True show ?thesis by (subst block_refs.simps) simp
      next
        case False
        with \<open>cur < recordsEnd b\<close> Inr x y s' show ?thesis by (subst block_refs.simps) simp
      qed
    qed
  qed
qed

lemma iter_blocks_keeps:
  assumes "\<And>item s. P s \<Longrightarrow> P (snd (yield item s))"
  shows "P s \<Longrightarrow> P (iter_blocks yield a f h pos first prev s)"
proof (induction "4294967296 - unat pos" arbitrary: pos first prev s rule: less_induct)
  case less
  let ?fbo = "if first then word_of_nat (h_size h) else 0 :: u32" and ?slice = "if first then f else drop (unat pos) f"
  show ?case
  proof (cases "parseBlock ?slice ?fbo")
    case (Inl err)
    with less(2) assms show ?thesis by (subst iter_blocks.simps) (simp add: Let_def)
  next
    case (Inr b)
    obtain ret prev' s' where br: "block_refs yield a (h_minUpdateIndex h) pos b (?fbo + 4) prev s = (ret, prev', s')"
      by (metis prod_cases3)
    have s': "P s'" using block_refs_keeps [of P yield s a "h_minUpdateIndex h" pos b "?fbo + 4" prev] assms less(2) br by simp
    have "P (iter_blocks yield a f h q False prev' s')" if "\<not> q \<le> pos" for q
      using less(1) [of q s' False prev'] s' that advances [of pos q] by (simp add: not_le)
    with Inr br less(2) s' assms show ?thesis
      by (subst iter_blocks.simps) (simp add: Let_def)
  qed
qed

definition merged_ok :: "(string \<times> RefRecord) list \<Rightarrow> bool" where
  "merged_ok m \<longleftrightarrow> distinct (map fst m) \<and> (\<forall>(name, rec) \<in> set m. rec_Name rec = name)"

lemma merge_body_keeps: "merged_ok (snd st) \<Longrightarrow> merged_ok (snd (snd (merge_body item st)))"
proof -
  assume m: "merged_ok (snd st)"
  obtain rec err where item: "item = (rec, err)" by fastforce
  have "set (AList.delete k m') \<subseteq> set m'" for k and m' :: "(string \<times> RefRecord) list" by (auto simp: AList.delete_eq)
  moreover have "set (AList.update k v m') \<subseteq> insert (k, v) (set m')" for k v and m' :: "(string \<times> RefRecord) list"
    by (induction m') auto
  moreover have "rec_Name (liftRefRecord rec) = rr_Name rec" by (simp add: liftRefRecord_def)
  ultimately show ?thesis
    using m by (cases err) (fastforce simp: item merge_body_def merged_ok_def intro: distinct_delete distinct_update)+
qed

lemma merge_tables_ok: "merge_tables a rs merged = Inr merged' \<Longrightarrow> merged_ok merged \<Longrightarrow> merged_ok merged'"
proof (induction rs arbitrary: merged)
  case (Cons r rs)
  have "merged_ok (snd (iterAllRefs a r merge_body (None, merged)))"
    unfolding iterAllRefs_def
    by (rule iter_blocks_keeps [where P = "\<lambda>st. merged_ok (snd st)"]) (simp_all add: merge_body_keeps Cons.prems(2))
  with Cons show ?case by (auto split: prod.splits option.splits)
qed simp

lemma OpenStack_ok: "OpenStack a fs join dir = Inr s \<Longrightarrow> stack_ok s"
  using merge_tables_ok [of a _ "[]"]
  by (fastforce simp: OpenStack_def Let_def stack_ok_def merged_ok_def split: sum.splits if_splits)

lemma openReftableBackend_ok: "openReftableBackend os a gitDir commonDir location = Inr b \<Longrightarrow> stack_ok (rb_stack b)"
  by (auto simp: openReftableBackend_def Let_def OpenStack_ok split: sum.splits)

section \<open>Either backend\<close>

datatype refBackend = LooseBackend looseRefs | ReftableBackend reftableBackend

primrec refs_Head :: "refBackend \<Rightarrow> go_error + Head" where
  "refs_Head (LooseBackend r) = looseRefs_Head r"
| "refs_Head (ReftableBackend b) = reftableBackend_Head b"

primrec refs_IterRefs :: "refBackend \<Rightarrow> (RefEntry \<times> go_error option \<Rightarrow> 's \<Rightarrow> bool \<times> 's) \<Rightarrow> 's \<Rightarrow> 's" where
  "refs_IterRefs (LooseBackend r) = looseRefs_IterRefs r"
| "refs_IterRefs (ReftableBackend b) = reftableBackend_IterRefs b"

primrec refs_Lookup :: "refBackend \<Rightarrow> string \<Rightarrow> go_error + RefEntry option" where
  "refs_Lookup (LooseBackend r) = looseRefs_Lookup r"
| "refs_Lookup (ReftableBackend b) = reftableBackend_Lookup b"

primrec refs_Close :: "(reftable_Reader \<Rightarrow> go_error option) \<Rightarrow> refBackend \<Rightarrow> go_error option \<times> refBackend" where
  "refs_Close unmap (LooseBackend r) = (looseRefs_Close r, LooseBackend r)"
| "refs_Close unmap (ReftableBackend b) = (case reftableBackend_Close unmap b of (err, b) \<Rightarrow> (err, ReftableBackend b))"

primrec refs_ok :: "refBackend \<Rightarrow> bool" where
  "refs_ok (LooseBackend r) = loose_ok r"
| "refs_ok (ReftableBackend b) = stack_ok (rb_stack b)"

definition refs_entries :: "refBackend \<Rightarrow> RefEntry list" where
  "refs_entries b = map fst (refs_IterRefs b collect [])"

lemma refs_entries_simps [simp]:
  "refs_entries (LooseBackend r) = loose_entries r" "refs_entries (ReftableBackend b) = reftable_entries b"
  by (simp_all add: refs_entries_def loose_entries_def reftable_entries_def)

interpretation refs: ref_backend refs_ok refs_entries refs_Lookup
proof unfold_locales
  fix b
  assume "refs_ok b"
  then show "sorted (map re_Name (refs_entries b)) \<and> distinct (map re_Name (refs_entries b))"
    using loose.names_sorted reftable.names_sorted by (cases b) auto
next
  fix b name
  assume "refs_ok b"
  then show "refs_Lookup b name = Inr (map_of (map (\<lambda>e. (re_Name e, e)) (refs_entries b)) name)"
    using loose.lookup_entry reftable.lookup_entry by (cases b) auto
qed

text \<open>An iteration of either backend never yields an error.\<close>

lemma refs_IterRefs_feed: "refs_IterRefs b yield s = feed yield (map (\<lambda>e. (e, None)) (refs_entries b)) s"
  by (cases b) (simp_all add: looseRefs_IterRefs_def loose_iter_feed loose_entries_eq reftableBackend_IterRefs_feed
      reftable_entries_eq comp_def)

section \<open>HEAD\<close>

text \<open>
  HEAD is followed for one hop only. Where its target is itself a symbolic ref, the record has no id: the result is
  a symbolic HEAD that is not unborn and has the zero id, which the file backend never gives.
\<close>

definition symref_record :: "string \<Rightarrow> string \<Rightarrow> RefRecord" where
  "symref_record name target = \<lparr>rec_Name = name, rec_Target = target, rec_Value = zero_hash SHA1, rec_Peeled = zero_hash SHA1\<rparr>"

definition chained_stack :: Stack where
  "chained_stack = \<lparr>sk_readers = [],
     sk_merged = [(''HEAD'', symref_record ''HEAD'' ''refs/heads/a''), (''refs/heads/a'', symref_record ''refs/heads/a'' ''refs/heads/b'')],
     sk_sorted = [''HEAD'', ''refs/heads/a''], sk_algo = Some SHA1\<rparr>"

lemma reftable_head_one_hop:
  "resolveReftableHead SHA1 chained_stack =
    Inr \<lparr>hd_Symref = ''refs/heads/a'', hd_OID = zero_hash SHA1, hd_Unborn = False\<rparr>"
  by (simp add: resolveReftableHead_def chained_stack_def Stack_FindRef_def symref_record_def)

section \<open>Properties\<close>


text \<open>One table: a symbolic HEAD and the ref it names.\<close>

definition head_entries :: "ref_entry list" where
  "head_entries = [(0, 0, \<lparr>rr_Name = ''HEAD'', rr_Target = ''b'', rr_Value = zero_hash SHA1, rr_Peeled = zero_hash SHA1, rr_ValueType = 3\<rparr>),
     (0, 0, sample_record ''b'' 1)]"

definition reftable_os :: OS where
  "reftable_os = refs_os\<lparr>os_ReadFile := (\<lambda>p. if p = ''/r/reftable/tables.list'' then Inr (lines_of [''1''])
     else if p = ''/r/reftable/1'' then Inr (table_bytes (sample_table head_entries)) else Inl os_ErrNotExist)\<rparr>"

lemma head_table_ok: "table_ok SHA1 (sample_table head_entries)"
proof -
  have "length (encodeVarint n) = 1" if "n < 128" for n
    using that by (simp add: encodeVarint_def encode_high.simps [of 0])
  then have l: "length (encode_records head_entries) \<le> 100"
    by (simp add: head_entries_def encodeRefRecord_def encodeKey_def sample_record_def encode_value_def refValue_defs zero_hash_def)
  have w: "wf_records SHA1 0 [] head_entries"
    by (simp add: head_entries_def sample_record_def wf_record_def key_fits_def refValue_defs wf_hash_def zero_hash_def)
  show ?thesis
    using l w
    by (simp add: table_ok_def sample_table_def wf_table_def wf_header_def wf_layout_def length_encodeHeader h_size_def
        format_defs(1-5) encode_table_def Let_def aligned_def length_encode_block length_encodeFooter h_footerSize_def)
qed

lemma sample_reftable_opens:
  "\<exists>b. openReftableBackend reftable_os SHA1 ''/r'' ''/r'' [] = Inr b \<and>
    rb_head b = \<lparr>hd_Symref = ''b'', hd_OID = zero_hash SHA1, hd_Unborn = False\<rparr> \<and>
    Stack_FindRef (rb_stack b) ''b'' = Some (liftRefRecord (sample_record ''b'' 1))"
proof -
  let ?fs = "os_ReadFile reftable_os" and ?join = "\<lambda>d n. Join_path [d, n]" and ?ts = "[sample_table head_entries]"
  have p: "resolveReftableDir ''/r'' ''/r'' [] = ''/r/reftable''" "Join_path [''/r/reftable'', ''tables.list''] = ''/r/reftable/tables.list''"
    "Join_path [''/r/reftable'', ''1''] = ''/r/reftable/1''" by code_simp+
  have f: "?fs ''/r/reftable/tables.list'' = Inr (lines_of [''1''])" "?fs ''/r/reftable/1'' = Inr (table_bytes (sample_table head_entries))"
    by (simp_all add: reftable_os_def)
  have list: "?fs (?join ''/r/reftable'' ''tables.list'') = Inr (lines_of [''1''])" unfolding p f ..
  have tables: "list_all2 (\<lambda>n t. ?fs (?join ''/r/reftable'' n) = Inr (table_bytes t) \<and> table_ok SHA1 t) [''1''] ?ts"
    using head_table_ok p(3) f(2) by simp
  have "wf_names [''1'']" by (simp add: wf_names_def)
  from OpenStack_view [where fs = ?fs and join = ?join, OF list this tables]
  obtain s where s: "OpenStack SHA1 ?fs ?join ''/r/reftable'' = Inr s" "map_of (sk_merged s) = view (table_entries ?ts)" by blast
  have "table_entries ?ts = head_entries" by (simp add: table_entries_def sample_table_def block_entries_def)
  then have v: "view (table_entries ?ts) ''HEAD'' = Some \<lparr>rec_Name = ''HEAD'', rec_Target = ''b'', rec_Value = zero_hash SHA1, rec_Peeled = zero_hash SHA1\<rparr>"
    "view (table_entries ?ts) ''b'' = Some (liftRefRecord (sample_record ''b'' 1))"
    by (simp_all add: view_def newest_def head_entries_def entry_record_def sample_record_def refValue_defs liftRefRecord_def)
  have "resolveReftableHead SHA1 s = Inr \<lparr>hd_Symref = ''b'', hd_OID = zero_hash SHA1, hd_Unborn = False\<rparr>"
    unfolding resolveReftableHead_def Stack_FindRef_def s(2) v by (simp add: v liftRefRecord_def sample_record_def)
  then show ?thesis
    unfolding openReftableBackend_def Let_def p(1) s(1) by (simp add: Stack_FindRef_def s(2) v(2))
qed


end
