(* ===== verification/Store_Config.thy ===== *)
theory Store_Config
  imports Go_Filesystem Packed_Refs
begin

text \<open>
  The configuration of a repository (\<open>src/internal/objstore/config.go\<close>): which hash it uses and where its refs are.

  The loop's local variables are the pair of the flag \<open>inExtensions\<close> and the map. \<open>strings.EqualFold\<close> and
  \<open>strings.ToLower\<close> are written out as far as their results can be ASCII text, which is all they are compared with here:
  the long s folds to s, the Kelvin sign and the dotted I are lowered to k and i.

  The property: of a file as Git writes it the reader takes exactly the last value of every key of the sections
  named \<open>extensions\<close>, and nothing of any other section.
\<close>

section \<open>Letters\<close>

text \<open>\<open>strings.EqualFold\<close> with an ASCII text on the right.\<close>

fun EqualFold :: "string \<Rightarrow> string \<Rightarrow> bool" where
  "EqualFold [] [] \<longleftrightarrow> True"
| "EqualFold (c # s) (d # t) \<longleftrightarrow>
     ascii_lower c = ascii_lower d \<and> EqualFold s t \<or>
     c = CHR 0xC5 \<and> ascii_lower d = CHR ''s'' \<and> (case s of b # s' \<Rightarrow> b = CHR 0xBF \<and> EqualFold s' t | [] \<Rightarrow> False) \<or>
     c = CHR 0xE2 \<and> ascii_lower d = CHR ''k'' \<and> (case s of b # b' # s' \<Rightarrow> b = CHR 0x84 \<and> b' = CHR 0xAA \<and> EqualFold s' t | _ \<Rightarrow> False)"
| "EqualFold s t \<longleftrightarrow> False"

fun lower_text :: "string \<Rightarrow> string" where
  "lower_text (c # s) =
     (if c = CHR 0xC4 \<and> s \<noteq> [] \<and> hd s = CHR 0xB0 then CHR ''i'' # lower_text (tl s)
      else if c = CHR 0xE2 \<and> take 2 s = [CHR 0x84, CHR 0xAA] then CHR ''k'' # lower_text (drop 2 s)
      else ascii_lower c # lower_text s)"
| "lower_text [] = []"

section \<open>The code\<close>

record refStorageSpec =
  rs_format :: string
  rs_location :: string

record storeConfig =
  cfg_algo :: Algo
  cfg_refStorage :: refStorageSpec
  cfg_verifyCRC :: bool

definition ErrUnsupportedFormat :: go_error where
  "ErrUnsupportedFormat = Sentinel ''objstore: unsupported format''"

definition stripComment :: "string \<Rightarrow> string" where
  "stripComment line = takeWhile (\<lambda>c. c \<noteq> CHR ''#'' \<and> c \<noteq> CHR '';'') line"

definition parseSectionHeader :: "string \<Rightarrow> string option" where
  "parseSectionHeader line =
     (if \<not> HasPrefix line ''['' \<or> \<not> HasSuffix line '']'' then None
      else let inner = TrimSpace (butlast (tl line)) in
        if inner = [] then None
        else Some (takeWhile (\<lambda>c. c \<noteq> CHR '' '' \<and> c \<noteq> CHR 0x09) inner))"

definition splitKeyValue :: "string \<Rightarrow> (string \<times> string) option" where
  "splitKeyValue line = (case Cut line (CHR ''='') of (rawKey, rawValue, found) \<Rightarrow>
     if \<not> found then None
     else let value = TrimSpace rawValue in
       Some (TrimSpace rawKey,
         if 2 \<le> length value \<and> hd value = CHR 0x22 \<and> last value = CHR 0x22 then butlast (tl value) else value))"

definition config_line :: "string \<Rightarrow> bool \<times> (string \<rightharpoonup> string) \<Rightarrow> bool \<times> (string \<rightharpoonup> string)" where
  "config_line text st = (case st of (inExtensions, out) \<Rightarrow>
     let line = TrimSpace (stripComment text) in
     if line = [] then (inExtensions, out)
     else if HasPrefix line ''['' then
       (case parseSectionHeader line of
          None \<Rightarrow> (False, out)
        | Some name \<Rightarrow> (EqualFold name ''extensions'', out))
     else if \<not> inExtensions then (inExtensions, out)
     else (case splitKeyValue line of
         None \<Rightarrow> (inExtensions, out)
       | Some (key, value) \<Rightarrow> (inExtensions, out(lower_text key \<mapsto> value))))"

fun config_loop :: "string list \<Rightarrow> go_error \<Rightarrow> bool \<times> (string \<rightharpoonup> string) \<Rightarrow> go_error + (string \<rightharpoonup> string)" where
  "config_loop [] e st = (if e = io_EOF then Inr (snd st) else Inl e)"
| "config_loop (l # ls) e st =
     (if max_scan_token \<le> length l then Inl bufio_ErrTooLong
      else config_loop ls e (config_line (dropCR l) st))"

definition parseExtensions :: "Source \<Rightarrow> go_error + (string \<rightharpoonup> string)" where
  "parseExtensions r = config_loop (scan_lines [] (src_rest r)) (src_end r) (False, Map.empty)"

definition parseObjectFormat :: "string \<Rightarrow> go_error + Algo" where
  "parseObjectFormat value =
     (if lower_text value = ''sha1'' then Inr SHA1
      else if lower_text value = ''sha256'' then Inr SHA256
      else Inl (Wrapf (''extensions.objectFormat='' @ quote value @ '': '') ErrUnsupportedFormat []))"

text \<open>\<open>strings.Cut\<close> at a string.\<close>

fun CutAt :: "string \<Rightarrow> string \<Rightarrow> string \<times> string \<times> bool" where
  "CutAt [] sep = (if sep = [] then ([], [], True) else ([], [], False))"
| "CutAt (c # s) sep =
     (if HasPrefix (c # s) sep then ([], drop (length sep) (c # s), True)
      else case CutAt s sep of (b, rest, found) \<Rightarrow> (c # b, rest, found))"

definition parseRefStorage :: "string \<Rightarrow> go_error + refStorageSpec" where
  "parseRefStorage value = (case CutAt value ''://'' of (scheme, payload, hasURI) \<Rightarrow>
     if lower_text scheme = ''files'' then Inr \<lparr>rs_format = ''files'', rs_location = payload\<rparr>
     else if lower_text scheme = ''reftable'' then Inr \<lparr>rs_format = ''reftable'', rs_location = payload\<rparr>
     else Inl (Wrapf (''extensions.refStorage='' @ quote value @ '': '') ErrUnsupportedFormat []))"

definition default_config :: storeConfig where
  "default_config = \<lparr>cfg_algo = SHA1, cfg_refStorage = \<lparr>rs_format = ''files'', rs_location = []\<rparr>, cfg_verifyCRC = True\<rparr>"

definition readGitConfig :: "OS \<Rightarrow> string \<Rightarrow> go_error + storeConfig" where
  "readGitConfig os commonDir =
     (let path = Join_path [commonDir, ''config'']; wrap = (\<lambda>err. Inl (Wrapf (''objstore: '' @ path @ '': '') err [])) in
      case os_Open os path of
        Inl err \<Rightarrow>
          if errors_Is err os_ErrNotExist then Inr default_config
          else Inl (Wrapf (''objstore: read '' @ path @ '': '') err [])
      | Inr f \<Rightarrow> (case parseExtensions f of
          Inl err \<Rightarrow> Inl (Wrapf (''objstore: read '' @ path @ '': '') err [])
        | Inr raw \<Rightarrow>
            (case (case raw ''objectformat'' of
                None \<Rightarrow> Inr default_config
              | Some v \<Rightarrow> if v = [] then Inr default_config else
                  (case parseObjectFormat v of Inl err \<Rightarrow> wrap err | Inr a \<Rightarrow> Inr (default_config\<lparr>cfg_algo := a\<rparr>))) of
              Inl err \<Rightarrow> Inl err
            | Inr cfg \<Rightarrow> (case raw ''refstorage'' of
                None \<Rightarrow> Inr cfg
              | Some v \<Rightarrow> if v = [] then Inr cfg else
                  (case parseRefStorage v of Inl err \<Rightarrow> wrap err | Inr spec \<Rightarrow> Inr (cfg\<lparr>cfg_refStorage := spec\<rparr>))))))"

lemma config_examples:
  "fst (config_line ''[core]'' (True, m)) = False" "fst (config_line ''  [ExtenSions]  # x'' (False, m))"
  "fst (config_line (''[extensions '' @ [CHR 0x22] @ ''x'' @ [CHR 0x22] @ '']'') (False, m))"
  "snd (config_line (''refStorage = '' @ [CHR 0x22] @ ''reftable'' @ [CHR 0x22]) (True, m)) ''refstorage'' = Some ''reftable''"
  "EqualFold (''exten'' @ [CHR 0xC5, CHR 0xBF] @ ''ionS'') ''extensions''"
  "parseRefStorage ''reftable:///x'' = Inr \<lparr>rs_format = ''reftable'', rs_location = ''/x''\<rparr>"
  "parseRefStorage ''Files'' = Inr \<lparr>rs_format = ''files'', rs_location = []\<rparr>"
  by code_simp+

section \<open>Files in Git's form\<close>

text \<open>Visible and printable ASCII without the comment characters.\<close>

definition graphic :: "char \<Rightarrow> bool" where
  "graphic c \<longleftrightarrow> 33 \<le> byte_val c \<and> byte_val c \<le> 126 \<and> c \<noteq> CHR ''#'' \<and> c \<noteq> CHR '';''"

definition printable :: "char \<Rightarrow> bool" where
  "printable c \<longleftrightarrow> graphic c \<or> c = CHR '' ''"

record config_section =
  cs_name :: string
  cs_sub :: "string option"
  cs_values :: "(string \<times> string) list"

definition header_line :: "config_section \<Rightarrow> string" where
  "header_line sec = ''['' @ cs_name sec @ (case cs_sub sec of None \<Rightarrow> [] | Some s \<Rightarrow> '' '' @ [CHR 0x22] @ s @ [CHR 0x22]) @ '']''"

definition value_line :: "string \<times> string \<Rightarrow> string" where
  "value_line kv = CHR 0x09 # fst kv @ '' = '' @ snd kv"

definition section_lines :: "config_section \<Rightarrow> string list" where
  "section_lines sec = header_line sec # map value_line (cs_values sec)"

definition config_file :: "config_section list \<Rightarrow> string" where
  "config_file secs = concat (map (\<lambda>l. l @ [CHR 0x0A]) (concat (map section_lines secs)))"

definition wf_value :: "string \<times> string \<Rightarrow> bool" where
  "wf_value kv \<longleftrightarrow> fst kv \<noteq> [] \<and> list_all graphic (fst kv) \<and> hd (fst kv) \<noteq> CHR ''['' \<and> CHR ''='' \<notin> set (fst kv) \<and>
     list_all printable (snd kv) \<and> (snd kv \<noteq> [] \<longrightarrow> graphic (hd (snd kv)) \<and> graphic (last (snd kv)) \<and> hd (snd kv) \<noteq> CHR 0x22)"

definition plain_section :: "config_section \<Rightarrow> bool" where
  "plain_section sec \<longleftrightarrow> cs_name sec \<noteq> [] \<and> list_all graphic (cs_name sec) \<and>
     (case cs_sub sec of None \<Rightarrow> True | Some s \<Rightarrow> list_all printable s) \<and> list_all wf_value (cs_values sec)"

definition wf_section :: "config_section \<Rightarrow> bool" where
  "wf_section sec \<longleftrightarrow> plain_section sec \<and> list_all (\<lambda>l. length l < max_scan_token) (section_lines sec)"

text \<open>What the file means.\<close>

definition set_values :: "(string \<times> string) list \<Rightarrow> (string \<rightharpoonup> string) \<Rightarrow> (string \<rightharpoonup> string)" where
  "set_values kvs m = fold (\<lambda>(k, v) m. m(lower_text k \<mapsto> v)) kvs m"

definition extension_values :: "config_section list \<Rightarrow> string \<rightharpoonup> string" where
  "extension_values secs =
     fold (\<lambda>sec m. if EqualFold (cs_name sec) ''extensions'' then set_values (cs_values sec) m else m) secs Map.empty"

section \<open>Lemmas\<close>

lemma graphic_not: "\<not> graphic (CHR ''#'')" "\<not> graphic (CHR '';'')" "\<not> graphic (CHR '' '')" "\<not> graphic (CHR 0x09)" "\<not> graphic (CHR 0x0A)" "\<not> graphic (CHR 0x0D)"
  "graphic (CHR ''['')" "graphic (CHR '']'')" "graphic (CHR 0x22)" "graphic (CHR ''='')"
  by code_simp+

lemma graphic_no_space: "graphic c \<Longrightarrow> space_len (c # s) = 0"
  by (auto simp: graphic_def space_len_def is_ascii_space_def is_space3_def split: list.split)

lemma printable_space: "printable c \<or> c = CHR 0x09 \<Longrightarrow> space_len (c # s) = (if graphic c then 0 else 1)"
  by (auto simp: printable_def graphic_no_space graphic_not) (auto simp: space_len_def is_ascii_space_def)

lemma trim_left_ne: "s \<noteq> [] \<Longrightarrow> list_all printable s \<Longrightarrow> graphic (last s) \<Longrightarrow> trim_space_left s \<noteq> []"
proof (induction s)
  case (Cons c s)
  then show ?case by (cases "s = []") (simp_all add: printable_space)
qed simp

lemma trim_right_id: "list_all printable s \<Longrightarrow> (s \<noteq> [] \<Longrightarrow> graphic (last s)) \<Longrightarrow> trim_space_right s = s"
proof (induction s)
  case (Cons c s)
  then have "trim_space_left (c # s) \<noteq> []" by (intro trim_left_ne) auto
  with Cons show ?case by (cases "s = []") (simp_all del: trim_space_left.simps)
qed simp

text \<open>Blanks in front are trimmed, and nothing of a text that starts and ends visibly.\<close>

lemma TrimSpace_visible:
  assumes "list_all printable s" "s \<noteq> []" "graphic (hd s)" "graphic (last s)"
  shows "TrimSpace s = s" "TrimSpace (CHR '' '' # s) = s" "TrimSpace (CHR 0x09 # s) = s"
proof -
  have l: "trim_space_left s = s" using assms(2,3) by (cases s) (simp_all add: graphic_no_space)
  have "trim_space_left (CHR '' '' # s) = s" "trim_space_left (CHR 0x09 # s) = s"
    using l by (simp_all add: printable_space printable_def graphic_not)
  with l trim_right_id [OF assms(1)] assms(4) show "TrimSpace s = s" "TrimSpace (CHR '' '' # s) = s" "TrimSpace (CHR 0x09 # s) = s"
    by (simp_all add: TrimSpace_def)
qed

lemma trim_right_blank: "list_all printable s \<Longrightarrow> trim_space_right (s @ '' '') = trim_space_right s"
proof (induction s)
  case Nil
  then show ?case by (simp add: printable_space printable_def graphic_not)
next
  case (Cons c s)
  have "trim_space_left (t @ '' '') = [] \<longleftrightarrow> trim_space_left t = []" if "list_all printable t" for t
    using that by (induction t) (auto simp: printable_space printable_def graphic_not)
  from this [OF Cons.prems] Cons show ?case by (simp del: trim_space_left.simps)
qed

lemma TrimSpace_blank_after:
  assumes "list_all printable s" "s \<noteq> []" "graphic (hd s)" "graphic (last s)"
  shows "TrimSpace (s @ '' '') = s"
proof -
  have "trim_space_left (s @ '' '') = s @ '' ''" using assms(2,3) by (cases s) (simp_all add: graphic_no_space)
  with trim_right_blank [OF assms(1)] trim_right_id [OF assms(1)] assms(4) show ?thesis by (simp add: TrimSpace_def)
qed

lemma stripComment_id: "list_all (\<lambda>c. printable c \<or> c = CHR 0x09) s \<Longrightarrow> stripComment s = s"
proof -
  have "c \<noteq> CHR ''#'' \<and> c \<noteq> CHR '';''" if "printable c \<or> c = CHR 0x09" for c
    using that by (auto simp: printable_def graphic_def)
  then show "list_all (\<lambda>c. printable c \<or> c = CHR 0x09) s \<Longrightarrow> stripComment s = s"
    unfolding stripComment_def takeWhile_eq_all_conv list_all_iff by blast
qed

lemma graphic_printable: "list_all graphic s \<Longrightarrow> list_all printable s"
  by (auto simp: list_all_iff printable_def)

lemma config_line_header:
  assumes "wf_section sec"
  shows "config_line (header_line sec) st = (EqualFold (cs_name sec) ''extensions'', snd st)"
proof -
  let ?sub = "case cs_sub sec of None \<Rightarrow> [] | Some s \<Rightarrow> '' '' @ [CHR 0x22] @ s @ [CHR 0x22]" and ?name = "cs_name sec"
  have name: "?name \<noteq> []" "list_all graphic ?name" using assms by (simp_all add: wf_section_def plain_section_def)
  have sub: "list_all printable ?sub" "?sub \<noteq> [] \<Longrightarrow> last ?sub = CHR 0x22"
    using assms by (auto simp: wf_section_def plain_section_def printable_def graphic_not split: option.splits)
  have in_p: "list_all printable (?name @ ?sub)" using graphic_printable [OF name(2)] sub(1) by simp
  have ends: "graphic (hd ?name)" "graphic (last ?name)" using name by (auto simp: list_all_iff)
  then have in_l: "graphic (last (?name @ ?sub))" using sub(2) name(1) by (cases "?sub = []") (simp_all add: graphic_not)
  have p: "list_all printable (header_line sec)" using in_p by (simp add: header_line_def printable_def graphic_not)
  then have "stripComment (header_line sec) = header_line sec" by (intro stripComment_id) (auto simp: list_all_iff)
  moreover have "TrimSpace (header_line sec) = header_line sec"
    by (rule TrimSpace_visible(1) [OF p]) (simp_all add: header_line_def graphic_not)
  moreover have inner: "butlast (tl (header_line sec)) = ?name @ ?sub" by (simp add: header_line_def butlast_append)
  moreover have "TrimSpace (?name @ ?sub) = ?name @ ?sub" using in_p in_l name(1) ends(1) by (intro TrimSpace_visible(1)) simp_all
  moreover have "takeWhile (\<lambda>c. c \<noteq> CHR '' '' \<and> c \<noteq> CHR 0x09) (?name @ ?sub) = ?name"
  proof -
    have "\<forall>c\<in>set ?name. c \<noteq> CHR '' '' \<and> c \<noteq> CHR 0x09" using name(2) by (auto simp: list_all_iff graphic_not)
    then show ?thesis by (auto simp: takeWhile_append split: option.split)
  qed
  moreover have "HasPrefix (header_line sec) ''[''" "HasSuffix (header_line sec) '']''" "header_line sec \<noteq> []"
    by (simp_all add: header_line_def HasSuffix_single)
  ultimately show ?thesis using name(1)
    by (cases st) (simp add: config_line_def Let_def parseSectionHeader_def)
qed

lemma config_line_value:
  assumes "wf_value kv"
  shows "config_line (value_line kv) (inExt, m) = (inExt, if inExt then m(lower_text (fst kv) \<mapsto> snd kv) else m)"
proof -
  obtain k v where kv: "kv = (k, v)" by fastforce
  have k: "k \<noteq> []" "list_all graphic k" "hd k \<noteq> CHR ''[''" "CHR ''='' \<notin> set k" "list_all printable v"
    "v \<noteq> [] \<Longrightarrow> graphic (hd v) \<and> graphic (last v) \<and> hd v \<noteq> CHR 0x22"
    using assms by (simp_all add: wf_value_def kv)
  have kp: "list_all printable k" using k(2) by (rule graphic_printable)
  have kg: "graphic (hd k)" "graphic (last k)" using k(1,2) by (auto simp: list_all_iff)
  define line where "line = k @ '' ='' @ (if v = [] then [] else CHR '' '' # v)"
  have line: "list_all printable line" "line \<noteq> []" "graphic (hd line)" "graphic (last line)"
    using k kp kg by (auto simp: line_def printable_def graphic_not)
  have "stripComment (value_line kv) = value_line kv"
    using kp k(5) by (intro stripComment_id) (auto simp: value_line_def kv list_all_iff printable_def graphic_not)
  moreover have "TrimSpace (value_line kv) = line"
  proof (cases "v = []")
    case True
    have "trim_space_left (CHR 0x09 # line @ '' '') = line @ '' ''"
      using line(2,3) by (cases line) (simp_all add: printable_space graphic_not graphic_no_space)
    moreover have "value_line kv = CHR 0x09 # line @ '' ''" by (simp add: value_line_def kv line_def True)
    ultimately show ?thesis
      using trim_right_blank [OF line(1)] trim_right_id [OF line(1)] line(4) by (simp add: TrimSpace_def)
  next
    case False
    then have "value_line kv = CHR 0x09 # line" by (simp add: value_line_def kv line_def)
    with TrimSpace_visible(3) [OF line] show ?thesis by simp
  qed
  moreover have "\<not> HasPrefix line ''[''" using k(1,3) by (cases k) (simp_all add: line_def)
  moreover have "splitKeyValue line = Some (k, v)"
  proof -
    have c: "Cut line (CHR ''='') = (k @ '' '', (if v = [] then [] else CHR '' '' # v), True)"
      using Cut_found [of "CHR ''=''" "k @ '' ''"] k(4) by (simp add: line_def)
    have "TrimSpace (k @ '' '') = k" using kp k(1) kg by (rule TrimSpace_blank_after)
    moreover have "TrimSpace (if v = [] then [] else CHR '' '' # v) = v"
      using TrimSpace_visible(2) [of v] k(5,6) by (simp add: TrimSpace_def [of "[]"])
    ultimately show ?thesis using k(6) by (cases v) (simp_all add: splitKeyValue_def c Let_def)
  qed
  ultimately show ?thesis using line(2) by (simp add: config_line_def Let_def kv)
qed

lemma config_loop_sections:
  assumes "list_all wf_section secs"
  shows "\<exists>b. config_loop (concat (map section_lines secs) @ ls) e st = config_loop ls e
    (b, fold (\<lambda>sec m. if EqualFold (cs_name sec) ''extensions'' then set_values (cs_values sec) m else m) secs (snd st))"
  using assms
proof (induction secs arbitrary: st)
  case Nil
  show ?case by (intro exI [of _ "fst st"]) simp
next
  case (Cons sec secs)
  let ?in = "EqualFold (cs_name sec) ''extensions''"
  have wf: "wf_section sec" using Cons.prems by simp
  have cr: "dropCR (header_line sec) = header_line sec" "length (header_line sec) < max_scan_token"
    using wf by (simp_all add: wf_section_def plain_section_def section_lines_def header_line_def dropCR_id)
  have vals: "config_loop (map value_line kvs @ ls') e (?in, m) = config_loop ls' e (?in, if ?in then set_values kvs m else m)"
    if "list_all wf_value kvs" "list_all (\<lambda>l. length l < max_scan_token) (map value_line kvs)" for kvs ls' m
    using that
  proof (induction kvs arbitrary: m)
    case (Cons kv kvs)
    have "dropCR (value_line kv) = value_line kv"
      using Cons.prems(1) by (intro dropCR_id) (auto simp: value_line_def wf_value_def graphic_not split: if_splits)
    with Cons config_line_value [of kv ?in m] show ?case
      by (simp add: not_le [symmetric] set_values_def case_prod_beta)
  qed (simp add: set_values_def)
  have "list_all wf_value (cs_values sec)" "list_all (\<lambda>l. length l < max_scan_token) (map value_line (cs_values sec))"
    using wf by (simp_all add: wf_section_def plain_section_def section_lines_def)
  note vals [OF this]
  moreover obtain b where "config_loop (concat (map section_lines secs) @ ls) e (?in, if ?in then set_values (cs_values sec) (snd st) else snd st) =
      config_loop ls e (b, fold (\<lambda>sec m. if EqualFold (cs_name sec) ''extensions'' then set_values (cs_values sec) m else m) (sec # secs) (snd st))"
    using Cons.IH [of "(?in, if ?in then set_values (cs_values sec) (snd st) else snd st)"] Cons.prems by (auto simp del: if_image_distrib)
  moreover have "config_loop (concat (map section_lines (sec # secs)) @ ls) e st =
      config_loop (map value_line (cs_values sec) @ concat (map section_lines secs) @ ls) e (?in, snd st)"
    using cr config_line_header [OF wf] by (simp add: section_lines_def [of sec] not_le [symmetric])
  ultimately show ?case by (intro exI [of _ b]) (simp only:)
qed

lemma section_line_nl: "wf_section sec \<Longrightarrow> list_all (\<lambda>l. CHR 0x0A \<notin> set l) (section_lines sec)"
proof -
  assume wf: "wf_section sec"
  have p: "list_all printable s \<Longrightarrow> CHR 0x0A \<notin> set s" for s
    by (auto simp: list_all_iff printable_def graphic_not)
  have "CHR 0x0A \<notin> set (header_line sec)"
    using wf p [of "cs_name sec"] graphic_printable [of "cs_name sec"] p
    by (auto simp: header_line_def wf_section_def plain_section_def split: option.splits)
  moreover have "CHR 0x0A \<notin> set (value_line kv)" if "wf_value kv" for kv
    using that p [of "fst kv"] graphic_printable [of "fst kv"] p [of "snd kv"] by (auto simp: value_line_def wf_value_def)
  ultimately show ?thesis using wf by (auto simp: section_lines_def wf_section_def plain_section_def list_all_iff)
qed

section \<open>Property\<close>


definition sample_config :: "config_section list" where
  "sample_config =
     [\<lparr>cs_name = ''core'', cs_sub = None, cs_values = [(''refStorage'', ''nothing'')]\<rparr>,
      \<lparr>cs_name = ''Extensions'', cs_sub = None, cs_values = [(''objectFormat'', ''sha256''), (''refStorage'', ''files'')]\<rparr>,
      \<lparr>cs_name = ''remote'', cs_sub = Some ''origin'', cs_values = [(''url'', ''git://h/x = y'')]\<rparr>,
      \<lparr>cs_name = ''extensions'', cs_sub = None, cs_values = [(''refstorage'', ''reftable://t'')]\<rparr>]"

lemma sample_config_ok: "list_all wf_section sample_config"
proof -
  have "list_all plain_section sample_config" by code_simp
  moreover have "list_all (\<lambda>sec. list_all (\<lambda>l. length l < max_scan_token) (section_lines sec)) sample_config"
    by (simp add: sample_config_def section_lines_def header_line_def value_line_def max_scan_token_def)
  ultimately show ?thesis by (simp add: list_all_iff wf_section_def)
qed


end
