(* ===== verification/Git_Dir.thy ===== *)
theory Git_Dir
  imports Store_Config
begin

text \<open>
  From a path to a repository: \<open>src/internal/objstore/gitdir.go\<close>, and \<open>DiscoverAlgo\<close> of \<open>config.go\<close>.

  The property: whatever the file system answers, a path that resolves names a git directory: there is a regular \<open>HEAD\<close> in it and
  its common directory, the one returned, has the directories \<open>objects\<close> and \<open>refs\<close>.
\<close>

section \<open>The code\<close>

definition ErrNotARepo :: go_error where
  "ErrNotARepo = Sentinel ''objstore: not a git repository''"

definition gitfilePrefix :: string where "gitfilePrefix = ''gitdir: ''"

definition isDir :: "OS \<Rightarrow> string \<Rightarrow> bool" where
  "isDir os path = (case os_Stat os path of Inl _ \<Rightarrow> False | Inr info \<Rightarrow> fi_IsDir info)"

definition resolveCommonDir :: "OS \<Rightarrow> string \<Rightarrow> go_error + string" where
  "resolveCommonDir os gitDir =
     (let commonFile = Join_path [gitDir, ''commondir''] in
      case os_ReadFile os commonFile of
        Inl err \<Rightarrow>
          if errors_Is err os_ErrNotExist then Inr gitDir
          else Inl (Wrapf (''objstore: read '' @ commonFile @ '': '') err [])
      | Inr raw \<Rightarrow>
          let target = TrimRight raw [CHR 0x0D, CHR 0x0A] in
          if target = [] then Inr gitDir
          else Inr (Clean (if IsAbs target then target else Join_path [gitDir, target])))"

definition isGitDirectory :: "OS \<Rightarrow> string \<Rightarrow> bool" where
  "isGitDirectory os path =
     ((case os_Stat os (Join_path [path, ''HEAD'']) of Inl _ \<Rightarrow> False | Inr info \<Rightarrow> fi_IsRegular info) \<and>
      (case resolveCommonDir os path of
         Inl _ \<Rightarrow> False
       | Inr common \<Rightarrow> isDir os (Join_path [common, ''objects'']) \<and> isDir os (Join_path [common, ''refs''])))"

definition readGitfile :: "OS \<Rightarrow> string \<Rightarrow> go_error + string" where
  "readGitfile os gitfile = (case os_ReadFile os gitfile of
      Inl err \<Rightarrow> Inl (Wrapf (''objstore: read '' @ gitfile @ '': '') err [])
    | Inr raw \<Rightarrow> (case CutPrefix raw gitfilePrefix of
        None \<Rightarrow> Inl (Wrapf (''objstore: '' @ gitfile @ '': missing '' @ quote gitfilePrefix @ '' prefix: '') ErrNotARepo [])
      | Some body \<Rightarrow>
          let target = TrimRight body [CHR 0x0D, CHR 0x0A] in
          if target = [] then Inl (Wrapf (''objstore: '' @ gitfile @ '': empty gitdir target: '') ErrNotARepo [])
          else Inr (Clean (if IsAbs target then target else Join_path [Dir gitfile, target]))))"

definition locateGitDir :: "OS \<Rightarrow> string \<Rightarrow> go_error + string" where
  "locateGitDir os path =
     (if isGitDirectory os path then Inr (Clean path)
      else let dotGit = Join_path [path, ''.git''] in
        case os_Stat os dotGit of
          Inl err \<Rightarrow>
            if errors_Is err os_ErrNotExist then Inl (Wrapf (''objstore: '' @ path @ '': '') ErrNotARepo [])
            else Inl (Wrapf (''objstore: stat '' @ dotGit @ '': '') err [])
        | Inr info \<Rightarrow>
            if fi_IsDir info then
              (if \<not> isGitDirectory os dotGit then Inl (Wrapf (''objstore: '' @ dotGit @ '': '') ErrNotARepo []) else Inr (Clean dotGit))
            else (case readGitfile os dotGit of
                Inl err \<Rightarrow> Inl err
              | Inr target \<Rightarrow>
                  if \<not> isGitDirectory os target then Inl (Wrapf (''objstore: '' @ target @ '': '') ErrNotARepo []) else Inr target))"

definition resolveGitDir :: "OS \<Rightarrow> string \<Rightarrow> go_error + string \<times> string" where
  "resolveGitDir os path = (case locateGitDir os path of
      Inl err \<Rightarrow> Inl err
    | Inr gitDir \<Rightarrow> (case resolveCommonDir os gitDir of Inl err \<Rightarrow> Inl err | Inr commonDir \<Rightarrow> Inr (gitDir, commonDir)))"

definition DiscoverAlgo :: "OS \<Rightarrow> string \<Rightarrow> go_error + Algo" where
  "DiscoverAlgo os path = (case resolveGitDir os path of
      Inl err \<Rightarrow> Inl err
    | Inr (_, commonDir) \<Rightarrow> (case readGitConfig os commonDir of Inl err \<Rightarrow> Inl err | Inr cfg \<Rightarrow> Inr (cfg_algo cfg)))"

section \<open>Lemmas\<close>

text \<open>A path and its clean form have the same files below them.\<close>

lemma IsAbs_Clean [simp]: "IsAbs (Clean p) = IsAbs p"
  unfolding Clean_path_of by (rule IsAbs_path_of [OF clean_elements_clean])

lemma clean_elements_Clean [simp]: "clean_elements (Clean p) = clean_elements p"
  unfolding Clean_path_of by (rule clean_elements_path_of [OF clean_elements_clean])

lemma Clean_idem: "Clean (Clean p) = Clean p"
  by (simp only: Clean_path_of IsAbs_path_of [OF clean_elements_clean] clean_elements_path_of [OF clean_elements_clean])

lemma Join_Clean: "plain_element n \<Longrightarrow> Join_path [Clean p, n] = Join_path [p, n]"
  by (simp add: Join_path_plain)

lemma Join_path_two:
  assumes "t \<noteq> []" "\<not> IsAbs t"
  shows "Join_path [p, t] = path_of (IsAbs p) (rev (fold (clean_element (IsAbs p)) (path_elements [] t) (rev (clean_elements p))))"
proof (cases "p = []")
  case True
  with assms show ?thesis
    by (simp add: Join_path_def Clean_path_of) (simp add: clean_elements_def clean_element_def IsAbs_def)
next
  case False
  have "IsAbs (p @ CHR ''/'' # t) = IsAbs p" using False by (cases p) (simp_all add: IsAbs_def)
  with False assms show ?thesis
    by (simp add: Join_path_def Clean_path_of) (simp add: clean_elements_def path_elements_append)
qed

lemma Join_Clean_any: "t \<noteq> [] \<Longrightarrow> \<not> IsAbs t \<Longrightarrow> Join_path [Clean p, t] = Join_path [p, t]"
  by (simp add: Join_path_two)

lemma names_plain: "plain_element ''HEAD''" "plain_element ''commondir''" "plain_element ''objects''" "plain_element ''refs''" "plain_element ''.git''"
  by (simp_all add: plain_element_def)

lemma resolveCommonDir_Clean:
  "resolveCommonDir os (Clean p) = (case resolveCommonDir os p of Inl err \<Rightarrow> Inl err | Inr c \<Rightarrow> Inr (if c = p then Clean p else c))"
  by (auto simp: resolveCommonDir_def Let_def Join_Clean names_plain Join_Clean_any Clean_idem split: sum.splits) (metis Clean_idem)+

lemma isGitDirectory_Clean: "isGitDirectory os (Clean p) = isGitDirectory os p"
  by (auto simp: isGitDirectory_def resolveCommonDir_Clean Join_Clean names_plain split: sum.splits)

lemma locateGitDir_sound: "locateGitDir os path = Inr g \<Longrightarrow> isGitDirectory os g \<and> Clean g = g"
  by (auto simp: locateGitDir_def Let_def readGitfile_def isGitDirectory_Clean Clean_idem split: if_splits sum.splits option.splits)

section \<open>Property\<close>

text \<open>C39: A path that resolves is a repository, whatever the file system answers and by whichever rule it was found: the
  directory returned is clean and has a regular \<open>HEAD\<close>, and the common directory returned has the
  directories \<open>objects\<close> and \<open>refs\<close>; for any other path resolving is an error.\<close>

theorem resolveGitDir_sound:
  assumes "resolveGitDir os path = Inr (gitDir, commonDir)"
  shows "Clean gitDir = gitDir \<and> (\<exists>info. os_Stat os (Join_path [gitDir, ''HEAD'']) = Inr info \<and> fi_IsRegular info) \<and>
    resolveCommonDir os gitDir = Inr commonDir \<and>
    isDir os (Join_path [commonDir, ''objects'']) \<and> isDir os (Join_path [commonDir, ''refs''])"
proof -
  have l: "locateGitDir os path = Inr gitDir" "resolveCommonDir os gitDir = Inr commonDir"
    using assms by (auto simp: resolveGitDir_def split: sum.splits)
  with locateGitDir_sound [OF l(1)] show ?thesis by (auto simp: isGitDirectory_def split: sum.splits)
qed

text \<open>A linked worktree: \<open>.git\<close> is a file that names a directory of the main repository.\<close>

definition worktree_os :: OS where
  "worktree_os = \<lparr>os_Open = (\<lambda>_. Inl os_ErrNotExist),
     os_ReadFile = (\<lambda>p. if p = ''/w/.git'' then Inr (''gitdir: ../r/.git/worktrees/w'' @ [CHR 0x0A])
       else if p = ''/r/.git/worktrees/w/commondir'' then Inr (''../..'' @ [CHR 0x0A]) else Inl os_ErrNotExist),
     os_Stat = (\<lambda>p. if p = ''/w/.git'' \<or> p = ''/r/.git/worktrees/w/HEAD'' then Inr \<lparr>fi_IsDir = False, fi_IsRegular = True, fi_ModTime = 0\<rparr>
       else if p = ''/r/.git/objects'' \<or> p = ''/r/.git/refs'' then Inr \<lparr>fi_IsDir = True, fi_IsRegular = False, fi_ModTime = 0\<rparr>
       else Inl os_ErrNotExist),
     os_ReadDir = (\<lambda>_. Inl os_ErrNotExist), os_Tree = (\<lambda>_. Inl os_ErrNotExist)\<rparr>"

lemma worktree_resolves: "resolveGitDir worktree_os ''/w'' = Inr (''/r/.git/worktrees/w'', ''/r/.git'')"
  by code_simp

theorem resolveGitDir_sound_witness:
  "resolveGitDir worktree_os ''/w'' = Inr (''/r/.git/worktrees/w'', ''/r/.git'') \<and> isDir worktree_os (Join_path [''/r/.git'', ''objects''])"
  using resolveGitDir_sound [OF worktree_resolves] worktree_resolves by simp

end
