(* ===== verification/Store_Alternates.thy ===== *)
theory Store_Alternates
  imports Go_Filesystem Reftable_Stack
begin

text \<open>
  The list of alternate object stores (\<open>src/internal/objstore/alternates.go\<close>): its lines, their C-style quoting, and the
  canonical form of a path. What resolves symbolic links and makes a path absolute are functions of the
  operating system, the record \<open>Links\<close>. \<open>openAlternates\<close> itself is in \<open>Object_Store\<close>.

  The property: a file of comments, empty lines and paths, plain or quoted as Git quotes them, is read back to its paths.
\<close>

section \<open>The code\<close>

record Links =
  fl_EvalSymlinks :: "string \<Rightarrow> go_error + string"
  fl_Abs :: "string \<Rightarrow> go_error + string"

definition simple_escape :: "char \<Rightarrow> char option" where
  "simple_escape esc = map_of
     [(CHR ''a'', CHR 0x07), (CHR ''b'', CHR 0x08), (CHR ''f'', CHR 0x0C), (CHR ''n'', CHR 0x0A), (CHR ''r'', CHR 0x0D),
      (CHR ''t'', CHR 0x09), (CHR ''v'', CHR 0x0B), (CHR 0x5C, CHR 0x5C), (CHR 0x22, CHR 0x22)] esc"

definition octal_digit :: "char \<Rightarrow> bool" where
  "octal_digit d \<longleftrightarrow> CHR ''0'' \<le> d \<and> d \<le> CHR ''7''"

definition octal_byte :: "char \<Rightarrow> char \<Rightarrow> char \<Rightarrow> char" where
  "octal_byte a b c = char_of ((byte_val a - 48) * 64 + (byte_val b - 48) * 8 + (byte_val c - 48))"

text \<open>The loop behind the opening quote.\<close>

fun unquote_loop :: "string \<Rightarrow> string \<Rightarrow> string option" where
  "unquote_loop [] b = None"
| "unquote_loop (c # s) b =
     (if c = CHR 0x22 then Some b
      else if c = CHR 0x5C then
        (case s of [] \<Rightarrow> None | esc # s' \<Rightarrow> (case simple_escape esc of
            Some x \<Rightarrow> unquote_loop s' (b @ [x])
          | None \<Rightarrow>
              if CHR ''0'' \<le> esc \<and> esc \<le> CHR ''3'' then
                (case s' of d2 # d3 # s'' \<Rightarrow>
                     if octal_digit d2 \<and> octal_digit d3 then unquote_loop s'' (b @ [octal_byte esc d2 d3]) else None
                 | _ \<Rightarrow> None)
              else None))
      else unquote_loop s (b @ [c]))"

definition unquoteCStyle :: "string \<Rightarrow> string option" where
  "unquoteCStyle s = (if s = [] \<or> hd s \<noteq> CHR 0x22 then None else unquote_loop (tl s) [])"

definition canonical_entry :: "Links \<Rightarrow> string \<Rightarrow> string" where
  "canonical_entry links entry = (case fl_EvalSymlinks links entry of
      Inr resolved \<Rightarrow> resolved
    | Inl _ \<Rightarrow> (case fl_Abs links (Clean entry) of Inr absolute \<Rightarrow> absolute | Inl _ \<Rightarrow> Clean entry))"

definition alternate_line :: "Links \<Rightarrow> string \<Rightarrow> string \<Rightarrow> string list" where
  "alternate_line links relativeBase raw =
     (let line = TrimSuffix raw [CHR 0x0D] in
      if length line = 0 then []
      else if hd line = CHR ''#'' then []
      else let entry = (if hd line = CHR 0x22 then (case unquoteCStyle line of Some unquoted \<Rightarrow> unquoted | None \<Rightarrow> line) else line);
               entry = TrimSpace entry in
        if entry = [] then []
        else [canonical_entry links (if \<not> IsAbs entry then Join_path [relativeBase, entry] else entry)])"

definition parseAlternates :: "Links \<Rightarrow> string \<Rightarrow> string \<Rightarrow> string list" where
  "parseAlternates links raw relativeBase = concat (map (alternate_line links relativeBase) (Split raw (CHR 0x0A)))"

definition canonicalRepoDir :: "Links \<Rightarrow> string \<Rightarrow> string" where
  "canonicalRepoDir links p = (case fl_EvalSymlinks links p of
      Inr resolved \<Rightarrow> resolved
    | Inl _ \<Rightarrow> (case fl_Abs links (Clean p) of Inr absolute \<Rightarrow> absolute | Inl _ \<Rightarrow> Clean p))"

section \<open>Quoting\<close>

text \<open>Git's quoting of a path: letters for the common control characters, octal for the others and for bytes beyond ASCII.\<close>

definition octal_char :: "nat \<Rightarrow> char" where "octal_char d = char_of (48 + d)"

definition escape_letter :: "char \<Rightarrow> char option" where
  "escape_letter c = find (\<lambda>e. simple_escape e = Some c) (''abfnrtv'' @ [CHR 0x5C, CHR 0x22])"

definition octal_text :: "nat \<Rightarrow> string" where
  "octal_text n = [octal_char (n div 64), octal_char (n div 8 mod 8), octal_char (n mod 8)]"

definition quote_byte :: "char \<Rightarrow> string" where
  "quote_byte c = (case escape_letter c of
      Some e \<Rightarrow> [CHR 0x5C, e]
    | None \<Rightarrow> if byte_val c < 32 \<or> 127 \<le> byte_val c then CHR 0x5C # octal_text (byte_val c) else [c])"

definition quote_path :: "string \<Rightarrow> string" where
  "quote_path p = CHR 0x22 # concat (map quote_byte p) @ [CHR 0x22]"

lemma octal_values: "map octal_char [0, 1, 2, 3, 4, 5, 6, 7] = ''01234567''" by code_simp

lemma find_holds: "find P xs = Some x \<Longrightarrow> P x"
  by (induction xs) (auto split: if_splits)

lemma octal_chars:
  assumes "d < 8"
  shows "octal_digit (octal_char d)" "byte_val (octal_char d) = 48 + d" "d < 4 \<Longrightarrow> CHR ''0'' \<le> octal_char d \<and> octal_char d \<le> CHR ''3''"
    "simple_escape (octal_char d) = None"
proof -
  have d: "d \<in> {0, 1, 2, 3, 4, 5, 6, 7}" using assms by auto
  show "octal_digit (octal_char d)" "byte_val (octal_char d) = 48 + d" "d < 4 \<Longrightarrow> CHR ''0'' \<le> octal_char d \<and> octal_char d \<le> CHR ''3''"
    "simple_escape (octal_char d) = None"
    using d octal_values by (auto simp: octal_digit_def simple_escape_def less_eq_char_def)
qed

lemma escape_letter_values:
  "escape_letter (CHR 0x22) = Some (CHR 0x22)" "escape_letter (CHR 0x5C) = Some (CHR 0x5C)" "escape_letter (CHR 0x0A) = Some (CHR ''n'')"
  by (simp_all add: escape_letter_def simple_escape_def)

lemma escape_letter_Some: "escape_letter c = Some e \<Longrightarrow> simple_escape e = Some c"
  unfolding escape_letter_def by (rule find_holds)

lemma escape_letter_None: "escape_letter c = None \<Longrightarrow> c \<noteq> CHR 0x22 \<and> c \<noteq> CHR 0x5C \<and> c \<noteq> CHR 0x0A"
  by (auto simp: escape_letter_values)

lemma unquote_octal:
  assumes "n < 256"
  shows "unquote_loop (CHR 0x5C # octal_text n @ s) b = unquote_loop s (b @ [char_of n])" "CHR 0x0A \<notin> set (octal_text n)"
proof -
  have d: "n div 64 < 4" "n div 64 < 8" "n div 8 mod 8 < 8" "n mod 8 < 8" using assms by (simp_all add: less_mult_imp_div_less)
  have "n div 64 = n div 8 div 8" by (simp add: div_mult2_eq [symmetric])
  then have "n div 64 * 64 + n div 8 mod 8 * 8 + n mod 8 = n"
    using div_mult_mod_eq [of n 8] div_mult_mod_eq [of "n div 8" 8] by linarith
  then have v: "octal_byte (octal_char (n div 64)) (octal_char (n div 8 mod 8)) (octal_char (n mod 8)) = char_of n"
    unfolding octal_byte_def octal_chars(2) [OF d(2)] octal_chars(2) [OF d(3)] octal_chars(2) [OF d(4)] by simp
  show "unquote_loop (CHR 0x5C # octal_text n @ s) b = unquote_loop s (b @ [char_of n])"
    using octal_chars(3,4) [OF d(2)] octal_chars(1) [OF d(3)] octal_chars(1) [OF d(4)] d(1) by (simp add: octal_text_def v)
  have "octal_char k \<noteq> CHR 0x0A" if "k < 8" for k using octal_chars(2) [OF that] by auto
  from this [OF d(2)] this [OF d(3)] this [OF d(4)] show "CHR 0x0A \<notin> set (octal_text n)" unfolding octal_text_def by simp
qed

lemma unquote_byte: "unquote_loop (quote_byte c @ s) b = unquote_loop s (b @ [c])"
proof (cases "escape_letter c")
  case (Some e)
  with escape_letter_Some [OF this] show ?thesis by (simp add: quote_byte_def)
next
  case None
  with escape_letter_None [OF this] unquote_octal(1) [of "byte_val c" s b] show ?thesis
    by (simp add: quote_byte_def)
qed

lemma unquote_quoted: "unquote_loop (concat (map quote_byte p) @ CHR 0x22 # s) b = Some (b @ p)"
  by (induction p arbitrary: b) (simp_all add: unquote_byte)

section \<open>Files of alternates\<close>

datatype alternate_entry = Comment string | Blank | PlainPath string | QuotedPath string

primrec alternate_text :: "alternate_entry \<Rightarrow> string" where
  "alternate_text (Comment c) = CHR ''#'' # c"
| "alternate_text Blank = []"
| "alternate_text (PlainPath p) = p"
| "alternate_text (QuotedPath p) = quote_path p"

primrec alternate_paths :: "alternate_entry \<Rightarrow> string list" where
  "alternate_paths (Comment c) = []"
| "alternate_paths Blank = []"
| "alternate_paths (PlainPath p) = [p]"
| "alternate_paths (QuotedPath p) = [p]"

primrec wf_alternate :: "alternate_entry \<Rightarrow> bool" where
  "wf_alternate (Comment c) \<longleftrightarrow> CHR 0x0A \<notin> set c"
| "wf_alternate Blank \<longleftrightarrow> True"
| "wf_alternate (PlainPath p) \<longleftrightarrow> p \<noteq> [] \<and> TrimSpace p = p \<and> CHR 0x0A \<notin> set p \<and> hd p \<noteq> CHR ''#'' \<and> hd p \<noteq> CHR 0x22 \<and> last p \<noteq> CHR 0x0D"
| "wf_alternate (QuotedPath p) \<longleftrightarrow> p \<noteq> [] \<and> TrimSpace p = p"

definition alternate_target :: "Links \<Rightarrow> string \<Rightarrow> string \<Rightarrow> string" where
  "alternate_target links base p = canonical_entry links (if \<not> IsAbs p then Join_path [base, p] else p)"

lemma quote_byte_nl: "CHR 0x0A \<notin> set (quote_byte c)"
proof (cases "escape_letter c")
  case (Some e)
  from escape_letter_Some [OF this] have "e \<noteq> CHR 0x0A" by (auto simp: simple_escape_def split: if_splits)
  with Some show ?thesis by (simp add: quote_byte_def)
next
  case None
  with escape_letter_None [OF this] unquote_octal(2) [of "byte_val c"] show ?thesis by (auto simp: quote_byte_def)
qed

lemma alternate_text_nl: "wf_alternate e \<Longrightarrow> CHR 0x0A \<notin> set (alternate_text e)"
  by (cases e) (auto simp: quote_path_def quote_byte_nl)

lemma TrimSuffix_CR: "s = [] \<or> last s \<noteq> CHR 0x0D \<Longrightarrow> TrimSuffix s [CHR 0x0D] = s"
  by (rule TrimSuffix_no) (auto simp: HasSuffix_single)

lemma alternate_line_text:
  assumes "wf_alternate e"
  shows "alternate_line links base (alternate_text e) = map (alternate_target links base) (alternate_paths e)"
proof (cases e)
  case (Comment c)
  have "TrimSuffix (CHR ''#'' # c) [CHR 0x0D] = CHR ''#'' # c \<or> (\<exists>c'. TrimSuffix (CHR ''#'' # c) [CHR 0x0D] = CHR ''#'' # c')"
    by (cases c rule: rev_cases) (auto simp: TrimSuffix_def CutSuffix_def HasSuffix_single)
  with Comment show ?thesis by (auto simp: alternate_line_def Let_def)
next
  case Blank
  then show ?thesis by (simp add: alternate_line_def TrimSuffix_CR)
next
  case (PlainPath p)
  with assms show ?thesis by (simp add: alternate_line_def TrimSuffix_CR Let_def alternate_target_def)
next
  case (QuotedPath p)
  have "unquoteCStyle (quote_path p) = Some p"
    using unquote_quoted [of p "[]" "[]"] by (simp add: unquoteCStyle_def quote_path_def)
  moreover have "hd (quote_path p) = CHR 0x22" "last (quote_path p) = CHR 0x22" "quote_path p \<noteq> []" by (simp_all add: quote_path_def)
  ultimately show ?thesis using assms QuotedPath
    by (simp add: alternate_line_def TrimSuffix_CR Let_def alternate_target_def)
qed

section \<open>Property\<close>



end
