(* ===== verification/Pack_File.thy ===== *)
theory Pack_File
  imports Reftable_Varint Objfmt_Hash
begin

text \<open>
  Pack files (\<open>src/internal/objfmt/pack.go\<close>, \<open>pack_header.go\<close>, \<open>pack_verify.go\<close>, \<open>mmap_reader.go\<close>): opening one
  and reading the header of an object in it.

  \<open>packReader\<close> is the code's interface of that name, the record of what its methods answer; \<open>file_reader\<close>
  is the code's reader over an open file and the locale \<open>reader_at\<close> the contract both readers have. The type
  parameter for the object ids and the \<open>Algo\<close> that must agree with it are one \<open>Algo\<close>. An \<open>int64\<close> that can
  wrap around is a 64-bit word, a file offset an \<open>int\<close>. Scratch buffers and their pool have no counterpart.
\<close>

section \<open>Errors\<close>

definition ErrUnsupportedAlgo :: go_error where "ErrUnsupportedAlgo = Sentinel ''objfmt: unsupported algo''"
definition objfmt_ErrShortFile :: go_error where
  "objfmt_ErrShortFile = Sentinel ''objfmt: file too short for header and trailer''"
definition objfmt_ErrBadMagic :: go_error where "objfmt_ErrBadMagic = Sentinel ''objfmt: bad magic''"
definition objfmt_ErrUnsupportedVersion :: go_error where
  "objfmt_ErrUnsupportedVersion = Sentinel ''objfmt: unsupported version''"
definition ErrAlgoMismatch :: go_error where "ErrAlgoMismatch = Sentinel ''objfmt: algo does not match file''"
definition ErrTruncated :: go_error where "ErrTruncated = Sentinel ''objfmt: truncated''"
definition ErrCorrupt :: go_error where "ErrCorrupt = Sentinel ''objfmt: corrupt''"
definition ErrChecksumMismatch :: go_error where "ErrChecksumMismatch = Sentinel ''objfmt: trailer checksum mismatch''"

lemmas objfmt_errors = ErrUnsupportedAlgo_def objfmt_ErrShortFile_def objfmt_ErrBadMagic_def
  objfmt_ErrUnsupportedVersion_def ErrAlgoMismatch_def ErrTruncated_def ErrCorrupt_def ErrChecksumMismatch_def

section \<open>Readers\<close>

text \<open>\<open>pr_ReadAt off n\<close> reads into a buffer of \<open>n\<close> bytes: the bytes it got, with the error.\<close>

record packReader =
  pr_Len :: int
  pr_ReadAt :: "int \<Rightarrow> nat \<Rightarrow> string \<times> go_error option"

text \<open>\<open>fileReader\<close> over an open file with these bytes.\<close>

definition os_ReadAt :: "string \<Rightarrow> int \<Rightarrow> nat \<Rightarrow> string \<times> go_error option" where
  "os_ReadAt f off n = (let got = take n (drop (nat off) f) in (got, if length got < n then Some io_EOF else None))"

definition fileReader_ReadAt :: "string \<Rightarrow> int \<Rightarrow> int \<Rightarrow> nat \<Rightarrow> string \<times> go_error option" where
  "fileReader_ReadAt f len off n =
     (if off < 0 \<or> len \<le> off then ([], Some (New ''objfmt: read past end of file'')) else os_ReadAt f off n)"

definition file_reader :: "string \<Rightarrow> packReader" where
  "file_reader f = \<lparr>pr_Len = int (length f), pr_ReadAt = fileReader_ReadAt f (int (length f))\<rparr>"

locale reader_at =
  fixes r :: packReader and f :: string
  assumes Len: "pr_Len r = int (length f)"
    and ReadAt: "0 \<le> off \<Longrightarrow> off < int (length f) \<Longrightarrow>
      pr_ReadAt r off n = (take n (drop (nat off) f), if length f - nat off < n then Some io_EOF else None)"

interpretation fileReader: reader_at "file_reader f" f for f
  by unfold_locales (auto simp: file_reader_def fileReader_ReadAt_def os_ReadAt_def Let_def)

section \<open>Packs\<close>

record Pack =
  pk_r :: packReader
  pk_algo :: Algo
  pk_ver :: u32
  pk_nr :: u32

text \<open>\<open>fs\<close> answers a path with a reader over its file. A missing algorithm is \<open>None\<close>.\<close>

definition OpenPack :: "(string \<Rightarrow> go_error + packReader) \<Rightarrow> string \<Rightarrow> Algo option \<Rightarrow> go_error + Pack" where
  "OpenPack fs path algo = (case algo of
      None \<Rightarrow> Inl (Wrapf ''objfmt: nil algo: '' ErrUnsupportedAlgo [])
    | Some a \<Rightarrow> (case fs path of
        Inl err \<Rightarrow> Inl err
      | Inr r \<Rightarrow>
          if pr_Len r < int (12 + Algo_Size a) then
            Inl (Wrapf (''objfmt: pack file too short ('' @ itoa (pr_Len r) @ '' bytes): '') objfmt_ErrShortFile [])
          else (case pr_ReadAt r 0 12 of
              (_, Some err) \<Rightarrow> Inl (Wrapf ''objfmt: read pack header: '' err [])
            | (hdr, None) \<Rightarrow>
                if take 4 hdr \<noteq> ''PACK'' then
                  Inl (Wrapf (''objfmt: not a pack file (magic = '' @ quote (take 4 hdr) @ ''): '') objfmt_ErrBadMagic [])
                else
                  let ver = be (take 4 (drop 4 hdr)) in
                  if ver \<noteq> 2 \<and> ver \<noteq> 3 then
                    Inl (Wrapf (''objfmt: unsupported pack version '' @ itoa_nat (unat ver) @ '' (want 2 or 3): '')
                      objfmt_ErrUnsupportedVersion [])
                  else Inr \<lparr>pk_r = r, pk_algo = a, pk_ver = ver, pk_nr = be (take 4 (drop 8 hdr))\<rparr>)))"

definition Pack_Algo :: "Pack \<Rightarrow> Algo" where "Pack_Algo p = pk_algo p"
definition Pack_Version :: "Pack \<Rightarrow> u32" where "Pack_Version p = pk_ver p"
definition Pack_Count :: "Pack \<Rightarrow> u32" where "Pack_Count p = pk_nr p"
definition Pack_Len :: "Pack \<Rightarrow> int" where "Pack_Len p = pr_Len (pk_r p)"
definition Pack_ReadAt :: "Pack \<Rightarrow> int \<Rightarrow> nat \<Rightarrow> string \<times> go_error option" where
  "Pack_ReadAt p off n = pr_ReadAt (pk_r p) off n"

section \<open>The header of an object\<close>

record DeltaRef =
  OfsBase :: int
  RefBase :: Hash

record ObjectHeader =
  oh_Type :: ObjectType
  oh_DeltaRef :: DeltaRef
  oh_Size :: int
  oh_BodyAt :: int

definition packHeaderPeek :: nat where "packHeaderPeek = 32"

function size_loop :: "string \<Rightarrow> u64 \<Rightarrow> nat \<Rightarrow> nat \<Rightarrow> go_error + u64 \<times> nat" where
  "size_loop buf sz shift used =
     (if (byte_word (buf ! (used - 1)) :: u64) AND 0x80 \<noteq> 0 then
        if length buf \<le> used then Inl (Wrapf ''objfmt: pack header overruns buffer: '' ErrTruncated [])
        else
          let sz = sz OR push_bit shift (byte_word (buf ! used) AND 0x7F);
              shift = shift + 7;
              used = used + 1
          in if 64 \<le> shift then Inl (Wrapf ''objfmt: pack header size overflow: '' ErrCorrupt [])
             else size_loop buf sz shift used
      else Inr (sz, used))"
  by pat_completeness auto
termination by (relation "measure (\<lambda>(buf, sz, shift, used). length buf - used)") auto

declare size_loop.simps [simp del]

function ofs_loop :: "string \<Rightarrow> u64 \<Rightarrow> nat \<Rightarrow> char \<Rightarrow> go_error + u64 \<times> nat" where
  "ofs_loop buf off used c =
     (if (byte_word c :: u64) AND 0x80 \<noteq> 0 then
        if length buf \<le> used then Inl (Wrapf ''objfmt: OFS_DELTA offset overruns buffer: '' ErrTruncated [])
        else
          let off = off + 1 in
          if 2 ^ 56 \<le> sint off then Inl (Wrapf ''objfmt: OFS_DELTA offset overflow: '' ErrCorrupt [])
          else let c = buf ! used in ofs_loop buf (push_bit 7 off OR (byte_word c AND 0x7F)) (used + 1) c
      else Inr (off, used))"
  by pat_completeness auto
termination by (relation "measure (\<lambda>(buf, off, used, c). length buf - used)") auto

declare ofs_loop.simps [simp del]

definition readOfsBase :: "string \<Rightarrow> go_error + u64 \<times> nat" where
  "readOfsBase buf =
     (if length buf = 0 then Inl (Wrapf ''objfmt: empty OFS_DELTA offset: '' ErrTruncated [])
      else let c = buf ! 0 in ofs_loop buf (byte_word c AND 0x7F) 1 c)"

text \<open>The part of \<open>ReadHeader\<close> that depends on the type: the delta base, and the bytes used with it.\<close>

definition delta_base :: "Algo \<Rightarrow> int \<Rightarrow> ObjectType \<Rightarrow> string \<Rightarrow> nat \<Rightarrow> go_error + DeltaRef \<times> nat" where
  "delta_base a at typ buf used =
     (let zero = \<lparr>OfsBase = 0, RefBase = zero_hash a\<rparr> in
      if typ = TypeOfsDelta then
        (case readOfsBase (drop used buf) of
           Inl err \<Rightarrow> Inl err
         | Inr (offset, advanced) \<Rightarrow>
             let base = at - sint offset in
             if base \<le> 0 \<or> at \<le> base then Inl (Wrapf ''objfmt: OFS_DELTA base offset out of range: '' ErrCorrupt [])
             else Inr (zero\<lparr>OfsBase := base\<rparr>, used + advanced))
      else if typ = TypeRefDelta then
        if length buf < used + Algo_Size a then Inl (Wrapf ''objfmt: REF_DELTA base hash overruns buffer: '' ErrTruncated [])
        else Inr (zero\<lparr>RefBase := take (Algo_Size a) (drop used buf)\<rparr>, used + Algo_Size a)
      else if typ = TypeCommit \<or> typ = TypeTree \<or> typ = TypeBlob \<or> typ = TypeTag then Inr (zero, used)
      else Inl (Wrapf (''objfmt: unknown pack object type '' @ itoa_nat typ @ '': '') ErrCorrupt []))"

definition ReadHeader :: "Pack \<Rightarrow> int \<Rightarrow> go_error + ObjectHeader" where
  "ReadHeader p at =
     (if at < 0 \<or> pr_Len (pk_r p) \<le> at then Inl (New (''objfmt: header offset '' @ itoa at @ '' out of range''))
      else
        let want = packHeaderPeek + Algo_Size (pk_algo p);
            rem = pr_Len (pk_r p) - at;
            want = (if rem < int want then nat rem else want)
        in case pr_ReadAt (pk_r p) at want of (buf, err) \<Rightarrow>
          if err \<noteq> None \<and> length buf = 0 then Inl (Wrapf (''objfmt: read header at '' @ itoa at @ '': '') (the err) [])
          else if length buf = 0 then Inl (Wrapf ''objfmt: empty pack header: '' ErrTruncated [])
          else
            let typ = unat ((drop_bit 4 (byte_word (buf ! 0) :: u64)) AND 0x07) in
            (case size_loop buf (byte_word (buf ! 0) AND 0x0F) 4 1 of
              Inl err \<Rightarrow> Inl err
            | Inr (sz, used) \<Rightarrow> (case delta_base (pk_algo p) at typ buf used of
                Inl err \<Rightarrow> Inl err
              | Inr (ref, used) \<Rightarrow>
                  Inr \<lparr>oh_Type = typ, oh_DeltaRef = ref, oh_Size = sint sz, oh_BodyAt = at + int used\<rparr>)))"

section \<open>The format\<close>

text \<open>Little-endian groups of seven bits, the high bit set on all but the last.\<close>

fun encode_le7 :: "nat \<Rightarrow> string" where
  "encode_le7 v = (if v < 128 then [char_of v] else char_of (128 + v mod 128) # encode_le7 (v div 128))"

declare encode_le7.simps [simp del]

definition encode_type_size :: "ObjectType \<Rightarrow> nat \<Rightarrow> string" where
  "encode_type_size typ sz =
     (if sz < 16 then [char_of (16 * typ + sz)] else char_of (128 + 16 * typ + sz mod 16) # encode_le7 (sz div 16))"

section \<open>Lemmas\<close>

abbreviation cont :: "char \<Rightarrow> bool" where "cont \<equiv> Reftable_Varint.more"

lemma sint_small: "unat (w :: u64) < 2 ^ 63 \<Longrightarrow> sint w = int (unat w)"
proof -
  assume a: "unat w < 2 ^ 63"
  have "int (unat w) < int (2 ^ 63)" using a by (simp only: of_nat_less_iff)
  then have "uint w < 2 ^ 63" by (simp only: uint_nat of_nat_power of_nat_numeral)
  moreover have "- (2 ^ 63) \<le> uint w" by (rule order_trans [of _ 0]) simp_all
  ultimately have "signed_take_bit 63 (uint w) = uint w" by (intro signed_take_bit_int_eq_self)
  moreover have "sint w = signed_take_bit (LENGTH(64) - Suc 0) (uint w)" by (rule sint_uint)
  moreover have "LENGTH(64) - Suc 0 = 63" by simp
  ultimately show ?thesis by (simp only: uint_nat)
qed

lemma or_shift:
  fixes acc :: u64
  assumes "unat acc < 2 ^ n" "x < 128" "n + 7 \<le> 64" "unat v = x"
  shows "unat (acc OR push_bit n v) = unat acc + x * 2 ^ n" "unat (acc OR push_bit n v) < 2 ^ (n + 7)"
proof -
  have "x * 2 ^ n + unat acc < (x + 1) * 2 ^ n" using assms(1) by simp
  also have "\<dots> \<le> 128 * 2 ^ n" using assms(2) by (intro mult_right_mono) simp_all
  also have "\<dots> = 2 ^ (n + 7)" by (simp add: power_add)
  finally have lt: "x * 2 ^ n + unat acc < 2 ^ (n + 7)" .
  also have "\<dots> \<le> 2 ^ 64" using assms(3) by (intro power_increasing) simp_all
  finally have "unat v * 2 ^ n + unat acc < 2 ^ LENGTH(64)" using assms(4) by simp
  from shift_or [OF assms(1) this] show "unat (acc OR push_bit n v) = unat acc + x * 2 ^ n"
    by (simp add: or.commute assms(4))
  with lt show "unat (acc OR push_bit n v) < 2 ^ (n + 7)" by simp
qed

lemma groups_split: "a * 2 ^ s + b * 2 ^ (s + 7) = (a + b * 128) * 2 ^ (s :: nat)" for a b :: nat
  by (simp add: algebra_simps power_add)

lemma size_loop_encode:
  assumes "used \<noteq> 0" "length pre = used" "cont (last pre)" "unat acc < 2 ^ shift" "shift mod 7 = 4"
    and "0 < v" "unat acc + v * 2 ^ shift < 2 ^ 60"
  shows "\<exists>w. size_loop (pre @ encode_le7 v @ rest) acc shift used = Inr (w, used + length (encode_le7 v)) \<and>
    unat w = unat acc + v * 2 ^ shift"
  using assms
proof (induction v arbitrary: pre acc shift used rule: encode_le7.induct)
  case (1 v)
  have "1 * 2 ^ shift \<le> v * 2 ^ shift" using 1(7) by (intro mult_right_mono) simp_all
  then have "(2 :: nat) ^ shift < 2 ^ 60" using 1(8) by linarith
  then have "shift < 60" using power_less_imp_less_exp [of "2 :: nat" shift 60] by simp
  with 1(6) have shift: "shift \<le> 53" by presburger
  define c :: char where "c = (if v < 128 then char_of v else char_of (128 + v mod 128))"
  define suf where "suf = (if v < 128 then [] else encode_le7 (v div 128))"
  have e: "encode_le7 v = c # suf" by (subst encode_le7.simps) (simp add: c_def suf_def)
  have c: "byte_val c mod 128 = v mod 128" "cont c \<longleftrightarrow> 128 \<le> v"
    by (simp_all add: c_def Reftable_Varint.more_def mod_less)
  let ?buf = "pre @ encode_le7 v @ rest" and ?x = "v mod 128"
  have nth: "?buf ! (used - 1) = last pre" "?buf ! used = c"
    using 1(2,3) by (auto simp: nth_append last_conv_nth e)
  let ?acc = "acc OR push_bit shift (byte_word c AND 0x7F)"
  have acc: "unat ?acc = unat acc + ?x * 2 ^ shift" "unat ?acc < 2 ^ (shift + 7)"
    using or_shift [of acc shift ?x "byte_word c AND 0x7F"] 1(5) shift by (simp_all add: and_0x7F c(1))
  have step: "size_loop ?buf acc shift used = size_loop ?buf ?acc (shift + 7) (used + 1)"
    using 1(3,4) shift nth by (subst size_loop.simps) (simp add: Let_def and_0x80 e)
  have nth': "?buf ! (used + 1 - 1) = c" using nth by simp
  show ?case
  proof (cases "v < 128")
    case True
    then have "(byte_word (?buf ! (used + 1 - 1)) :: u64) AND 0x80 = 0" unfolding nth' and_0x80 c(2) by simp
    then have "size_loop ?buf ?acc (shift + 7) (used + 1) = Inr (?acc, used + 1)"
      by (subst size_loop.simps) (simp only: simp_thms if_False)
    with step acc True show ?thesis by (simp add: e suf_def mod_less)
  next
    case False
    have split: "v * 2 ^ shift = ?x * 2 ^ shift + v div 128 * 2 ^ (shift + 7)"
      using groups_split [of ?x shift "v div 128"] by (simp only: mod_div_mult_eq)
    have "\<exists>w. size_loop ((pre @ [c]) @ encode_le7 (v div 128) @ rest) ?acc (shift + 7) (used + 1) =
        Inr (w, used + 1 + length (encode_le7 (v div 128))) \<and>
      unat w = unat ?acc + v div 128 * 2 ^ (shift + 7)"
    proof (rule 1(1))
      show "\<not> v < 128" by (rule False)
      show "length (pre @ [c]) = used + 1" using 1(3) by simp
      show "cont (last (pre @ [c]))" using c(2) False by simp
      show "unat ?acc < 2 ^ (shift + 7)" by (rule acc(2))
      show "(shift + 7) mod 7 = 4" using 1(6) by presburger
      show "0 < v div 128" using False by (simp add: div_greater_zero_iff)
      show "unat ?acc + v div 128 * 2 ^ (shift + 7) < 2 ^ 60" using 1(8) split acc(1) by linarith
    qed simp
    then show ?thesis using step acc(1) split False by (simp add: e suf_def add.assoc)
  qed
qed

lemma size_loop_sound:
  assumes "size_loop buf acc shift used = Inr (w, n)" "unat acc < 2 ^ shift" "shift mod 7 = 4" "shift \<le> 60"
    and "used \<le> length buf"
  shows "unat w < 2 ^ 60" "used \<le> n" "n \<le> length buf"
proof -
  have "unat w < 2 ^ 60 \<and> used \<le> n \<and> n \<le> length buf"
    using assms
  proof (induction buf acc shift used rule: size_loop.induct)
    case (1 buf acc shift used)
    let ?acc = "acc OR push_bit shift (byte_word (buf ! used) AND 0x7F)"
    show ?case
    proof (cases "(byte_word (buf ! (used - 1)) :: u64) AND 0x80 \<noteq> 0 \<and> \<not> length buf \<le> used \<and> \<not> 64 \<le> shift + 7")
      case True
      have "unat ?acc < 2 ^ (shift + 7)"
        using or_shift(2) [of acc shift "byte_val (buf ! used) mod 128" "byte_word (buf ! used) AND 0x7F"] 1(3) True
        by (simp add: and_0x7F)
      moreover have "shift + 7 < 64" using True by simp
      then have "(shift + 7) mod 7 = 4" "shift + 7 \<le> 60" using 1(4) by presburger+
      moreover have "size_loop buf ?acc (shift + 7) (used + 1) = Inr (w, n)"
        using 1(2) True by (subst (asm) size_loop.simps) (simp add: Let_def)
      ultimately have "unat w < 2 ^ 60 \<and> used + 1 \<le> n \<and> n \<le> length buf"
        using True by (intro 1(1) [OF _ _ refl refl refl]) (simp_all add: not_le)
      then show ?thesis by linarith
    next
      case False
      then have "w = acc \<and> n = used"
        using 1(2) by (subst (asm) size_loop.simps) (auto simp: Let_def split: if_splits)
      moreover have "(2 :: nat) ^ shift \<le> 2 ^ 60" using 1(5) by (intro power_increasing) simp_all
      ultimately show ?thesis using 1(3,6) by (auto intro: less_le_trans)
    qed
  qed
  then show "unat w < 2 ^ 60" "used \<le> n" "n \<le> length buf" by simp_all
qed


lemma sint_succ: "unat (w :: u64) < 2 ^ 63 \<Longrightarrow> unat (w + 1) = unat w + 1"
  using unat_add_lem [of w 1] by simp

text \<open>One step of the offset's loop: the value, and that its guard lets through every value that fits.\<close>

lemma ofs_step:
  fixes off :: u64
  assumes "unat off + 1 < 2 ^ 56"
  shows "\<not> 2 ^ 56 \<le> sint (off + 1)"
    "unat (push_bit 7 (off + 1) OR (byte_word c AND 0x7F)) = (unat off + 1) * 128 + byte_val c mod 128"
proof -
  have "unat off < 2 ^ 63" using assms by simp
  from sint_succ [OF this] have s: "unat (off + 1) = unat off + 1" .
  then have "unat (off + 1) < 2 ^ 63" using assms by simp
  from sint_small [OF this] have si: "sint (off + 1) = int (unat off + 1)" unfolding s .
  have "int (unat off + 1) < int (2 ^ 56)" using assms by (simp only: of_nat_less_iff)
  then show "\<not> 2 ^ 56 \<le> sint (off + 1)" unfolding si by simp
  have "(unat off + 1) * 2 ^ 7 + byte_val c mod 128 < 2 ^ 64" using assms by simp
  then show "unat (push_bit 7 (off + 1) OR (byte_word c AND 0x7F)) = (unat off + 1) * 128 + byte_val c mod 128"
    by (subst shift_or) (simp_all add: s and_0x7F)
qed

lemma ofs_value_append_ge: "pre \<noteq> [] \<Longrightarrow> ofs_value pre \<le> ofs_value (pre @ suf)"
proof (induction suf rule: rev_induct)
  case (snoc c suf)
  then show ?case unfolding append_assoc [symmetric] by (subst ofs_value_snoc) auto
qed simp

lemma ofs_loop_encode:
  assumes "pre \<noteq> []" "list_all cont (butlast (pre @ suf))" "\<not> cont (last (pre @ suf))"
    and "ofs_value (pre @ suf) < 2 ^ 63" "unat off = ofs_value pre"
  shows "\<exists>w. ofs_loop (pre @ suf @ rest) off (length pre) (last pre) = Inr (w, length (pre @ suf)) \<and>
    unat w = ofs_value (pre @ suf)"
  using assms
proof (induction suf arbitrary: pre off)
  case Nil
  then have "(byte_word (last pre) :: u64) AND 0x80 = 0" by (simp add: and_0x80)
  then show ?case using Nil.prems(5) by (subst ofs_loop.simps) simp
next
  case (Cons d suf)
  have "last pre \<in> set (butlast (pre @ d # suf))" using Cons.prems(1) by (simp add: butlast_append)
  then have "cont (last pre)" using Cons.prems(2) by (auto simp: list_all_iff)
  then have nz: "(byte_word (last pre) :: u64) AND 0x80 \<noteq> 0" by (simp add: and_0x80)
  have snoc: "ofs_value (pre @ [d]) = (ofs_value pre + 1) * 128 + byte_val d mod 128"
    by (rule ofs_value_snoc [OF Cons.prems(1)])
  have "ofs_value (pre @ [d]) \<le> ofs_value ((pre @ [d]) @ suf)" by (rule ofs_value_append_ge) simp
  also have "\<dots> < 2 ^ 63" using Cons.prems(4) by simp
  finally have "(ofs_value pre + 1) * 128 < 2 ^ 63" unfolding snoc by linarith
  then have lt: "unat off + 1 < 2 ^ 56" unfolding Cons.prems(5) by simp
  note st = ofs_step [OF lt]
  let ?off = "push_bit 7 (off + 1) OR (byte_word d AND 0x7F)"
  have nth: "(pre @ (d # suf) @ rest) ! length pre = d" by (simp add: nth_append)
  have step: "ofs_loop (pre @ (d # suf) @ rest) off (length pre) (last pre) =
      ofs_loop ((pre @ [d]) @ suf @ rest) ?off (length (pre @ [d])) (last (pre @ [d]))"
    using nz st(1) nth by (subst ofs_loop.simps) (simp add: Let_def)
  have "unat ?off = ofs_value (pre @ [d])" using st(2) [of d] Cons.prems(5) snoc by simp
  then have "\<exists>w. ofs_loop ((pre @ [d]) @ suf @ rest) ?off (length (pre @ [d])) (last (pre @ [d])) =
      Inr (w, length ((pre @ [d]) @ suf)) \<and> unat w = ofs_value ((pre @ [d]) @ suf)"
    by (intro Cons.IH) (use Cons.prems(2-4) in simp_all)
  with step show ?case by simp
qed

lemma readOfsBase_encode:
  assumes "v < 2 ^ 63"
  obtains w where "readOfsBase (encodeVarint v @ rest) = Inr (w, length (encodeVarint v))" "unat w = v"
proof -
  obtain c bs where e: "encodeVarint v = c # bs" by (cases "encodeVarint v") (simp_all add: encodeVarint_def)
  have "is_varint (encodeVarint v)" by (rule is_varint_encode)
  then have "list_all cont (butlast ([c] @ bs))" "\<not> cont (last ([c] @ bs))" by (simp_all add: is_varint_def e)
  moreover have "ofs_value ([c] @ bs) = v" using ofs_value_encode [of v] by (simp add: e)
  ultimately obtain w where "ofs_loop ([c] @ bs @ rest) (byte_word c AND 0x7F) (length [c]) (last [c]) = Inr (w, length ([c] @ bs))"
    "unat w = v"
    using ofs_loop_encode [of "[c]" bs "byte_word c AND 0x7F" rest] assms by (auto simp: ofs_value_single and_0x7F)
  then show thesis by (intro that [of w]) (simp_all add: readOfsBase_def e)
qed

text \<open>Whatever the bytes, an offset that is accepted is not negative and its bytes lie in the buffer.\<close>

lemma ofs_loop_sound:
  assumes "ofs_loop buf off used c = Inr (w, n)" "unat off < 2 ^ 63" "used \<le> length buf"
  shows "unat w < 2 ^ 63" "used \<le> n" "n \<le> length buf"
proof -
  have "unat w < 2 ^ 63 \<and> used \<le> n \<and> n \<le> length buf"
    using assms
  proof (induction buf off used c rule: ofs_loop.induct)
    case (1 buf off used c)
    let ?off = "push_bit 7 (off + 1) OR (byte_word (buf ! used) AND 0x7F)"
    show ?case
    proof (cases "(byte_word c :: u64) AND 0x80 \<noteq> 0 \<and> \<not> length buf \<le> used \<and> \<not> 2 ^ 56 \<le> sint (off + 1)")
      case True
      have s: "unat (off + 1) = unat off + 1" by (rule sint_succ [OF 1(3)])
      have "unat ?off < 2 ^ 63"
      proof (cases "unat off + 1 < 2 ^ 56")
        case small: True
        have "(unat off + 1) * 128 + byte_val (buf ! used) mod 128 < 2 ^ 63" using small by simp
        then show ?thesis using ofs_step(2) [OF small] by simp
      next
        case big: False
        have "\<not> unat (off + 1) < 2 ^ 63"
        proof
          assume "unat (off + 1) < 2 ^ 63"
          from sint_small [OF this] have "sint (off + 1) = int (unat off + 1)" unfolding s .
          moreover have "int (2 ^ 56) \<le> int (unat off + 1)" using big by (simp only: of_nat_le_iff not_less)
          ultimately show False using True by simp
        qed
        then have "unat (off + 1) = 2 ^ 63" using 1(3) s by simp
        then have "off + 1 = 0x8000000000000000" by (simp add: word_unat_eq_iff)
        then have "push_bit 7 (off + 1) = 0" by simp
        then show ?thesis using and_0x7F [of "buf ! used"] by simp
      qed
      moreover have "ofs_loop buf ?off (used + 1) (buf ! used) = Inr (w, n)"
        using 1(2) True by (subst (asm) ofs_loop.simps) (simp add: Let_def)
      ultimately have "unat w < 2 ^ 63 \<and> used + 1 \<le> n \<and> n \<le> length buf"
        using True by (intro 1(1) [OF _ _ refl _ refl]) simp_all
      then show ?thesis by linarith
    next
      case False
      then have "w = off \<and> n = used"
        using 1(2) by (subst (asm) ofs_loop.simps) (auto simp: Let_def split: if_splits)
      then show ?thesis using 1(3,4) by auto
    qed
  qed
  then show "unat w < 2 ^ 63" "used \<le> n" "n \<le> length buf" by simp_all
qed

lemma readOfsBase_sound:
  assumes "readOfsBase buf = Inr (w, n)"
  shows "unat w < 2 ^ 63" "0 < n" "n \<le> length buf"
proof -
  have buf: "1 \<le> length buf" and loop: "ofs_loop buf (byte_word (buf ! 0) AND 0x7F) 1 (buf ! 0) = Inr (w, n)"
    using assms by (auto simp: readOfsBase_def Let_def Suc_le_eq split: if_splits)
  have "unat ((byte_word (buf ! 0) :: u64) AND 0x7F) < 2 ^ 63"
    unfolding and_0x7F by (rule less_trans [of _ 128]) simp_all
  from ofs_loop_sound [OF loop this buf] show "unat w < 2 ^ 63" "0 < n" "n \<le> length buf" by simp_all
qed

text \<open>The guard does not see the largest \<open>int64\<close>: its successor is negative, passes, and is shifted out. These
  ten bytes, which stand for a number far beyond 64 bits, are read as the offset 5.\<close>

definition wrapping_offset :: string where
  "wrapping_offset = [CHR 0xFE, CHR 0xFE, CHR 0xFE, CHR 0xFE, CHR 0xFE, CHR 0xFE, CHR 0xFE, CHR 0xFE, CHR 0xFF, CHR 0x05]"

lemma readOfsBase_wraps:
  "readOfsBase wrapping_offset = Inr (5, 10)" "2 ^ 64 < ofs_value wrapping_offset"
proof -
  have "readOfsBase wrapping_offset = ofs_loop wrapping_offset 126 1 (CHR 0xFE)"
    by (simp add: readOfsBase_def wrapping_offset_def byte_word_def Let_def)
  also have "\<dots> = Inr (5, 10)"
    by (simp add: ofs_loop.simps wrapping_offset_def byte_word_def)
  finally show "readOfsBase wrapping_offset = Inr (5, 10)" .
  show "2 ^ 64 < ofs_value wrapping_offset"
    by (simp add: ofs_value_def wrapping_offset_def)
qed

section \<open>Reading headers\<close>

text \<open>The header of an object at the offset \<open>at\<close>, as Git writes it.\<close>

definition encode_header :: "int \<Rightarrow> ObjectHeader \<Rightarrow> string" where
  "encode_header at h = encode_type_size (oh_Type h) (nat (oh_Size h)) @
     (if oh_Type h = TypeOfsDelta then encodeVarint (nat (at - OfsBase (oh_DeltaRef h)))
      else if oh_Type h = TypeRefDelta then RefBase (oh_DeltaRef h) else [])"

definition wf_object_header :: "Algo \<Rightarrow> int \<Rightarrow> ObjectHeader \<Rightarrow> bool" where
  "wf_object_header a at h \<longleftrightarrow>
     oh_Type h \<in> {TypeCommit, TypeTree, TypeBlob, TypeTag, TypeOfsDelta, TypeRefDelta} \<and>
     0 \<le> oh_Size h \<and> oh_Size h < 2 ^ 60 \<and>
     (if oh_Type h = TypeOfsDelta then 0 < OfsBase (oh_DeltaRef h) \<and> OfsBase (oh_DeltaRef h) < at \<and>
        RefBase (oh_DeltaRef h) = zero_hash a
      else if oh_Type h = TypeRefDelta then OfsBase (oh_DeltaRef h) = 0 \<and> wf_hash a (RefBase (oh_DeltaRef h))
      else oh_DeltaRef h = \<lparr>OfsBase = 0, RefBase = zero_hash a\<rparr>)"

lemma low4: "unat ((byte_word c :: u64) AND 0x0F) = byte_val c mod 16"
proof -
  have "unat ((byte_word c :: u64) AND mask 4) = unat (byte_word c :: u64) mod 2 ^ 4" by (rule and_low)
  moreover have "(mask 4 :: u64) = 0x0F" by (simp add: mask_eq_exp_minus_1)
  ultimately show ?thesis by (simp add: unat_byte_word)
qed

lemma type_bits: "unat ((drop_bit 4 (byte_word c :: u64)) AND 0x07) = byte_val c div 16 mod 8"
proof -
  have "unat (drop_bit 4 (byte_word c :: u64) AND mask 3) = unat (drop_bit 4 (byte_word c :: u64)) mod 2 ^ 3" by (rule and_low)
  moreover have "(mask 3 :: u64) = 0x07" by (simp add: mask_eq_exp_minus_1)
  moreover have "unat (drop_bit 4 (byte_word c :: u64)) = byte_val c div 16"
    by (simp add: drop_bit_eq_div unat_div unat_byte_word)
  ultimately show ?thesis by simp
qed

lemma first_byte: "m < 16 \<Longrightarrow> t < 8 \<Longrightarrow> (128 + 16 * t + m) div 16 mod 8 = (t :: nat)"
  "m < 16 \<Longrightarrow> (128 + 16 * t + m) mod 16 = m"
proof -
  have e: "128 + 16 * t + m = m + 16 * (8 + t)" by simp
  show "(128 + 16 * t + m) mod 16 = m" if "m < 16" unfolding e mod_mult_self2 using that by simp
  have "m < 16 \<Longrightarrow> (m + 16 * (8 + t)) div 16 = 8 + t" by simp
  then show "m < 16 \<Longrightarrow> t < 8 \<Longrightarrow> (128 + 16 * t + m) div 16 mod 8 = t" unfolding e by simp
qed

lemma size_loop_type_size:
  assumes "typ < 8" "v < 2 ^ 60"
  defines "e \<equiv> encode_type_size typ v"
  shows "e \<noteq> []" "unat ((drop_bit 4 (byte_word ((e @ rest) ! 0) :: u64)) AND 0x07) = typ"
    "\<exists>w. size_loop (e @ rest) (byte_word ((e @ rest) ! 0) AND 0x0F) 4 1 = Inr (w, length e) \<and> unat w = v"
proof -
  show "e \<noteq> []" by (simp add: e_def encode_type_size_def)
  show "unat ((drop_bit 4 (byte_word ((e @ rest) ! 0) :: u64)) AND 0x07) = typ"
    using assms(1) first_byte(1) [of "v mod 16" "typ"] by (simp add: type_bits e_def encode_type_size_def)
  show "\<exists>w. size_loop (e @ rest) (byte_word ((e @ rest) ! 0) AND 0x0F) 4 1 = Inr (w, length e) \<and> unat w = v"
  proof (cases "v < 16")
    case True
    let ?c = "char_of (16 * typ + v) :: char"
    have e: "e = [?c]" using True by (simp add: e_def encode_type_size_def)
    have "16 * typ + v < 128" using assms(1) True by simp
    then have c: "byte_val ?c = 16 * typ + v" by simp
    have "(byte_word (([?c] @ rest) ! (1 - 1)) :: u64) AND 0x80 = 0"
      unfolding and_0x80 using \<open>16 * typ + v < 128\<close> by (simp add: Reftable_Varint.more_def)
    then have "size_loop ([?c] @ rest) (byte_word ?c AND 0x0F) 4 1 = Inr (byte_word ?c AND 0x0F, 1)"
      by (subst size_loop.simps) (simp only: simp_thms if_False)
    moreover have "unat ((byte_word ?c :: u64) AND 0x0F) = v"
      unfolding low4 c using True by (simp add: mod_less)
    ultimately show ?thesis unfolding e by simp
  next
    case False
    let ?c = "char_of (128 + 16 * typ + v mod 16) :: char"
    have e: "e = [?c] @ encode_le7 (v div 16)" using False by (simp add: e_def encode_type_size_def)
    have "128 + 16 * typ + v mod 16 < 256" using assms(1) by (simp add: less_Suc_eq_le [symmetric])
    then have c: "byte_val ?c = 128 + 16 * typ + v mod 16" by simp
    have acc: "unat ((byte_word ?c :: u64) AND 0x0F) = v mod 16" unfolding low4 c by (rule first_byte) simp
    have "\<exists>w. size_loop ([?c] @ encode_le7 (v div 16) @ rest) (byte_word ?c AND 0x0F) 4 1 =
        Inr (w, 1 + length (encode_le7 (v div 16))) \<and> unat w = unat ((byte_word ?c :: u64) AND 0x0F) + v div 16 * 2 ^ 4"
    proof (rule size_loop_encode)
      show "cont (last [?c])" using c by (simp add: Reftable_Varint.more_def)
      show "unat ((byte_word ?c :: u64) AND 0x0F) < 2 ^ 4" unfolding acc by simp
      show "0 < v div 16" using False by (simp add: div_greater_zero_iff)
      have "v mod 16 + v div 16 * 2 ^ 4 = v" by simp
      then show "unat ((byte_word ?c :: u64) AND 0x0F) + v div 16 * 2 ^ 4 < 2 ^ 60" unfolding acc using assms(2) by simp
    qed simp_all
    moreover have "v mod 16 + v div 16 * 2 ^ 4 = v" by simp
    ultimately show ?thesis unfolding e acc by simp
  qed
qed

text \<open>The fixed window of 32 bytes is enough for what precedes a base hash.\<close>

lemma length_encode_le7: "v < 128 ^ Suc n \<Longrightarrow> length (encode_le7 v) \<le> Suc n"
proof (induction n arbitrary: v)
  case (Suc n)
  show ?case
  proof (cases "v < 128")
    case False
    have "v div 128 < 128 ^ Suc n" using Suc.prems by (simp add: less_mult_imp_div_less mult.commute)
    from Suc.IH [OF this] False show ?thesis by (subst encode_le7.simps) simp
  qed (subst encode_le7.simps, simp)
qed (subst encode_le7.simps, simp)

lemma length_encode_type_size: "v < 2 ^ 60 \<Longrightarrow> length (encode_type_size typ v) \<le> 10"
proof -
  assume "v < 2 ^ 60"
  then have "v div 16 < 128 ^ Suc 7" by (simp add: less_mult_imp_div_less)
  from length_encode_le7 [OF this] show ?thesis by (simp add: encode_type_size_def)
qed

lemma length_encodeVarint: "v < 2 ^ 64 \<Longrightarrow> length (encodeVarint v) \<le> 10"
  using ofs_value_length [of "encodeVarint v"] is_varint_encode [of v] by (simp add: is_varint_def ofs_value_encode)

context reader_at
begin

lemma ReadHeader_buf:
  assumes "pk_r p = r" "0 \<le> at" "at < int (length f)"
  obtains buf where "buf \<noteq> []" "buf = take (packHeaderPeek + Algo_Size (pk_algo p)) (drop (nat at) f)"
    "ReadHeader p at =
       (let typ = unat ((drop_bit 4 (byte_word (buf ! 0) :: u64)) AND 0x07) in
        (case size_loop buf (byte_word (buf ! 0) AND 0x0F) 4 1 of
          Inl err \<Rightarrow> Inl err
        | Inr (sz, used) \<Rightarrow> (case delta_base (pk_algo p) at typ buf used of
            Inl err \<Rightarrow> Inl err
          | Inr (ref, used) \<Rightarrow>
              Inr \<lparr>oh_Type = typ, oh_DeltaRef = ref, oh_Size = sint sz, oh_BodyAt = at + int used\<rparr>)))"
proof -
  let ?w = "packHeaderPeek + Algo_Size (pk_algo p)" and ?n = "nat at"
  have n: "?n < length f" "int ?n = at" using assms(2,3) by simp_all
  let ?want = "if int (length f) - at < int ?w then nat (int (length f) - at) else ?w"
  have "nat (int (length f) - at) = length f - ?n" using n by linarith
  then have want: "?want = min ?w (length f - ?n)" using n by (auto simp: min_def)
  define buf where "buf = take ?w (drop ?n f)"
  have read: "pr_ReadAt r at ?want = (buf, None)"
    unfolding want buf_def using ReadAt [OF assms(2,3)] by (simp add: min_def)
  have "buf \<noteq> []" using n(1) by (simp add: buf_def packHeaderPeek_def)
  show thesis
    by (rule that [OF \<open>buf \<noteq> []\<close> buf_def])
      (use assms \<open>buf \<noteq> []\<close> read in \<open>simp add: ReadHeader_def Len Let_def\<close>)
qed

lemma ReadHeader_sound:
  assumes "pk_r p = r" "ReadHeader p at = Inr h"
  shows "0 \<le> at" "at < oh_BodyAt h" "oh_BodyAt h \<le> int (length f)" "wf_object_header (pk_algo p) at h"
proof -
  show at: "0 \<le> at" using assms by (simp add: ReadHeader_def Len split: if_splits)
  have at': "at < int (length f)" using assms by (simp add: ReadHeader_def Len split: if_splits)
  let ?a = "pk_algo p"
  obtain buf where buf: "buf \<noteq> []" "buf = take (packHeaderPeek + Algo_Size ?a) (drop (nat at) f)"
    "ReadHeader p at =
       (let typ = unat ((drop_bit 4 (byte_word (buf ! 0) :: u64)) AND 0x07) in
        (case size_loop buf (byte_word (buf ! 0) AND 0x0F) 4 1 of
          Inl err \<Rightarrow> Inl err
        | Inr (sz, used) \<Rightarrow> (case delta_base ?a at typ buf used of
            Inl err \<Rightarrow> Inl err
          | Inr (ref, used) \<Rightarrow>
              Inr \<lparr>oh_Type = typ, oh_DeltaRef = ref, oh_Size = sint sz, oh_BodyAt = at + int used\<rparr>)))"
    by (rule ReadHeader_buf [OF assms(1) at at'])
  obtain sz used ref used' where r: "size_loop buf (byte_word (buf ! 0) AND 0x0F) 4 1 = Inr (sz, used)"
    "delta_base ?a at (oh_Type h) buf used = Inr (ref, used')"
    "oh_DeltaRef h = ref" "oh_Size h = sint sz" "oh_BodyAt h = at + int used'"
    using assms(2) unfolding buf(3) by (auto simp: Let_def split: sum.splits prod.splits)
  have "1 \<le> length buf" using buf(1) by (cases buf) simp_all
  moreover have "unat ((byte_word (buf ! 0) :: u64) AND 0x0F) < 2 ^ 4" by (simp add: low4)
  ultimately have s: "unat sz < 2 ^ 60" "1 \<le> used" "used \<le> length buf"
    using size_loop_sound [OF r(1)] by simp_all
  have "unat sz < 2 ^ 63" using s(1) by simp
  then have sz: "oh_Size h = int (unat sz)" unfolding r(4) by (rule sint_small)
  have "int (unat sz) < int (2 ^ 60)" using s(1) by (simp only: of_nat_less_iff)
  then have lt: "oh_Size h < 2 ^ 60" unfolding sz by simp
  have "used \<le> used' \<and> used' \<le> length buf \<and> wf_object_header ?a at h"
  proof (cases "oh_Type h = TypeOfsDelta")
    case True
    then obtain w n where o: "readOfsBase (drop used buf) = Inr (w, n)" "used' = used + n"
      "ref = \<lparr>OfsBase = at - sint w, RefBase = zero_hash ?a\<rparr>" "0 < at - sint w" "at - sint w < at"
      using r(2) by (auto simp: delta_base_def Let_def ObjectType_defs split: sum.splits prod.splits if_splits)
    from readOfsBase_sound [OF o(1)] o s(3) True lt sz show ?thesis
      by (simp add: wf_object_header_def r(3))
  next
    case ofs: False
    show ?thesis
    proof (cases "oh_Type h = TypeRefDelta")
      case True
      with r(2) ofs lt sz show ?thesis
        by (auto simp: wf_object_header_def r(3) delta_base_def Let_def wf_hash_def split: if_splits)
    next
      case False
      with r(2) ofs lt sz s(3) show ?thesis
        by (auto simp: wf_object_header_def r(3) delta_base_def Let_def split: if_splits)
    qed
  qed
  moreover have "length buf \<le> length f - nat at" unfolding buf(2) by simp
  ultimately show "at < oh_BodyAt h" "oh_BodyAt h \<le> int (length f)" "wf_object_header ?a at h"
    using s(2) at at' r(5) by linarith+
qed

lemma ReadHeader_encode:
  assumes "pk_r p = r" "0 \<le> at" "drop (nat at) f = encode_header at h @ rest" "wf_object_header (pk_algo p) at h"
    and "oh_BodyAt h = at + int (length (encode_header at h))" "at < 2 ^ 63"
  shows "ReadHeader p at = Inr h"
proof -
  let ?a = "pk_algo p" and ?ts = "encode_type_size (oh_Type h) (nat (oh_Size h))"
  let ?base = "if oh_Type h = TypeOfsDelta then encodeVarint (nat (at - OfsBase (oh_DeltaRef h)))
    else if oh_Type h = TypeRefDelta then RefBase (oh_DeltaRef h) else []"
  have typ8: "oh_Type h < 8" using assms(4) by (auto simp: wf_object_header_def ObjectType_defs)
  have "0 \<le> oh_Size h" "oh_Size h < 2 ^ 60" using assms(4) by (simp_all add: wf_object_header_def)
  then have size: "nat (oh_Size h) < 2 ^ 60" "int (nat (oh_Size h)) = oh_Size h"
    by (simp_all add: nat_less_iff)
  have ne: "?ts \<noteq> []" by (simp add: encode_type_size_def)
  then have "drop (nat at) f \<noteq> []" unfolding assms(3) encode_header_def by simp
  then have at: "at < int (length f)" using assms(2) by (simp add: not_le zless_nat_eq_int_zless)
  obtain buf where buf: "buf \<noteq> []" "buf = take (packHeaderPeek + Algo_Size ?a) (drop (nat at) f)"
    "ReadHeader p at =
       (let typ = unat ((drop_bit 4 (byte_word (buf ! 0) :: u64)) AND 0x07) in
        (case size_loop buf (byte_word (buf ! 0) AND 0x0F) 4 1 of
          Inl err \<Rightarrow> Inl err
        | Inr (sz, used) \<Rightarrow> (case delta_base ?a at typ buf used of
            Inl err \<Rightarrow> Inl err
          | Inr (ref, used) \<Rightarrow>
              Inr \<lparr>oh_Type = typ, oh_DeltaRef = ref, oh_Size = sint sz, oh_BodyAt = at + int used\<rparr>)))"
    by (rule ReadHeader_buf [OF assms(1,2) at])
  have rel: "nat (at - OfsBase (oh_DeltaRef h)) < 2 ^ 63" if "oh_Type h = TypeOfsDelta"
  proof -
    have "at - OfsBase (oh_DeltaRef h) < 2 ^ 63" using assms(4,6) that by (simp add: wf_object_header_def)
    then have "nat (at - OfsBase (oh_DeltaRef h)) < nat (2 ^ 63)" by simp
    then show ?thesis by simp
  qed
  have "length ?ts \<le> 10" using size(1) by (rule length_encode_type_size)
  moreover have "length ?base \<le> 22 + Algo_Size ?a"
    using assms(4) rel length_encodeVarint [of "nat (at - OfsBase (oh_DeltaRef h))"]
    by (auto simp: wf_object_header_def wf_hash_def)
  ultimately have fits: "length (?ts @ ?base) \<le> packHeaderPeek + Algo_Size ?a" by (simp add: packHeaderPeek_def)
  define suf where "suf = take (packHeaderPeek + Algo_Size ?a - length (?ts @ ?base)) rest"
  have b: "buf = ?ts @ ?base @ suf"
    unfolding buf(2) assms(3) encode_header_def suf_def using fits by simp
  obtain w where sl: "size_loop buf (byte_word (buf ! 0) AND 0x0F) 4 1 = Inr (w, length ?ts)" "unat w = nat (oh_Size h)"
    and tb: "unat ((drop_bit 4 (byte_word (buf ! 0) :: u64)) AND 0x07) = oh_Type h"
    using size_loop_type_size(2,3) [OF typ8 size(1), of "?base @ suf"] unfolding b by blast
  have "unat w < 2 ^ 63" using sl(2) size(1) by simp
  then have sz: "sint w = oh_Size h" using sl(2) size(2) by (simp add: sint_small)
  have "delta_base ?a at (oh_Type h) buf (length ?ts) = Inr (oh_DeltaRef h, length (?ts @ ?base))"
  proof (cases "oh_Type h = TypeOfsDelta")
    case True
    let ?v = "nat (at - OfsBase (oh_DeltaRef h))"
    obtain o' where o: "readOfsBase (encodeVarint ?v @ suf) = Inr (o', length (encodeVarint ?v))" "unat o' = ?v"
      by (rule readOfsBase_encode [OF rel [OF True]])
    have "sint o' = at - OfsBase (oh_DeltaRef h)"
      using sint_small [of o'] o(2) rel [OF True] assms(4) True by (simp add: wf_object_header_def)
    with o(1) True assms(4) show ?thesis
      by (cases "oh_DeltaRef h") (simp add: delta_base_def b Let_def wf_object_header_def)
  next
    case ofs: False
    show ?thesis
    proof (cases "oh_Type h = TypeRefDelta")
      case True
      with ofs assms(4) show ?thesis
        by (cases "oh_DeltaRef h") (simp add: delta_base_def b Let_def wf_object_header_def wf_hash_def)
    next
      case False
      with ofs assms(4) show ?thesis
        by (auto simp: delta_base_def b Let_def wf_object_header_def)
    qed
  qed
  moreover have "oh_BodyAt h = at + int (length (?ts @ ?base))" using assms(5) unfolding encode_header_def .
  ultimately show ?thesis
    unfolding buf(3) Let_def tb sl(1) by (simp only: sum.case prod.case sz) simp
qed

end

section \<open>Properties\<close>

text \<open>A pack file: the header with the version and the count, the entries, the trailer.\<close>

definition pack_file :: "nat \<Rightarrow> nat \<Rightarrow> string \<Rightarrow> string \<Rightarrow> string" where
  "pack_file ver n entries trailer = ''PACK'' @ be_bytes 4 ver @ be_bytes 4 n @ entries @ trailer"

lemma OpenPack_file:
  fixes entries :: string
  assumes "ver = 2 \<or> ver = 3" "n < 2 ^ 32" "length trailer = Algo_Size a"
  defines "f \<equiv> pack_file ver n entries trailer"
  shows "OpenPack (\<lambda>_. Inr (file_reader f)) path (Some a) =
    Inr \<lparr>pk_r = file_reader f, pk_algo = a, pk_ver = word_of_nat ver, pk_nr = word_of_nat n\<rparr>"
proof -
  let ?hdr = "''PACK'' @ be_bytes 4 ver @ be_bytes 4 n"
  have len: "int (12 + Algo_Size a) \<le> int (length f)" by (simp add: f_def pack_file_def assms(3))
  have take12: "take 12 f = ?hdr" by (simp add: f_def pack_file_def)
  have read: "pr_ReadAt (file_reader f) 0 12 = (?hdr, None)"
  proof -
    have "12 \<le> length f" using len by simp
    then have "0 < int (length f)" "\<not> length f < 12" by linarith+
    then show ?thesis using fileReader.ReadAt [of 0 f 12] take12 by (simp del: append.simps)
  qed
  have w: "(be (be_bytes 4 v) :: u32) = word_of_nat v" if "v < 2 ^ 32" for v
    using be_be_bytes [of 4 v, where 'a = 32] that by (simp add: word_unat_eq_iff unat_of_nat)
  have v: "ver < 2 ^ 32" using assms(1) by auto
  have parts: "take 4 ?hdr = ''PACK''" "take 4 (drop 4 ?hdr) = be_bytes 4 ver" "take 4 (drop 8 ?hdr) = be_bytes 4 n"
    by simp_all
  have ok: "\<not> ((word_of_nat ver :: u32) \<noteq> 2 \<and> (word_of_nat ver :: u32) \<noteq> 3)" using assms(1) by auto
  have "\<not> pr_Len (file_reader f) < int (12 + Algo_Size a)" using len fileReader.Len [of f] by simp
  then show ?thesis
    unfolding OpenPack_def option.case sum.case read prod.case parts w [OF v] w [OF assms(2)] Let_def
    using ok by (simp only: if_False simp_thms)
qed

text \<open>C25: Pack files round trip: a well-formed pack file opens with its version and count, and wherever an entry
  stands in it, reading the header there gives its type, size and delta base back, with the offset of the
  entry's body.\<close>

theorem pack_round_trip:
  assumes "ver = 2 \<or> ver = 3" "n < 2 ^ 32" "length trailer = Algo_Size a"
    and "wf_object_header a at h" "at = 12 + int (length before)" "at < 2 ^ 63"
    and "oh_BodyAt h = at + int (length (encode_header at h))"
  shows "\<exists>p. OpenPack (\<lambda>_. Inr (file_reader (pack_file ver n (before @ encode_header at h @ rest) trailer))) path (Some a) = Inr p \<and>
    Pack_Version p = word_of_nat ver \<and> Pack_Count p = word_of_nat n \<and> ReadHeader p at = Inr h"
proof -
  let ?f = "pack_file ver n (before @ encode_header at h @ rest) trailer"
  let ?g = "''PACK'' @ be_bytes 4 ver @ be_bytes 4 n @ before"
  have "drop (length g) (g @ s) = s" for g s :: string by simp
  then have "drop (length ?g) (?g @ encode_header at h @ rest @ trailer) = encode_header at h @ rest @ trailer" .
  moreover have "nat at = length ?g" using assms(5) by simp
  moreover have "?f = ?g @ encode_header at h @ rest @ trailer" by (simp only: pack_file_def append_assoc)
  ultimately have "drop (nat at) ?f = encode_header at h @ rest @ trailer" by (simp only:)
  then have "ReadHeader \<lparr>pk_r = file_reader ?f, pk_algo = a, pk_ver = word_of_nat ver, pk_nr = word_of_nat n\<rparr> at = Inr h"
    by (intro fileReader.ReadHeader_encode) (use assms(4-7) in simp_all)
  with OpenPack_file [OF assms(1-3)] show ?thesis by (simp add: Pack_Version_def Pack_Count_def)
qed

theorem pack_round_trip_witness:
  "let h = \<lparr>oh_Type = TypeOfsDelta, oh_DeltaRef = \<lparr>OfsBase = 12, RefBase = zero_hash SHA1\<rparr>, oh_Size = 1000, oh_BodyAt = 17\<rparr>;
       f = pack_file 2 2 (''xx'' @ encode_header 14 h @ ''body'') (replicate 20 (CHR 0x00))
   in \<exists>p. OpenPack (\<lambda>_. Inr (file_reader f)) [] (Some SHA1) = Inr p \<and> Pack_Count p = 2 \<and> ReadHeader p 14 = Inr h"
proof -
  define h where "h = \<lparr>oh_Type = TypeOfsDelta, oh_DeltaRef = \<lparr>OfsBase = 12, RefBase = zero_hash SHA1\<rparr>, oh_Size = 1000, oh_BodyAt = 17\<rparr>"
  have "length (encode_header 14 h) = 3"
    by (simp add: h_def encode_header_def encode_type_size_def encode_le7.simps [of 62] encodeVarint_def encode_high.simps [of 0])
  then have body: "oh_BodyAt h = 14 + int (length (encode_header 14 h))" by (simp add: h_def)
  let ?f = "pack_file 2 2 (''xx'' @ encode_header 14 h @ ''body'') (replicate 20 (CHR 0x00))"
  have "\<exists>p. OpenPack (\<lambda>_. Inr (file_reader ?f)) [] (Some SHA1) = Inr p \<and> Pack_Version p = word_of_nat 2 \<and>
      Pack_Count p = word_of_nat 2 \<and> ReadHeader p 14 = Inr h"
  proof (rule pack_round_trip)
    show "wf_object_header SHA1 14 h" by (simp add: h_def wf_object_header_def)
  qed (use body in simp_all)
  then obtain p where "OpenPack (\<lambda>_. Inr (file_reader ?f)) [] (Some SHA1) = Inr p" "Pack_Count p = word_of_nat 2"
    "ReadHeader p 14 = Inr h" by (elim exE conjE)
  then show ?thesis unfolding h_def [symmetric] Let_def by (intro exI [of _ p]) simp
qed

text \<open>C24: Whatever the bytes of a pack, a header that is read is a sane one: a known type, a size that does not wrap
  around, a body that lies behind the header and within the file, and a delta base at an offset before the delta
  itself, so that following such bases always comes to an end.\<close>

theorem ReadHeader_bounds:
  assumes "ReadHeader \<lparr>pk_r = file_reader f, pk_algo = a, pk_ver = ver, pk_nr = n\<rparr> at = Inr h"
  shows "0 \<le> at \<and> at < oh_BodyAt h \<and> oh_BodyAt h \<le> int (length f) \<and> 0 \<le> oh_Size h \<and> oh_Size h < 2 ^ 60 \<and>
    oh_Type h \<in> {TypeCommit, TypeTree, TypeBlob, TypeTag, TypeOfsDelta, TypeRefDelta} \<and>
    (oh_Type h = TypeOfsDelta \<longrightarrow> 0 < OfsBase (oh_DeltaRef h) \<and> OfsBase (oh_DeltaRef h) < at)"
  using fileReader.ReadHeader_sound [OF _ assms] by (simp add: wf_object_header_def)

theorem ReadHeader_bounds_witness:
  "\<exists>h. ReadHeader \<lparr>pk_r = file_reader [CHR 0x15, CHR ''x''], pk_algo = SHA1, pk_ver = 2, pk_nr = 1\<rparr> 0 = Inr h \<and> oh_BodyAt h \<le> 2"
proof -
  let ?h = "\<lparr>oh_Type = TypeCommit, oh_DeltaRef = \<lparr>OfsBase = 0, RefBase = zero_hash SHA1\<rparr>, oh_Size = 5, oh_BodyAt = 1\<rparr>"
  have "(char_of (21 :: nat) :: char) = CHR 0x15" by code_simp
  then have e: "encode_header 0 ?h = [CHR 0x15]"
    by (simp add: encode_header_def encode_type_size_def ObjectType_defs)
  have "ReadHeader \<lparr>pk_r = file_reader [CHR 0x15, CHR ''x''], pk_algo = SHA1, pk_ver = 2, pk_nr = 1\<rparr> 0 = Inr ?h"
    by (rule fileReader.ReadHeader_encode [where rest = "''x''"]) (use e in \<open>simp_all add: wf_object_header_def ObjectType_defs\<close>)
  with ReadHeader_bounds [OF this] show ?thesis by (intro exI [of _ ?h]) simp
qed

end
