(* ===== verification/Loose_Object.thy ===== *)
theory Loose_Object
  imports Go_Filesystem Pack_File Packed_Refs
begin

text \<open>
  Loose objects: the header of the inflated file and the body behind it
  (\<open>src/internal/objfmt/loose.go\<close>), and the lookup of an object by its id
  (\<open>src/internal/objstore/loose_objects.go\<close>).

  Inflating belongs to the standard library: \<open>zlib src\<close> is an error for a bad stream header, or the inflated bytes
  with the error they end in, and what closing the reader answers. A body's \<open>Read\<close> may hand out any
  non-empty part of what is left, so its choice is an argument: \<open>k\<close> bytes, and whether the end of the stream
  comes along with the last of them.

  The lemmas: a header is read exactly when the inflated bytes start with its canonical form; whatever the reads, the
  overrun flag says that more bytes came than the header declared; closing a drained body accepts exactly
  the bodies of the declared size.
\<close>

section \<open>The header\<close>

text \<open>\<open>(*bufio.Reader).ReadString\<close>.\<close>

definition ReadString :: "char \<Rightarrow> Source \<Rightarrow> (go_error + string) \<times> Source" where
  "ReadString c src = (case Cut (src_rest src) c of (b, rest, found) \<Rightarrow>
     if found then (Inr (b @ [c]), src\<lparr>src_rest := rest\<rparr>) else (Inl (src_end src), src\<lparr>src_rest := []\<rparr>))"

fun loose_size_loop :: "string \<Rightarrow> string \<Rightarrow> int \<Rightarrow> go_error + int" where
  "loose_size_loop s [] n = Inr n"
| "loose_size_loop s (c # cs) n =
     (if \<not> is_digit c then Inl (Wrapf (''objfmt: non-canonical loose object size '' @ quote s @ '': '') ErrCorrupt [])
      else let d = int (byte_val c) - 48 in
        if (2 ^ 63 - 1 - d) div 10 < n then
          Inl (Wrapf (''objfmt: loose object size '' @ quote s @ '' overflows int64: '') ErrCorrupt [])
        else loose_size_loop s cs (n * 10 + d))"

definition parseLooseSize :: "string \<Rightarrow> go_error + int" where
  "parseLooseSize s =
     (if s = [] then Inl (Wrapf ''objfmt: empty loose object size: '' ErrCorrupt [])
      else if 1 < length s \<and> hd s = CHR ''0'' then
        Inl (Wrapf (''objfmt: non-canonical loose object size '' @ quote s @ '': '') ErrCorrupt [])
      else loose_size_loop s s 0)"

definition parseLooseTypeName :: "string \<Rightarrow> go_error + ObjectType" where
  "parseLooseTypeName name =
     (if name = ''commit'' then Inr TypeCommit else if name = ''tree'' then Inr TypeTree
      else if name = ''blob'' then Inr TypeBlob else if name = ''tag'' then Inr TypeTag
      else Inl (New (''objfmt: unknown loose object type '' @ quote name)))"

section \<open>The body\<close>

text \<open>\<open>lb_closer\<close> is \<open>None\<close> once the body is closed, before it what closing the inflater answers.\<close>

record looseBody =
  lb_r :: Source
  lb_closer :: "go_error option option"
  lb_remaining :: int
  lb_overrun :: bool

definition ReadLooseHeader :: "(Source \<Rightarrow> go_error + Source \<times> go_error option) \<Rightarrow> Source \<Rightarrow> go_error + ObjectType \<times> int \<times> looseBody" where
  "ReadLooseHeader zlib r = (case zlib r of
      Inl err \<Rightarrow> Inl (Wrapf ''objfmt: zlib init: '' err [])
    | Inr (zr, close) \<Rightarrow> (case ReadString (CHR '' '') zr of
        (Inl err, _) \<Rightarrow> Inl (Wrapf ''objfmt: read type: '' err [])
      | (Inr typeName, br) \<Rightarrow> (case parseLooseTypeName (butlast typeName) of
          Inl err \<Rightarrow> Inl err
        | Inr typ \<Rightarrow> (case ReadString (CHR 0x00) br of
            (Inl err, _) \<Rightarrow> Inl (Wrapf ''objfmt: read size: '' err [])
          | (Inr sizeStr, br) \<Rightarrow> (case parseLooseSize (butlast sizeStr) of
              Inl err \<Rightarrow> Inl err
            | Inr sz \<Rightarrow> Inr (typ, sz, \<lparr>lb_r = br, lb_closer = Some close, lb_remaining = sz, lb_overrun = False\<rparr>))))))"

text \<open>A read of a buffered reader, of which \<open>k\<close> and \<open>together\<close> are the choice.\<close>

definition br_Read :: "nat \<Rightarrow> bool \<Rightarrow> Source \<Rightarrow> (string \<times> go_error option) \<times> Source" where
  "br_Read k together src =
     (if src_rest src = [] then (([], Some (src_end src)), src)
      else ((take k (src_rest src), if together \<and> length (src_rest src) \<le> k then Some (src_end src) else None),
        src\<lparr>src_rest := drop k (src_rest src)\<rparr>))"

definition looseBody_Read :: "nat \<Rightarrow> bool \<Rightarrow> looseBody \<Rightarrow> (string \<times> go_error option) \<times> looseBody" where
  "looseBody_Read k together b = (case br_Read k together (lb_r b) of ((p, err), r) \<Rightarrow>
     ((p, err), if lb_remaining b < int (length p)
        then b\<lparr>lb_r := r, lb_overrun := True, lb_remaining := 0\<rparr>
        else b\<lparr>lb_r := r, lb_remaining := lb_remaining b - int (length p)\<rparr>))"

definition io_ErrClosedPipe :: go_error where "io_ErrClosedPipe = Sentinel ''io: read/write on closed pipe''"

definition garbage :: go_error where
  "garbage = Wrapf ''objfmt: garbage at end of loose object: '' ErrCorrupt []"

definition trailer_error :: "bool \<Rightarrow> looseBody \<Rightarrow> go_error option" where
  "trailer_error together b =
     (if lb_overrun b then Some garbage
      else if lb_remaining b = 0 then
        (case br_Read 1 together (lb_r b) of ((p, err), _) \<Rightarrow>
           if 0 < length p then Some garbage
           else if err \<noteq> None \<and> \<not> errors_Is (the err) io_EOF then Some garbage
           else None)
      else None)"

definition looseBody_Close :: "bool \<Rightarrow> looseBody \<Rightarrow> go_error option \<times> looseBody" where
  "looseBody_Close together b = (case lb_closer b of
      None \<Rightarrow> (None, b)
    | Some close \<Rightarrow>
        let trailerErr = trailer_error together b; b' = b\<lparr>lb_closer := None\<rparr> in
        if close \<noteq> None \<and> \<not> errors_Is (the close) io_ErrClosedPipe then
          let closeErr = Wrapf ''objfmt: close loose object: '' (the close) [] in
          (case trailerErr of Some err \<Rightarrow> (Some (Join err closeErr), b') | None \<Rightarrow> (Some closeErr, b'))
        else (trailerErr, b'))"

section \<open>Lookup by id\<close>

record looseObjects =
  lo_commonDir :: string
  lo_algo :: Algo

definition openLoose :: "string \<Rightarrow> Algo \<Rightarrow> go_error + looseObjects" where
  "openLoose commonDir a = Inr \<lparr>lo_commonDir = commonDir, lo_algo = a\<rparr>"

definition loose_path :: "looseObjects \<Rightarrow> Hash \<Rightarrow> string" where
  "loose_path l h = Join_path [lo_commonDir l, ''objects'', take 2 (Hex h), drop 2 (Hex h)]"

text \<open>The type, the size and the body; \<open>None\<close> where there is no such object.\<close>

definition loose_Find :: "(Source \<Rightarrow> go_error + Source \<times> go_error option) \<Rightarrow> OS \<Rightarrow> looseObjects \<Rightarrow> Hash \<Rightarrow>
    go_error + (ObjectType \<times> int \<times> looseBody) option" where
  "loose_Find zlib os l h =
     (if length (Hex h) < 3 then Inl (New (''objstore: loose lookup with unknown algo '' @ Algo_String (lo_algo l)))
      else let path = loose_path l h in
        case os_Open os path of
          Inl err \<Rightarrow> if errors_Is err os_ErrNotExist then Inr None else Inl (Wrapf (''objstore: open '' @ path @ '': '') err [])
        | Inr f \<Rightarrow> (case ReadLooseHeader zlib f of
            Inl err \<Rightarrow> Inl (Wrapf2 (''objstore: read '' @ path @ '': '') err '': '' ErrCorruptObject [])
          | Inr found \<Rightarrow> Inr (Some found)))"

definition looseFileBody_Close :: "bool \<Rightarrow> go_error option \<Rightarrow> looseBody \<Rightarrow> go_error option \<times> looseBody" where
  "looseFileBody_Close together fileErr b = (case looseBody_Close together b of (innerErr, b') \<Rightarrow>
     (case innerErr of
        None \<Rightarrow> fileErr
      | Some err \<Rightarrow> (case fileErr of None \<Rightarrow> Some err | Some err' \<Rightarrow> Some (Join err err')), b'))"

section \<open>Lemmas\<close>

lemma ReadString_Inr: "ReadString c src = (Inr l, src') \<longleftrightarrow>
    (\<exists>p. l = p @ [c] \<and> c \<notin> set p \<and> src_rest src = p @ c # src_rest src' \<and> src' = src\<lparr>src_rest := src_rest src'\<rparr>)"
  (is "?l \<longleftrightarrow> ?r")
proof
  assume ?l
  then show ?r by (cases rule: Cut_cases [of "src_rest src" c]) (auto simp: ReadString_def)
next
  assume ?r
  then obtain p where p: "l = p @ [c]" "c \<notin> set p" "src_rest src = p @ c # src_rest src'" "src' = src\<lparr>src_rest := src_rest src'\<rparr>" by blast
  show ?l unfolding ReadString_def p(3) Cut_found [OF p(2)] using p(1,4) by simp
qed

text \<open>The canonical decimal numbers.\<close>

lemma digits_val_snoc: "digits_val (s @ [c]) = digits_val s * 10 + (byte_val c - 48)"
  by (simp add: digits_val_def)

lemma digits_foldl_mono: "n \<le> foldl (\<lambda>n c. n * 10 + (byte_val c - 48)) n s" for n :: nat
proof (induction s arbitrary: n)
  case (Cons c s)
  have "n \<le> n * 10 + (byte_val c - 48)" by simp
  also have "\<dots> \<le> foldl (\<lambda>n c. n * 10 + (byte_val c - 48)) (n * 10 + (byte_val c - 48)) s" by (rule Cons.IH)
  finally show ?case by simp
qed simp

lemma loose_size_loop_exact: "loose_size_loop s cs (int n) = Inr m \<longleftrightarrow>
    list_all is_digit cs \<and> foldl (\<lambda>n c. n * 10 + (byte_val c - 48)) n cs < 2 ^ 63 \<and>
    m = int (foldl (\<lambda>n c. n * 10 + (byte_val c - 48)) n cs)"
  if "n < 2 ^ 63"
  using that
proof (induction cs arbitrary: n)
  case (Cons c cs)
  let ?n = "n * 10 + (byte_val c - 48)"
  show ?case
  proof (cases "is_digit c")
    case True
    then have d: "int (byte_val c) - 48 = int (byte_val c - 48)" by (simp add: is_digit_def)
    have "(2 ^ 63 - 1 - x) div 10 < y \<longleftrightarrow> 2 ^ 63 - 1 < y * 10 + (x :: int)" for x y by presburger
    moreover have "(2 ^ 63 :: int) = int (2 ^ 63)" by simp
    ultimately have guard: "(2 ^ 63 - 1 - int (byte_val c - 48)) div 10 < int n \<longleftrightarrow> \<not> ?n < 2 ^ 63" by linarith
    show ?thesis
    proof (cases "?n < 2 ^ 63")
      case small: True
      have "int n * 10 + int (byte_val c - 48) = int ?n" by simp
      then show ?thesis using Cons.IH [OF small] True small by (simp only: loose_size_loop.simps d Let_def guard) simp
    next
      case False
      have "\<not> foldl (\<lambda>n c. n * 10 + (byte_val c - 48)) ?n cs < 2 ^ 63"
        using False digits_foldl_mono [of ?n cs] by linarith
      then show ?thesis using True False by (simp only: loose_size_loop.simps d Let_def guard) simp
    qed
  qed simp
qed auto

lemma itoa_nat_canonical:
  "s \<noteq> [] \<Longrightarrow> list_all is_digit s \<Longrightarrow> \<not> (1 < length s \<and> hd s = CHR ''0'') \<Longrightarrow> itoa_nat (digits_val s) = s"
proof (induction s rule: rev_induct)
  case (snoc c t)
  have c: "is_digit c" using snoc.prems(2) by simp
  then have dc: "digit_char (byte_val c - 48) = c" "byte_val c - 48 < 10" by (auto simp: is_digit_def digit_char_def)
  show ?case
  proof (cases "t = []")
    case True
    then show ?thesis using dc by (simp add: digits_val_def itoa_nat.simps)
  next
    case False
    then have h: "hd t \<noteq> CHR ''0''" using snoc.prems(3) by (cases t) auto
    have it: "itoa_nat (digits_val t) = t" using snoc False h by auto
    have "itoa_nat 0 = ''0''" by code_simp
    then have "digits_val t \<noteq> 0" using it h by (metis list.sel(1))
    then have "\<not> digits_val (t @ [c]) < 10" by (simp add: digits_val_snoc)
    moreover have "digits_val (t @ [c]) div 10 = digits_val t" "digits_val (t @ [c]) mod 10 = byte_val c - 48"
      using dc(2) by (simp_all add: digits_val_snoc)
    ultimately show ?thesis using it dc(1) by (subst itoa_nat.simps) simp
  qed
qed simp

lemma itoa_nat_head: "0 < n \<Longrightarrow> hd (itoa_nat n) \<noteq> CHR ''0''"
proof (induction n rule: itoa_nat.induct)
  case (1 n)
  show ?case
  proof (cases "n < 10")
    case True
    then have "byte_val (digit_char n) \<noteq> byte_val (CHR ''0'')" using 1 by (simp add: byte_val_digit_char)
    with True show ?thesis by (subst itoa_nat.simps) auto
  next
    case False
    then have "hd (itoa_nat (n div 10)) \<noteq> CHR ''0''" using 1 by simp
    moreover have "itoa_nat (n div 10) \<noteq> []" using itoa_nat_digits by simp
    ultimately show ?thesis using False by (subst itoa_nat.simps) simp
  qed
qed

lemma parseLooseSize_exact: "parseLooseSize s = Inr n \<longleftrightarrow> 0 \<le> n \<and> n < 2 ^ 63 \<and> s = itoa n"
proof
  assume a: "parseLooseSize s = Inr n"
  then have s: "s \<noteq> []" "\<not> (1 < length s \<and> hd s = CHR ''0'')" "loose_size_loop s s (int 0) = Inr n"
    by (auto simp: parseLooseSize_def split: if_splits)
  then have "list_all is_digit s" "digits_val s < 2 ^ 63" "n = int (digits_val s)"
    using loose_size_loop_exact [of 0 s s n] by (auto simp: digits_val_def)
  with s itoa_nat_canonical [of s] show "0 \<le> n \<and> n < 2 ^ 63 \<and> s = itoa n" by (auto simp: itoa_def)
next
  assume a: "0 \<le> n \<and> n < 2 ^ 63 \<and> s = itoa n"
  then have s: "s = itoa_nat (nat n)" "nat n < 2 ^ 63" by (auto simp: itoa_def)
  have "loose_size_loop s s (int 0) = Inr n"
    using loose_size_loop_exact [of 0 s s n] itoa_nat_digits [of "nat n"] s a by (simp add: digits_val_def)
  moreover have "\<not> (1 < length s \<and> hd s = CHR ''0'')"
  proof (cases "nat n = 0")
    case True
    then show ?thesis using s by (simp add: itoa_nat.simps)
  qed (use itoa_nat_head [of "nat n"] s in simp)
  ultimately show "parseLooseSize s = Inr n" using itoa_nat_digits [of "nat n"] s by (simp add: parseLooseSize_def)
qed

section \<open>Properties\<close>

lemma type_name_no_space: "parseLooseTypeName name = Inr typ \<Longrightarrow> CHR '' '' \<notin> set name \<and> name = ObjectType_String typ \<and>
    typ \<in> {TypeCommit, TypeTree, TypeBlob, TypeTag}"
  by (auto simp: parseLooseTypeName_def ObjectType_String_def ObjectType_defs split: if_splits)

lemma parseLooseTypeName_String: "typ \<in> {TypeCommit, TypeTree, TypeBlob, TypeTag} \<Longrightarrow> parseLooseTypeName (ObjectType_String typ) = Inr typ"
  by (auto simp: parseLooseTypeName_def ObjectType_String_def ObjectType_defs)

lemma itoa_nat_no_nul: "CHR 0x00 \<notin> set (itoa_nat n)"
  using itoa_nat_digits [of n] by (auto simp: list_all_iff is_digit_def)

text \<open>C33: A loose object header is accepted exactly when the inflated bytes start with its canonical form: the name
  of one of the four types, a space, the decimal size without leading zeros and below two to the 63, and a
  zero byte; the body is then what follows, with the declared size still owed.\<close>

theorem loose_header_exact:
  "ReadLooseHeader zlib r = Inr (typ, n, body) \<longleftrightarrow>
     (\<exists>rest e close. zlib r = Inr (\<lparr>src_rest = ObjectType_String typ @ CHR '' '' # itoa n @ CHR 0x00 # rest, src_end = e\<rparr>, close) \<and>
       typ \<in> {TypeCommit, TypeTree, TypeBlob, TypeTag} \<and> 0 \<le> n \<and> n < 2 ^ 63 \<and>
       body = \<lparr>lb_r = \<lparr>src_rest = rest, src_end = e\<rparr>, lb_closer = Some close, lb_remaining = n, lb_overrun = False\<rparr>)"
  (is "?l \<longleftrightarrow> ?r")
proof
  assume ?l
  then obtain zr close t br sz br' where s: "zlib r = Inr (zr, close)" "ReadString (CHR '' '') zr = (Inr t, br)"
    "parseLooseTypeName (butlast t) = Inr typ" "ReadString (CHR 0x00) br = (Inr sz, br')" "parseLooseSize (butlast sz) = Inr n"
    "body = \<lparr>lb_r = br', lb_closer = Some close, lb_remaining = n, lb_overrun = False\<rparr>"
    by (auto simp: ReadLooseHeader_def split: sum.splits prod.splits)
  then show ?r using type_name_no_space [OF s(3)]
    by (cases zr; cases br; cases br') (auto simp: ReadString_Inr parseLooseSize_exact)
next
  assume ?r
  then obtain rest e close where s: "zlib r = Inr (\<lparr>src_rest = ObjectType_String typ @ CHR '' '' # itoa n @ CHR 0x00 # rest, src_end = e\<rparr>, close)"
    "typ \<in> {TypeCommit, TypeTree, TypeBlob, TypeTag}" "0 \<le> n" "n < 2 ^ 63"
    "body = \<lparr>lb_r = \<lparr>src_rest = rest, src_end = e\<rparr>, lb_closer = Some close, lb_remaining = n, lb_overrun = False\<rparr>" by blast
  note t = parseLooseTypeName_String [OF s(2)]
  have "CHR 0x00 \<notin> set (itoa n)" using s(3) itoa_nat_no_nul by (simp add: itoa_def)
  then have "ReadString (CHR 0x00) \<lparr>src_rest = itoa n @ CHR 0x00 # rest, src_end = e\<rparr> =
      (Inr (itoa n @ [CHR 0x00]), \<lparr>src_rest = rest, src_end = e\<rparr>)" by (simp add: ReadString_Inr)
  moreover have "ReadString (CHR '' '') \<lparr>src_rest = ObjectType_String typ @ CHR '' '' # itoa n @ CHR 0x00 # rest, src_end = e\<rparr> =
      (Inr (ObjectType_String typ @ [CHR '' '']), \<lparr>src_rest = itoa n @ CHR 0x00 # rest, src_end = e\<rparr>)"
    using type_name_no_space [OF t] by (simp add: ReadString_Inr)
  moreover have "parseLooseSize (itoa n) = Inr n" using s(3,4) by (simp add: parseLooseSize_exact)
  ultimately show ?l using s t by (simp add: ReadLooseHeader_def)
qed

text \<open>A sequence of reads, each with its choice.\<close>

fun body_reads :: "(nat \<times> bool) list \<Rightarrow> looseBody \<Rightarrow> string \<times> looseBody" where
  "body_reads [] b = ([], b)"
| "body_reads ((k, together) # cs) b = (case looseBody_Read k together b of ((p, err), b') \<Rightarrow>
     (case body_reads cs b' of (ps, b'') \<Rightarrow> (p @ ps, b'')))"

lemma body_reads_state:
  assumes "body_reads cs b = (out, b')" "0 \<le> lb_remaining b"
  shows "src_rest (lb_r b) = out @ src_rest (lb_r b')" "src_end (lb_r b') = src_end (lb_r b)" "lb_closer b' = lb_closer b"
    "lb_overrun b' \<longleftrightarrow> lb_overrun b \<or> lb_remaining b < int (length out)"
    "lb_remaining b' = (if lb_remaining b < int (length out) then 0 else lb_remaining b - int (length out)) \<or> lb_overrun b'"
    "0 \<le> lb_remaining b'"
proof -
  have "src_rest (lb_r b) = out @ src_rest (lb_r b') \<and> src_end (lb_r b') = src_end (lb_r b) \<and> lb_closer b' = lb_closer b \<and>
    (lb_overrun b' \<longleftrightarrow> lb_overrun b \<or> lb_remaining b < int (length out)) \<and>
    (lb_remaining b' = (if lb_remaining b < int (length out) then 0 else lb_remaining b - int (length out)) \<or> lb_overrun b') \<and>
    0 \<le> lb_remaining b'"
    using assms
  proof (induction cs b arbitrary: out b' rule: body_reads.induct)
    case (2 k together cs b)
    obtain p err b1 where r: "looseBody_Read k together b = ((p, err), b1)" by (metis surj_pair)
    obtain ps where rs: "body_reads cs b1 = (ps, b')" "out = p @ ps" using 2(2) r by (auto split: prod.splits)
    have b1: "src_rest (lb_r b) = p @ src_rest (lb_r b1)" "src_end (lb_r b1) = src_end (lb_r b)" "lb_closer b1 = lb_closer b"
      "lb_overrun b1 = (lb_overrun b \<or> lb_remaining b < int (length p))"
      "lb_remaining b1 = (if lb_remaining b < int (length p) then 0 else lb_remaining b - int (length p))"
      using r by (auto simp: looseBody_Read_def br_Read_def split: if_splits)
    have "0 \<le> lb_remaining b1" using b1(5) 2(3) by simp
    from 2(1) [OF r [symmetric] refl rs(1) this] b1 rs(2) show ?case by auto
  qed auto
  then show "src_rest (lb_r b) = out @ src_rest (lb_r b')" "src_end (lb_r b') = src_end (lb_r b)" "lb_closer b' = lb_closer b"
    "lb_overrun b' \<longleftrightarrow> lb_overrun b \<or> lb_remaining b < int (length out)"
    "lb_remaining b' = (if lb_remaining b < int (length out) then 0 else lb_remaining b - int (length out)) \<or> lb_overrun b'"
    "0 \<le> lb_remaining b'" by blast+
qed

text \<open>Closing a loose object's body checks what was read against the declared size, however the reads were
  cut: it succeeds exactly when fewer bytes than declared were taken, or exactly as many and the inflated
  stream ends cleanly right there.\<close>

theorem loose_body_trailer:
  assumes "body_reads cs \<lparr>lb_r = \<lparr>src_rest = rest, src_end = e\<rparr>, lb_closer = Some None, lb_remaining = n, lb_overrun = False\<rparr> = (out, b)"
    and "0 \<le> n"
  shows "fst (looseBody_Close together b) = None \<longleftrightarrow>
    int (length out) < n \<or> int (length out) = n \<and> out = rest \<and> errors_Is e io_EOF"
proof -
  note r = body_reads_state [OF assms(1), simplified, OF assms(2)]
  consider "int (length out) < n" | "int (length out) = n" | "n < int (length out)" by linarith
  then show ?thesis
  proof cases
    case 2
    show ?thesis
    proof (cases "src_rest (lb_r b)")
      case Nil
      with r 2 show ?thesis
        by (auto simp: looseBody_Close_def trailer_error_def br_Read_def Let_def)
    next
      case (Cons c cs)
      with r 2 show ?thesis by (auto simp: looseBody_Close_def trailer_error_def br_Read_def Let_def)
    qed
  qed (use r in \<open>auto simp: looseBody_Close_def trailer_error_def Let_def\<close>)
qed

theorem loose_body_trailer_witness:
  "let b = snd (body_reads [(2, False), (9, True)]
       \<lparr>lb_r = \<lparr>src_rest = ''abcd'', src_end = io_EOF\<rparr>, lb_closer = Some None, lb_remaining = 4, lb_overrun = False\<rparr>)
   in fst (looseBody_Close True b) = None"
proof -
  let ?b0 = "\<lparr>lb_r = \<lparr>src_rest = ''abcd'', src_end = io_EOF\<rparr>, lb_closer = Some None, lb_remaining = 4, lb_overrun = False\<rparr>"
  obtain b where b: "body_reads [(2, False), (9, True)] ?b0 = (''abcd'', b)"
    by (simp add: looseBody_Read_def br_Read_def)
  show ?thesis using loose_body_trailer [OF b, of True] b by simp
qed

text \<open>A stream that ends before the declared size is not noticed, drained or not: the check only runs when
  nothing is owed any more.\<close>

lemma truncated_body_accepted:
  "looseBody_Read 9 True \<lparr>lb_r = \<lparr>src_rest = ''ab'', src_end = io_EOF\<rparr>, lb_closer = Some None, lb_remaining = 4, lb_overrun = False\<rparr> =
    ((''ab'', Some io_EOF), \<lparr>lb_r = \<lparr>src_rest = [], src_end = io_EOF\<rparr>, lb_closer = Some None, lb_remaining = 2, lb_overrun = False\<rparr>)"
  "fst (looseBody_Close together \<lparr>lb_r = \<lparr>src_rest = [], src_end = io_EOF\<rparr>, lb_closer = Some None, lb_remaining = 2, lb_overrun = False\<rparr>) = None"
  by (simp_all add: looseBody_Read_def br_Read_def looseBody_Close_def trailer_error_def)

text \<open>The lookup: an object under its path, a miss for a missing file, an error for anything else.\<close>

lemma loose_Find_cases:
  assumes "wf_hash (lo_algo l) h"
  shows "loose_Find zlib os l h = (case os_Open os (loose_path l h) of
      Inl err \<Rightarrow> if errors_Is err os_ErrNotExist then Inr None else Inl (Wrapf (''objstore: open '' @ loose_path l h @ '': '') err [])
    | Inr f \<Rightarrow> (case ReadLooseHeader zlib f of
        Inl err \<Rightarrow> Inl (Wrapf2 (''objstore: read '' @ loose_path l h @ '': '') err '': '' ErrCorruptObject [])
      | Inr found \<Rightarrow> Inr (Some found)))"
proof -
  have "length (Hex h) = 2 * length h" by (induction h) (simp_all add: Hex_def)
  then have "\<not> length (Hex h) < 3" using assms by (cases "lo_algo l") (simp_all add: wf_hash_def)
  then show ?thesis by (simp add: loose_Find_def Let_def)
qed

end
