(* ===== verification/Oid_Search.thy ===== *)
theory Oid_Search
  imports Pack_File
begin

text \<open>
  The search that pack indexes and the multi-pack index share: a fan-out table by the first byte narrows a
  sorted table of object ids, and a binary search over 32-bit indices finds the id
  (\<open>findOffsetV1\<close> in \<open>src/internal/objfmt/idx_v1.go\<close>, \<open>searchV2\<close> in \<open>idx_v2.go\<close>, \<open>searchOID\<close> in
  \<open>midx_find.go\<close>, which write the loop out three times).

  The locale \<open>oid_table\<close> is the contract of such a table; its lemma is the correctness of the search.
\<close>

section \<open>The code\<close>

text \<open>The midpoint, which does not wrap around.\<close>

lemma mid_bounds:
  fixes lo hi :: u32
  assumes "lo < hi"
  defines "mid \<equiv> lo + (hi - lo) div 2"
  shows "unat mid = (unat lo + unat hi) div 2" "lo \<le> mid" "mid < hi" "unat (mid + 1) = unat mid + 1"
proof -
  have lt: "unat lo < unat hi" using assms(1) by (simp add: word_less_nat_alt)
  have "unat ((hi - lo) div 2) = (unat hi - unat lo) div 2"
    using lt by (simp add: unat_div unat_sub word_le_nat_alt)
  moreover have "unat hi < 2 ^ 32" using unsigned_less [of hi] by simp
  moreover from this have "unat lo + (unat hi - unat lo) div 2 < 2 ^ 32" using lt by linarith
  ultimately have "unat mid = unat lo + (unat hi - unat lo) div 2"
    using unat_add_lem [of lo "(hi - lo) div 2"] by (simp add: mid_def)
  with lt show m: "unat mid = (unat lo + unat hi) div 2" by linarith
  then show "lo \<le> mid" "mid < hi" using lt by (auto simp: word_le_nat_alt word_less_nat_alt)
  have "unat mid + 1 < 2 ^ 32" using \<open>mid < hi\<close> \<open>unat hi < 2 ^ 32\<close> by (simp add: word_less_nat_alt)
  then show "unat (mid + 1) = unat mid + 1" using unat_add_lem [of mid 1] by simp
qed

text \<open>\<open>get\<close> reads an entry, \<open>None\<close> being a slice out of bounds. Of the result, the outer \<open>None\<close> is that panic.\<close>

function oid_search :: "(nat \<Rightarrow> string option) \<Rightarrow> string \<Rightarrow> u32 \<Rightarrow> u32 \<Rightarrow> u32 option option" where
  "oid_search get want lo hi =
     (if lo < hi then
        let mid = lo + (hi - lo) div 2
        in case get (unat mid) of
            None \<Rightarrow> None
          | Some got \<Rightarrow>
              if bytes_Compare want got = 0 then Some (Some mid)
              else if bytes_Compare want got = -1 then oid_search get want lo mid
              else oid_search get want (mid + 1) hi
      else Some None)"
  by pat_completeness auto

termination
proof (relation "measure (\<lambda>(get, want, lo, hi). unat hi - unat lo)")
  fix get :: "nat \<Rightarrow> string option" and want and lo hi mid :: u32 and got
  assume a: "lo < hi" "mid = lo + (hi - lo) div 2"
  note m = mid_bounds [OF a(1), folded a(2)]
  have lt: "unat lo < unat hi" using a(1) by (simp add: word_less_nat_alt)
  show "((get, want, lo, mid), get, want, lo, hi) \<in> measure (\<lambda>(get, want, lo, hi). unat hi - unat lo)"
    "((get, want, mid + 1, hi), get, want, lo, hi) \<in> measure (\<lambda>(get, want, lo, hi). unat hi - unat lo)"
    using m lt by (auto simp: word_le_nat_alt word_less_nat_alt)
qed simp_all

declare oid_search.simps [simp del]

text \<open>The bounds the fan-out gives for a first byte; \<open>fan k\<close> reads its slot \<open>k\<close>.\<close>

definition fan_bounds :: "(nat \<Rightarrow> u32) \<Rightarrow> string \<Rightarrow> u32 \<times> u32" where
  "fan_bounds fan h = (let prefix = byte_val (hd h) in (if 0 < prefix then fan (prefix - 1) else 0, fan prefix))"

text \<open>\<open>binary.BigEndian.Uint32\<close> and \<open>Uint64\<close> of the bytes at an offset that was checked to be in range.\<close>

definition u32_at :: "string \<Rightarrow> nat \<Rightarrow> u32" where
  "u32_at s k = be (take 4 (drop k s))"

definition u64_at :: "string \<Rightarrow> nat \<Rightarrow> u64" where
  "u64_at s k = be (take 8 (drop k s))"

text \<open>The check that a fan-out table does not decrease, from the slots \<open>ks\<close> on; \<open>kind\<close> names the file's kind.\<close>

fun fanout_loop :: "string \<Rightarrow> string \<Rightarrow> nat list \<Rightarrow> u32 \<Rightarrow> go_error + u32" where
  "fanout_loop kind fanout [] prev = Inr prev"
| "fanout_loop kind fanout (k # ks) prev =
     (let n = u32_at fanout (k * 4) in
      if n < prev then
        Inl (Wrapf (''objfmt: '' @ kind @ '' non-monotonic fanout at '' @ itoa_nat k @ '': '' @ itoa_nat (unat n) @ '' < '' @
          itoa_nat (unat prev) @ '': '') ErrCorrupt [])
      else fanout_loop kind fanout ks n)"

section \<open>Lemmas\<close>

text \<open>The search finds whatever is in the range it is given, in a sorted table.\<close>

lemma oid_search_sorted:
  assumes "\<And>i. unat lo \<le> i \<Longrightarrow> i < unat hi \<Longrightarrow> get i = Some (f i)"
    and "\<And>i j. unat lo \<le> i \<Longrightarrow> i < j \<Longrightarrow> j < unat hi \<Longrightarrow> f i < f j"
  shows "oid_search get want lo hi = Some (if \<exists>i. unat lo \<le> i \<and> i < unat hi \<and> f i = want
    then Some (word_of_nat (THE i. unat lo \<le> i \<and> i < unat hi \<and> f i = want)) else None)"
  using assms
proof (induction get want lo hi rule: oid_search.induct)
  case (1 get want lo hi)
  let ?mid = "lo + (hi - lo) div 2"
  let ?in = "\<lambda>lo hi i. unat lo \<le> i \<and> i < unat (hi :: u32) \<and> f i = want"
  show ?case
  proof (cases "lo < hi")
    case True
    note m = mid_bounds [OF True]
    have mid: "unat lo \<le> unat ?mid" "unat ?mid < unat hi" using m(2,3) by (simp_all add: word_le_nat_alt word_less_nat_alt)
    have get: "get (unat ?mid) = Some (f (unat ?mid))" using 1(3) mid by blast
    consider "want = f (unat ?mid)" | "want < f (unat ?mid)" | "f (unat ?mid) < want" by (rule linorder_cases) auto
    then show ?thesis
    proof cases
      case 1
      have inj: "i = unat ?mid" if "unat lo \<le> i" "i < unat hi" "f i = want" for i
        using that mid \<open>want = _\<close> "1.prems"(2) [of i "unat ?mid"] "1.prems"(2) [of "unat ?mid" i]
        by (cases i "unat ?mid" rule: linorder_cases) auto
      then have "(THE i. ?in lo hi i) = unat ?mid" using mid \<open>want = _\<close> by (intro the_equality) auto
      with True get \<open>want = _\<close> mid show ?thesis by (subst oid_search.simps) auto
    next
      case 2
      have "f (unat ?mid) \<le> f i" if "unat ?mid \<le> i" "i < unat hi" for i
        using that mid "1.prems"(2) [of "unat ?mid" i] by (cases "i = unat ?mid") auto
      then have eq: "?in lo hi = ?in lo ?mid" using 2 mid by (auto simp: fun_eq_iff not_less [symmetric])
      have "oid_search get want lo hi = oid_search get want lo ?mid"
        using True get 2 by (subst oid_search.simps) (auto simp: Let_def)
      also have "\<dots> = Some (if \<exists>i. ?in lo ?mid i then Some (word_of_nat (THE i. ?in lo ?mid i)) else None)"
        using True get 2 mid "1.prems" by (intro "1.IH"(1) [OF True refl get]) auto
      finally show ?thesis unfolding eq .
    next
      case 3
      have "f i \<le> f (unat ?mid)" if "unat lo \<le> i" "i \<le> unat ?mid" for i
        using that mid "1.prems"(2) [of i "unat ?mid"] by (cases "i = unat ?mid") auto
      then have eq: "?in lo hi = ?in (?mid + 1) hi" using 3 mid m(4) by (auto simp: fun_eq_iff Suc_le_eq not_less [symmetric])
      have "oid_search get want lo hi = oid_search get want (?mid + 1) hi"
        using True get 3 by (subst oid_search.simps) (auto simp: Let_def)
      also have "\<dots> = Some (if \<exists>i. ?in (?mid + 1) hi i then Some (word_of_nat (THE i. ?in (?mid + 1) hi i)) else None)"
        using True get 3 mid "1.prems" m(4) by (intro "1.IH"(2) [OF True refl get]) auto
      finally show ?thesis unfolding eq .
    qed
  next
    case False
    then have "\<not> (\<exists>i. ?in lo hi i)" by (auto simp: word_less_nat_alt)
    with False show ?thesis by (subst oid_search.simps) simp
  qed
qed

text \<open>The contract of a table: ids in strictly ascending order, fewer than 32 bits can count, and a fan-out that
  counts, for every first byte, the ids up to it.\<close>

locale oid_table =
  fixes ok :: "'t \<Rightarrow> bool" and oids :: "'t \<Rightarrow> string list" and fan :: "'t \<Rightarrow> nat \<Rightarrow> u32"
  assumes ascending: "ok t \<Longrightarrow> sorted_wrt (<) (oids t)"
    and nonempty: "ok t \<Longrightarrow> oid \<in> set (oids t) \<Longrightarrow> oid \<noteq> []"
    and few: "ok t \<Longrightarrow> length (oids t) < 2 ^ 32"
    and fan_count: "ok t \<Longrightarrow> k < 256 \<Longrightarrow> unat (fan t k) = length (filter (\<lambda>oid. byte_val (hd oid) \<le> k) (oids t))"
begin

lemma hd_mono: "a \<noteq> [] \<Longrightarrow> (a :: string) \<le> b \<Longrightarrow> byte_val (hd a) \<le> byte_val (hd b)"
  by (cases a; cases b) (auto simp: less_eq_char_def less_char_def)

text \<open>In a sorted list the elements a threshold admits are the first ones.\<close>

lemma below_fan:
  assumes "ok t" "k < 256" "i < length (oids t)"
  shows "i < unat (fan t k) \<longleftrightarrow> byte_val (hd (oids t ! i)) \<le> k"
proof -
  let ?P = "\<lambda>oid. byte_val (hd oid) \<le> k"
  have "i < length (filter ?P xs) \<longleftrightarrow> ?P (xs ! i)"
    if "sorted_wrt (<) xs" "\<forall>x \<in> set xs. x \<noteq> []" "i < length xs" for xs :: "string list" and i
    using that
  proof (induction xs arbitrary: i)
    case (Cons x xs)
    have le: "?P x" if "?P y" "y \<in> set xs" for y
      using that Cons.prems(1,2) hd_mono [of x y] by (auto intro: order.trans less_imp_le)
    show ?case
    proof (cases i)
      case 0
      have "filter ?P xs = []" if "\<not> ?P x" using that le by (auto simp: filter_empty_conv)
      then show ?thesis using 0 by auto
    next
      case (Suc j)
      then have j: "j < length xs" using Cons.prems(3) by simp
      have "filter ?P xs = []" if "\<not> ?P x" using that le by (auto simp: filter_empty_conv)
      moreover have "j < length (filter ?P xs) \<longleftrightarrow> ?P (xs ! j)" using Cons j by simp
      moreover have "?P x" if "?P (xs ! j)" using le [OF that] j by simp
      ultimately show ?thesis using Suc by auto
    qed
  qed simp
  with ascending [OF assms(1)] nonempty [OF assms(1)] assms(3) fan_count [OF assms(1,2)] show ?thesis by simp
qed

lemma fan_bounds_range:
  assumes "ok t" "h \<noteq> []" "i < length (oids t)"
  shows "unat (fst (fan_bounds (fan t) h)) \<le> i \<and> i < unat (snd (fan_bounds (fan t) h)) \<longleftrightarrow>
    byte_val (hd (oids t ! i)) = byte_val (hd h)"
proof -
  let ?k = "byte_val (hd h)"
  have "?k < 256" by simp
  then have hi: "i < unat (fan t ?k) \<longleftrightarrow> byte_val (hd (oids t ! i)) \<le> ?k" by (intro below_fan assms)
  have "unat (fst (fan_bounds (fan t) h)) \<le> i \<longleftrightarrow> ?k \<le> byte_val (hd (oids t ! i))"
  proof (cases "0 < ?k")
    case True
    then have "?k - 1 < 256" using \<open>?k < 256\<close> by linarith
    then have "i < unat (fan t (?k - 1)) \<longleftrightarrow> byte_val (hd (oids t ! i)) \<le> ?k - 1" by (intro below_fan assms)
    with True show ?thesis by (auto simp: fan_bounds_def Let_def)
  qed (simp add: fan_bounds_def Let_def)
  with hi show ?thesis by (auto simp: fan_bounds_def Let_def)
qed

lemma fan_le: "ok t \<Longrightarrow> k < 256 \<Longrightarrow> unat (fan t k) \<le> length (oids t)"
  using fan_count [of t k] by simp

text \<open>The search over the whole table, behind its fan-out.\<close>

lemma search_finds:
  assumes "ok t" "h \<noteq> []" "\<And>i. i < length (oids t) \<Longrightarrow> get i = Some (oids t ! i)"
    and "fan_bounds (fan t) h = (lo, hi)"
  shows "unat hi \<le> length (oids t)"
    and "i < length (oids t) \<Longrightarrow> oids t ! i = h \<Longrightarrow> oid_search get h lo hi = Some (Some (word_of_nat i))"
    and "h \<notin> set (oids t) \<Longrightarrow> oid_search get h lo hi = Some None"
proof -
  show hi: "unat hi \<le> length (oids t)"
    using fan_le [OF assms(1), of "byte_val (hd h)"] assms(4) by (auto simp: fan_bounds_def Let_def)
  have range: "unat lo \<le> i \<and> i < unat hi \<longleftrightarrow> byte_val (hd (oids t ! i)) = byte_val (hd h)" if "i < length (oids t)" for i
    using fan_bounds_range [OF assms(1,2) that] assms(4) by simp
  have asc: "oids t ! i < oids t ! j" if "i < j" "j < length (oids t)" for i j
    using ascending [OF assms(1)] that by (simp add: sorted_wrt_iff_nth_less)
  let ?ex = "\<lambda>i. unat lo \<le> i \<and> i < unat hi \<and> oids t ! i = h"
  have search: "oid_search get h lo hi = Some (if \<exists>i. ?ex i then Some (word_of_nat (THE i. ?ex i)) else None)"
    by (rule oid_search_sorted) (use assms(3) asc hi in auto)
  show "oid_search get h lo hi = Some (Some (word_of_nat i))" if "i < length (oids t)" "oids t ! i = h" for i
  proof -
    have i: "?ex i" using range [OF that(1)] that(2) by simp
    have "(THE i. ?ex i) = i"
    proof (rule the_equality)
      fix j assume j: "?ex j"
      show "j = i"
      proof (rule ccontr)
        assume "j \<noteq> i"
        then consider "j < i" | "i < j" by linarith
        then show False using j that hi asc [of j i] asc [of i j] by cases simp_all
      qed
    qed (rule i)
    with i have "(if \<exists>i. ?ex i then Some (word_of_nat (THE i. ?ex i)) else None) = Some (word_of_nat i :: u32)" by metis
    then show ?thesis unfolding search by simp
  qed
  show "oid_search get h lo hi = Some None" if "h \<notin> set (oids t)"
    using search that hi by (auto simp: in_set_conv_nth)
qed

end

end
