(* ===== verification/Pack_Index.thy ===== *)
theory Pack_Index
  imports Oid_Search
begin

text \<open>
  Pack indexes of both versions (\<open>src/internal/objfmt/idx.go\<close>, \<open>idx_v1.go\<close>, \<open>idx_v2.go\<close>), from the bytes of the
  file.

  A lookup that misses is the inner \<open>None\<close> (the code's \<open>-1\<close> or 0 with \<open>false\<close>), the outer \<open>None\<close> is a slice out
  of bounds. The digest of the trailer is a parameter. The lemmas: an index written in the format opens, and
  its lookups are those in the list of its entries.
\<close>

section \<open>Opening\<close>

record Idx =
  ix_path :: string
  ix_algo :: Algo
  ix_ver :: u32
  ix_count :: u32
  ix_data :: string

definition idxV2HeaderLen :: nat where "idxV2HeaderLen = 8"
definition idxV2Magic :: string where "idxV2Magic = [CHR 0xFF, CHR ''t'', CHR ''O'', CHR ''c'']"
definition idxV1RecordSize :: nat where "idxV1RecordSize = 4 + 20"
definition idxV2OverflowMSB :: u32 where "idxV2OverflowMSB = 0x80000000"

lemmas idx_consts = idxV2HeaderLen_def idxV1RecordSize_def

definition hasIdxV2MagicPrefix :: "string \<Rightarrow> bool" where
  "hasIdxV2MagicPrefix data = (if length data < 4 then False
     else data ! 0 = idxV2Magic ! 0 \<and> data ! 1 = idxV2Magic ! 1 \<and> data ! 2 = idxV2Magic ! 2 \<and> data ! 3 = idxV2Magic ! 3)"

definition validateIdxFanout :: "string \<Rightarrow> go_error option" where
  "validateIdxFanout fanout = (case fanout_loop ''idx'' fanout [0..<256] 0 of Inl err \<Rightarrow> Some err | Inr _ \<Rightarrow> None)"

definition idx_parseHeader :: "Idx \<Rightarrow> go_error + Idx" where
  "idx_parseHeader i =
     (let hashLen = Algo_Size (ix_algo i); data = ix_data i in
      if ix_ver i = 1 then
        if length data < 256 * 4 then Inl (Wrapf ''objfmt: idx v1 truncated before fan-out: '' ErrTruncated [])
        else (case validateIdxFanout (take (256 * 4) data) of
            Some err \<Rightarrow> Inl err
          | None \<Rightarrow>
              let count = u32_at data (255 * 4); want = 256 * 4 + unat count * (4 + 20) + 20 + 20 in
              if length data < want then
                Inl (Wrapf (''objfmt: idx v1 truncated: have '' @ itoa_nat (length data) @ '', want '' @ itoa_nat want @ '': '')
                  ErrTruncated [])
              else Inr (i\<lparr>ix_count := count\<rparr>))
      else if ix_ver i = 2 then
        let fanoutEnd = idxV2HeaderLen + 256 * 4 in
        if length data < fanoutEnd then Inl (Wrapf ''objfmt: idx v2 truncated before fan-out: '' ErrTruncated [])
        else (case validateIdxFanout (take (256 * 4) (drop idxV2HeaderLen data)) of
            Some err \<Rightarrow> Inl err
          | None \<Rightarrow>
              let count = u32_at data (fanoutEnd - 4);
                  want = fanoutEnd + unat count * hashLen + unat count * 4 + unat count * 4 + 2 * hashLen in
              if length data < want then
                Inl (Wrapf (''objfmt: idx v2 truncated: have '' @ itoa_nat (length data) @ '', want >= '' @ itoa_nat want @ '': '')
                  ErrTruncated [])
              else Inr (i\<lparr>ix_count := count\<rparr>))
      else Inl (Wrapf (''objfmt: unsupported idx version '' @ itoa_nat (unat (ix_ver i)) @ '': '') objfmt_ErrUnsupportedVersion []))"

definition OpenIdx :: "(string \<Rightarrow> go_error + string) \<Rightarrow> string \<Rightarrow> Algo option \<Rightarrow> go_error + Idx" where
  "OpenIdx fs path algo = (case algo of
      None \<Rightarrow> Inl (Wrapf ''objfmt: nil algo: '' ErrUnsupportedAlgo [])
    | Some a \<Rightarrow> (case fs path of
        Inl err \<Rightarrow> Inl err
      | Inr data \<Rightarrow>
          let idx = \<lparr>ix_path = path, ix_algo = a, ix_ver = 1, ix_count = 0, ix_data = data\<rparr> in
          if hasIdxV2MagicPrefix data then
            if length data < idxV2HeaderLen then Inl (Wrapf ''objfmt: idx truncated before version field: '' ErrTruncated [])
            else
              let ver = u32_at data 4 in
              if ver \<noteq> 2 then
                Inl (Wrapf (''objfmt: unsupported idx version '' @ itoa_nat (unat ver) @ '' (want 1 or 2): '')
                  objfmt_ErrUnsupportedVersion [])
              else idx_parseHeader (idx\<lparr>ix_ver := 2\<rparr>)
          else idx_parseHeader idx))"

definition Idx_Close :: "Idx \<Rightarrow> go_error option \<times> Idx" where
  "Idx_Close i = (None, i\<lparr>ix_data := [], ix_count := 0\<rparr>)"

definition Idx_Algo :: "Idx \<Rightarrow> Algo" where "Idx_Algo i = ix_algo i"
definition Idx_Version :: "Idx \<Rightarrow> u32" where "Idx_Version i = ix_ver i"
definition Idx_Count :: "Idx \<Rightarrow> u32" where "Idx_Count i = ix_count i"
definition Idx_Path :: "Idx \<Rightarrow> string" where "Idx_Path i = ix_path i"

section \<open>Lookups\<close>

definition findOffsetV1 :: "Idx \<Rightarrow> Hash \<Rightarrow> int option option" where
  "findOffsetV1 i h =
     (let data = ix_data i in
      if ix_algo i \<noteq> SHA1 \<or> ix_count i = 0 \<or> length data < 256 * 4 then Some None
      else case fan_bounds (\<lambda>k. u32_at data (k * 4)) h of (lo, hi) \<Rightarrow>
        if ix_count i < hi then Some None
        else
          let entry = (\<lambda>mid. 256 * 4 + mid * idxV1RecordSize) in
          case oid_search (\<lambda>mid. slice data (entry mid + 4) (entry mid + (4 + 20))) h lo hi of
            None \<Rightarrow> None
          | Some None \<Rightarrow> Some None
          | Some (Some mid) \<Rightarrow> Some (Some (int (unat (u32_at data (entry (unat mid)))))))"

definition searchV2 :: "Idx \<Rightarrow> Hash \<Rightarrow> u32 option option" where
  "searchV2 i h =
     (let hashLen = Algo_Size (ix_algo i); data = ix_data i in
      if ix_count i = 0 then Some None
      else if length data < idxV2HeaderLen + 256 * 4 then Some None
      else
        let fanout = take (256 * 4) (drop idxV2HeaderLen data) in
        case fan_bounds (\<lambda>k. u32_at fanout (k * 4)) h of (lo, hi) \<Rightarrow>
        if ix_count i < hi then Some None
        else
          let nameTable = idxV2HeaderLen + 256 * 4 in
          if length data < nameTable + unat (ix_count i) * hashLen then Some None
          else oid_search (\<lambda>mid. slice data (nameTable + mid * hashLen) (nameTable + (mid + 1) * hashLen)) h lo hi)"

definition idx_offsetTable :: "Idx \<Rightarrow> nat" where
  "idx_offsetTable i = idxV2HeaderLen + 256 * 4 + unat (ix_count i) * Algo_Size (ix_algo i) + unat (ix_count i) * 4"

definition findOffsetV2 :: "Idx \<Rightarrow> Hash \<Rightarrow> int option option" where
  "findOffsetV2 i h =
     (let data = ix_data i; count = unat (ix_count i) in
      if ix_count i = 0 then Some None
      else case searchV2 i h of
          None \<Rightarrow> None
        | Some None \<Rightarrow> Some None
        | Some (Some idx) \<Rightarrow>
            let offsetTable = idx_offsetTable i in
            if length data < offsetTable + count * 4 then Some None
            else
              let off = u32_at data (offsetTable + unat idx * 4) in
              if off AND idxV2OverflowMSB = 0 then Some (Some (int (unat off)))
              else
                let overflowIdx = off AND NOT idxV2OverflowMSB;
                    overflowTable = offsetTable + count * 4;
                    want = overflowTable + unat overflowIdx * 8 + 8
                in if length data < want then Some None
                  else
                    let big = u64_at data (overflowTable + unat overflowIdx * 8) in
                    if 2 ^ 63 - 1 < unat big then Some None else Some (Some (int (unat big))))"

definition FindOffset :: "Idx \<Rightarrow> Hash \<Rightarrow> int option option" where
  "FindOffset i h = (if ix_ver i = 1 then findOffsetV1 i h else if ix_ver i = 2 then findOffsetV2 i h else Some None)"

definition FindCRC32 :: "Idx \<Rightarrow> Hash \<Rightarrow> u32 option option" where
  "FindCRC32 i h =
     (let data = ix_data i; count = unat (ix_count i) in
      if ix_ver i \<noteq> 2 \<or> ix_count i = 0 then Some None
      else case searchV2 i h of
          None \<Rightarrow> None
        | Some None \<Rightarrow> Some None
        | Some (Some idx) \<Rightarrow>
            let crcTable = idxV2HeaderLen + 256 * 4 + count * Algo_Size (ix_algo i) in
            if length data < crcTable + count * 4 then Some None
            else Some (Some (u32_at data (crcTable + unat idx * 4))))"

text \<open>The smallest offset behind \<open>off\<close>, or -1, over the entries \<open>ks\<close>; \<open>cand\<close> reads the offset of an entry.\<close>

fun offset_after_loop :: "(nat \<Rightarrow> int option) \<Rightarrow> int \<Rightarrow> nat list \<Rightarrow> int \<Rightarrow> int" where
  "offset_after_loop cand off [] want = want"
| "offset_after_loop cand off (k # ks) want = (case cand k of
      None \<Rightarrow> offset_after_loop cand off ks want
    | Some c \<Rightarrow> offset_after_loop cand off ks (if off < c \<and> (want < 0 \<or> c < want) then c else want))"

definition offset_after_result :: "int \<Rightarrow> int option" where
  "offset_after_result want = (if want < 0 then None else Some want)"

definition offsetAfterV1 :: "Idx \<Rightarrow> int \<Rightarrow> int option" where
  "offsetAfterV1 i off =
     (let data = ix_data i in
      if ix_algo i \<noteq> SHA1 \<or> ix_count i = 0 \<or> length data < 256 * 4 then None
      else offset_after_result (offset_after_loop
        (\<lambda>k. Some (int (unat (u32_at data (256 * 4 + k * idxV1RecordSize))))) off [0..<unat (ix_count i)] (-1)))"

definition idx_slot :: "Idx \<Rightarrow> nat \<Rightarrow> int option" where
  "idx_slot i k =
     (let data = ix_data i; overflowTable = idx_offsetTable i + unat (ix_count i) * 4;
          raw = u32_at data (idx_offsetTable i + k * 4) in
      if raw AND idxV2OverflowMSB = 0 then Some (int (unat raw))
      else
        let overflowIdx = raw AND NOT idxV2OverflowMSB; end' = overflowTable + unat overflowIdx * 8 + 8 in
        if length data < end' then None else Some (sint (u64_at data (overflowTable + unat overflowIdx * 8))))"

definition offsetAfterV2 :: "Idx \<Rightarrow> int \<Rightarrow> int option" where
  "offsetAfterV2 i off =
     (if ix_count i = 0 then None
      else if length (ix_data i) < idx_offsetTable i + unat (ix_count i) * 4 then None
      else offset_after_result (offset_after_loop (idx_slot i) off [0..<unat (ix_count i)] (-1)))"

definition OffsetAfter :: "Idx \<Rightarrow> int \<Rightarrow> int option" where
  "OffsetAfter i off = (if ix_ver i = 1 then offsetAfterV1 i off else if ix_ver i = 2 then offsetAfterV2 i off else None)"

definition PackChecksum :: "Idx \<Rightarrow> Hash" where
  "PackChecksum i =
     (let hashLen = Algo_Size (ix_algo i); data = ix_data i in
      if length data < 2 * hashLen then zero_hash (ix_algo i) else take hashLen (drop (length data - 2 * hashLen) data))"

definition Idx_VerifyChecksum :: "(Algo \<Rightarrow> string \<Rightarrow> Hash) \<Rightarrow> Idx \<Rightarrow> go_error option" where
  "Idx_VerifyChecksum hash i =
     (let data = ix_data i in
      if length data < Algo_Size (ix_algo i) then Some (Wrapf ''objfmt: idx too short for trailer: '' objfmt_ErrShortFile [])
      else
        let a = (if ix_ver i = 1 then SHA1 else ix_algo i);
            body = take (length data - Algo_Size a) data;
            trailer = drop (length data - Algo_Size a) data
        in if hash a body \<noteq> trailer then Some (Wrapf ''objfmt: idx trailer mismatch: '' ErrChecksumMismatch []) else None)"

section \<open>The format\<close>

record idx_entry =
  ie_oid :: Hash
  ie_crc :: u32
  ie_off :: nat

definition fan_of :: "string list \<Rightarrow> nat \<Rightarrow> nat" where
  "fan_of oids k = length (filter (\<lambda>oid. byte_val (hd oid) \<le> k) oids)"

definition encode_fan :: "string list \<Rightarrow> string" where
  "encode_fan oids = concat (map (\<lambda>k. be_bytes 4 (fan_of oids k)) [0..<256])"

definition large :: "idx_entry \<Rightarrow> bool" where
  "large e \<longleftrightarrow> 2 ^ 31 \<le> ie_off e"

definition offset_slot :: "idx_entry list \<Rightarrow> nat \<Rightarrow> nat" where
  "offset_slot es i = (if large (es ! i) then 2 ^ 31 + length (filter large (take i es)) else ie_off (es ! i))"

definition encode_idx_v2 :: "idx_entry list \<Rightarrow> string \<Rightarrow> string" where
  "encode_idx_v2 es trailer = idxV2Magic @ be_bytes 4 2 @ encode_fan (map ie_oid es) @
     concat (map ie_oid es) @ concat (map (\<lambda>e. be_bytes 4 (unat (ie_crc e))) es) @
     concat (map (\<lambda>i. be_bytes 4 (offset_slot es i)) [0..<length es]) @
     concat (map (\<lambda>e. be_bytes 8 (ie_off e)) (filter large es)) @ trailer"

definition encode_idx_v1 :: "idx_entry list \<Rightarrow> string \<Rightarrow> string" where
  "encode_idx_v1 es trailer = encode_fan (map ie_oid es) @ concat (map (\<lambda>e. be_bytes 4 (ie_off e) @ ie_oid e) es) @ trailer"

definition wf_index :: "Algo \<Rightarrow> idx_entry list \<Rightarrow> bool" where
  "wf_index a es \<longleftrightarrow> sorted_wrt (<) (map ie_oid es) \<and> list_all (\<lambda>e. wf_hash a (ie_oid e) \<and> ie_off e < 2 ^ 63) es \<and>
     length es < 2 ^ 31"

text \<open>The ids and the fan-out of a well-formed index have the contract of the search.\<close>

interpretation idx: oid_table "\<lambda>(a, es). wf_index a es" "\<lambda>(a, es). map ie_oid es"
    "\<lambda>(a, es) k. word_of_nat (fan_of (map ie_oid es) k)"
proof (unfold_locales, goal_cases)
  case (1 t)
  then show ?case by (auto simp: wf_index_def)
next
  case (2 t oid)
  then have "wf_hash (fst t) oid" by (auto simp: wf_index_def list_all_iff)
  then show ?case by (cases "fst t") (auto simp: wf_hash_def)
next
  case (3 t)
  then show ?case by (auto simp: wf_index_def)
next
  case (4 t k)
  then have "length (map ie_oid (snd t)) < 2 ^ 31" by (auto simp: wf_index_def)
  moreover have "fan_of (map ie_oid (snd t)) k \<le> length (map ie_oid (snd t))" unfolding fan_of_def by (rule length_filter_le)
  ultimately have "unat (word_of_nat (fan_of (map ie_oid (snd t)) k) :: u32) = fan_of (map ie_oid (snd t)) k"
    by (simp add: unat_of_nat take_bit_nat_eq_self)
  then show ?case by (cases t) (simp add: fan_of_def)
qed

section \<open>Lemmas\<close>

text \<open>An entry of a table of entries of the same width.\<close>

lemma table_slot:
  assumes "s = pre @ concat (map g xs) @ post" "\<And>x. x \<in> set xs \<Longrightarrow> length (g x) = w" "i < length xs"
  shows "take w (drop (length pre + i * w) s) = g (xs ! i)" "length pre + (i + 1) * w \<le> length s"
proof -
  have "take w (drop (i * w) (concat (map g xs) @ post)) = g (xs ! i) \<and> (i + 1) * w \<le> length (concat (map g xs))"
    using assms(2,3)
  proof (induction xs arbitrary: i)
    case (Cons x xs)
    show ?case
    proof (cases i)
      case (Suc j)
      have "drop (i * w) (concat (map g (x # xs)) @ post) = drop (j * w) (concat (map g xs) @ post)"
        using Cons.prems(1) by (simp add: Suc add.commute)
      with Suc Cons show ?thesis by simp
    qed (use Cons.prems(1) in simp)
  qed simp
  moreover have "drop (length pre + i * w) s = drop (i * w) (concat (map g xs) @ post)" unfolding assms(1) by simp
  ultimately show "take w (drop (length pre + i * w) s) = g (xs ! i)" "length pre + (i + 1) * w \<le> length s"
    unfolding assms(1) by (simp_all only: length_append) linarith
qed

lemma concat_width: "(\<And>x. x \<in> set xs \<Longrightarrow> length (g x) = w) \<Longrightarrow> length (concat (map g xs)) = length xs * w"
  by (induction xs) simp_all

lemma u32_at_slot:
  assumes "s = pre @ concat (map (\<lambda>x. be_bytes 4 (g x)) xs) @ post" "i < length xs"
  shows "u32_at s (length pre + i * 4) = word_of_nat (g (xs ! i))"
proof -
  have "be (be_bytes 4 v) = (word_of_nat v :: u32)" for v
  proof -
    have "unat (be (be_bytes 4 v) :: u32) = v mod 256 ^ 4"
      using unat_be [of "be_bytes 4 v", where 'a = 32] by (simp add: foldl_be_bytes)
    also have "\<dots> = unat (word_of_nat v :: u32)" by (simp add: unat_of_nat take_bit_eq_mod)
    finally show ?thesis by (simp add: word_unat_eq_iff)
  qed
  with table_slot(1) [OF assms(1) _ assms(2), of 4] show ?thesis by (simp add: u32_at_def)
qed

lemma length_encode_fan [simp]: "length (encode_fan oids) = 1024"
  using concat_width [of "[0..<256]" "\<lambda>k. be_bytes 4 (fan_of oids k)" 4] by (simp add: encode_fan_def)

lemma fan_slot: "k < 256 \<Longrightarrow> u32_at (pre @ encode_fan oids @ post) (length pre + k * 4) = word_of_nat (fan_of oids k)"
  using u32_at_slot [of "pre @ encode_fan oids @ post" pre "fan_of oids" "[0..<256]" post k] by (simp add: encode_fan_def)

lemma fan_of_mono: "j \<le> k \<Longrightarrow> fan_of oids j \<le> fan_of oids k"
  unfolding fan_of_def by (induction oids) auto

lemma fan_of_all: "fan_of oids 255 = length oids"
  using byte_val_less by (simp add: fan_of_def filter_True less_Suc_eq_le [symmetric])

lemma fanout_loop_encode:
  assumes "length oids < 2 ^ 31" "k \<le> 256" "unat prev \<le> fan_of oids k"
  shows "\<exists>n. fanout_loop kind (encode_fan oids) [k..<256] prev = Inr n \<and> n = (if k = 256 then prev else word_of_nat (fan_of oids 255))"
  using assms(2,3)
proof (induction "256 - k" arbitrary: k prev)
  case (Suc d)
  then have k: "k < 256" by simp
  have n: "unat (word_of_nat (fan_of oids j) :: u32) = fan_of oids j" for j
  proof -
    have "fan_of oids j \<le> length oids" unfolding fan_of_def by (rule length_filter_le)
    then show ?thesis using assms(1) by (simp add: unat_of_nat take_bit_nat_eq_self)
  qed
  have slot: "u32_at (encode_fan oids) (k * 4) = word_of_nat (fan_of oids k)" using fan_slot [OF k, of "[]" oids "[]"] by simp
  have "\<exists>n. fanout_loop kind (encode_fan oids) [Suc k..<256] (word_of_nat (fan_of oids k)) = Inr n \<and>
      n = (if Suc k = 256 then word_of_nat (fan_of oids k) else word_of_nat (fan_of oids 255))"
    by (rule Suc.hyps(1)) (use Suc.hyps(2) k n fan_of_mono [of k "Suc k" oids] in auto)
  moreover have "[k..<256] = k # [Suc k..<256]" using k by (rule upt_conv_Cons)
  moreover have "\<not> (word_of_nat (fan_of oids k) :: u32) < prev" using Suc.prems(2) n by (simp add: word_less_nat_alt)
  moreover have "k = 255" if "Suc k = 256" using that by simp
  ultimately show ?case using k slot by (auto simp: Let_def)
qed simp

lemma validateIdxFanout_encode: "length oids < 2 ^ 31 \<Longrightarrow> validateIdxFanout (encode_fan oids) = None"
  using fanout_loop_encode [of oids 0 0 "''idx''"] by (auto simp: validateIdxFanout_def)


text \<open>An index of version 2 in memory, and where its tables are.\<close>

definition idx_v2 :: "string \<Rightarrow> Algo \<Rightarrow> idx_entry list \<Rightarrow> string \<Rightarrow> Idx" where
  "idx_v2 path a es trailer = \<lparr>ix_path = path, ix_algo = a, ix_ver = 2, ix_count = word_of_nat (length es),
     ix_data = encode_idx_v2 es trailer\<rparr>"

lemma idx_v2_simps [simp]:
  "ix_path (idx_v2 path a es trailer) = path" "ix_algo (idx_v2 path a es trailer) = a" "ix_ver (idx_v2 path a es trailer) = 2"
  "ix_count (idx_v2 path a es trailer) = word_of_nat (length es)"
  "ix_data (idx_v2 path a es trailer) = encode_idx_v2 es trailer"
  by (simp_all add: idx_v2_def)

lemma wf_index_facts:
  assumes "wf_index a es"
  shows "unat (word_of_nat (length es) :: u32) = length es" "\<And>e. e \<in> set es \<Longrightarrow> length (ie_oid e) = Algo_Size a"
    "\<And>e. e \<in> set es \<Longrightarrow> ie_off e < 2 ^ 63" "length (concat (map ie_oid es)) = length es * Algo_Size a"
    "distinct (map ie_oid es)" "(word_of_nat (length es) :: u32) = 0 \<longleftrightarrow> es = []"
proof -
  have few: "length es < 2 ^ 31" using assms by (simp add: wf_index_def)
  then show n: "unat (word_of_nat (length es) :: u32) = length es" by (simp add: unat_of_nat take_bit_nat_eq_self)
  show w: "\<And>e. e \<in> set es \<Longrightarrow> length (ie_oid e) = Algo_Size a" "\<And>e. e \<in> set es \<Longrightarrow> ie_off e < 2 ^ 63"
    using assms by (auto simp: wf_index_def list_all_iff wf_hash_def)
  show "length (concat (map ie_oid es)) = length es * Algo_Size a" by (rule concat_width) (rule w)
  show "distinct (map ie_oid es)" using assms by (simp add: wf_index_def strict_sorted_iff)
  show "(word_of_nat (length es) :: u32) = 0 \<longleftrightarrow> es = []" using n by (auto simp: word_unat_eq_iff)
qed

text \<open>The pieces before each table, to read its slots by \<open>table_slot\<close>.\<close>

lemma idx_v2_pieces:
  assumes "wf_index a es"
  obtains p1 p2 p3 p4 r1 r2 r3 where
    "encode_idx_v2 es trailer = p1 @ encode_fan (map ie_oid es) @ r1" "length p1 = 8"
    "encode_idx_v2 es trailer = p2 @ concat (map ie_oid es) @ r2" "length p2 = 1032"
    "encode_idx_v2 es trailer = p3 @ concat (map (\<lambda>e. be_bytes 4 (unat (ie_crc e))) es) @ r3"
    "length p3 = 1032 + length es * Algo_Size a"
    "encode_idx_v2 es trailer = p4 @ concat (map (\<lambda>i. be_bytes 4 (offset_slot es i)) [0..<length es]) @
       concat (map (\<lambda>e. be_bytes 8 (ie_off e)) (filter large es)) @ trailer"
    "length p4 = 1032 + length es * Algo_Size a + length es * 4"
proof -
  let ?m = "idxV2Magic @ be_bytes 4 2" and ?f = "encode_fan (map ie_oid es)" and ?n = "concat (map ie_oid es)"
  let ?c = "concat (map (\<lambda>e. be_bytes 4 (unat (ie_crc e))) es)"
  let ?o = "concat (map (\<lambda>i. be_bytes 4 (offset_slot es i)) [0..<length es]) @
       concat (map (\<lambda>e. be_bytes 8 (ie_off e)) (filter large es)) @ trailer"
  have e: "encode_idx_v2 es trailer = ?m @ ?f @ ?n @ ?c @ ?o" by (simp only: encode_idx_v2_def append_assoc)
  have m: "length idxV2Magic = 4" by (simp add: idxV2Magic_def)
  have c: "length ?c = length es * 4" by (rule concat_width) simp
  show thesis
    by (rule that [of ?m "?n @ ?c @ ?o" "?m @ ?f" "?c @ ?o" "?m @ ?f @ ?n" ?o "?m @ ?f @ ?n @ ?c"])
      (simp_all only: e append_assoc length_append m c length_encode_fan length_be_bytes wf_index_facts(4) [OF assms])
qed

lemma length_encode_idx_v2:
  assumes "wf_index a es"
  shows "length (encode_idx_v2 es trailer) =
    1032 + length es * Algo_Size a + length es * 4 + length es * 4 + length (filter large es) * 8 + length trailer"
proof -
  have "length (concat (map (\<lambda>e. be_bytes 4 (unat (ie_crc e))) es)) = length es * 4" by (rule concat_width) simp
  moreover have "length (concat (map (\<lambda>i. be_bytes 4 (offset_slot es i)) [0..<length es])) = length [0..<length es] * 4"
    by (rule concat_width) simp
  moreover have "length (concat (map (\<lambda>e. be_bytes 8 (ie_off e)) (filter large es))) = length (filter large es) * 8"
    by (rule concat_width) simp
  ultimately show ?thesis by (simp add: encode_idx_v2_def idxV2Magic_def wf_index_facts(4) [OF assms])
qed

lemma OpenIdx_v2:
  assumes "wf_index a es" "length trailer = 2 * Algo_Size a" "fs path = Inr (encode_idx_v2 es trailer)"
  shows "OpenIdx fs path (Some a) = Inr (idx_v2 path a es trailer)"
proof -
  let ?d = "encode_idx_v2 es trailer"
  obtain p1 r1 where p: "?d = p1 @ encode_fan (map ie_oid es) @ r1" "length p1 = 8"
    using idx_v2_pieces [OF assms(1), of trailer] by blast
  have n: "length (map ie_oid es) < 2 ^ 31" using assms(1) by (simp add: wf_index_def)
  have magic: "hasIdxV2MagicPrefix ?d" by (simp add: hasIdxV2MagicPrefix_def encode_idx_v2_def idxV2Magic_def)
  have "take 4 (drop 4 ?d) = be_bytes 4 2" by (simp add: encode_idx_v2_def idxV2Magic_def)
  then have ver: "u32_at ?d 4 = 2" using be_be_bytes [of 4 2, where 'a = 32] by (simp add: u32_at_def word_unat_eq_iff)
  have fan: "take (256 * 4) (drop 8 ?d) = encode_fan (map ie_oid es)" by (simp add: p)
  have "u32_at ?d (length p1 + 255 * 4) = word_of_nat (fan_of (map ie_oid es) 255)" unfolding p(1) by (rule fan_slot) simp
  then have count: "u32_at ?d (8 + 256 * 4 - 4) = word_of_nat (length es)" by (simp add: p(2) fan_of_all)
  have len: "1032 + length es * Algo_Size a + length es * 4 + length es * 4 + 2 * Algo_Size a \<le> length ?d"
    unfolding length_encode_idx_v2 [OF assms(1)] assms(2) by simp
  have "idx_parseHeader \<lparr>ix_path = path, ix_algo = a, ix_ver = 2, ix_count = 0, ix_data = ?d\<rparr> = Inr (idx_v2 path a es trailer)"
    using len wf_index_facts(1) [OF assms(1)]
    unfolding idx_parseHeader_def Let_def idxV2HeaderLen_def Idx.select_convs fan count validateIdxFanout_encode [OF n]
    by (simp add: idx_v2_def)
  then show ?thesis
    unfolding OpenIdx_def option.case assms(3) sum.case Let_def Idx.select_convs
    using magic ver len by (simp add: idxV2HeaderLen_def)
qed

definition entry_of :: "idx_entry list \<Rightarrow> Hash \<Rightarrow> idx_entry option" where
  "entry_of es h = map_of (map (\<lambda>e. (ie_oid e, e)) es) h"

lemma entry_of_nth: "distinct (map ie_oid es) \<Longrightarrow> i < length es \<Longrightarrow> ie_oid (es ! i) = h \<Longrightarrow> entry_of es h = Some (es ! i)"
proof -
  assume a: "distinct (map ie_oid es)" "i < length es" "ie_oid (es ! i) = h"
  have "es ! i \<in> set es" using a(2) by simp
  then have "(h, es ! i) \<in> set (map (\<lambda>e. (ie_oid e, e)) es)" using a(3) by force
  moreover have "distinct (map fst (map (\<lambda>e. (ie_oid e, e)) es))" using a(1) by (simp add: comp_def)
  ultimately show ?thesis by (simp add: entry_of_def)
qed

lemma entry_of_None: "entry_of es h = None \<longleftrightarrow> h \<notin> ie_oid ` set es"
  by (force simp: entry_of_def map_of_eq_None_iff image_image)

text \<open>The search over the name table of an index in the format.\<close>

lemma searchV2_encode:
  assumes "wf_index a es" "wf_hash a h" "es \<noteq> []"
  shows "i < length es \<Longrightarrow> ie_oid (es ! i) = h \<Longrightarrow> searchV2 (idx_v2 path a es trailer) h = Some (Some (word_of_nat i))"
    and "h \<notin> ie_oid ` set es \<Longrightarrow> searchV2 (idx_v2 path a es trailer) h = Some None"
proof -
  let ?d = "encode_idx_v2 es trailer" and ?fan = "\<lambda>k. word_of_nat (fan_of (map ie_oid es) k) :: u32"
  obtain p1 p2 r1 r2 where p: "?d = p1 @ encode_fan (map ie_oid es) @ r1" "length p1 = 8"
    "?d = p2 @ concat (map ie_oid es) @ r2" "length p2 = 1032"
    using idx_v2_pieces [OF assms(1), of trailer] by metis
  note facts = wf_index_facts [OF assms(1)]
  have h: "h \<noteq> []" using assms(2) by (cases a) (auto simp: wf_hash_def)
  have get: "slice ?d (1032 + i * Algo_Size a) (1032 + (i + 1) * Algo_Size a) = Some (map ie_oid es ! i)"
    if "i < length (map ie_oid es)" for i
    using table_slot [OF p(3), of "Algo_Size a" i] facts(2) that by (simp add: slice_def p(4))
  have slot: "u32_at (encode_fan (map ie_oid es)) (k * 4) = ?fan k" if "k < 256" for k
    using fan_slot [OF that, of "[]" "map ie_oid es" "[]"] by simp
  have "byte_val (hd h) < 256" "byte_val (hd h) - 1 < 256" using byte_val_less [of "hd h"] by linarith+
  then have fan: "fan_bounds (\<lambda>k. u32_at (take (256 * 4) (drop 8 ?d)) (k * 4)) h = fan_bounds ?fan h"
    by (simp add: fan_bounds_def p(1,2) slot Let_def)
  obtain lo hi where b: "fan_bounds ?fan h = (lo, hi)" by fastforce
  have ok: "case (a, es) of (a, es) \<Rightarrow> wf_index a es" using assms(1) by simp
  note fin = idx.search_finds [where t = "(a, es)", unfolded prod.case, OF assms(1) h get b]
  have "length es * Algo_Size a + 1032 \<le> length ?d" unfolding length_encode_idx_v2 [OF assms(1)] by simp
  moreover have "\<not> (word_of_nat (length es) :: u32) < hi" using fin(1) facts(1) by (simp add: word_less_nat_alt)
  ultimately have search: "searchV2 (idx_v2 path a es trailer) h =
      oid_search (\<lambda>mid. slice ?d (1032 + mid * Algo_Size a) (1032 + (mid + 1) * Algo_Size a)) h lo hi"
    using assms(3) facts(1,6) fan b unfolding searchV2_def idxV2HeaderLen_def Let_def idx_v2_simps by simp
  show "searchV2 (idx_v2 path a es trailer) h = Some (Some (word_of_nat i))" if "i < length es" "ie_oid (es ! i) = h" for i
    using fin(2) [of i] that search by simp
  show "searchV2 (idx_v2 path a es trailer) h = Some None" if "h \<notin> ie_oid ` set es"
    using fin(3) that search by simp
qed


lemma msb_slot:
  fixes w :: u32
  shows "w AND idxV2OverflowMSB = 0 \<longleftrightarrow> unat w < 2 ^ 31" "unat (w AND NOT idxV2OverflowMSB) = unat w mod 2 ^ 31"
proof -
  have "w AND 2 ^ 31 = 0 \<longleftrightarrow> \<not> bit w 31" by (rule and_exp_eq_0_iff_not_bit)
  moreover have "bit w 31 \<longleftrightarrow> bit (unat w) 31" by (simp add: bit_unsigned_iff)
  moreover have "bit (unat w) 31 \<longleftrightarrow> 2 ^ 31 \<le> unat w"
  proof -
    have "unat w < 2 ^ 32" using unsigned_less [of w] by simp
    then have "unat w div 2 ^ 31 < 2" by (simp add: less_mult_imp_div_less)
    then have "unat w div 2 ^ 31 = 0 \<or> unat w div 2 ^ 31 = 1" by linarith
    moreover have "unat w div 2 ^ 31 = 0 \<longleftrightarrow> unat w < 2 ^ 31" by (simp add: div_eq_0_iff)
    ultimately show ?thesis by (auto simp: bit_iff_odd)
  qed
  ultimately show "w AND idxV2OverflowMSB = 0 \<longleftrightarrow> unat w < 2 ^ 31" by (simp add: idxV2OverflowMSB_def not_le)
  have "(NOT idxV2OverflowMSB) = mask 31" by (simp add: idxV2OverflowMSB_def mask_eq_exp_minus_1)
  then show "unat (w AND NOT idxV2OverflowMSB) = unat w mod 2 ^ 31" by (simp only: and_low)
qed

lemma large_index:
  assumes "i < length es" "large (es ! i)"
  shows "length (filter large (take i es)) < length (filter large es)"
    "filter large es ! length (filter large (take i es)) = es ! i"
proof -
  have "filter large es = filter large (take i es) @ es ! i # filter large (drop (Suc i) es)"
    using assms by (subst id_take_nth_drop [OF assms(1)]) simp
  then show "length (filter large (take i es)) < length (filter large es)"
    "filter large es ! length (filter large (take i es)) = es ! i" by (simp_all add: nth_append)
qed

text \<open>Reading the offset of an entry, direct or through the overflow table.\<close>

lemma read_offset:
  fixes trailer :: string
  assumes "wf_index a es" "i < length es"
  defines "d \<equiv> encode_idx_v2 es trailer" and "table \<equiv> 1032 + length es * Algo_Size a + length es * 4"
  defines "raw \<equiv> u32_at d (table + i * 4)"
  shows "\<not> large (es ! i) \<Longrightarrow> raw AND idxV2OverflowMSB = 0 \<and> unat raw = ie_off (es ! i)"
    and "large (es ! i) \<Longrightarrow> raw AND idxV2OverflowMSB \<noteq> 0 \<and>
      table + length es * 4 + unat (raw AND NOT idxV2OverflowMSB) * 8 + 8 \<le> length d \<and>
      unat (u64_at d (table + length es * 4 + unat (raw AND NOT idxV2OverflowMSB) * 8)) = ie_off (es ! i)"
proof -
  let ?larges = "filter large es"
  obtain p4 where p: "d = p4 @ concat (map (\<lambda>i. be_bytes 4 (offset_slot es i)) [0..<length es]) @
       concat (map (\<lambda>e. be_bytes 8 (ie_off e)) ?larges) @ trailer" "length p4 = table"
    using idx_v2_pieces [OF assms(1), of trailer] unfolding d_def table_def by metis
  have few: "length es < 2 ^ 31" using assms(1) by (simp add: wf_index_def)
  have raw: "raw = word_of_nat (offset_slot es i)"
    using u32_at_slot [OF p(1), of i] assms(2) by (simp add: raw_def p(2))
  have "length (filter large (take i es)) \<le> length (take i es)" by (rule length_filter_le)
  also have "\<dots> < 2 ^ 31" using few by simp
  finally have j: "length (filter large (take i es)) < 2 ^ 31" .
  then have "offset_slot es i < 2 ^ 32" by (auto simp: offset_slot_def large_def)
  then have u: "unat raw = offset_slot es i" by (simp add: raw unat_of_nat take_bit_nat_eq_self)
  show "raw AND idxV2OverflowMSB = 0 \<and> unat raw = ie_off (es ! i)" if "\<not> large (es ! i)"
    using that u by (simp add: msb_slot(1) offset_slot_def large_def)
  show "raw AND idxV2OverflowMSB \<noteq> 0 \<and>
      table + length es * 4 + unat (raw AND NOT idxV2OverflowMSB) * 8 + 8 \<le> length d \<and>
      unat (u64_at d (table + length es * 4 + unat (raw AND NOT idxV2OverflowMSB) * 8)) = ie_off (es ! i)"
    if l: "large (es ! i)"
  proof -
    let ?j = "length (filter large (take i es))"
    have s: "offset_slot es i = 2 ^ 31 + ?j" using l by (simp add: offset_slot_def)
    have idx: "unat (raw AND NOT idxV2OverflowMSB) = ?j" unfolding msb_slot(2) u s using j by (simp add: mod_less)
    let ?p = "p4 @ concat (map (\<lambda>i. be_bytes 4 (offset_slot es i)) [0..<length es])"
    have "length (concat (map (\<lambda>i. be_bytes 4 (offset_slot es i)) [0..<length es])) = length [0..<length es] * 4"
      by (rule concat_width) simp
    then have plen: "length ?p = table + length es * 4" using p(2) by simp
    have d': "d = ?p @ concat (map (\<lambda>e. be_bytes 8 (ie_off e)) ?larges) @ trailer" unfolding p(1) by (simp only: append_assoc)
    note slot = table_slot [OF d', of 8 ?j, unfolded plen]
    have off: "ie_off (es ! i) < 256 ^ 8"
      using wf_index_facts(3) [OF assms(1) nth_mem [OF assms(2)]] by simp
    have "unat raw \<ge> 2 ^ 31" unfolding u s by simp
    moreover have "unat (u64_at d (table + length es * 4 + ?j * 8)) = ie_off (es ! i)"
      using slot(1) large_index [OF assms(2) l] off be_be_bytes [of 8 "ie_off (es ! i)", where 'a = 64] by (simp add: u64_at_def)
    moreover have "table + length es * 4 + ?j * 8 + 8 \<le> length d"
      using slot(2) large_index(1) [OF assms(2) l] by simp
    ultimately show ?thesis unfolding msb_slot(1) idx by simp
  qed
qed

lemma idx_offsetTable_v2: "wf_index a es \<Longrightarrow>
    idx_offsetTable (idx_v2 path a es trailer) = 1032 + length es * Algo_Size a + length es * 4"
  by (simp add: idx_offsetTable_def idxV2HeaderLen_def wf_index_facts(1))

lemma int_unat: "unat (w :: 'a::len word) = n \<Longrightarrow> uint w = int n"
  by (simp add: uint_nat)

lemma FindOffset_v2:
  assumes "wf_index a es" "wf_hash a h"
  shows "FindOffset (idx_v2 path a es trailer) h = Some (map_option (\<lambda>e. int (ie_off e)) (entry_of es h))"
proof (cases "h \<in> ie_oid ` set es")
  case True
  then obtain i where i: "i < length es" "ie_oid (es ! i) = h" by (auto simp: in_set_conv_nth)
  then have ne: "es \<noteq> []" by auto
  note facts = wf_index_facts [OF assms(1)]
  let ?I = "idx_v2 path a es trailer" and ?d = "encode_idx_v2 es trailer"
  let ?table = "1032 + length es * Algo_Size a + length es * 4"
  have w: "unat (word_of_nat i :: u32) = i"
    using i(1) assms(1) by (simp add: wf_index_def unat_of_nat take_bit_nat_eq_self)
  have e: "entry_of es h = Some (es ! i)" by (rule entry_of_nth [OF facts(5) i])
  have len: "\<not> length ?d < ?table + length es * 4" unfolding length_encode_idx_v2 [OF assms(1)] by simp
  have off: "\<not> 2 ^ 63 - 1 < ie_off (es ! i)" using facts(3) [OF nth_mem [OF i(1)]] by simp
  have "findOffsetV2 ?I h = Some (Some (int (ie_off (es ! i))))"
  proof (cases "large (es ! i)")
    case False
    from read_offset(1) [OF assms(1) i(1) this, of trailer] show ?thesis
      unfolding findOffsetV2_def Let_def idx_v2_simps searchV2_encode(1) [OF assms ne i] idx_offsetTable_v2 [OF assms(1)] facts(1) w
      using facts(6) ne len by (simp add: w int_unat)
  next
    case True
    from read_offset(2) [OF assms(1) i(1) this, of trailer] show ?thesis
      unfolding findOffsetV2_def Let_def idx_v2_simps searchV2_encode(1) [OF assms ne i] idx_offsetTable_v2 [OF assms(1)] facts(1) w
      using facts(6) ne len off by (simp add: w int_unat)
  qed
  with e show ?thesis by (simp add: FindOffset_def)
next
  case False
  then have "entry_of es h = None" by (simp add: entry_of_None)
  moreover have "findOffsetV2 (idx_v2 path a es trailer) h = Some None"
  proof (cases "es = []")
    case False
    from searchV2_encode(2) [OF assms this \<open>h \<notin> _\<close>] show ?thesis by (simp add: findOffsetV2_def Let_def)
  qed (simp add: findOffsetV2_def)
  ultimately show ?thesis by (simp add: FindOffset_def)
qed

lemma FindCRC32_v2:
  assumes "wf_index a es" "wf_hash a h"
  shows "FindCRC32 (idx_v2 path a es trailer) h = Some (map_option ie_crc (entry_of es h))"
proof (cases "h \<in> ie_oid ` set es")
  case True
  then obtain i where i: "i < length es" "ie_oid (es ! i) = h" by (auto simp: in_set_conv_nth)
  then have ne: "es \<noteq> []" by auto
  note facts = wf_index_facts [OF assms(1)]
  let ?d = "encode_idx_v2 es trailer"
  have w: "unat (word_of_nat i :: u32) = i"
    using i(1) assms(1) by (simp add: wf_index_def unat_of_nat take_bit_nat_eq_self)
  obtain p3 r3 where p: "?d = p3 @ concat (map (\<lambda>e. be_bytes 4 (unat (ie_crc e))) es) @ r3"
    "length p3 = 1032 + length es * Algo_Size a"
    using idx_v2_pieces [OF assms(1), of trailer] by metis
  have "u32_at ?d (1032 + length es * Algo_Size a + i * 4) = ie_crc (es ! i)"
    using u32_at_slot [OF p(1) i(1)] by (simp add: p(2))
  moreover have "\<not> length ?d < 1032 + length es * Algo_Size a + length es * 4"
    unfolding length_encode_idx_v2 [OF assms(1)] by simp
  ultimately show ?thesis
    unfolding FindCRC32_def Let_def idx_v2_simps searchV2_encode(1) [OF assms ne i] facts(1) idxV2HeaderLen_def
      entry_of_nth [OF facts(5) i]
    using facts(6) ne w by simp
next
  case False
  then have "entry_of es h = None" by (simp add: entry_of_None)
  then show ?thesis
  proof (cases "es = []")
    case False
    from searchV2_encode(2) [OF assms this \<open>h \<notin> _\<close>] \<open>entry_of es h = None\<close> show ?thesis by (simp add: FindCRC32_def Let_def)
  qed (simp add: FindCRC32_def)
qed


text \<open>The least candidate behind an offset.\<close>

definition least_after :: "int list \<Rightarrow> int \<Rightarrow> int option \<Rightarrow> bool" where
  "least_after offs off r \<longleftrightarrow> (case r of
      None \<Rightarrow> \<forall>c \<in> set offs. c \<le> off
    | Some m \<Rightarrow> m \<in> set offs \<and> off < m \<and> (\<forall>c \<in> set offs. off < c \<longrightarrow> m \<le> c))"

lemma offset_after_loop_least:
  assumes "\<And>k. k \<in> set ks \<Longrightarrow> cand k = Some (g k) \<and> 0 \<le> g k"
    and "want = -1 \<and> (\<forall>c \<in> set seen. c \<le> off) \<or> 0 \<le> want \<and> least_after seen off (Some want)"
  shows "least_after (seen @ map g ks) off (offset_after_result (offset_after_loop cand off ks want))"
  using assms
proof (induction ks arbitrary: want seen)
  case Nil
  then show ?case by (auto simp: least_after_def offset_after_result_def)
next
  case (Cons k ks)
  let ?want = "if off < g k \<and> (want < 0 \<or> g k < want) then g k else want"
  have "?want = -1 \<and> (\<forall>c \<in> set (seen @ [g k]). c \<le> off) \<or> 0 \<le> ?want \<and> least_after (seen @ [g k]) off (Some ?want)"
    using Cons.prems(1) [of k] Cons.prems(2) by (auto simp: least_after_def not_less)
  then have "least_after ((seen @ [g k]) @ map g ks) off (offset_after_result (offset_after_loop cand off ks ?want))"
    using Cons.prems(1) by (intro Cons.IH) auto
  then show ?case using Cons.prems(1) [of k] by simp
qed

lemma OffsetAfter_v2:
  assumes "wf_index a es"
  shows "least_after (map (\<lambda>e. int (ie_off e)) es) off (OffsetAfter (idx_v2 path a es trailer) off)"
proof -
  let ?I = "idx_v2 path a es trailer" and ?d = "encode_idx_v2 es trailer"
  note facts = wf_index_facts [OF assms]
  have slot: "idx_slot ?I k = Some (int (ie_off (es ! k)))" if k: "k < length es" for k
  proof (cases "large (es ! k)")
    case False
    from read_offset(1) [OF assms k this, of trailer] show ?thesis
      unfolding idx_slot_def Let_def idx_v2_simps idx_offsetTable_v2 [OF assms] facts(1) by (simp add: int_unat)
  next
    case True
    note r = read_offset(2) [OF assms k this, of trailer]
    have "ie_off (es ! k) < 2 ^ 63" by (rule facts(3)) (use k in simp)
    with r show ?thesis
      unfolding idx_slot_def Let_def idx_v2_simps idx_offsetTable_v2 [OF assms] facts(1) by (simp add: sint_small)
  qed
  have "map (\<lambda>k. int (ie_off (es ! k))) [0..<length es] = map (\<lambda>e. int (ie_off e)) es"
    by (rule nth_equalityI) simp_all
  then have loop: "least_after (map (\<lambda>e. int (ie_off e)) es) off
      (offset_after_result (offset_after_loop (idx_slot ?I) off [0..<length es] (-1)))"
    using offset_after_loop_least [of "[0..<length es]" "idx_slot ?I" "\<lambda>k. int (ie_off (es ! k))" "-1" "[]" off] slot
    by (simp add: least_after_def)
  have "\<not> length ?d < idx_offsetTable ?I + length es * 4"
    unfolding length_encode_idx_v2 [OF assms] idx_offsetTable_v2 [OF assms] by simp
  then show ?thesis
    using loop facts(1,6) by (cases "es = []") (simp_all add: OffsetAfter_def offsetAfterV2_def least_after_def)
qed

text \<open>Version 1, for SHA-1 and offsets of 32 bits.\<close>

definition idx_v1 :: "string \<Rightarrow> idx_entry list \<Rightarrow> string \<Rightarrow> Idx" where
  "idx_v1 path es trailer = \<lparr>ix_path = path, ix_algo = SHA1, ix_ver = 1, ix_count = word_of_nat (length es),
     ix_data = encode_idx_v1 es trailer\<rparr>"

lemma idx_v1_simps [simp]:
  "ix_algo (idx_v1 path es trailer) = SHA1" "ix_ver (idx_v1 path es trailer) = 1"
  "ix_count (idx_v1 path es trailer) = word_of_nat (length es)" "ix_data (idx_v1 path es trailer) = encode_idx_v1 es trailer"
  by (simp_all add: idx_v1_def)

lemma OpenIdx_v1:
  assumes "wf_index SHA1 es" "length trailer = 40" "fs path = Inr (encode_idx_v1 es trailer)"
  shows "OpenIdx fs path (Some SHA1) = Inr (idx_v1 path es trailer)"
proof -
  let ?d = "encode_idx_v1 es trailer" and ?oids = "map ie_oid es"
  let ?t = "concat (map (\<lambda>e. be_bytes 4 (ie_off e) @ ie_oid e) es)"
  have n: "length ?oids < 2 ^ 31" using assms(1) by (simp add: wf_index_def)
  have d: "?d = [] @ encode_fan ?oids @ (?t @ trailer)" by (simp add: encode_idx_v1_def)
  have "u32_at ?d (length ([] :: string) + 0 * 4) = word_of_nat (fan_of ?oids 0)"
    "u32_at ?d (length ([] :: string) + 255 * 4) = word_of_nat (fan_of ?oids 255)"
    unfolding d by (rule fan_slot, simp)+
  then have slots: "u32_at ?d 0 = word_of_nat (fan_of ?oids 0)" "u32_at ?d (255 * 4) = word_of_nat (length es)"
    by (simp_all add: fan_of_all)
  have "\<not> hasIdxV2MagicPrefix ?d"
  proof
    assume m: "hasIdxV2MagicPrefix ?d"
    then have len: "4 \<le> length ?d" and "?d ! 0 = CHR 0xFF" "?d ! 1 = CHR ''t''" "?d ! 2 = CHR ''O''" "?d ! 3 = CHR ''c''"
      by (auto simp: hasIdxV2MagicPrefix_def idxV2Magic_def split: if_splits)
    moreover have "take 4 ?d = [?d ! 0, ?d ! 1, ?d ! 2, ?d ! 3]"
      using len by (intro nth_equalityI) (auto simp: less_Suc_eq numeral_eq_Suc nth_Cons')
    ultimately have "take 4 ?d = idxV2Magic" by (simp add: idxV2Magic_def)
    then have "u32_at ?d 0 = be idxV2Magic" by (simp add: u32_at_def)
    moreover have "unat (be idxV2Magic :: u32) = 0xFF744F63"
      using unat_be [of idxV2Magic, where 'a = 32] by (simp add: idxV2Magic_def)
    ultimately have "unat (word_of_nat (fan_of ?oids 0) :: u32) = 0xFF744F63" using slots(1) by simp
    moreover have "fan_of ?oids 0 \<le> length ?oids" unfolding fan_of_def by (rule length_filter_le)
    ultimately show False using n by (simp add: unat_of_nat take_bit_nat_eq_self)
  qed
  moreover have fan: "take (256 * 4) ?d = encode_fan ?oids" by (simp add: d)
  have "length ?t = length es * 24"
    using wf_index_facts(2) [OF assms(1)] by (intro concat_width) simp
  then have "length ?d = 1024 + length es * 24 + 40" using assms(2) by (simp add: d)
  then have "idx_parseHeader \<lparr>ix_path = path, ix_algo = SHA1, ix_ver = 1, ix_count = 0, ix_data = ?d\<rparr> = Inr (idx_v1 path es trailer)"
    using wf_index_facts(1) [OF assms(1)]
    unfolding idx_parseHeader_def Let_def Idx.select_convs fan slots(2) validateIdxFanout_encode [OF n]
    by (simp add: idx_v1_def)
  ultimately show ?thesis unfolding OpenIdx_def option.case assms(3) sum.case Let_def Idx.select_convs by simp
qed

lemma FindOffset_v1:
  assumes "wf_index SHA1 es" "wf_hash SHA1 h" "list_all (\<lambda>e. ie_off e < 2 ^ 32) es"
  shows "FindOffset (idx_v1 path es trailer) h = Some (map_option (\<lambda>e. int (ie_off e)) (entry_of es h))"
proof -
  let ?d = "encode_idx_v1 es trailer" and ?oids = "map ie_oid es"
  let ?rec = "\<lambda>e. be_bytes 4 (ie_off e) @ ie_oid e" and ?fan = "\<lambda>k. word_of_nat (fan_of ?oids k) :: u32"
  note facts = wf_index_facts [OF assms(1)]
  have d: "?d = encode_fan ?oids @ concat (map ?rec es) @ trailer" by (simp add: encode_idx_v1_def)
  have rec: "take 24 (drop (1024 + i * 24) ?d) = ?rec (es ! i)" "1024 + (i + 1) * 24 \<le> length ?d" if "i < length es" for i
    using table_slot [OF d, of 24 i] facts(2) that by simp_all
  have get: "slice ?d (1024 + i * 24 + 4) (1024 + i * 24 + 24) = Some (?oids ! i)" if "i < length ?oids" for i
  proof -
    have "take 20 (drop (1024 + i * 24 + 4) ?d) = drop 4 (take 24 (drop (1024 + i * 24) ?d))"
      by (simp add: drop_take add.commute)
    then show ?thesis using rec [of i] that by (simp add: slice_def)
  qed
  have off: "u32_at ?d (1024 + i * 24) = word_of_nat (ie_off (es ! i))" "ie_off (es ! i) < 2 ^ 32" if "i < length es" for i
  proof -
    show lt: "ie_off (es ! i) < 2 ^ 32" using assms(3) that by (auto simp: list_all_iff)
    have "take 4 (drop (1024 + i * 24) ?d) = take 4 (take 24 (drop (1024 + i * 24) ?d))" by simp
    then have "take 4 (drop (1024 + i * 24) ?d) = be_bytes 4 (ie_off (es ! i))" unfolding rec(1) [OF that] by simp
    then show "u32_at ?d (1024 + i * 24) = word_of_nat (ie_off (es ! i))"
      using be_be_bytes [of 4 "ie_off (es ! i)", where 'a = 32] lt by (simp add: u32_at_def word_unat_eq_iff unat_of_nat take_bit_nat_eq_self)
  qed
  have slot: "u32_at ?d (k * 4) = ?fan k" if "k < 256" for k
    using fan_slot [OF that, of "[]" ?oids "concat (map ?rec es) @ trailer"] by (simp add: d)
  have "byte_val (hd h) < 256" "byte_val (hd h) - 1 < 256" using byte_val_less [of "hd h"] by linarith+
  then have fan: "fan_bounds (\<lambda>k. u32_at ?d (k * 4)) h = fan_bounds ?fan h"
    by (simp add: fan_bounds_def slot Let_def)
  obtain lo hi where b: "fan_bounds ?fan h = (lo, hi)" by fastforce
  have h: "h \<noteq> []" using assms(2) by (auto simp: wf_hash_def)
  note fin = idx.search_finds [where t = "(SHA1, es)", unfolded prod.case, OF assms(1) h get b]
  have len: "\<not> length ?d < 256 * 4" by (simp add: d)
  have cnt: "\<not> (word_of_nat (length es) :: u32) < hi" using fin(1) facts(1) by (simp add: word_less_nat_alt)
  have nums: "256 * 4 = (1024 :: nat)" "4 + 20 = (24 :: nat)" by simp_all
  let ?s = "oid_search (\<lambda>mid. slice ?d (1024 + mid * 24 + 4) (1024 + mid * 24 + 24)) h lo hi"
  have find: "FindOffset (idx_v1 path es trailer) h = (if es = [] then Some None else case ?s of
      None \<Rightarrow> None | Some None \<Rightarrow> Some None | Some (Some mid) \<Rightarrow> Some (Some (int (unat (u32_at ?d (1024 + unat mid * 24))))))"
    using len cnt facts(6) fan b unfolding FindOffset_def findOffsetV1_def Let_def idx_v1_simps idxV1RecordSize_def nums by simp
  show ?thesis
  proof (cases "h \<in> ie_oid ` set es")
    case True
    then obtain i where i: "i < length es" "ie_oid (es ! i) = h" by (auto simp: in_set_conv_nth)
    have w: "unat (word_of_nat i :: u32) = i"
      using i(1) assms(1) by (simp add: wf_index_def unat_of_nat take_bit_nat_eq_self)
    have u: "unat (word_of_nat (ie_off (es ! i)) :: u32) = ie_off (es ! i)"
      using off(2) [OF i(1)] by (simp add: unat_of_nat take_bit_nat_eq_self)
    show ?thesis
      unfolding find entry_of_nth [OF facts(5) i] using fin(2) [of i] i off(1) [OF i(1)] int_unat [OF u] by (auto simp: w)
  next
    case False
    then have "?s = Some None" "entry_of es h = None" using fin(3) by (auto simp: entry_of_None)
    then show ?thesis unfolding find by simp
  qed
qed


section \<open>Properties\<close>

text \<open>C19: Indexes are found in: the file of an index of version 2, in the format, opens with its count; then for
  every id the offset and the checksum it finds are those of the entry with that id, through the overflow table
  for the large offsets, and none where there is no entry; no lookup reads out of bounds; and the next offset it
  gives is the least one of any entry behind the one asked for.\<close>

theorem idx_v2_lookups:
  assumes "wf_index a es" "length trailer = 2 * Algo_Size a" "fs path = Inr (encode_idx_v2 es trailer)"
  shows "\<exists>i. OpenIdx fs path (Some a) = Inr i \<and> unat (Idx_Count i) = length es \<and>
    (\<forall>h. length h = Algo_Size a \<longrightarrow>
      FindOffset i h = Some (map_option (\<lambda>e. int (ie_off e)) (entry_of es h)) \<and>
      FindCRC32 i h = Some (map_option ie_crc (entry_of es h))) \<and>
    (\<forall>off. least_after (map (\<lambda>e. int (ie_off e)) es) off (OffsetAfter i off))"
  using OpenIdx_v2 [where fs = fs and path = path, OF assms] FindOffset_v2 [OF assms(1)] FindCRC32_v2 [OF assms(1)] OffsetAfter_v2 [OF assms(1)]
    wf_index_facts(1) [OF assms(1)]
  by (intro exI [of _ "idx_v2 path a es trailer"]) (auto simp: Idx_Count_def wf_hash_def)

theorem idx_v2_lookups_witness:
  "let e = \<lparr>ie_oid = replicate 20 (CHR 0x10), ie_crc = 9, ie_off = 12\<rparr>;
       e' = \<lparr>ie_oid = replicate 20 (CHR 0xF0), ie_crc = 8, ie_off = 5000000000\<rparr>
   in \<exists>i. OpenIdx (\<lambda>_. Inr (encode_idx_v2 [e, e'] (replicate 40 (CHR 0x00)))) ''p.idx'' (Some SHA1) = Inr i \<and>
      FindOffset i (replicate 20 (CHR 0xF0)) = Some (Some 5000000000) \<and> FindCRC32 i (replicate 20 (CHR 0x11)) = Some None"
proof -
  define e where "e = \<lparr>ie_oid = replicate 20 (CHR 0x10), ie_crc = 9, ie_off = 12\<rparr>"
  define e' where "e' = \<lparr>ie_oid = replicate 20 (CHR 0xF0), ie_crc = 8, ie_off = 5000000000\<rparr>"
  have lt: "replicate 20 (CHR 0x10) < replicate 20 (CHR 0xF0)" by (simp add: numeral_eq_Suc less_char_def)
  then have wf: "wf_index SHA1 [e, e']" by (simp add: wf_index_def e_def e'_def wf_hash_def)
  have ne: "replicate 20 (CHR 0x11) \<noteq> replicate 20 (CHR 0x10)" "replicate 20 (CHR 0x11) \<noteq> replicate 20 (CHR 0xF0)"
    "replicate 20 (CHR 0xF0) \<noteq> replicate 20 (CHR 0x10)" by (simp_all add: numeral_eq_Suc)
  then have "entry_of [e, e'] (replicate 20 (CHR 0xF0)) = Some e'" "entry_of [e, e'] (replicate 20 (CHR 0x11)) = None"
    by (simp_all add: entry_of_def e_def e'_def del: replicate.simps)
  moreover note idx_v2_lookups [OF wf, of "replicate 40 (CHR 0x00)" "\<lambda>_. Inr (encode_idx_v2 [e, e'] (replicate 40 (CHR 0x00)))" "''p.idx''"]
  moreover have "ie_off e' = 5000000000" by (simp add: e'_def)
  ultimately show ?thesis unfolding Let_def e_def [symmetric] e'_def [symmetric] by fastforce
qed

text \<open>The same for indexes of version 1, which have no checksums and offsets of 32 bits only.\<close>

theorem idx_v1_lookups:
  assumes "wf_index SHA1 es" "list_all (\<lambda>e. ie_off e < 2 ^ 32) es" "length trailer = 40"
    and "fs path = Inr (encode_idx_v1 es trailer)" "length h = 20"
  shows "\<exists>i. OpenIdx fs path (Some SHA1) = Inr i \<and> unat (Idx_Count i) = length es \<and>
    FindOffset i h = Some (map_option (\<lambda>e. int (ie_off e)) (entry_of es h)) \<and> FindCRC32 i h = Some None"
  using OpenIdx_v1 [where fs = fs and path = path, OF assms(1,3,4)] FindOffset_v1 [OF assms(1) _ assms(2)] wf_index_facts(1) [OF assms(1)] assms(5)
  by (intro exI [of _ "idx_v1 path es trailer"]) (simp add: Idx_Count_def wf_hash_def FindCRC32_def Let_def)

theorem idx_v1_lookups_witness:
  "let e = \<lparr>ie_oid = replicate 20 (CHR 0x10), ie_crc = 0, ie_off = 12\<rparr>
   in \<exists>i. OpenIdx (\<lambda>_. Inr (encode_idx_v1 [e] (replicate 40 (CHR 0x00)))) [] (Some SHA1) = Inr i \<and>
      FindOffset i (replicate 20 (CHR 0x10)) = Some (Some 12)"
proof -
  define e where "e = \<lparr>ie_oid = replicate 20 (CHR 0x10), ie_crc = 0, ie_off = 12\<rparr>"
  have wf: "wf_index SHA1 [e]" by (simp add: wf_index_def e_def wf_hash_def)
  have "entry_of [e] (replicate 20 (CHR 0x10)) = Some e" "ie_off e = 12"
    by (simp_all add: entry_of_def e_def del: replicate.simps)
  with idx_v1_lookups [OF wf, of "replicate 40 (CHR 0x00)" "\<lambda>_. Inr (encode_idx_v1 [e] (replicate 40 (CHR 0x00)))" "[]" "replicate 20 (CHR 0x10)"]
  show ?thesis unfolding Let_def e_def [symmetric] by fastforce
qed


end
