(* ===== verification/Midx_File.thy ===== *)
theory Midx_File
  imports Pack_Index
begin

text \<open>
  The multi-pack index (\<open>src/internal/objfmt/midx.go\<close>, \<open>midx_find.go\<close>, \<open>midx_verify.go\<close>), from the bytes of
  the file.

  Chunk offsets are the code's \<open>int64\<close>, which a hostile file can make negative: \<open>data_slice\<close> has signed bounds,
  and an outer \<open>None\<close> is the panic of a slice out of bounds (\<open>OpenMidx_panics\<close>). A missing chunk reads as
  the zero extent, as a missing key of the code's map does.
\<close>

section \<open>The chunk table\<close>

record chunkExtent =
  ce_off :: int
  ce_len :: int

record Midx =
  mx_path :: string
  mx_algo :: Algo
  mx_ver :: u32
  mx_count :: u32
  mx_numPacks :: u32
  mx_data :: string
  mx_chunks :: "string \<rightharpoonup> chunkExtent"
  mx_packNames :: "string list"

definition midxHeaderSize :: nat where "midxHeaderSize = 12"
definition midxChunkTOCEntry :: nat where "midxChunkTOCEntry = 4 + 8"
definition midxChunkAlignment :: int where "midxChunkAlignment = 4"
definition midxMagic :: string where "midxMagic = ''MIDX''"
definition chunkPNAM :: string where "chunkPNAM = ''PNAM''"
definition chunkOIDF :: string where "chunkOIDF = ''OIDF''"
definition chunkOIDL :: string where "chunkOIDL = ''OIDL''"
definition chunkOOFF :: string where "chunkOOFF = ''OOFF''"
definition chunkLOFF :: string where "chunkLOFF = ''LOFF''"
definition midxLargeOffsetMSB :: u32 where "midxLargeOffsetMSB = 0x80000000"
definition midxOOFFRecordSize :: int where "midxOOFFRecordSize = 8"

lemmas midx_consts = midxHeaderSize_def midxChunkTOCEntry_def midxChunkAlignment_def midxOOFFRecordSize_def
lemmas midx_chunks = chunkPNAM_def chunkOIDF_def chunkOIDL_def chunkOOFF_def chunkLOFF_def

definition data_slice :: "string \<Rightarrow> int \<Rightarrow> int \<Rightarrow> string option" where
  "data_slice s a b = (if 0 \<le> a \<and> a \<le> b \<and> b \<le> int (length s) then Some (take (nat (b - a)) (drop (nat a) s)) else None)"

text \<open>Arithmetic on \<open>int64\<close> where it can wrap around.\<close>

definition wrap64 :: "int \<Rightarrow> int" where
  "wrap64 x = sint (word_of_int x :: u64)"

text \<open>A step that may panic or fail, and what follows it.\<close>

definition go_bind :: "(go_error + 'a) option \<Rightarrow> ('a \<Rightarrow> (go_error + 'b) option) \<Rightarrow> (go_error + 'b) option" where
  "go_bind r k = (case r of None \<Rightarrow> None | Some (Inl err) \<Rightarrow> Some (Inl err) | Some (Inr x) \<Rightarrow> k x)"

lemma go_bind_simps [simp]: "go_bind None k = None" "go_bind (Some (Inl err)) k = Some (Inl err)"
  "go_bind (Some (Inr x)) k = k x"
  by (simp_all add: go_bind_def)

definition midx_chunk :: "Midx \<Rightarrow> string \<Rightarrow> chunkExtent" where
  "midx_chunk m id' = (case mx_chunks m id' of None \<Rightarrow> \<lparr>ce_off = 0, ce_len = 0\<rparr> | Some ext \<Rightarrow> ext)"

definition toc_entry :: "string \<Rightarrow> nat \<Rightarrow> string \<times> int" where
  "toc_entry data i = (let base = midxHeaderSize + i * midxChunkTOCEntry in
     (take 4 (drop base data), sint (u64_at data (base + 4))))"

definition zeroChunkID :: string where "zeroChunkID = replicate 4 (CHR 0x00)"

fun chunk_loop ::
  "(nat \<Rightarrow> string \<times> int) \<Rightarrow> int \<Rightarrow> nat list \<Rightarrow> (string \<rightharpoonup> chunkExtent) \<Rightarrow> go_error + (string \<rightharpoonup> chunkExtent)" where
  "chunk_loop toc bodyEnd [] chunks = Inr chunks"
| "chunk_loop toc bodyEnd (i # is) chunks = (case toc i of (id', off) \<Rightarrow>
     let nxt = snd (toc (i + 1)) in
     if id' = zeroChunkID then
       Inl (Wrapf (''objfmt: premature midx chunk terminator at index '' @ itoa_nat i @ '': '') ErrCorrupt [])
     else if off mod midxChunkAlignment \<noteq> 0 then
       Inl (Wrapf (''objfmt: midx chunk '' @ id' @ '' offset '' @ itoa off @ '' not '' @ itoa midxChunkAlignment @ ''-byte aligned: '')
         ErrCorrupt [])
     else if nxt < off \<or> bodyEnd < nxt then
       Inl (Wrapf (''objfmt: midx chunk '' @ id' @ '' out of range ('' @ itoa off @ ''..'' @ itoa nxt @ ''): '') ErrCorrupt [])
     else if chunks id' \<noteq> None then Inl (Wrapf (''objfmt: midx duplicate chunk '' @ id' @ '': '') ErrCorrupt [])
     else chunk_loop toc bodyEnd is (chunks(id' \<mapsto> \<lparr>ce_off = off, ce_len = wrap64 (nxt - off)\<rparr>)))"

fun require_chunks :: "(string \<rightharpoonup> chunkExtent) \<Rightarrow> string list \<Rightarrow> go_error option" where
  "require_chunks chunks [] = None"
| "require_chunks chunks (id' # ids) =
     (if chunks id' = None then Some (Wrapf (''objfmt: midx missing required chunk '' @ id' @ '': '') ErrCorrupt [])
      else require_chunks chunks ids)"

definition parseChunkTable :: "Midx \<Rightarrow> nat \<Rightarrow> go_error + Midx" where
  "parseChunkTable m numChunks =
     (let end' = midxHeaderSize + (numChunks + 1) * midxChunkTOCEntry;
          bodyEnd = int (length (mx_data m)) - int (Algo_Size (mx_algo m)) in
      if bodyEnd < int end' then
        Inl (Wrapf (''objfmt: midx chunk table overflows file ('' @ itoa_nat numChunks @ '' chunks): '') ErrTruncated [])
      else case toc_entry (mx_data m) numChunks of (lastID, lastOff) \<Rightarrow>
        if lastID \<noteq> zeroChunkID then
          Inl (Wrapf (''objfmt: midx chunk table missing terminator (id '' @ Hex lastID @ ''): '') ErrCorrupt [])
        else if bodyEnd < lastOff then
          Inl (Wrapf (''objfmt: midx chunk table overruns body (offset '' @ itoa lastOff @ '' > '' @ itoa bodyEnd @ ''): '')
            ErrTruncated [])
        else (case chunk_loop (toc_entry (mx_data m)) bodyEnd [0..<numChunks] Map.empty of
            Inl err \<Rightarrow> Inl err
          | Inr chunks \<Rightarrow> (case require_chunks chunks [chunkPNAM, chunkOIDF, chunkOIDL, chunkOOFF] of
              Some err \<Rightarrow> Inl err
            | None \<Rightarrow> Inr (m\<lparr>mx_chunks := chunks\<rparr>))))"

section \<open>The pack names, the fan-out and the ids\<close>

function pack_names_loop :: "u32 \<Rightarrow> string \<Rightarrow> string list \<Rightarrow> go_error + string list" where
  "pack_names_loop numPacks body names =
     (if 0 < length body \<and> (word_of_nat (length names) :: u32) < numPacks then
        (case IndexByte body (CHR 0x00) of
           None \<Rightarrow> Inl (Wrapf ''objfmt: midx pack-name chunk missing terminator: '' ErrCorrupt [])
         | Some idx \<Rightarrow> pack_names_loop numPacks (drop (idx + 1) body) (names @ [take idx body]))
      else Inr names)"
  by pat_completeness auto
termination by (relation "measure (\<lambda>(numPacks, body, names). length body)") auto

declare pack_names_loop.simps [simp del]

fun names_ordered :: "string list \<Rightarrow> go_error option" where
  "names_ordered (x # y # names) =
     (if y \<le> x then
        Some (Wrapf (''objfmt: midx v1 pack names out of order ('' @ quote x @ '' before '' @ quote y @ ''): '') ErrCorrupt [])
      else names_ordered (y # names))"
| "names_ordered names = None"

definition parsePackNames :: "Midx \<Rightarrow> (go_error + Midx) option" where
  "parsePackNames m =
     (let ext = midx_chunk m chunkPNAM in
      case data_slice (mx_data m) (ce_off ext) (ce_off ext + ce_len ext) of
        None \<Rightarrow> None
      | Some body \<Rightarrow> Some (case pack_names_loop (mx_numPacks m) body [] of
          Inl err \<Rightarrow> Inl err
        | Inr names \<Rightarrow>
            if (word_of_nat (length names) :: u32) \<noteq> mx_numPacks m then
              Inl (Wrapf (''objfmt: midx pack-name count '' @ itoa_nat (length names) @ '' != header num_packs '' @
                itoa_nat (unat (mx_numPacks m)) @ '': '') ErrCorrupt [])
            else (case (if mx_ver m = 1 then names_ordered names else None) of
                Some err \<Rightarrow> Inl err
              | None \<Rightarrow> Inr (m\<lparr>mx_packNames := names\<rparr>))))"

fun pack_index_loop :: "Midx \<Rightarrow> int \<Rightarrow> nat list \<Rightarrow> (go_error + unit) option" where
  "pack_index_loop m off [] = Some (Inr ())"
| "pack_index_loop m off (k # ks) =
     (let base = off + int k * midxOOFFRecordSize in
      case data_slice (mx_data m) base (base + 4) of
        None \<Rightarrow> None
      | Some b \<Rightarrow>
          if mx_numPacks m \<le> be b then
            Some (Inl (Wrapf (''objfmt: midx OOFF pack index '' @ itoa_nat (unat (be b :: u32)) @ '' >= num_packs '' @
              itoa_nat (unat (mx_numPacks m)) @ '' at entry '' @ itoa_nat k @ '': '') ErrCorrupt []))
          else pack_index_loop m off ks)"

definition parseFanout :: "Midx \<Rightarrow> (go_error + Midx) option" where
  "parseFanout m =
     (let ext = midx_chunk m chunkOIDF in
      if ce_len ext \<noteq> 256 * 4 then
        Some (Inl (Wrapf (''objfmt: midx OIDF wrong size ('' @ itoa (ce_len ext) @ '', want 1024): '') ErrCorrupt []))
      else case data_slice (mx_data m) (ce_off ext) (ce_off ext + 256 * 4) of
        None \<Rightarrow> None
      | Some fanout \<Rightarrow> (case fanout_loop ''midx'' fanout [0..<256] 0 of
          Inl err \<Rightarrow> Some (Inl err)
        | Inr count \<Rightarrow>
            let oidl = midx_chunk m chunkOIDL; ooff = midx_chunk m chunkOOFF; hashLen = int (Algo_Size (mx_algo m)) in
            if ce_len oidl \<noteq> int (unat count) * hashLen then
              Some (Inl (Wrapf (''objfmt: midx OIDL size '' @ itoa (ce_len oidl) @ '' != count*'' @ itoa hashLen @ '': '') ErrCorrupt []))
            else if ce_len ooff \<noteq> int (unat count) * 8 then
              Some (Inl (Wrapf (''objfmt: midx OOFF size '' @ itoa (ce_len ooff) @ '' != count*8: '') ErrCorrupt []))
            else go_bind (pack_index_loop m (ce_off ooff) [0..<unat count])
              (\<lambda>_. Some (Inr (m\<lparr>mx_count := count\<rparr>)))))"

fun oids_loop :: "string \<Rightarrow> nat \<Rightarrow> nat list \<Rightarrow> go_error option" where
  "oids_loop body hashLen [] = None"
| "oids_loop body hashLen (i # is) =
     (let prev = take hashLen (drop ((i - 1) * hashLen) body); cur = take hashLen (drop (i * hashLen) body) in
      if 0 \<le> bytes_Compare prev cur then
        Some (Wrapf (''objfmt: midx OIDL not strictly ascending at entry '' @ itoa_nat i @ '' ('' @ Hex prev @ '' >= '' @ Hex cur @ ''): '')
          ErrCorrupt [])
      else oids_loop body hashLen is)"

definition validateOIDLookup :: "Midx \<Rightarrow> (go_error + Midx) option" where
  "validateOIDLookup m =
     (let oidl = midx_chunk m chunkOIDL in
      if unat (mx_count m) < 2 then Some (Inr m)
      else case data_slice (mx_data m) (ce_off oidl) (ce_off oidl + ce_len oidl) of
        None \<Rightarrow> None
      | Some body \<Rightarrow> Some (case oids_loop body (Algo_Size (mx_algo m)) [1..<unat (mx_count m)] of
          Some err \<Rightarrow> Inl err
        | None \<Rightarrow> Inr m))"

section \<open>Opening\<close>

primrec midxHashVersion :: "Algo \<Rightarrow> nat" where
  "midxHashVersion SHA1 = 1"
| "midxHashVersion SHA256 = 2"

definition OpenMidx :: "(string \<Rightarrow> go_error + string) \<Rightarrow> string \<Rightarrow> Algo option \<Rightarrow> (go_error + Midx) option" where
  "OpenMidx fs path algo = (case algo of
      None \<Rightarrow> Some (Inl (Wrapf ''objfmt: nil algo: '' ErrUnsupportedAlgo []))
    | Some a \<Rightarrow> (case fs path of
        Inl err \<Rightarrow> Some (Inl err)
      | Inr data \<Rightarrow>
          if length data < midxHeaderSize + Algo_Size a then
            Some (Inl (Wrapf (''objfmt: midx too short ('' @ itoa_nat (length data) @ '' bytes): '') objfmt_ErrShortFile []))
          else if take 4 data \<noteq> midxMagic then
            Some (Inl (Wrapf (''objfmt: not a midx (magic = '' @ quote (take 4 data) @ ''): '') objfmt_ErrBadMagic []))
          else
            let ver = byte_val (data ! 4); hashVer = byte_val (data ! 5); numChunks = byte_val (data ! 6) in
            if ver \<noteq> 1 \<and> ver \<noteq> 2 then
              Some (Inl (Wrapf (''objfmt: unsupported midx version '' @ itoa_nat ver @ '' (want 1 or 2): '')
                objfmt_ErrUnsupportedVersion []))
            else if hashVer \<noteq> midxHashVersion a then
              Some (Inl (Wrapf (''objfmt: midx hash version '' @ itoa_nat hashVer @ '' does not match algo '' @ Algo_String a @ '': '')
                ErrAlgoMismatch []))
            else if data ! 7 \<noteq> CHR 0x00 then
              Some (Inl (Wrapf (''objfmt: midx reserved byte non-zero ('' @ itoa_nat (byte_val (data ! 7)) @ ''): '') ErrCorrupt []))
            else
              let m = \<lparr>mx_path = path, mx_algo = a, mx_ver = word_of_nat ver, mx_count = 0, mx_numPacks = u32_at data 8,
                mx_data = data, mx_chunks = Map.empty, mx_packNames = []\<rparr>
              in go_bind (go_bind (go_bind (Some (parseChunkTable m numChunks)) parsePackNames) parseFanout) validateOIDLookup))"

definition Midx_Close :: "Midx \<Rightarrow> go_error option \<times> Midx" where
  "Midx_Close m = (None, m\<lparr>mx_data := [], mx_chunks := Map.empty, mx_packNames := [], mx_count := 0, mx_numPacks := 0\<rparr>)"

definition Midx_Algo :: "Midx \<Rightarrow> Algo" where "Midx_Algo m = mx_algo m"
definition Midx_Version :: "Midx \<Rightarrow> u32" where "Midx_Version m = mx_ver m"
definition Midx_Count :: "Midx \<Rightarrow> u32" where "Midx_Count m = mx_count m"
definition PackNames :: "Midx \<Rightarrow> string list" where "PackNames m = mx_packNames m"
definition Midx_Path :: "Midx \<Rightarrow> string" where "Midx_Path m = mx_path m"

section \<open>Lookups\<close>

definition searchOID :: "Midx \<Rightarrow> Hash \<Rightarrow> u32 option option" where
  "searchOID m h =
     (let hashLen = int (Algo_Size (mx_algo m)); oidf = midx_chunk m chunkOIDF; oidl = midx_chunk m chunkOIDL;
          slot = (\<lambda>k. data_slice (mx_data m) (ce_off oidf + int k * 4) (ce_off oidf + (int k + 1) * 4));
          prefix = byte_val (hd h) in
      if ce_len oidf \<noteq> 256 * 4 \<or> ce_len oidl \<noteq> int (unat (mx_count m)) * hashLen then Some None
      else case (if 0 < prefix then slot (prefix - 1) else Some []) of
        None \<Rightarrow> None
      | Some lo \<Rightarrow> (case slot prefix of
          None \<Rightarrow> None
        | Some hi \<Rightarrow>
            if mx_count m < be hi then Some None
            else oid_search (\<lambda>mid. data_slice (mx_data m) (ce_off oidl + int mid * hashLen) (ce_off oidl + int mid * hashLen + hashLen))
              h (be lo) (be hi)))"

text \<open>The result: the pack index and the offset.\<close>

definition Midx_Find :: "Midx \<Rightarrow> Hash \<Rightarrow> (u32 \<times> int) option option" where
  "Midx_Find m h =
     (if mx_count m = 0 \<or> length (mx_data m) = 0 then Some None
      else case searchOID m h of
        None \<Rightarrow> None
      | Some None \<Rightarrow> Some None
      | Some (Some idx) \<Rightarrow>
          let base = ce_off (midx_chunk m chunkOOFF) + int (unat idx) * midxOOFFRecordSize in
          case data_slice (mx_data m) base (base + 8) of
            None \<Rightarrow> None
          | Some rec' \<Rightarrow>
              let packIndex = be (take 4 rec') :: u32; raw = be (drop 4 rec') :: u32 in
              if raw AND midxLargeOffsetMSB = 0 then Some (Some (packIndex, int (unat raw)))
              else (case mx_chunks m chunkLOFF of
                  None \<Rightarrow> Some None
                | Some loff \<Rightarrow>
                    let loffIdx = int (unat (raw AND NOT midxLargeOffsetMSB)); want = loffIdx * 8 + 8 in
                    if ce_len loff < want then Some None
                    else (case data_slice (mx_data m) (ce_off loff + loffIdx * 8) (ce_off loff + want) of
                        None \<Rightarrow> None
                      | Some b \<Rightarrow>
                          if 2 ^ 63 - 1 < unat (be b :: u64) then Some None
                          else Some (Some (packIndex, int (unat (be b :: u64)))))))"

definition Midx_VerifyChecksum :: "(Algo \<Rightarrow> string \<Rightarrow> Hash) \<Rightarrow> Midx \<Rightarrow> go_error option" where
  "Midx_VerifyChecksum hash m =
     (let data = mx_data m; hashLen = Algo_Size (mx_algo m) in
      if length data < hashLen then Some (Wrapf ''objfmt: midx too short for trailer: '' objfmt_ErrShortFile [])
      else
        let body = take (length data - hashLen) data; trailer = drop (length data - hashLen) data
        in if hash (mx_algo m) body \<noteq> trailer then Some (Wrapf ''objfmt: midx trailer mismatch: '' ErrChecksumMismatch []) else None)"

section \<open>The format\<close>

definition encode_names :: "string list \<Rightarrow> string" where
  "encode_names names = (let s = concat (map (\<lambda>n. n @ [CHR 0x00]) names) in s @ replicate ((4 - length s mod 4) mod 4) (CHR 0x00))"

text \<open>The entries: each with the index of its pack.\<close>

type_synonym midx_entry = "nat \<times> idx_entry"

definition midx_es :: "midx_entry list \<Rightarrow> idx_entry list" where
  "midx_es xs = map snd xs"

definition encode_oidl :: "midx_entry list \<Rightarrow> string" where
  "encode_oidl xs = concat (map ie_oid (midx_es xs))"

definition encode_ooff :: "midx_entry list \<Rightarrow> string" where
  "encode_ooff xs = concat (map (\<lambda>i. be_bytes 4 (fst (xs ! i)) @ be_bytes 4 (offset_slot (midx_es xs) i)) [0..<length xs])"

definition encode_loff :: "midx_entry list \<Rightarrow> string" where
  "encode_loff xs = concat (map (\<lambda>e. be_bytes 8 (ie_off e)) (filter large (midx_es xs)))"

definition midx_ids :: "string list" where
  "midx_ids = [chunkPNAM, chunkOIDF, chunkOIDL, chunkOOFF, chunkLOFF, zeroChunkID]"

definition midx_bodies :: "string list \<Rightarrow> midx_entry list \<Rightarrow> string list" where
  "midx_bodies names xs = [encode_names names, encode_fan (map ie_oid (midx_es xs)), encode_oidl xs, encode_ooff xs, encode_loff xs]"

definition body_offset :: "string list \<Rightarrow> nat \<Rightarrow> nat" where
  "body_offset bodies i = 84 + length (concat (take i bodies))"

definition encode_midx :: "Algo \<Rightarrow> string list \<Rightarrow> midx_entry list \<Rightarrow> string \<Rightarrow> string" where
  "encode_midx a names xs trailer =
     (let bodies = midx_bodies names xs in
      midxMagic @ [CHR 0x01, char_of (midxHashVersion a), CHR 0x05, CHR 0x00] @ be_bytes 4 (length names) @
      concat (map (\<lambda>i. midx_ids ! i @ be_bytes 8 (body_offset bodies i)) [0..<6]) @ concat bodies @ trailer)"

definition wf_midx :: "Algo \<Rightarrow> string list \<Rightarrow> midx_entry list \<Rightarrow> bool" where
  "wf_midx a names xs \<longleftrightarrow> wf_index a (midx_es xs) \<and> sorted_wrt (<) names \<and> list_all (\<lambda>n. CHR 0x00 \<notin> set n) names \<and>
     length names < 2 ^ 32 \<and> list_all (\<lambda>x. fst x < length names) xs \<and>
     length (concat (midx_bodies names xs)) < 2 ^ 62"

section \<open>Lemmas\<close>

lemma wrap64_id: "- (2 ^ 63) \<le> x \<Longrightarrow> x < 2 ^ 63 \<Longrightarrow> wrap64 x = x"
proof -
  assume a: "- (2 ^ 63) \<le> x" "x < 2 ^ 63"
  have "wrap64 x = signed_take_bit 63 x" by (simp add: wrap64_def signed_of_int)
  also have "\<dots> = x" using a by (intro signed_take_bit_int_eq_self)
  finally show ?thesis .
qed

lemma data_slice_piece:
  assumes "s = pre @ p @ post" "a = int (length pre)" "b = a + int (length p)"
  shows "data_slice s a b = Some p"
  using assms by (simp add: data_slice_def)

lemma data_slice_table:
  assumes "s = pre @ concat (map g xs) @ post" "\<And>x. x \<in> set xs \<Longrightarrow> length (g x) = w" "i < length xs"
    and "a = int (length pre) + int i * int w" "b = a + int w"
  shows "data_slice s a b = Some (g (xs ! i))"
proof -
  have a: "a = int (length pre + i * w)" "b = int (length pre + i * w + w)" using assms(4,5) by simp_all
  note t = table_slot [OF assms(1-3)]
  have "length pre + i * w + w \<le> length s" using t(2) by simp
  moreover have "nat (int (length pre + i * w + w) - int (length pre + i * w)) = w" by simp
  ultimately show ?thesis using t(1) unfolding data_slice_def a by (simp only: nat_int of_nat_le_iff le_add1 of_nat_0_le_iff if_True simp_thms)
qed

text \<open>The chunk bodies and where they are.\<close>

lemma body_offset_simps:
  "body_offset (midx_bodies names xs) 0 = 84"
  "body_offset (midx_bodies names xs) 1 = 84 + length (encode_names names)"
  "body_offset (midx_bodies names xs) 2 = 84 + length (encode_names names) + 1024"
  "body_offset (midx_bodies names xs) 3 = 84 + length (encode_names names) + 1024 + length (encode_oidl xs)"
  "body_offset (midx_bodies names xs) 4 = 84 + length (encode_names names) + 1024 + length (encode_oidl xs) + length (encode_ooff xs)"
  "body_offset (midx_bodies names xs) 5 = 84 + length (encode_names names) + 1024 + length (encode_oidl xs) + length (encode_ooff xs) +
    length (encode_loff xs)"
  by (simp_all add: body_offset_def midx_bodies_def)

lemma encode_names_aligned: "length (encode_names names) mod 4 = 0"
proof -
  have "(n + (4 - n mod 4) mod 4) mod 4 = (0 :: nat)" for n
  proof -
    have "n mod 4 \<in> {0, 1, 2, 3}" by auto
    then show ?thesis by (auto simp: mod_add_left_eq [of n, symmetric])
  qed
  then show ?thesis unfolding encode_names_def Let_def by (simp only: length_append length_replicate)
qed

lemma lengths_midx:
  assumes "wf_midx a names xs"
  shows "length (encode_oidl xs) = length xs * Algo_Size a" "length (encode_ooff xs) = length xs * 8"
    "length (encode_loff xs) = length (filter large (midx_es xs)) * 8"
proof -
  show "length (encode_oidl xs) = length xs * Algo_Size a"
    using wf_index_facts(4) [of a "midx_es xs"] assms by (simp add: wf_midx_def encode_oidl_def midx_es_def)
  have "length (encode_ooff xs) = length [0..<length xs] * 8" unfolding encode_ooff_def by (rule concat_width) simp
  then show "length (encode_ooff xs) = length xs * 8" by simp
  show "length (encode_loff xs) = length (filter large (midx_es xs)) * 8" unfolding encode_loff_def by (rule concat_width) simp
qed

lemma midx_pieces:
  fixes trailer :: string
  defines "d a names xs \<equiv> encode_midx a names xs trailer"
  obtains p0 r0 p1 r1 p2 r2 p3 r3 p4 r4 p5 where
    "d a names xs = p0 @ concat (map (\<lambda>i. midx_ids ! i @ be_bytes 8 (body_offset (midx_bodies names xs) i)) [0..<6]) @ r0" "length p0 = 12"
    "d a names xs = p1 @ encode_names names @ r1" "length p1 = body_offset (midx_bodies names xs) 0"
    "d a names xs = p2 @ encode_fan (map ie_oid (midx_es xs)) @ r2" "length p2 = body_offset (midx_bodies names xs) 1"
    "d a names xs = p3 @ encode_oidl xs @ r3" "length p3 = body_offset (midx_bodies names xs) 2"
    "d a names xs = p4 @ encode_ooff xs @ r4" "length p4 = body_offset (midx_bodies names xs) 3"
    "d a names xs = p5 @ encode_loff xs @ trailer" "length p5 = body_offset (midx_bodies names xs) 4"
proof -
  let ?h = "midxMagic @ [CHR 0x01, char_of (midxHashVersion a), CHR 0x05, CHR 0x00] @ be_bytes 4 (length names)"
  let ?toc = "concat (map (\<lambda>i. midx_ids ! i @ be_bytes 8 (body_offset (midx_bodies names xs) i)) [0..<6])"
  let ?b1 = "encode_names names" and ?b2 = "encode_fan (map ie_oid (midx_es xs))" and ?b3 = "encode_oidl xs"
  let ?b4 = "encode_ooff xs" and ?b5 = "encode_loff xs"
  have e: "d a names xs = ?h @ ?toc @ ?b1 @ ?b2 @ ?b3 @ ?b4 @ ?b5 @ trailer"
    by (simp add: d_def encode_midx_def Let_def midx_bodies_def)
  have m: "length midxMagic = 4" by (simp add: midxMagic_def)
  have "length (midx_ids ! i) = 4" if "i < 6" for i
    using that by (auto simp: midx_ids_def midx_chunks zeroChunkID_def less_Suc_eq numeral_eq_Suc)
  then have "length ?toc = length [0..<6] * 12" by (intro concat_width) simp
  then have t: "length ?toc = 72" by simp
  show thesis
    by (rule that [of ?h "?b1 @ ?b2 @ ?b3 @ ?b4 @ ?b5 @ trailer" "?h @ ?toc" "?b2 @ ?b3 @ ?b4 @ ?b5 @ trailer" "?h @ ?toc @ ?b1"
        "?b3 @ ?b4 @ ?b5 @ trailer" "?h @ ?toc @ ?b1 @ ?b2" "?b4 @ ?b5 @ trailer" "?h @ ?toc @ ?b1 @ ?b2 @ ?b3" "?b5 @ trailer"
        "?h @ ?toc @ ?b1 @ ?b2 @ ?b3 @ ?b4"])
      (simp_all only: e append_assoc length_append length_be_bytes m t length_encode_fan body_offset_simps list.size)
qed



lemma midx_header:
  assumes "length names < 2 ^ 32"
  shows "take 4 (encode_midx a names xs trailer) = midxMagic" "encode_midx a names xs trailer ! 4 = CHR 0x01"
    "byte_val (encode_midx a names xs trailer ! 5) = midxHashVersion a" "encode_midx a names xs trailer ! 6 = CHR 0x05"
    "encode_midx a names xs trailer ! 7 = CHR 0x00" "u32_at (encode_midx a names xs trailer) 8 = word_of_nat (length names)"
proof -
  let ?d = "encode_midx a names xs trailer"
  obtain r where d: "?d = ''MIDX'' @ [CHR 0x01, char_of (midxHashVersion a), CHR 0x05, CHR 0x00] @ be_bytes 4 (length names) @ r"
    by (simp add: encode_midx_def Let_def midxMagic_def)
  show "take 4 ?d = midxMagic" "?d ! 4 = CHR 0x01" "?d ! 6 = CHR 0x05" "?d ! 7 = CHR 0x00" unfolding d by (simp_all add: midxMagic_def)
  show "byte_val (?d ! 5) = midxHashVersion a" unfolding d by (cases a) simp_all
  have "take 4 (drop 8 ?d) = be_bytes 4 (length names)" unfolding d by simp
  then show "u32_at ?d 8 = word_of_nat (length names)"
    using be_be_bytes [of 4 "length names", where 'a = 32] assms by (simp add: u32_at_def word_unat_eq_iff unat_of_nat take_bit_nat_eq_self)
qed

lemma length_midx:
  "length (encode_midx a names xs trailer) = body_offset (midx_bodies names xs) 5 + length trailer"
proof -
  obtain p5 where "encode_midx a names xs trailer = p5 @ encode_loff xs @ trailer"
    "length p5 = body_offset (midx_bodies names xs) 4"
    by (rule midx_pieces [of a names xs trailer])
  then show ?thesis by (simp add: body_offset_simps)
qed

lemma midx_id_length: "i < 6 \<Longrightarrow> length (midx_ids ! i) = 4"
  by (auto simp: midx_ids_def midx_chunks zeroChunkID_def less_Suc_eq numeral_eq_Suc)

lemma take_pieces:
  assumes "take (k + n) x = p @ q" "length p = k" "length q = n"
  shows "take k x = p" "take n (drop k x) = q"
proof -
  have "x = p @ q @ drop (k + n) x" using append_take_drop_id [of "k + n" x] unfolding assms(1) by simp
  then obtain r where "x = p @ q @ r" by blast
  then show "take k x = p" "take n (drop k x) = q" using assms(2,3) by simp_all
qed

lemma wf_midx_small: "wf_midx a names xs \<Longrightarrow> body_offset (midx_bodies names xs) i < 2 ^ 63"
proof -
  assume w: "wf_midx a names xs"
  have "body_offset (midx_bodies names xs) i \<le> 84 + length (concat (midx_bodies names xs))" unfolding body_offset_def
    using append_take_drop_id [of i "midx_bodies names xs"] by (metis add_le_cancel_left concat_append le_add1 length_append)
  also have "\<dots> < 2 ^ 63" using w by (simp add: wf_midx_def)
  finally show ?thesis .
qed

lemma toc_entry_table:
  assumes "d = p @ concat (map (\<lambda>x. id' x @ be_bytes 8 (off x)) tab) @ r" "length p = 12"
    and "\<And>x. x \<in> set tab \<Longrightarrow> length (id' x) = 4" "i < length tab" "off (tab ! i) < 2 ^ 64"
  shows "toc_entry d i = (id' (tab ! i), sint (word_of_nat (off (tab ! i)) :: u64))"
proof -
  have "length (id' x @ be_bytes 8 (off x)) = 4 + 8" if "x \<in> set tab" for x using assms(3) [OF that] by simp
  note t = table_slot(1) [OF assms(1) this assms(4)]
  then have "take (4 + 8) (drop (12 + i * 12) d) = id' (tab ! i) @ be_bytes 8 (off (tab ! i))" by (simp add: assms(2))
  note e = take_pieces [OF this assms(3) [OF nth_mem [OF assms(4)]] length_be_bytes]
  have "be (be_bytes 8 (off (tab ! i))) = (word_of_nat (off (tab ! i)) :: u64)"
    using be_be_bytes [of 8 "off (tab ! i)", where 'a = 64] assms(5) by (simp add: word_unat_eq_iff unat_of_nat take_bit_nat_eq_self)
  with e show ?thesis by (simp add: toc_entry_def midx_consts Let_def u64_at_def)
qed

lemma toc_entry_encode:
  assumes "wf_midx a names xs" "i < 6"
  shows "toc_entry (encode_midx a names xs trailer) i = (midx_ids ! i, int (body_offset (midx_bodies names xs) i))"
proof -
  let ?o = "body_offset (midx_bodies names xs)"
  obtain p0 r0 where p: "encode_midx a names xs trailer = p0 @ concat (map (\<lambda>i. midx_ids ! i @ be_bytes 8 (?o i)) [0..<6]) @ r0"
    "length p0 = 12"
    by (rule midx_pieces [of a names xs trailer])
  have "[0..<6] ! i = i" using assms(2) by simp
  moreover have s: "?o i < 2 ^ 63" by (rule wf_midx_small [OF assms(1)])
  ultimately have "toc_entry (encode_midx a names xs trailer) i = (midx_ids ! i, sint (word_of_nat (?o i) :: u64))"
    using toc_entry_table [OF p, of i] midx_id_length assms(2) by simp
  moreover have "unat (word_of_nat (?o i) :: u64) = ?o i" using s by (simp add: unat_of_nat take_bit_nat_eq_self)
  ultimately show ?thesis using sint_small s by metis
qed

text \<open>The table of five chunks is read back, each with its extent.\<close>

definition midx_chunks_of :: "string list \<Rightarrow> midx_entry list \<Rightarrow> string \<rightharpoonup> chunkExtent" where
  "midx_chunks_of names xs = (let o' = (\<lambda>i. int (body_offset (midx_bodies names xs) i));
       ext = (\<lambda>i. \<lparr>ce_off = o' i, ce_len = o' (i + 1) - o' i\<rparr>) in
     [chunkPNAM \<mapsto> ext 0, chunkOIDF \<mapsto> ext 1, chunkOIDL \<mapsto> ext 2, chunkOOFF \<mapsto> ext 3, chunkLOFF \<mapsto> ext 4])"

lemma body_offset_mono: "body_offset bodies i \<le> body_offset bodies (i + 1)"
  by (cases "i < length bodies") (simp_all add: body_offset_def take_Suc_conv_app_nth)

lemma chunk_loop_run:
  assumes "\<And>i. i \<in> set is \<Longrightarrow> toc i = (ids ! i, off i) \<and> toc (i + 1) = (ids ! (i + 1), off (i + 1)) \<and> ids ! i \<noteq> zeroChunkID \<and>
      off i mod 4 = 0 \<and> off i \<le> off (i + 1) \<and> off (i + 1) \<le> bodyEnd \<and> 0 \<le> off i \<and> off (i + 1) < 2 ^ 63"
    and "distinct (map ((!) ids) is)" "\<And>i. i \<in> set is \<Longrightarrow> chunks (ids ! i) = None"
  shows "chunk_loop toc bodyEnd is chunks =
    Inr (foldl (\<lambda>c i. c(ids ! i \<mapsto> \<lparr>ce_off = off i, ce_len = off (i + 1) - off i\<rparr>)) chunks is)"
  using assms
proof (induction "is" arbitrary: chunks)
  case (Cons i "is")
  have "wrap64 (off (i + 1) - off i) = off (i + 1) - off i"
    using Cons.prems(1) [of i] by (intro wrap64_id) simp_all
  moreover have "chunk_loop toc bodyEnd is (chunks(ids ! i \<mapsto> \<lparr>ce_off = off i, ce_len = off (i + 1) - off i\<rparr>)) =
    Inr (foldl (\<lambda>c i. c(ids ! i \<mapsto> \<lparr>ce_off = off i, ce_len = off (i + 1) - off i\<rparr>))
      (chunks(ids ! i \<mapsto> \<lparr>ce_off = off i, ce_len = off (i + 1) - off i\<rparr>)) is)"
  proof (rule Cons.IH)
    fix j assume j: "j \<in> set is"
    then have "ids ! j \<noteq> ids ! i" using Cons.prems(2) by (force simp: image_iff)
    then show "(chunks(ids ! i \<mapsto> \<lparr>ce_off = off i, ce_len = off (i + 1) - off i\<rparr>)) (ids ! j) = None"
      using j Cons.prems(3) [of j] by simp
  qed (use Cons.prems in simp_all)
  ultimately show ?case using Cons.prems(1) [of i] Cons.prems(3) [of i] by (simp add: midxChunkAlignment_def not_less del: fun_upd_apply)
qed simp

lemma midx_ids_distinct: "distinct midx_ids"
  by (simp add: midx_ids_def midx_chunks zeroChunkID_def numeral_eq_Suc)

lemma body_offset_aligned:
  assumes "wf_midx a names xs" "i < 5"
  shows "int (body_offset (midx_bodies names xs) i) mod 4 = 0"
proof -
  have "4 dvd Algo_Size a" by (cases a) simp_all
  then have d: "4 dvd n * Algo_Size a" for n by (rule dvd_mult)
  have n: "4 dvd length (encode_names names)" using encode_names_aligned by (simp add: dvd_eq_mod_eq_0)
  have "(4 :: nat) dvd 84" "(4 :: nat) dvd 1024" "4 dvd k * (8 :: nat)" for k by (simp_all add: dvd_mult)
  note d = this d n
  consider "i = 0" | "i = 1" | "i = 2" | "i = 3" | "i = 4" using assms(2) by linarith
  then have "4 dvd body_offset (midx_bodies names xs) i"
    by cases (simp_all only: body_offset_simps lengths_midx [OF assms(1)], (intro dvd_add d)+)
  then have "int 4 dvd int (body_offset (midx_bodies names xs) i)" by (simp only: of_nat_dvd_iff)
  then show ?thesis by (simp add: dvd_eq_mod_eq_0)
qed

lemma parseChunkTable_encode:
  assumes "wf_midx a names xs" "length trailer = Algo_Size a" "mx_data m = encode_midx a names xs trailer" "mx_algo m = a"
  shows "parseChunkTable m 5 = Inr (m\<lparr>mx_chunks := midx_chunks_of names xs\<rparr>)"
proof -
  let ?d = "encode_midx a names xs trailer"
  let ?o = "\<lambda>i. int (body_offset (midx_bodies names xs) i)"
  have e: "int (length ?d) - int (Algo_Size a) = ?o 5" using assms(2) by (simp add: length_midx)
  have "chunk_loop (toc_entry ?d) (?o 5) [0..<5] Map.empty =
    Inr (foldl (\<lambda>c i. c(midx_ids ! i \<mapsto> \<lparr>ce_off = ?o i, ce_len = ?o (i + 1) - ?o i\<rparr>)) Map.empty [0..<5])"
  proof (rule chunk_loop_run, goal_cases)
    case (1 i)
    then have i: "i < 5" by simp
    have "midx_ids ! i \<noteq> midx_ids ! 5" using midx_ids_distinct i nth_eq_iff_index_eq [OF midx_ids_distinct, of i 5]
      by (simp add: midx_ids_def)
    moreover have "midx_ids ! 5 = zeroChunkID" by (simp add: midx_ids_def)
    moreover have "?o (i + 1) \<le> ?o 5"
      using lift_Suc_mono_le [of "body_offset (midx_bodies names xs)" "i + 1" 5] body_offset_mono i by simp
    ultimately show ?case using i toc_entry_encode [OF assms(1), of i trailer] toc_entry_encode [OF assms(1), of "i + 1" trailer]
        body_offset_aligned [OF assms(1) i] body_offset_mono [of "midx_bodies names xs" i] wf_midx_small [OF assms(1), of "i + 1"]
      by simp
  next
    case 2
    show ?case by (simp add: midx_ids_def midx_chunks upt_rec numeral_eq_Suc)
  qed simp
  moreover have "foldl (\<lambda>c i. c(midx_ids ! i \<mapsto> \<lparr>ce_off = ?o i, ce_len = ?o (i + 1) - ?o i\<rparr>)) Map.empty [0..<5] =
      midx_chunks_of names xs"
    by (simp add: midx_chunks_of_def midx_ids_def upt_rec Let_def eval_nat_numeral)
  moreover have "require_chunks (midx_chunks_of names xs) [chunkPNAM, chunkOIDF, chunkOIDL, chunkOOFF] = None"
    by (simp add: midx_chunks_of_def Let_def)
  moreover have "toc_entry ?d 5 = (zeroChunkID, ?o 5)"
    using toc_entry_encode [OF assms(1), of 5 trailer] by (simp add: midx_ids_def)
  moreover have "84 \<le> ?o 5" by (simp add: body_offset_simps)
  ultimately show ?thesis unfolding parseChunkTable_def Let_def assms(3,4) e midx_consts by simp
qed


text \<open>The pack names are read back, the padding left alone.\<close>

lemma pack_names_loop_encode:
  assumes "list_all (\<lambda>n. CHR 0x00 \<notin> set n) names" "length acc + length names = unat np"
  shows "pack_names_loop np (concat (map (\<lambda>n. n @ [CHR 0x00]) names) @ pad) acc = Inr (acc @ names)"
  using assms
proof (induction names arbitrary: acc)
  case Nil
  then have "\<not> word_of_nat (length acc) < np" by simp
  then show ?case by (subst pack_names_loop.simps) simp
next
  case (Cons n names)
  let ?rest = "concat (map (\<lambda>n. n @ [CHR 0x00]) names) @ pad"
  have "length acc < unat np" using Cons.prems(2) by simp
  moreover have "unat np < 2 ^ LENGTH(32)" by (rule unsigned_less)
  ultimately have "word_of_nat (length acc) < np" by (simp add: word_less_nat_alt unat_of_nat take_bit_nat_eq_self)
  moreover have "IndexByte (n @ CHR 0x00 # ?rest) (CHR 0x00) = Some (length n)" using Cons.prems(1) by (simp add: IndexByte_found)
  moreover have "pack_names_loop np ?rest (acc @ [n]) = Inr ((acc @ [n]) @ names)" using Cons by simp
  ultimately show ?case by (subst pack_names_loop.simps) simp
qed

lemma names_ordered_sorted: "sorted_wrt (<) names \<Longrightarrow> names_ordered names = None"
  by (induction names rule: names_ordered.induct) (auto simp: not_le)

text \<open>The state after each step of the parser.\<close>

definition midx_of :: "string \<Rightarrow> Algo \<Rightarrow> string list \<Rightarrow> midx_entry list \<Rightarrow> string \<Rightarrow> Midx" where
  "midx_of path a names xs trailer = \<lparr>mx_path = path, mx_algo = a, mx_ver = 1, mx_count = word_of_nat (length xs),
     mx_numPacks = word_of_nat (length names), mx_data = encode_midx a names xs trailer,
     mx_chunks = midx_chunks_of names xs, mx_packNames = names\<rparr>"

lemma midx_of_simps [simp]:
  "mx_path (midx_of path a names xs trailer) = path" "mx_algo (midx_of path a names xs trailer) = a"
  "mx_ver (midx_of path a names xs trailer) = 1" "mx_count (midx_of path a names xs trailer) = word_of_nat (length xs)"
  "mx_numPacks (midx_of path a names xs trailer) = word_of_nat (length names)"
  "mx_data (midx_of path a names xs trailer) = encode_midx a names xs trailer"
  "mx_chunks (midx_of path a names xs trailer) = midx_chunks_of names xs" "mx_packNames (midx_of path a names xs trailer) = names"
  by (simp_all add: midx_of_def)

lemma midx_chunk_extents:
  assumes "mx_chunks m = midx_chunks_of names xs"
  defines "o' \<equiv> \<lambda>i. int (body_offset (midx_bodies names xs) i)"
  shows "midx_chunk m chunkPNAM = \<lparr>ce_off = o' 0, ce_len = o' 1 - o' 0\<rparr>"
    "midx_chunk m chunkOIDF = \<lparr>ce_off = o' 1, ce_len = o' 2 - o' 1\<rparr>"
    "midx_chunk m chunkOIDL = \<lparr>ce_off = o' 2, ce_len = o' 3 - o' 2\<rparr>"
    "midx_chunk m chunkOOFF = \<lparr>ce_off = o' 3, ce_len = o' 4 - o' 3\<rparr>"
    "mx_chunks m chunkLOFF = Some \<lparr>ce_off = o' 4, ce_len = o' 5 - o' 4\<rparr>"
  by (simp_all add: midx_chunk_def assms midx_chunks_of_def Let_def midx_chunks eval_nat_numeral)

lemma parsePackNames_encode:
  assumes "wf_midx a names xs" "mx_data m = encode_midx a names xs trailer" "mx_chunks m = midx_chunks_of names xs"
    and "mx_numPacks m = word_of_nat (length names)"
  shows "parsePackNames m = Some (Inr (m\<lparr>mx_packNames := names\<rparr>))"
proof -
  obtain p1 r1 where p: "mx_data m = p1 @ encode_names names @ r1" "length p1 = body_offset (midx_bodies names xs) 0"
    using assms(2) by (metis midx_pieces [of a names xs trailer])
  let ?e = "midx_chunk m chunkPNAM"
  have e: "ce_off ?e = int (length p1)" "ce_len ?e = int (length (encode_names names))"
    unfolding midx_chunk_extents [OF assms(3)] p(2) chunkExtent.select_convs body_offset_simps by simp_all
  have body: "data_slice (mx_data m) (ce_off ?e) (ce_off ?e + ce_len ?e) = Some (encode_names names)"
    by (rule data_slice_piece [OF p(1) e(1)]) (simp add: e(2))
  have n: "unat (mx_numPacks m) = length names" using assms(1,4) by (simp add: wf_midx_def unat_of_nat take_bit_nat_eq_self)
  have "pack_names_loop (mx_numPacks m) (encode_names names) [] = Inr ([] @ names)"
    unfolding encode_names_def Let_def
    by (rule pack_names_loop_encode) (use assms(1) n in \<open>simp_all add: wf_midx_def\<close>)
  moreover have "names_ordered names = None" using assms(1) by (intro names_ordered_sorted) (simp add: wf_midx_def)
  ultimately show ?thesis unfolding parsePackNames_def Let_def body using assms(4) by simp
qed

lemma pack_index_loop_ok:
  assumes "\<And>k. k \<in> set ks \<Longrightarrow> \<exists>b. data_slice (mx_data m) (off + int k * 8) (off + int k * 8 + 4) = Some b \<and> be b < mx_numPacks m"
  shows "pack_index_loop m off ks = Some (Inr ())"
  using assms
proof (induction ks)
  case (Cons k ks)
  then obtain b where "data_slice (mx_data m) (off + int k * 8) (off + int k * 8 + 4) = Some b" "be b < mx_numPacks m" by fastforce
  with Cons show ?case by (simp add: midxOOFFRecordSize_def Let_def not_le [symmetric])
qed simp

lemma wf_midx_index: "wf_midx a names xs \<Longrightarrow> wf_index a (midx_es xs)"
  by (simp add: wf_midx_def)

lemma length_midx_es [simp]: "length (midx_es xs) = length xs"
  by (simp add: midx_es_def)

lemma be_word_of_nat: "v < 2 ^ 32 \<Longrightarrow> be (be_bytes 4 v) = (word_of_nat v :: u32)"
  using be_be_bytes [of 4 v, where 'a = 32] by (simp add: word_unat_eq_iff unat_of_nat take_bit_nat_eq_self)

text \<open>The record of an entry in the offset chunk.\<close>

lemma ooff_slot:
  assumes "wf_midx a names xs" "i < length xs"
  defines "base \<equiv> int (body_offset (midx_bodies names xs) 3) + int i * 8"
  shows "data_slice (encode_midx a names xs trailer) base (base + 8) =
      Some (be_bytes 4 (fst (xs ! i)) @ be_bytes 4 (offset_slot (midx_es xs) i))"
    and "data_slice (encode_midx a names xs trailer) base (base + 4) = Some (be_bytes 4 (fst (xs ! i)))"
proof -
  let ?d = "encode_midx a names xs trailer"
  let ?g = "\<lambda>i. be_bytes 4 (fst (xs ! i)) @ be_bytes 4 (offset_slot (midx_es xs) i)"
  obtain p r where p: "?d = p @ encode_ooff xs @ r" "length p = body_offset (midx_bodies names xs) 3"
    by (rule midx_pieces [of a names xs trailer])
  have "data_slice ?d base (base + 8) = Some (?g ([0..<length xs] ! i))"
    by (rule data_slice_table [OF p(1) [unfolded encode_ooff_def]])
      (use assms(2) in \<open>simp_all add: base_def p(2)\<close>)
  then show s: "data_slice ?d base (base + 8) = Some (?g i)" using assms(2) by simp
  then have t: "take (4 + 4) (drop (nat base) ?d) = ?g i" "base + 8 \<le> int (length ?d)" "0 \<le> base"
    by (auto simp: data_slice_def split: if_splits)
  have "take 4 (drop (nat base) ?d) = be_bytes 4 (fst (xs ! i))"
    by (rule take_pieces(1) [OF t(1) length_be_bytes length_be_bytes])
  then show "data_slice ?d base (base + 4) = Some (be_bytes 4 (fst (xs ! i)))" using t(2,3) by (simp add: data_slice_def)
qed

lemma parseFanout_encode:
  assumes "wf_midx a names xs" "mx_data m = encode_midx a names xs trailer" "mx_chunks m = midx_chunks_of names xs"
    and "mx_numPacks m = word_of_nat (length names)" "mx_algo m = a"
  shows "parseFanout m = Some (Inr (m\<lparr>mx_count := word_of_nat (length xs)\<rparr>))"
proof -
  let ?oids = "map ie_oid (midx_es xs)" and ?o = "\<lambda>i. int (body_offset (midx_bodies names xs) i)"
  note facts = wf_index_facts [OF wf_midx_index [OF assms(1)]]
  note ext = midx_chunk_extents [OF assms(3)]
  obtain p r where p: "mx_data m = p @ encode_fan ?oids @ r" "length p = body_offset (midx_bodies names xs) 1"
    using assms(2) by (metis midx_pieces [of a names xs trailer])
  have few: "length ?oids < 2 ^ 31" using wf_midx_index [OF assms(1)] by (simp add: wf_index_def)
  have fan: "data_slice (mx_data m) (?o 1) (?o 1 + 256 * 4) = Some (encode_fan ?oids)"
    by (rule data_slice_piece [OF p(1)]) (simp only: p(2), simp)
  have loop: "fanout_loop ''midx'' (encode_fan ?oids) [0..<256] 0 = Inr (word_of_nat (length xs))"
    using fanout_loop_encode [OF few, of 0 0 "''midx''"] by (auto simp: fan_of_all)
  have n: "unat (word_of_nat (length xs) :: u32) = length xs" using facts(1) by simp
  have "pack_index_loop m (?o 3) [0..<length xs] = Some (Inr ())"
  proof (rule pack_index_loop_ok)
    fix k assume "k \<in> set [0..<length xs]"
    then have k: "k < length xs" by simp
    then have "fst (xs ! k) < length names" "length names < 2 ^ 32" using assms(1) by (auto simp: wf_midx_def list_all_length)
    then have "be (be_bytes 4 (fst (xs ! k))) < mx_numPacks m"
      by (simp add: assms(4) be_word_of_nat word_less_nat_alt unat_of_nat take_bit_nat_eq_self)
    then show "\<exists>b. data_slice (mx_data m) (?o 3 + int k * 8) (?o 3 + int k * 8 + 4) = Some b \<and> be b < mx_numPacks m"
      using ooff_slot(2) [OF assms(1) k, of trailer] assms(2) by simp
  qed
  moreover have "?o 2 - ?o 1 = 256 * 4" "?o 3 - ?o 2 = int (length xs) * int (Algo_Size a)" "?o 4 - ?o 3 = int (length xs) * 8"
    unfolding body_offset_simps lengths_midx [OF assms(1)] by simp_all
  ultimately show ?thesis unfolding parseFanout_def Let_def ext chunkExtent.select_convs fan
    by (simp add: loop n assms(5))
qed


lemma oids_loop_sorted:
  assumes "\<And>i. i \<in> set is \<Longrightarrow> take w (drop ((i - 1) * w) body) < take w (drop (i * w) body)"
  shows "oids_loop body w is = None"
  using assms by (induction "is") (auto simp: Let_def not_le)

text \<open>An id of the id chunk.\<close>

lemma oidl_slot:
  assumes "wf_midx a names xs" "i < length xs"
  defines "base \<equiv> int (body_offset (midx_bodies names xs) 2) + int i * int (Algo_Size a)"
  shows "data_slice (encode_midx a names xs trailer) base (base + int (Algo_Size a)) = Some (map ie_oid (midx_es xs) ! i)"
    and "take (Algo_Size a) (drop (i * Algo_Size a) (encode_oidl xs)) = map ie_oid (midx_es xs) ! i"
proof -
  obtain p r where p: "encode_midx a names xs trailer = p @ encode_oidl xs @ r" "length p = body_offset (midx_bodies names xs) 2"
    by (rule midx_pieces [of a names xs trailer])
  note w = wf_index_facts(2) [OF wf_midx_index [OF assms(1)]]
  have i: "i < length (midx_es xs)" using assms(2) by simp
  show "data_slice (encode_midx a names xs trailer) base (base + int (Algo_Size a)) = Some (map ie_oid (midx_es xs) ! i)"
    using data_slice_table [OF p(1) [unfolded encode_oidl_def] w i, of base "base + int (Algo_Size a)"] i
    by (simp add: base_def p(2))
  show "take (Algo_Size a) (drop (i * Algo_Size a) (encode_oidl xs)) = map ie_oid (midx_es xs) ! i"
    using table_slot(1) [of "encode_oidl xs" "[]" ie_oid "midx_es xs" "[]", OF _ w i] i by (simp add: encode_oidl_def)
qed

lemma validateOIDLookup_encode:
  assumes "wf_midx a names xs" "mx_data m = encode_midx a names xs trailer" "mx_chunks m = midx_chunks_of names xs"
    and "mx_count m = word_of_nat (length xs)" "mx_algo m = a"
  shows "validateOIDLookup m = Some (Inr m)"
proof -
  note facts = wf_index_facts [OF wf_midx_index [OF assms(1)]]
  let ?oids = "map ie_oid (midx_es xs)" and ?o = "\<lambda>i. int (body_offset (midx_bodies names xs) i)"
  obtain p r where p: "mx_data m = p @ encode_oidl xs @ r" "length p = body_offset (midx_bodies names xs) 2"
    using assms(2) by (metis midx_pieces [of a names xs trailer])
  have "?o 3 - ?o 2 = int (length (encode_oidl xs))" unfolding body_offset_simps by simp
  then have body: "data_slice (mx_data m) (?o 2) (?o 2 + (?o 3 - ?o 2)) = Some (encode_oidl xs)"
    by (intro data_slice_piece [OF p(1)]) (simp_all add: p(2))
  have n: "unat (mx_count m) = length xs" using facts(1) assms(4) by simp
  have "oids_loop (encode_oidl xs) (Algo_Size a) [1..<length xs] = None"
  proof (rule oids_loop_sorted)
    fix i assume "i \<in> set [1..<length xs]"
    then have i: "i - 1 < length xs" "i < length xs" "i - 1 < i" by auto
    have "sorted_wrt (<) ?oids" using wf_midx_index [OF assms(1)] by (simp add: wf_index_def)
    then have "?oids ! (i - 1) < ?oids ! i" using i by (simp add: sorted_wrt_iff_nth_less)
    then show "take (Algo_Size a) (drop ((i - 1) * Algo_Size a) (encode_oidl xs)) < take (Algo_Size a) (drop (i * Algo_Size a) (encode_oidl xs))"
      unfolding oidl_slot(2) [OF assms(1) i(1)] oidl_slot(2) [OF assms(1) i(2)] .
  qed
  then show ?thesis
    unfolding validateOIDLookup_def Let_def midx_chunk_extents [OF assms(3)] chunkExtent.select_convs body n assms(5) by simp
qed

lemma OpenMidx_encode:
  assumes "wf_midx a names xs" "length trailer = Algo_Size a" "fs path = Inr (encode_midx a names xs trailer)"
  shows "OpenMidx fs path (Some a) = Some (Inr (midx_of path a names xs trailer))"
proof -
  let ?d = "encode_midx a names xs trailer"
  have names: "length names < 2 ^ 32" using assms(1) by (simp add: wf_midx_def)
  note h = midx_header [OF names, of a xs trailer]
  have len: "\<not> length ?d < 12 + Algo_Size a" unfolding length_midx assms(2) body_offset_simps by simp
  have v: "byte_val (CHR 0x01) = (1 :: nat)" "byte_val (CHR 0x05) = (5 :: nat)" by simp_all
  let ?m = "\<lparr>mx_path = path, mx_algo = a, mx_ver = word_of_nat 1, mx_count = 0, mx_numPacks = word_of_nat (length names),
    mx_data = ?d, mx_chunks = Map.empty, mx_packNames = []\<rparr>"
  let ?m1 = "?m\<lparr>mx_chunks := midx_chunks_of names xs\<rparr>"
  let ?m2 = "?m1\<lparr>mx_packNames := names\<rparr>"
  let ?m3 = "?m2\<lparr>mx_count := word_of_nat (length xs)\<rparr>"
  have "parseChunkTable ?m 5 = Inr ?m1" by (rule parseChunkTable_encode [OF assms(1,2)]) simp_all
  moreover have "parsePackNames ?m1 = Some (Inr ?m2)" by (rule parsePackNames_encode [OF assms(1)]) simp_all
  moreover have "parseFanout ?m2 = Some (Inr ?m3)" by (rule parseFanout_encode [OF assms(1)]) simp_all
  moreover have "validateOIDLookup ?m3 = Some (Inr ?m3)" by (rule validateOIDLookup_encode [OF assms(1)]) simp_all
  moreover have "?m3 = midx_of path a names xs trailer" by (simp add: midx_of_def)
  ultimately have "go_bind (go_bind (go_bind (Some (parseChunkTable ?m 5)) parsePackNames) parseFanout) validateOIDLookup =
    Some (Inr (midx_of path a names xs trailer))" by simp
  then show ?thesis
    unfolding OpenMidx_def option.case assms(3) sum.case Let_def h v midx_consts using len by (simp del: word_of_nat_eq_iff)
qed


lemma be_Nil: "be [] = (0 :: 'a::len word)"
  by (simp add: be_def)

text \<open>The search over the ids.\<close>

lemma searchOID_encode:
  fixes path trailer :: string
  assumes "wf_midx a names xs" "wf_hash a h" "xs \<noteq> []"
  defines "m \<equiv> midx_of path a names xs trailer"
  shows "i < length xs \<Longrightarrow> ie_oid (snd (xs ! i)) = h \<Longrightarrow> searchOID m h = Some (Some (word_of_nat i))"
    and "h \<notin> (\<lambda>x. ie_oid (snd x)) ` set xs \<Longrightarrow> searchOID m h = Some None"
proof -
  let ?d = "encode_midx a names xs trailer" and ?es = "midx_es xs" and ?o = "\<lambda>i. int (body_offset (midx_bodies names xs) i)"
  let ?oids = "map ie_oid ?es" and ?fan = "\<lambda>k. word_of_nat (fan_of (map ie_oid (midx_es xs)) k) :: u32"
  note wf = wf_midx_index [OF assms(1)]
  note facts = wf_index_facts [OF wf]
  obtain p r where p: "?d = p @ encode_fan ?oids @ r" "length p = body_offset (midx_bodies names xs) 1"
    by (rule midx_pieces [of a names xs trailer])
  have h: "h \<noteq> []" using assms(2) by (cases a) (auto simp: wf_hash_def)
  have slot: "data_slice ?d (?o 1 + int k * 4) (?o 1 + (int k + 1) * 4) = Some (be_bytes 4 (fan_of ?oids k))" if "k < 256" for k
    using data_slice_table [OF p(1) [unfolded encode_fan_def], of 4 k "?o 1 + int k * 4" "?o 1 + (int k + 1) * 4"] that
    by (simp add: p(2))
  have fan: "be (be_bytes 4 (fan_of ?oids k)) = ?fan k" if "k < 256" for k
  proof -
    have "fan_of ?oids k \<le> length ?oids" unfolding fan_of_def by (rule length_filter_le)
    then show ?thesis using wf by (intro be_word_of_nat) (simp add: wf_index_def)
  qed
  have k: "byte_val (hd h) < 256" "byte_val (hd h) - 1 < 256" using byte_val_less [of "hd h"] by linarith+
  obtain lo hi where b: "fan_bounds ?fan h = (lo, hi)" by fastforce
  have "\<exists>l. (if 0 < byte_val (hd h) then data_slice ?d (?o 1 + int (byte_val (hd h) - 1) * 4)
      (?o 1 + (int (byte_val (hd h) - 1) + 1) * 4) else Some []) = Some l \<and> be l = lo"
  proof (cases "0 < byte_val (hd h)")
    case True
    then have "lo = ?fan (byte_val (hd h) - 1)" using b by (simp add: fan_bounds_def Let_def)
    then show ?thesis using True slot [OF k(2)] fan [OF k(2)] by metis
  qed (use b in \<open>simp add: fan_bounds_def Let_def be_Nil\<close>)
  then obtain l where l: "(if 0 < byte_val (hd h) then data_slice ?d (?o 1 + int (byte_val (hd h) - 1) * 4)
      (?o 1 + (int (byte_val (hd h) - 1) + 1) * 4) else Some []) = Some l" "be l = lo" by blast
  have hi: "be (be_bytes 4 (fan_of ?oids (byte_val (hd h)))) = hi"
    using b unfolding fan [OF k(1)] by (auto simp: fan_bounds_def Let_def split: if_splits)
  have get: "data_slice ?d (?o 2 + int i * int (Algo_Size a)) (?o 2 + int i * int (Algo_Size a) + int (Algo_Size a)) = Some (?oids ! i)"
    if "i < length ?oids" for i
    using oidl_slot(1) [OF assms(1), of i trailer] that by simp
  note fin = idx.search_finds [where t = "(a, midx_es xs)", unfolded prod.case, OF wf h get b]
  have sizes: "?o 2 - ?o 1 = 256 * 4" "?o 3 - ?o 2 = int (length xs) * int (Algo_Size a)"
    unfolding body_offset_simps lengths_midx [OF assms(1)] by simp_all
  have n: "unat (word_of_nat (length xs) :: u32) = length xs" using facts(1) by simp
  have "\<not> (word_of_nat (length xs) :: u32) < hi" using fin(1) n by (simp add: word_less_nat_alt)
  then have search: "searchOID m h = oid_search (\<lambda>i. data_slice ?d (?o 2 + int i * int (Algo_Size a))
      (?o 2 + int i * int (Algo_Size a) + int (Algo_Size a))) h lo hi"
    unfolding searchOID_def Let_def m_def midx_of_simps midx_chunk_extents [OF midx_of_simps(7)] chunkExtent.select_convs sizes n
      slot [OF k(1)] l option.case hi by simp
  show "searchOID m h = Some (Some (word_of_nat i))" if "i < length xs" "ie_oid (snd (xs ! i)) = h" for i
    using fin(2) [of i] that search by (simp add: midx_es_def)
  show "searchOID m h = Some None" if "h \<notin> (\<lambda>x. ie_oid (snd x)) ` set xs"
  proof -
    have "h \<notin> set ?oids" using that by (auto simp: midx_es_def)
    then show ?thesis using fin(3) search by simp
  qed
qed

definition midx_entry_of :: "midx_entry list \<Rightarrow> Hash \<Rightarrow> midx_entry option" where
  "midx_entry_of xs h = map_of (map (\<lambda>x. (ie_oid (snd x), x)) xs) h"

lemma midx_entry_of_nth:
  assumes "wf_midx a names xs" "i < length xs" "ie_oid (snd (xs ! i)) = h"
  shows "midx_entry_of xs h = Some (xs ! i)"
proof -
  have "distinct (map ie_oid (midx_es xs))" by (rule wf_index_facts(5) [OF wf_midx_index [OF assms(1)]])
  then have "distinct (map fst (map (\<lambda>x. (ie_oid (snd x), x)) xs))" by (simp add: midx_es_def comp_def)
  moreover have "(h, xs ! i) \<in> set (map (\<lambda>x. (ie_oid (snd x), x)) xs)" using assms(2,3) by force
  ultimately show ?thesis by (simp add: midx_entry_of_def)
qed

lemma midx_entry_of_None: "midx_entry_of xs h = None \<longleftrightarrow> h \<notin> (\<lambda>x. ie_oid (snd x)) ` set xs"
  by (force simp: midx_entry_of_def map_of_eq_None_iff image_image)

text \<open>The offset word of an entry.\<close>

lemma offset_word:
  assumes "wf_index a es" "i < length es"
  defines "raw \<equiv> word_of_nat (offset_slot es i) :: u32"
  shows "be (be_bytes 4 (offset_slot es i)) = raw"
    and "\<not> large (es ! i) \<Longrightarrow> raw AND midxLargeOffsetMSB = 0 \<and> uint raw = int (ie_off (es ! i))"
    and "large (es ! i) \<Longrightarrow> raw AND midxLargeOffsetMSB \<noteq> 0 \<and>
      uint (raw AND NOT midxLargeOffsetMSB) = int (length (filter large (take i es)))"
proof -
  have msb: "midxLargeOffsetMSB = idxV2OverflowMSB" by (simp add: midxLargeOffsetMSB_def idxV2OverflowMSB_def)
  have "length (filter large (take i es)) \<le> length (take i es)" by (rule length_filter_le)
  also have "\<dots> < 2 ^ 31" using assms(1,2) by (simp add: wf_index_def)
  finally have j: "length (filter large (take i es)) < 2 ^ 31" .
  then have s: "offset_slot es i < 2 ^ 32" by (auto simp: offset_slot_def large_def)
  then show "be (be_bytes 4 (offset_slot es i)) = raw" unfolding raw_def by (rule be_word_of_nat)
  have u: "unat raw = offset_slot es i" using s by (simp add: raw_def unat_of_nat take_bit_nat_eq_self)
  show "raw AND midxLargeOffsetMSB = 0 \<and> uint raw = int (ie_off (es ! i))" if "\<not> large (es ! i)"
    using that u unfolding msb msb_slot(1) by (simp add: offset_slot_def large_def int_unat)
  show "raw AND midxLargeOffsetMSB \<noteq> 0 \<and> uint (raw AND NOT midxLargeOffsetMSB) = int (length (filter large (take i es)))"
    if "large (es ! i)"
  proof -
    have "unat (raw AND NOT midxLargeOffsetMSB) = length (filter large (take i es))"
      unfolding msb msb_slot(2) u using that j by (simp add: offset_slot_def)
    moreover have "\<not> unat raw < 2 ^ 31" using that u by (simp add: offset_slot_def)
    ultimately show ?thesis unfolding msb msb_slot(1) by (simp add: int_unat)
  qed
qed

lemma loff_slot:
  assumes "wf_midx a names xs" "j < length (filter large (midx_es xs))"
  defines "base \<equiv> int (body_offset (midx_bodies names xs) 4) + int j * 8"
  shows "data_slice (encode_midx a names xs trailer) base (base + 8) = Some (be_bytes 8 (ie_off (filter large (midx_es xs) ! j)))"
proof -
  obtain p where p: "encode_midx a names xs trailer = p @ encode_loff xs @ trailer" "length p = body_offset (midx_bodies names xs) 4"
    by (rule midx_pieces [of a names xs trailer])
  show ?thesis
    by (rule data_slice_table [OF p(1) [unfolded encode_loff_def] _ assms(2)]) (simp_all add: base_def p(2))
qed

text \<open>Every lookup finds the entry of its id.\<close>

lemma Midx_Find_encode:
  assumes "wf_midx a names xs" "wf_hash a h"
  shows "Midx_Find (midx_of path a names xs trailer) h =
    Some (map_option (\<lambda>x. (word_of_nat (fst x), int (ie_off (snd x)))) (midx_entry_of xs h))"
proof (cases "h \<in> (\<lambda>x. ie_oid (snd x)) ` set xs")
  case False
  then have none: "midx_entry_of xs h = None" by (simp add: midx_entry_of_None)
  show ?thesis
  proof (cases "xs = []")
    case ne: False
    show ?thesis unfolding Midx_Find_def none searchOID_encode(2) [OF assms ne False] by simp
  qed (use none in \<open>simp add: Midx_Find_def\<close>)
next
  case True
  then obtain i where i: "i < length xs" "ie_oid (snd (xs ! i)) = h" by (auto simp: in_set_conv_nth)
  then have ne: "xs \<noteq> []" by auto
  let ?m = "midx_of path a names xs trailer" and ?d = "encode_midx a names xs trailer" and ?es = "midx_es xs"
  let ?o = "\<lambda>i. int (body_offset (midx_bodies names xs) i)"
  note wf = wf_midx_index [OF assms(1)]
  note facts = wf_index_facts [OF wf]
  have ies: "i < length ?es" using i(1) by simp
  have e: "?es ! i = snd (xs ! i)" using i(1) by (simp add: midx_es_def)
  have n: "unat (word_of_nat (length xs) :: u32) = length xs" using facts(1) by simp
  then have count: "(word_of_nat (length xs) :: u32) \<noteq> 0" using ne by (auto simp: word_unat_eq_iff)
  have w: "unat (word_of_nat i :: u32) = i"
    using i(1) wf by (simp add: wf_index_def unat_of_nat take_bit_nat_eq_self)
  have len: "length ?d \<noteq> 0" unfolding length_midx body_offset_simps by simp
  have names: "fst (xs ! i) < 2 ^ 32" using assms(1) i(1) by (force simp: wf_midx_def list_all_length)
  have off: "ie_off (snd (xs ! i)) < 2 ^ 63" using facts(3) [OF nth_mem [OF ies]] by (simp add: e)
  note slot = ooff_slot(1) [OF assms(1) i(1), of trailer]
  note ow = offset_word [OF wf ies]
  have parts: "take 4 (be_bytes 4 (fst (xs ! i)) @ be_bytes 4 (offset_slot ?es i)) = be_bytes 4 (fst (xs ! i))"
    "drop 4 (be_bytes 4 (fst (xs ! i)) @ be_bytes 4 (offset_slot ?es i)) = be_bytes 4 (offset_slot ?es i)" by simp_all
  note unf = Midx_Find_def midx_of_simps searchOID_encode(1) [OF assms ne i] Let_def midxOOFFRecordSize_def
    midx_chunk_extents [OF midx_of_simps(7)] chunkExtent.select_convs w slot option.case parts ow(1) be_word_of_nat [OF names]
    midx_entry_of_nth [OF assms(1) i]
  show ?thesis
  proof (cases "large (?es ! i)")
    case False
    from ow(2) [OF this] show ?thesis unfolding unf using count len by (simp add: e)
  next
    case True
    let ?j = "length (filter large (take i ?es))"
    note j = large_index [OF ies True]
    note lw = ow(3) [OF True]
    have "unat (be (be_bytes 8 (ie_off (snd (xs ! i)))) :: u64) = ie_off (snd (xs ! i))"
      using be_be_bytes [of 8 "ie_off (snd (xs ! i))", where 'a = 64] off by simp
    note val = this int_unat [OF this]
    have "int ?j * 8 + 8 \<le> ?o 5 - ?o 4"
      using j(1) unfolding body_offset_simps lengths_midx [OF assms(1)] by simp
    moreover have "data_slice ?d (?o 4 + int ?j * 8) (?o 4 + int ?j * 8 + 8) = Some (be_bytes 8 (ie_off (snd (xs ! i))))"
      using loff_slot [OF assms(1) j(1), of trailer] j(2) by (simp add: e)
    moreover have "midx_chunks_of names xs chunkLOFF = Some \<lparr>ce_off = ?o 4, ce_len = ?o 5 - ?o 4\<rparr>"
      using midx_chunk_extents(5) [of ?m names xs] by (simp only: midx_of_simps)
    ultimately show ?thesis unfolding unf using count len lw val off by (simp add: add.assoc)
  qed
qed

section \<open>Properties\<close>

text \<open>A multi-pack index in the format opens to its pack names and count, and every lookup of an id of the
  right width finds exactly the entry of that id: the index of its pack and its offset, below two gigabytes
  in the record, beyond through the large offset chunk.\<close>

theorem midx_lookups:
  assumes "wf_midx a names xs" "length trailer = Algo_Size a" "fs path = Inr (encode_midx a names xs trailer)"
  shows "\<exists>m. OpenMidx fs path (Some a) = Some (Inr m) \<and> PackNames m = names \<and> unat (Midx_Count m) = length xs \<and>
    (\<forall>h. wf_hash a h \<longrightarrow> Midx_Find m h =
      Some (map_option (\<lambda>x. (word_of_nat (fst x), int (ie_off (snd x)))) (midx_entry_of xs h)))"
proof -
  have "unat (word_of_nat (length xs) :: u32) = length xs"
    using wf_index_facts(1) [OF wf_midx_index [OF assms(1)]] by simp
  then show ?thesis using OpenMidx_encode [where fs = fs and path = path, OF assms] Midx_Find_encode [OF assms(1)]
    by (auto simp: PackNames_def Midx_Count_def)
qed

definition sample_midx :: "midx_entry list" where
  "sample_midx = [(0, \<lparr>ie_oid = replicate 20 (CHR 0x11), ie_crc = 0, ie_off = 12\<rparr>),
     (1, \<lparr>ie_oid = replicate 20 (CHR 0xAB), ie_crc = 0, ie_off = 2 ^ 33\<rparr>)]"

theorem midx_lookups_witness:
  "\<exists>m. OpenMidx (\<lambda>_. Inr (encode_midx SHA1 [''a'', ''b''] sample_midx (replicate 20 CHR ''t''))) ''p'' (Some SHA1) =
      Some (Inr m) \<and> PackNames m = [''a'', ''b''] \<and> unat (Midx_Count m) = length sample_midx \<and>
    (\<forall>h. wf_hash SHA1 h \<longrightarrow> Midx_Find m h =
      Some (map_option (\<lambda>x. (word_of_nat (fst x), int (ie_off (snd x)))) (midx_entry_of sample_midx h)))"
proof (rule midx_lookups)
  have "replicate 20 (CHR 0x11) < replicate 20 (CHR 0xAB)" by code_simp
  moreover have "length (encode_fan (map ie_oid (midx_es sample_midx))) = 1024" by simp
  ultimately show "wf_midx SHA1 [''a'', ''b''] sample_midx"
    by (simp add: wf_midx_def wf_index_def midx_es_def sample_midx_def wf_hash_def midx_bodies_def encode_names_def encode_oidl_def
        encode_ooff_def encode_loff_def large_def)
qed simp_all

text \<open>A file whose first chunk offset is negative as a signed integer, but aligned and below the next one,
  passes every check of the chunk table and panics where the pack names are sliced.\<close>

definition negative_chunks :: "(string \<times> nat) list" where
  "negative_chunks = [(chunkPNAM, 2 ^ 63), (chunkOIDF, 72), (chunkOIDL, 72), (chunkOOFF, 72), (zeroChunkID, 72)]"

definition negative_chunk_midx :: string where
  "negative_chunk_midx = midxMagic @ [CHR 0x01, CHR 0x01, CHR 0x04, CHR 0x00] @ be_bytes 4 0 @
     concat (map (\<lambda>x. fst x @ be_bytes 8 (snd x)) negative_chunks) @ replicate 20 (CHR 0x00)"

lemma negative_chunk_toc:
  "toc_entry negative_chunk_midx 0 = (chunkPNAM, - (2 ^ 63))" "toc_entry negative_chunk_midx 1 = (chunkOIDF, 72)"
  "toc_entry negative_chunk_midx 2 = (chunkOIDL, 72)" "toc_entry negative_chunk_midx 3 = (chunkOOFF, 72)"
  "toc_entry negative_chunk_midx 4 = (zeroChunkID, 72)"
proof -
  let ?p = "midxMagic @ [CHR 0x01, CHR 0x01, CHR 0x04, CHR 0x00] @ be_bytes 4 0"
  have d: "negative_chunk_midx = ?p @ concat (map (\<lambda>x. fst x @ be_bytes 8 (snd x)) negative_chunks) @ replicate 20 (CHR 0x00)"
    "length ?p = 12"
    by (simp_all add: negative_chunk_midx_def midxMagic_def)
  have "length (fst x) = 4" if "x \<in> set negative_chunks" for x
    using that by (auto simp: negative_chunks_def midx_chunks zeroChunkID_def)
  note t = toc_entry_table [OF d this]
  have "sint (word_of_nat (2 ^ 63) :: u64) = - (2 ^ 63)" "sint (word_of_nat 72 :: u64) = 72" by simp_all
  then show "toc_entry negative_chunk_midx 0 = (chunkPNAM, - (2 ^ 63))" "toc_entry negative_chunk_midx 1 = (chunkOIDF, 72)"
    "toc_entry negative_chunk_midx 2 = (chunkOIDL, 72)" "toc_entry negative_chunk_midx 3 = (chunkOOFF, 72)"
    "toc_entry negative_chunk_midx 4 = (zeroChunkID, 72)"
    using t [of 0] t [of 1] t [of 2] t [of 3] t [of 4] by (simp_all add: negative_chunks_def)
qed

lemma OpenMidx_panics: "OpenMidx (\<lambda>_. Inr negative_chunk_midx) path (Some SHA1) = None"
proof -
  let ?d = negative_chunk_midx
  have len: "length ?d = 92" by (simp add: negative_chunk_midx_def negative_chunks_def midxMagic_def midx_chunks zeroChunkID_def)
  obtain r where d: "?d = ''MIDX'' @ [CHR 0x01, CHR 0x01, CHR 0x04, CHR 0x00] @ r"
    by (simp add: negative_chunk_midx_def midxMagic_def)
  have hd: "take 4 ?d = midxMagic" "?d ! 4 = CHR 0x01" "?d ! 5 = CHR 0x01" "?d ! 6 = CHR 0x04" "?d ! 7 = CHR 0x00"
    unfolding d by (simp_all add: midxMagic_def)
  have v: "byte_val (CHR 0x01) = (1 :: nat)" "byte_val (CHR 0x04) = (4 :: nat)" by simp_all
  let ?m = "\<lparr>mx_path = path, mx_algo = SHA1, mx_ver = word_of_nat 1, mx_count = 0, mx_numPacks = u32_at ?d 8,
    mx_data = ?d, mx_chunks = Map.empty, mx_packNames = []\<rparr>"
  let ?ext = "\<lparr>ce_off = - (2 ^ 63), ce_len = wrap64 (72 - (- (2 ^ 63)))\<rparr>"
  let ?z = "\<lparr>ce_off = 72, ce_len = wrap64 0\<rparr>"
  have upt: "[0..<4] = [0, 1, 2, 3 :: nat]" by (simp add: upt_rec)
  have ids: "chunkPNAM \<noteq> zeroChunkID" "chunkOIDF \<noteq> zeroChunkID" "chunkOIDL \<noteq> zeroChunkID" "chunkOOFF \<noteq> zeroChunkID"
    "distinct [chunkPNAM, chunkOIDF, chunkOIDL, chunkOOFF]"
    by (simp_all add: midx_chunks zeroChunkID_def eval_nat_numeral)
  have n: "0 + 1 = (1 :: nat)" "1 + 1 = (2 :: nat)" "2 + 1 = (3 :: nat)" "3 + 1 = (4 :: nat)" by simp_all
  have "chunk_loop (toc_entry ?d) 72 [0, 1, 2, 3] Map.empty =
    Inr [chunkPNAM \<mapsto> ?ext, chunkOIDF \<mapsto> ?z, chunkOIDL \<mapsto> ?z, chunkOOFF \<mapsto> ?z]"
    unfolding chunk_loop.simps n negative_chunk_toc prod.case Let_def snd_conv
    using ids by (auto simp: midxChunkAlignment_def)
  then have "parseChunkTable ?m 4 = Inr (?m\<lparr>mx_chunks := [chunkPNAM \<mapsto> ?ext, chunkOIDF \<mapsto> ?z, chunkOIDL \<mapsto> ?z, chunkOOFF \<mapsto> ?z]\<rparr>)"
    unfolding parseChunkTable_def Let_def upt by (simp add: len midx_consts negative_chunk_toc)
  moreover have "parsePackNames (?m\<lparr>mx_chunks := [chunkPNAM \<mapsto> ?ext, chunkOIDF \<mapsto> ?z, chunkOIDL \<mapsto> ?z, chunkOOFF \<mapsto> ?z]\<rparr>) = None"
    using ids(5) by (simp add: parsePackNames_def midx_chunk_def data_slice_def Let_def)
  ultimately show ?thesis
    unfolding OpenMidx_def option.case sum.case Let_def hd v midx_consts len by (simp del: word_of_nat_eq_iff)
qed

end
