(* ===== verification/Pack_Backend.thy ===== *)
theory Pack_Backend
  imports Go_Filesystem Midx_File "HOL-Library.Product_Lexorder" "HOL-Library.Multiset"
begin

text \<open>
  The two ways the store finds an object in its packs (\<open>src/internal/objstore/pack_backend.go\<close>): one index per pack
  (\<open>idx_catalog.go\<close>), or a multi-pack index with the packs it does not cover (\<open>midx_backend.go\<close>).

  A pack is a pointer in the code; within a backend it is known here by its path, which the names of a directory keep
  distinct. The open pack files are the list \<open>handles\<close>, which every operation that opens or closes a pack threads
  through: an index is read whole and holds no file. The parallel slices of covered packs, indexes and times are one
  list of \<open>packEntry option\<close>, \<open>None\<close> being the nil slot. An outer \<open>None\<close> is a panic.

  The locale \<open>pack_backend\<close> is the contract of the interface; both backends interpret it. The properties: a backend
  that fails to open leaves no file open, and one that is closed leaves none; a catalog's lookup asks the
  youngest pack first and, whatever the bytes of the indexes, never panics.
\<close>

section \<open>Packs and their handles\<close>

type_synonym handles = "string list"

record PackPtr =
  pp_path :: string
  pp_pack :: Pack

record packEntry =
  pe_idx :: Idx
  pe_pack :: PackPtr
  pe_mtime :: int

text \<open>Closing a pack gives its file back; \<open>errors.Join\<close> ignores what is nil.\<close>

definition close_handle :: "PackPtr \<Rightarrow> handles \<Rightarrow> handles" where
  "close_handle p hs = remove1 (pp_path p) hs"

fun errors_Join :: "go_error option list \<Rightarrow> go_error option" where
  "errors_Join [] = None"
| "errors_Join (None # es) = errors_Join es"
| "errors_Join (Some err # es) = (case errors_Join es of None \<Rightarrow> Some err | Some err' \<Rightarrow> Some (Join err err'))"

text \<open>The index of a directory entry, the pack beside it and the time of the pack.\<close>

definition open_pair ::
  "OS \<Rightarrow> (string \<Rightarrow> go_error + packReader) \<Rightarrow> string \<Rightarrow> Algo \<Rightarrow> string \<Rightarrow> handles \<Rightarrow> (go_error + packEntry) \<times> handles" where
  "open_pair os openReader packDir a name hs =
     (let idxPath = Join_path [packDir, name] in
      case OpenIdx (os_ReadFile os) idxPath (Some a) of
        Inl err \<Rightarrow> (Inl (Wrapf (''objstore: open idx '' @ idxPath @ '': '') err []), hs)
      | Inr idx \<Rightarrow>
          let packPath = TrimSuffix idxPath ''.idx'' @ ''.pack'' in
          (case OpenPack openReader packPath (Some a) of
            Inl err \<Rightarrow> (Inl (Wrapf (''objstore: open pack '' @ packPath @ '' for idx '' @ idxPath @ '': '') err []), hs)
          | Inr pack \<Rightarrow>
              let p = \<lparr>pp_path = packPath, pp_pack = pack\<rparr>; hs = packPath # hs in
              (case os_Stat os packPath of
                Inl err \<Rightarrow> (Inl (Wrapf (''objstore: stat pack '' @ packPath @ '': '') err []), close_handle p hs)
              | Inr st \<Rightarrow> (Inr \<lparr>pe_idx = idx, pe_pack = p, pe_mtime = fi_ModTime st\<rparr>, hs))))"

text \<open>Younger packs first, then by the name of the index.\<close>

definition pack_order :: "packEntry \<Rightarrow> int \<times> string" where
  "pack_order e = (- pe_mtime e, Base (ix_path (pe_idx e)))"

definition sort_packs :: "packEntry list \<Rightarrow> packEntry list" where
  "sort_packs es = sort_key pack_order es"

section \<open>One index per pack\<close>

record idxCatalog =
  ic_commonDir :: string
  ic_algo :: Algo
  ic_packs :: "packEntry list"
  ic_idxByPack :: "string \<rightharpoonup> Idx"
  ic_closed :: bool

definition empty_catalog :: "string \<Rightarrow> Algo \<Rightarrow> idxCatalog" where
  "empty_catalog commonDir a =
     \<lparr>ic_commonDir = commonDir, ic_algo = a, ic_packs = [], ic_idxByPack = Map.empty, ic_closed = False\<rparr>"

definition close_opened :: "packEntry list \<Rightarrow> handles \<Rightarrow> handles" where
  "close_opened es hs = fold (\<lambda>e. close_handle (pe_pack e)) es hs"

definition is_idx_entry :: "string \<times> bool \<Rightarrow> bool" where
  "is_idx_entry ent \<longleftrightarrow> \<not> snd ent \<and> HasSuffix (fst ent) ''.idx''"

fun catalog_loop ::
  "OS \<Rightarrow> (string \<Rightarrow> go_error + packReader) \<Rightarrow> string \<Rightarrow> (string \<times> bool) list \<Rightarrow> idxCatalog \<Rightarrow> handles \<Rightarrow>
    (go_error + idxCatalog) \<times> handles" where
  "catalog_loop os openReader packDir [] c hs = (Inr c, hs)"
| "catalog_loop os openReader packDir (ent # ents) c hs =
     (if \<not> is_idx_entry ent then catalog_loop os openReader packDir ents c hs
      else case open_pair os openReader packDir (ic_algo c) (fst ent) hs of
        (Inl err, hs) \<Rightarrow> (Inl err, close_opened (ic_packs c) hs)
      | (Inr e, hs) \<Rightarrow> catalog_loop os openReader packDir ents
          (c\<lparr>ic_packs := ic_packs c @ [e], ic_idxByPack := (ic_idxByPack c)(pp_path (pe_pack e) \<mapsto> pe_idx e)\<rparr>) hs)"

definition openIdxCatalog ::
  "OS \<Rightarrow> (string \<Rightarrow> go_error + packReader) \<Rightarrow> string \<Rightarrow> Algo \<Rightarrow> handles \<Rightarrow> (go_error + idxCatalog) \<times> handles" where
  "openIdxCatalog os openReader commonDir a hs =
     (let packDir = Join_path [commonDir, ''objects'', ''pack''] in
      case os_ReadDir os packDir of
        Inl err \<Rightarrow>
          if errors_Is err os_ErrNotExist then (Inr (empty_catalog commonDir a), hs)
          else (Inl (Wrapf (''objstore: stat '' @ packDir @ '': '') err []), hs)
      | Inr entries \<Rightarrow> (case catalog_loop os openReader packDir entries (empty_catalog commonDir a) hs of
          (Inl err, hs) \<Rightarrow> (Inl err, hs)
        | (Inr c, hs) \<Rightarrow> (Inr (c\<lparr>ic_packs := sort_packs (ic_packs c)\<rparr>), hs)))"

text \<open>The first index that has the id.\<close>

fun scan_packs :: "packEntry list \<Rightarrow> Hash \<Rightarrow> (PackPtr \<times> int) option option" where
  "scan_packs [] h = Some None"
| "scan_packs (e # es) h = (case FindOffset (pe_idx e) h of
     None \<Rightarrow> None
   | Some (Some off) \<Rightarrow> Some (Some (pe_pack e, off))
   | Some None \<Rightarrow> scan_packs es h)"

definition idxCatalog_Lookup :: "idxCatalog \<Rightarrow> Hash \<Rightarrow> (go_error + (PackPtr \<times> int) option) option" where
  "idxCatalog_Lookup c h = map_option Inr (scan_packs (ic_packs c) h)"

definition idxCatalog_AllPacks :: "idxCatalog \<Rightarrow> PackPtr list" where
  "idxCatalog_AllPacks c = map pe_pack (ic_packs c)"

definition idxCatalog_IdxFor :: "idxCatalog \<Rightarrow> PackPtr \<Rightarrow> Idx option" where
  "idxCatalog_IdxFor c p = ic_idxByPack c (pp_path p)"

text \<open>\<open>perr\<close> is what closing the file of a path answers. A second call does nothing; the code keeps the first error.\<close>

definition idxCatalog_Close ::
  "(string \<Rightarrow> go_error option) \<Rightarrow> idxCatalog \<Rightarrow> handles \<Rightarrow> go_error option \<times> idxCatalog \<times> handles" where
  "idxCatalog_Close perr c hs =
     (let err = errors_Join (concat (map (\<lambda>e. [fst (Idx_Close (pe_idx e)), perr (pp_path (pe_pack e))]) (ic_packs c))) in
      if ic_closed c then (err, c, hs)
      else (err, c\<lparr>ic_packs := map (\<lambda>e. e\<lparr>pe_idx := snd (Idx_Close (pe_idx e))\<rparr>) (ic_packs c),
          ic_idxByPack := (\<lambda>p. map_option (\<lambda>i. snd (Idx_Close i)) (ic_idxByPack c p)), ic_closed := True\<rparr>,
        close_opened (ic_packs c) hs))"


section \<open>Indexes of any bytes\<close>

lemma oid_search_safe:
  assumes "\<And>i. unat lo \<le> i \<Longrightarrow> i < unat hi \<Longrightarrow> get i \<noteq> None"
  shows "\<exists>r. oid_search get want lo hi = Some r \<and> (\<forall>m. r = Some m \<longrightarrow> unat m < unat hi)"
  using assms
proof (induction get want lo hi rule: oid_search.induct)
  case (1 get want lo hi)
  let ?mid = "lo + (hi - lo) div 2"
  show ?case
  proof (cases "lo < hi")
    case True
    note m = mid_bounds [OF True]
    have mid: "unat lo \<le> unat ?mid" "unat ?mid < unat hi" using m(2,3) by (simp_all add: word_le_nat_alt word_less_nat_alt)
    then obtain got where got: "get (unat ?mid) = Some got" using 1(3) by blast
    have lower: "\<exists>r. oid_search get want lo ?mid = Some r \<and> (\<forall>m. r = Some m \<longrightarrow> unat m < unat ?mid)"
      if "bytes_Compare want got \<noteq> 0" "bytes_Compare want got = - 1"
      using 1(1) [OF True refl got that] 1(3) mid by auto
    have upper: "\<exists>r. oid_search get want (?mid + 1) hi = Some r \<and> (\<forall>m. r = Some m \<longrightarrow> unat m < unat hi)"
      if "bytes_Compare want got \<noteq> 0" "bytes_Compare want got \<noteq> - 1"
      using 1(2) [OF True refl got that] 1(3) mid m(4) by auto
    have step: "oid_search get want lo hi = (if bytes_Compare want got = 0 then Some (Some ?mid)
        else if bytes_Compare want got = - 1 then oid_search get want lo ?mid else oid_search get want (?mid + 1) hi)"
      by (subst oid_search.simps) (simp add: True got Let_def del: bytes_Compare_iff)
    consider "bytes_Compare want got = 0" | "bytes_Compare want got \<noteq> 0" "bytes_Compare want got = - 1"
      | "bytes_Compare want got \<noteq> 0" "bytes_Compare want got \<noteq> - 1" by blast
    then show ?thesis
    proof cases
      case 1
      then show ?thesis using mid(2) step by simp
    next
      case 2
      then show ?thesis using lower [OF 2] mid(2) unfolding step by (auto simp del: bytes_Compare_iff)
    next
      case 3
      then show ?thesis using upper [OF 3] unfolding step by (auto simp del: bytes_Compare_iff)
    qed
  qed (subst oid_search.simps, simp)
qed

text \<open>What opening an index establishes, whatever its bytes: the tables its count announces are there.\<close>

definition idx_complete :: "Idx \<Rightarrow> bool" where
  "idx_complete i \<longleftrightarrow> (let n = unat (ix_count i); w = Algo_Size (ix_algo i) in
     ix_ver i = 1 \<and> 1064 + n * 24 \<le> length (ix_data i) \<or>
     ix_ver i = 2 \<and> 1032 + n * w + n * 4 + n * 4 + 2 * w \<le> length (ix_data i) \<or> n = 0)"

lemma OpenIdx_complete:
  assumes "OpenIdx fs path (Some a) = Inr i"
  shows "idx_complete i" "ix_path i = path" "ix_algo i = a" "ix_ver i \<in> {1, 2}"
  using assms
  by (auto simp: OpenIdx_def idx_parseHeader_def idx_complete_def Let_def idxV2HeaderLen_def not_less split: sum.splits if_splits option.splits)

lemma FindOffset_safe:
  assumes "idx_complete i"
  shows "\<exists>r. FindOffset i h = Some r"
proof (cases "ix_count i = 0")
  case True
  then show ?thesis by (auto simp: FindOffset_def findOffsetV1_def findOffsetV2_def Let_def)
next
  case False
  then have n: "unat (ix_count i) \<noteq> 0" by (simp add: unat_eq_zero)
  consider (v1) "ix_ver i = 1" "1064 + unat (ix_count i) * 24 \<le> length (ix_data i)"
    | (v2) "ix_ver i = 2" "1032 + unat (ix_count i) * Algo_Size (ix_algo i) \<le> length (ix_data i)"
    using assms n by (auto simp: idx_complete_def Let_def)
  then show ?thesis
  proof cases
    case v1
    obtain lo hi where b: "fan_bounds (\<lambda>k. u32_at (ix_data i) (k * 4)) h = (lo, hi)" by fastforce
    have "\<exists>r. oid_search (\<lambda>mid. slice (ix_data i) (1024 + mid * 24 + 4) (1024 + mid * 24 + 24)) h lo hi = Some r"
      if "\<not> ix_count i < hi"
    proof -
      have "slice (ix_data i) (1024 + m * 24 + 4) (1024 + m * 24 + 24) \<noteq> None" if "m < unat hi" for m
      proof -
        have "m < unat (ix_count i)" using that \<open>\<not> ix_count i < hi\<close> by (simp add: word_less_nat_alt)
        then have "(m + 1) * 24 \<le> unat (ix_count i) * 24" by (intro mult_le_mono1) simp
        then show ?thesis using v1(2) by (simp add: slice_def)
      qed
      then have "\<exists>r. oid_search (\<lambda>mid. slice (ix_data i) (1024 + mid * 24 + 4) (1024 + mid * 24 + 24)) h lo hi = Some r \<and>
          (\<forall>m. r = Some m \<longrightarrow> unat m < unat hi)" by (rule oid_search_safe)
      then show ?thesis by auto
    qed
    then show ?thesis using v1(1) b by (auto simp: FindOffset_def findOffsetV1_def idxV1RecordSize_def Let_def split: option.splits)
  next
    case v2
    let ?w = "Algo_Size (ix_algo i)"
    obtain lo hi where b: "fan_bounds (\<lambda>k. u32_at (take (256 * 4) (drop 8 (ix_data i))) (k * 4)) h = (lo, hi)" by fastforce
    have "\<exists>r. oid_search (\<lambda>mid. slice (ix_data i) (1032 + mid * ?w) (1032 + (mid + 1) * ?w)) h lo hi = Some r"
      if "\<not> ix_count i < hi"
    proof -
      have "slice (ix_data i) (1032 + m * ?w) (1032 + (m + 1) * ?w) \<noteq> None" if "m < unat hi" for m
      proof -
        have "m < unat (ix_count i)" using that \<open>\<not> ix_count i < hi\<close> by (simp add: word_less_nat_alt)
        then have "(m + 1) * ?w \<le> unat (ix_count i) * ?w" by (intro mult_le_mono1) simp
        then show ?thesis using v2(2) by (simp add: slice_def)
      qed
      then have "\<exists>r. oid_search (\<lambda>mid. slice (ix_data i) (1032 + mid * ?w) (1032 + (mid + 1) * ?w)) h lo hi = Some r \<and>
          (\<forall>m. r = Some m \<longrightarrow> unat m < unat hi)" by (rule oid_search_safe)
      then show ?thesis by auto
    qed
    then have "\<exists>r. searchV2 i h = Some r" using b by (auto simp: searchV2_def idxV2HeaderLen_def Let_def)
    then show ?thesis using v2(1) by (auto simp: FindOffset_def findOffsetV2_def Let_def split: option.splits)
  qed
qed


section \<open>The contract of a backend\<close>

text \<open>\<open>fits\<close> says that an id has the width of the backend.\<close>

locale pack_backend =
  fixes ok :: "'b \<Rightarrow> bool" and fits :: "'b \<Rightarrow> Hash \<Rightarrow> bool"
    and lookup :: "'b \<Rightarrow> Hash \<Rightarrow> (go_error + (PackPtr \<times> int) option) option"
    and idxFor :: "'b \<Rightarrow> PackPtr \<Rightarrow> Idx option" and packs :: "'b \<Rightarrow> PackPtr list"
  assumes lookup_answers: "ok b \<Longrightarrow> fits b h \<Longrightarrow> \<exists>r. lookup b h = Some (Inr r)"
    and lookup_known: "ok b \<Longrightarrow> lookup b h = Some (Inr (Some (p, off))) \<Longrightarrow> p \<in> set (packs b)"
    and idx_known: "ok b \<Longrightarrow> p \<in> set (packs b) \<Longrightarrow> \<exists>i. idxFor b p = Some i"
begin

lemma lookup_cases:
  assumes "ok b" "fits b h"
  obtains (missing) "lookup b h = Some (Inr None)"
  | (found) p off i where "lookup b h = Some (Inr (Some (p, off)))" "p \<in> set (packs b)" "idxFor b p = Some i"
proof -
  obtain r where r: "lookup b h = Some (Inr r)" using lookup_answers [OF assms] by blast
  show thesis
  proof (cases r)
    case (Some x)
    then obtain p off where "lookup b h = Some (Inr (Some (p, off)))" using r by (cases x) auto
    with lookup_known [OF assms(1) this] idx_known [OF assms(1)] show thesis using found by blast
  qed (use r missing in simp)
qed

end

section \<open>Catalogs\<close>

definition pack_paths :: "packEntry list \<Rightarrow> string list" where
  "pack_paths es = map (\<lambda>e. pp_path (pe_pack e)) es"

lemma mset_close_opened: "mset (close_opened es hs) = mset hs - mset (pack_paths es)"
proof (induction es arbitrary: hs)
  case (Cons e es)
  have "mset (close_opened (e # es) hs) = mset (remove1 (pp_path (pe_pack e)) hs) - mset (pack_paths es)"
    using Cons.IH by (simp add: close_opened_def close_handle_def)
  then show ?case by (simp add: pack_paths_def)
qed (simp add: close_opened_def pack_paths_def)

lemma open_pair_handles: "open_pair os openReader packDir a name hs = (r, hs') \<Longrightarrow>
    hs' = (case r of Inl _ \<Rightarrow> hs | Inr e \<Rightarrow> pp_path (pe_pack e) # hs)"
  by (auto simp: open_pair_def Let_def close_handle_def split: sum.splits)

lemma open_pair_entry: "open_pair os openReader packDir a name hs = (Inr e, hs') \<Longrightarrow>
    OpenIdx (os_ReadFile os) (Join_path [packDir, name]) (Some a) = Inr (pe_idx e) \<and> idx_complete (pe_idx e) \<and>
    pp_path (pe_pack e) = TrimSuffix (Join_path [packDir, name]) ''.idx'' @ ''.pack'' \<and>
    OpenPack openReader (pp_path (pe_pack e)) (Some a) = Inr (pp_pack (pe_pack e))"
  using OpenIdx_complete(1) by (fastforce simp: open_pair_def Let_def split: sum.splits)

text \<open>An entry of a catalog is what opening a name of the directory gave; every pack has an index.\<close>

definition catalog_ok :: "idxCatalog \<Rightarrow> bool" where
  "catalog_ok c \<longleftrightarrow> (\<forall>e \<in> set (ic_packs c). idx_complete (pe_idx e) \<and> ic_idxByPack c (pp_path (pe_pack e)) \<noteq> None)"

definition opened_names :: "OS \<Rightarrow> (string \<Rightarrow> go_error + packReader) \<Rightarrow> string \<Rightarrow> Algo \<Rightarrow> packEntry list \<Rightarrow> string list \<Rightarrow> bool" where
  "opened_names os openReader packDir a es names \<longleftrightarrow>
     list_all2 (\<lambda>e name. \<exists>hs hs'. open_pair os openReader packDir a name hs = (Inr e, hs')) es names"

lemma catalog_loop_result:
  assumes "catalog_loop os openReader packDir ents c hs = (r, hs')" "catalog_ok c"
    and "opened_names os openReader packDir (ic_algo c) (ic_packs c) done'" "mset hs = H + mset (pack_paths (ic_packs c))"
  shows "case r of
      Inl _ \<Rightarrow> mset hs' = H
    | Inr c' \<Rightarrow> mset hs' = H + mset (pack_paths (ic_packs c')) \<and> catalog_ok c' \<and> ic_closed c' = ic_closed c \<and>
        opened_names os openReader packDir (ic_algo c) (ic_packs c') (done' @ map fst (filter is_idx_entry ents))"
  using assms
proof (induction ents arbitrary: c hs done')
  case (Cons ent ents)
  show ?case
  proof (cases "is_idx_entry ent")
    case True
    obtain r1 hs1 where o: "open_pair os openReader packDir (ic_algo c) (fst ent) hs = (r1, hs1)" by fastforce
    note h = open_pair_handles [OF o]
    show ?thesis
    proof (cases r1)
      case (Inl err)
      then show ?thesis using Cons.prems True o h by (auto simp: mset_close_opened)
    next
      case (Inr e)
      let ?c = "c\<lparr>ic_packs := ic_packs c @ [e], ic_idxByPack := (ic_idxByPack c)(pp_path (pe_pack e) \<mapsto> pe_idx e)\<rparr>"
      have "catalog_loop os openReader packDir ents ?c hs1 = (r, hs')" using Cons.prems(1) True o Inr by simp
      moreover have "catalog_ok ?c" using Cons.prems(2) open_pair_entry [OF o [unfolded Inr]] by (auto simp: catalog_ok_def)
      moreover have "opened_names os openReader packDir (ic_algo ?c) (ic_packs ?c) (done' @ [fst ent])"
        using Cons.prems(3) o Inr by (auto simp: opened_names_def intro!: list_all2_appendI)
      moreover have "mset hs1 = H + mset (pack_paths (ic_packs ?c))" using Cons.prems(4) h Inr by (simp add: pack_paths_def)
      ultimately show ?thesis using Cons.IH [of ?c hs1 "done' @ [fst ent]"] True by (simp split: sum.splits)
    qed
  next
    case False
    then have f: "filter is_idx_entry (ent # ents) = filter is_idx_entry ents" by simp
    show ?thesis unfolding f by (rule Cons.IH) (use Cons.prems False in simp_all)
  qed
qed auto

lemma sort_packs_facts: "set (sort_packs es) = set es" "mset (sort_packs es) = mset es" "sorted_wrt (\<lambda>x y. pack_order x \<le> pack_order y) (sort_packs es)"
  using sorted_sort_key [of pack_order es] by (simp_all add: sort_packs_def sorted_map)

lemma mset_pack_paths_sort: "mset (pack_paths (sort_packs es)) = mset (pack_paths es)"
  by (simp add: pack_paths_def sort_packs_facts(2))

lemma openIdxCatalog_result:
  assumes "openIdxCatalog os openReader commonDir a hs = (r, hs')"
  shows "case r of
      Inl _ \<Rightarrow> mset hs' = mset hs
    | Inr c \<Rightarrow> mset hs' = mset hs + mset (pack_paths (ic_packs c)) \<and> catalog_ok c \<and> \<not> ic_closed c \<and>
        sorted_wrt (\<lambda>x y. pack_order x \<le> pack_order y) (ic_packs c)"
proof -
  let ?dir = "Join_path [commonDir, ''objects'', ''pack'']" and ?c0 = "empty_catalog commonDir a"
  have ok0: "catalog_ok ?c0" "opened_names os openReader ?dir a (ic_packs ?c0) []"
    by (simp_all add: catalog_ok_def empty_catalog_def opened_names_def)
  show ?thesis
  proof (cases "os_ReadDir os ?dir")
    case (Inl err)
    then show ?thesis using assms ok0 by (auto simp: openIdxCatalog_def empty_catalog_def pack_paths_def split: if_splits)
  next
    case (Inr ents)
    obtain r1 hs1 where l: "catalog_loop os openReader ?dir ents ?c0 hs = (r1, hs1)" by fastforce
    have res: "case r1 of
      Inl _ \<Rightarrow> mset hs1 = mset hs
    | Inr c' \<Rightarrow> mset hs1 = mset hs + mset (pack_paths (ic_packs c')) \<and> catalog_ok c' \<and> \<not> ic_closed c'"
      using catalog_loop_result [OF l ok0(1), of "[]" "mset hs"] ok0(2)
      by (auto simp: empty_catalog_def pack_paths_def split: sum.splits)
    show ?thesis
    proof (cases r1)
      case (Inl err)
      then show ?thesis using res assms Inr l by (auto simp: openIdxCatalog_def)
    next
      case (Inr c')
      then have "r = Inr (c'\<lparr>ic_packs := sort_packs (ic_packs c')\<rparr>)" "hs' = hs1"
        using assms \<open>os_ReadDir os ?dir = Inr ents\<close> l by (auto simp: openIdxCatalog_def)
      then show ?thesis using res Inr sort_packs_facts [of "ic_packs c'"] mset_pack_paths_sort [of "ic_packs c'"] by (simp add: catalog_ok_def)
    qed
  qed
qed

lemma scan_packs_total: "\<forall>e \<in> set es. idx_complete (pe_idx e) \<Longrightarrow> \<exists>r. scan_packs es h = Some r"
proof (induction es)
  case (Cons e es)
  then obtain r where "FindOffset (pe_idx e) h = Some r" using FindOffset_safe by fastforce
  with Cons show ?case by (cases r) auto
qed simp

text \<open>What a scan answers: the first pack of the list that has the id.\<close>

definition first_hit :: "packEntry list \<Rightarrow> Hash \<Rightarrow> (PackPtr \<times> int) option \<Rightarrow> bool" where
  "first_hit es h r \<longleftrightarrow> (case r of
      None \<Rightarrow> \<forall>e \<in> set es. FindOffset (pe_idx e) h = Some None
    | Some (p, off) \<Rightarrow> \<exists>older e younger. es = younger @ e # older \<and> p = pe_pack e \<and> FindOffset (pe_idx e) h = Some (Some off) \<and>
        (\<forall>e' \<in> set younger. FindOffset (pe_idx e') h = Some None))"

lemma scan_packs_first: "scan_packs es h = Some r \<Longrightarrow> first_hit es h r"
proof (induction es)
  case (Cons e es)
  show ?case
  proof (cases "FindOffset (pe_idx e) h")
    case (Some f)
    show ?thesis
    proof (cases f)
      case None
      then have hit: "first_hit es h r" using Cons Some by simp
      show ?thesis
      proof (cases r)
        case (Some x)
        obtain p off where x: "x = (p, off)" by fastforce
        obtain older e' younger where "es = younger @ e' # older" "p = pe_pack e'" "FindOffset (pe_idx e') h = Some (Some off)"
          "\<forall>e' \<in> set younger. FindOffset (pe_idx e') h = Some None"
          using hit Some x by (auto simp: first_hit_def)
        then have "e # es = (e # younger) @ e' # older \<and> p = pe_pack e' \<and> FindOffset (pe_idx e') h = Some (Some off) \<and>
            (\<forall>e' \<in> set (e # younger). FindOffset (pe_idx e') h = Some None)"
          using \<open>FindOffset (pe_idx e) h = Some f\<close> None by simp
        then show ?thesis unfolding first_hit_def Some x option.case prod.case by blast
      qed (use hit \<open>FindOffset (pe_idx e) h = Some f\<close> None in \<open>simp add: first_hit_def\<close>)
    next
      case (Some off)
      then have "r = Some (pe_pack e, off)" using Cons.prems \<open>FindOffset (pe_idx e) h = Some f\<close> by simp
      moreover have "e # es = [] @ e # es" by simp
      ultimately show ?thesis using \<open>FindOffset (pe_idx e) h = Some f\<close> Some unfolding first_hit_def by fastforce
    qed
  qed (use Cons in simp)
qed (simp add: first_hit_def)

lemma first_hit_known: "first_hit es h (Some (p, off)) \<Longrightarrow> p \<in> set (map pe_pack es)"
  by (auto simp: first_hit_def)

interpretation catalog: pack_backend catalog_ok "\<lambda>c h. wf_hash (ic_algo c) h" idxCatalog_Lookup idxCatalog_IdxFor idxCatalog_AllPacks
proof (unfold_locales, goal_cases)
  case (1 c h)
  then show ?case using scan_packs_total [of "ic_packs c" h] by (auto simp: catalog_ok_def idxCatalog_Lookup_def)
next
  case (2 c h p off)
  then have "first_hit (ic_packs c) h (Some (p, off))"
    by (auto simp: idxCatalog_Lookup_def intro: scan_packs_first)
  then show ?case unfolding idxCatalog_AllPacks_def by (rule first_hit_known)
next
  case (3 c p)
  then show ?case by (auto simp: catalog_ok_def idxCatalog_IdxFor_def idxCatalog_AllPacks_def)
qed

section \<open>Properties\<close>

text \<open>Opening a catalog never leaks a pack file: where it fails, the open files are the same as before,
  and where it succeeds, closing it gives back all it opened, once.\<close>

theorem catalog_handles:
  "case openIdxCatalog os openReader commonDir a hs of
     (Inl err, hs') \<Rightarrow> mset hs' = mset hs
   | (Inr c, hs') \<Rightarrow> (case idxCatalog_Close perr c hs' of (_, c', hs'') \<Rightarrow>
       mset hs'' = mset hs \<and> snd (snd (idxCatalog_Close perr c' hs'')) = hs'')"
proof -
  obtain r hs' where o: "openIdxCatalog os openReader commonDir a hs = (r, hs')" by fastforce
  note res = openIdxCatalog_result [OF o]
  show ?thesis
  proof (cases r)
    case (Inr c)
    then show ?thesis using res o by (simp add: idxCatalog_Close_def Let_def mset_close_opened)
  qed (use res o in simp)
qed

text \<open>A catalog of whatever bytes never panics on a lookup: it answers with the first pack that has the id,
  the packs asked from the youngest on, or with a miss when no index has it.\<close>

theorem catalog_lookup:
  assumes "openIdxCatalog os openReader commonDir a hs = (Inr c, hs')"
  shows "sorted_wrt (\<lambda>x y. pack_order x \<le> pack_order y) (ic_packs c) \<and>
    (\<exists>r. idxCatalog_Lookup c h = Some (Inr r) \<and> first_hit (ic_packs c) h r)"
proof -
  have "catalog_ok c" "sorted_wrt (\<lambda>x y. pack_order x \<le> pack_order y) (ic_packs c)"
    using openIdxCatalog_result [OF assms] by simp_all
  moreover from this obtain r where "scan_packs (ic_packs c) h = Some r"
    using scan_packs_total [of "ic_packs c" h] by (auto simp: catalog_ok_def)
  ultimately show ?thesis using scan_packs_first [of "ic_packs c" h] by (auto simp: idxCatalog_Lookup_def)
qed


definition sample_entry :: idx_entry where
  "sample_entry = \<lparr>ie_oid = replicate 20 (CHR 0x10), ie_crc = 9, ie_off = 12\<rparr>"

definition sample_header :: ObjectHeader where
  "sample_header = \<lparr>oh_Type = TypeCommit, oh_DeltaRef = \<lparr>OfsBase = 0, RefBase = zero_hash SHA1\<rparr>, oh_Size = 5, oh_BodyAt = 13\<rparr>"

definition sample_pack :: string where
  "sample_pack = pack_file 2 1 (encode_header 12 sample_header @ ''body'') (replicate 20 (CHR 0x00))"

text \<open>A repository \<open>/r\<close> with one pack, and its index.\<close>

definition pack_os :: OS where
  "pack_os = \<lparr>os_Open = (\<lambda>_. Inl os_ErrNotExist), os_ReadFile = (\<lambda>_. Inr (encode_idx_v2 [sample_entry] (replicate 40 (CHR 0x00)))),
     os_Stat = (\<lambda>_. Inr \<lparr>fi_IsDir = False, fi_IsRegular = True, fi_ModTime = 7\<rparr>),
     os_ReadDir = (\<lambda>_. Inr [(''p.idx'', False), (''p.pack'', False)]), os_Tree = (\<lambda>_. Inl os_ErrNotExist)\<rparr>"

definition pack_reader :: "string \<Rightarrow> go_error + packReader" where
  "pack_reader path = Inr (file_reader sample_pack)"

definition sample_ptr :: PackPtr where
  "sample_ptr = \<lparr>pp_path = ''/r/objects/pack/p.pack'',
     pp_pack = \<lparr>pk_r = file_reader sample_pack, pk_algo = SHA1, pk_ver = word_of_nat 2, pk_nr = word_of_nat 1\<rparr>\<rparr>"

definition sample_pair :: packEntry where
  "sample_pair = \<lparr>pe_idx = idx_v2 ''/r/objects/pack/p.idx'' SHA1 [sample_entry] (replicate 40 (CHR 0x00)), pe_pack = sample_ptr, pe_mtime = 7\<rparr>"

definition sample_catalog :: idxCatalog where
  "sample_catalog = \<lparr>ic_commonDir = ''/r'', ic_algo = SHA1, ic_packs = [sample_pair],
     ic_idxByPack = [''/r/objects/pack/p.pack'' \<mapsto> pe_idx sample_pair], ic_closed = False\<rparr>"

lemma wf_sample_index: "wf_index SHA1 [sample_entry]"
  by (simp add: wf_index_def sample_entry_def wf_hash_def)

lemma sample_catalog_opens_in:
  assumes "os_ReadDir os ''/r/objects/pack'' = Inr [(''p.idx'', False), (''p.pack'', False)]"
    and "os_ReadFile os ''/r/objects/pack/p.idx'' = Inr (encode_idx_v2 [sample_entry] (replicate 40 (CHR 0x00)))"
    and "\<And>p. p \<in> {''/r/objects/pack/p.idx'', ''/r/objects/pack/p.pack''} \<Longrightarrow> os_Stat os p = Inr \<lparr>fi_IsDir = False, fi_IsRegular = True, fi_ModTime = 7\<rparr>"
  shows "openIdxCatalog os pack_reader ''/r'' SHA1 hs = (Inr sample_catalog, ''/r/objects/pack/p.pack'' # hs)"
proof -
  have paths: "Join_path [''/r'', ''objects'', ''pack''] = ''/r/objects/pack''"
    "Join_path [''/r/objects/pack'', ''p.idx''] = ''/r/objects/pack/p.idx''"
    "TrimSuffix ''/r/objects/pack/p.idx'' ''.idx'' = ''/r/objects/pack/p''"
    "is_idx_entry (''p.idx'', False)" "\<not> is_idx_entry (''p.pack'', False)" by code_simp+
  have idx: "OpenIdx (os_ReadFile os) ''/r/objects/pack/p.idx'' (Some SHA1) =
      Inr (idx_v2 ''/r/objects/pack/p.idx'' SHA1 [sample_entry] (replicate 40 (CHR 0x00)))"
    by (rule OpenIdx_v2 [OF wf_sample_index]) (simp_all add: assms(2))
  have "OpenPack (\<lambda>_. Inr (file_reader sample_pack)) path (Some SHA1) = Inr (pp_pack sample_ptr)" for path
    unfolding sample_pack_def sample_ptr_def by (simp add: OpenPack_file)
  then have pack: "OpenPack pack_reader path (Some SHA1) = Inr (pp_pack sample_ptr)" for path
    by (simp add: OpenPack_def pack_reader_def)
  have "open_pair os pack_reader ''/r/objects/pack'' SHA1 ''p.idx'' hs = (Inr sample_pair, ''/r/objects/pack/p.pack'' # hs)" for hs
    unfolding open_pair_def Let_def paths idx sum.case pack
    by (simp add: assms(3) sample_pair_def sample_ptr_def del: append_Cons)
  then show ?thesis unfolding openIdxCatalog_def Let_def paths
    using paths(4,5)
    by (simp add: assms(1) empty_catalog_def sample_catalog_def sample_pair_def sample_ptr_def sort_packs_def)
qed

lemma sample_catalog_opens:
  "openIdxCatalog pack_os pack_reader ''/r'' SHA1 [] = (Inr sample_catalog, [''/r/objects/pack/p.pack''])"
  by (rule sample_catalog_opens_in) (simp_all add: pack_os_def)

theorem catalog_lookup_witness:
  "\<exists>r. idxCatalog_Lookup sample_catalog (replicate 20 (CHR 0x10)) = Some (Inr r) \<and>
     first_hit (ic_packs sample_catalog) (replicate 20 (CHR 0x10)) r"
  using catalog_lookup [OF sample_catalog_opens] by blast

end
