(* ===== verification/Midx_Backend.thy ===== *)
theory Midx_Backend
  imports Pack_Backend Packed_Refs
begin

text \<open>
  The pack backend over a multi-pack index (\<open>src/internal/objstore/midx_backend.go\<close>).

  Its parts are those of \<open>Pack_Backend\<close>. Slot \<open>i\<close> of the covered packs belongs to the \<open>i\<close>-th pack name of the
  index; packs the index does not name are siblings, asked only when the index misses. \<open>midx_searchable\<close> is
  what a lookup needs of the index; an index in the format has it.
\<close>

section \<open>The code\<close>

record midxBackend =
  mb_commonDir :: string
  mb_midx :: Midx
  mb_packNames :: "string list"
  mb_covered :: "packEntry option list"
  mb_idxByPack :: "string \<rightharpoonup> Idx"
  mb_siblings :: "packEntry list"
  mb_ordered :: "PackPtr list"
  mb_closed :: bool

text \<open>The slot of a name: of equal names, the last.\<close>

definition name_index :: "string list \<Rightarrow> string \<rightharpoonup> nat" where
  "name_index names = map_of (rev (zip names [0..<length names]))"

definition present :: "packEntry option list \<Rightarrow> packEntry list" where
  "present slots = List.map_filter (\<lambda>x. x) slots"

definition midx_close_opened :: "midxBackend \<Rightarrow> handles \<Rightarrow> handles" where
  "midx_close_opened b hs = close_opened (mb_siblings b) (close_opened (present (mb_covered b)) hs)"

definition place_pack :: "packEntry \<Rightarrow> string \<Rightarrow> midxBackend \<Rightarrow> midxBackend" where
  "place_pack e name b =
     (let b = b\<lparr>mb_idxByPack := (mb_idxByPack b)(pp_path (pe_pack e) \<mapsto> pe_idx e)\<rparr> in
      case name_index (mb_packNames b) name of
        Some i \<Rightarrow> b\<lparr>mb_covered := (mb_covered b)[i := Some e]\<rparr>
      | None \<Rightarrow> b\<lparr>mb_siblings := mb_siblings b @ [e]\<rparr>)"

fun midx_open_loop ::
  "OS \<Rightarrow> (string \<Rightarrow> go_error + packReader) \<Rightarrow> string \<Rightarrow> Algo \<Rightarrow> (string \<times> bool) list \<Rightarrow> midxBackend \<Rightarrow> handles \<Rightarrow>
    (go_error + midxBackend) \<times> handles" where
  "midx_open_loop os openReader packDir a [] b hs = (Inr b, hs)"
| "midx_open_loop os openReader packDir a (ent # ents) b hs =
     (if \<not> is_idx_entry ent then midx_open_loop os openReader packDir a ents b hs
      else case open_pair os openReader packDir a (fst ent) hs of
        (Inl err, hs) \<Rightarrow> (Inl err, midx_close_opened b hs)
      | (Inr e, hs) \<Rightarrow> midx_open_loop os openReader packDir a ents (place_pack e (fst ent) b) hs)"

text \<open>The first name of the index with no pack.\<close>

fun missing_pack :: "string list \<Rightarrow> packEntry option list \<Rightarrow> string option" where
  "missing_pack (n # names) (None # slots) = Some n"
| "missing_pack (n # names) (Some e # slots) = missing_pack names slots"
| "missing_pack names slots = None"

definition openMidxBackend ::
  "OS \<Rightarrow> (string \<Rightarrow> go_error + packReader) \<Rightarrow> string \<Rightarrow> Algo \<Rightarrow> handles \<Rightarrow> ((go_error + midxBackend) \<times> handles) option" where
  "openMidxBackend os openReader commonDir a hs =
     (let packDir = Join_path [commonDir, ''objects'', ''pack'']; midxPath = Join_path [packDir, ''multi-pack-index''] in
      case OpenMidx (os_ReadFile os) midxPath (Some a) of
        None \<Rightarrow> None
      | Some (Inl err) \<Rightarrow> Some (Inl (Wrapf (''objstore: open midx '' @ midxPath @ '': '') err []), hs)
      | Some (Inr midx) \<Rightarrow>
          let names = PackNames midx;
              b = \<lparr>mb_commonDir = commonDir, mb_midx = midx, mb_packNames = names, mb_covered = replicate (length names) None,
                mb_idxByPack = Map.empty, mb_siblings = [], mb_ordered = [], mb_closed = False\<rparr> in
          (case os_ReadDir os packDir of
            Inl err \<Rightarrow> Some (Inl (Wrapf (''objstore: stat '' @ packDir @ '': '') err []), hs)
          | Inr entries \<Rightarrow> (case midx_open_loop os openReader packDir a entries b hs of
              (Inl err, hs) \<Rightarrow> Some (Inl err, hs)
            | (Inr b, hs) \<Rightarrow> (case missing_pack names (mb_covered b) of
                Some n \<Rightarrow> Some (Inl (Wrapf (''objstore: midx references missing pack '' @ quote n @ '': '') ErrCorruptObject []),
                  midx_close_opened b hs)
              | None \<Rightarrow> Some (Inr (b\<lparr>mb_siblings := sort_packs (mb_siblings b),
                  mb_ordered := map pe_pack (sort_packs (present (mb_covered b) @ sort_packs (mb_siblings b)))\<rparr>), hs)))))"

definition midxBackend_Lookup :: "midxBackend \<Rightarrow> Hash \<Rightarrow> (go_error + (PackPtr \<times> int) option) option" where
  "midxBackend_Lookup b h = (case Midx_Find (mb_midx b) h of
      None \<Rightarrow> None
    | Some (Some (packIdx, off)) \<Rightarrow>
        if unat packIdx < length (mb_covered b) then
          (case mb_covered b ! unat packIdx of None \<Rightarrow> None | Some e \<Rightarrow> Some (Inr (Some (pe_pack e, off))))
        else None
    | Some None \<Rightarrow> map_option Inr (scan_packs (mb_siblings b) h))"

definition midxBackend_AllPacks :: "midxBackend \<Rightarrow> PackPtr list" where
  "midxBackend_AllPacks b = mb_ordered b"

definition midxBackend_IdxFor :: "midxBackend \<Rightarrow> PackPtr \<Rightarrow> Idx option" where
  "midxBackend_IdxFor b p = mb_idxByPack b (pp_path p)"

definition midxBackend_Close ::
  "(string \<Rightarrow> go_error option) \<Rightarrow> midxBackend \<Rightarrow> handles \<Rightarrow> go_error option \<times> midxBackend \<times> handles" where
  "midxBackend_Close perr b hs =
     (let close_idx = (\<lambda>e. fst (Idx_Close (pe_idx e))); close_pack = (\<lambda>e. perr (pp_path (pe_pack e)));
          covered = present (mb_covered b);
          err = errors_Join ([fst (Midx_Close (mb_midx b))] @ map close_idx covered @ map close_pack covered @
            concat (map (\<lambda>e. [close_idx e, close_pack e]) (mb_siblings b)));
          shut = (\<lambda>e. e\<lparr>pe_idx := snd (Idx_Close (pe_idx e))\<rparr>) in
      if mb_closed b then (err, b, hs)
      else (err, b\<lparr>mb_midx := snd (Midx_Close (mb_midx b)), mb_covered := map (map_option shut) (mb_covered b),
          mb_idxByPack := (\<lambda>p. map_option (\<lambda>i. snd (Idx_Close i)) (mb_idxByPack b p)),
          mb_siblings := map shut (mb_siblings b), mb_closed := True\<rparr>, midx_close_opened b hs))"

section \<open>Lemmas\<close>

text \<open>A name fills its slot once, where the names of the directory are distinct.\<close>

lemma name_index_Some: "name_index names n = Some i \<Longrightarrow> i < length names \<and> names ! i = n"
proof -
  assume "name_index names n = Some i"
  then have "(n, i) \<in> set (zip names [0..<length names])" unfolding name_index_def by (auto dest: map_of_SomeD)
  then show ?thesis by (auto simp: set_zip)
qed

lemma present_simps [simp]: "present [] = []" "present (None # xs) = present xs" "present (Some e # xs) = e # present xs"
  "present (xs @ ys) = present xs @ present ys"
  by (simp_all add: present_def map_filter_simps) (simp add: List.map_filter_def)

lemma present_replicate [simp]: "present (replicate n None) = []"
  by (induction n) simp_all

lemma present_update:
  "i < length slots \<Longrightarrow> slots ! i = None \<Longrightarrow> mset (present (slots[i := Some e])) = add_mset e (mset (present slots))"
proof (induction slots arbitrary: i)
  case (Cons x slots)
  show ?case
  proof (cases i)
    case (Suc j)
    then show ?thesis using Cons by (cases x) simp_all
  qed (use Cons in simp)
qed simp

text \<open>What holds of a backend while it is being opened, after the names \<open>done'\<close>.\<close>

definition midx_opening :: "OS \<Rightarrow> (string \<Rightarrow> go_error + packReader) \<Rightarrow> string \<Rightarrow> Algo \<Rightarrow> string multiset \<Rightarrow> string list \<Rightarrow> midxBackend \<Rightarrow> handles \<Rightarrow> bool" where
  "midx_opening os openReader packDir a H done' b hs \<longleftrightarrow>
     length (mb_covered b) = length (mb_packNames b) \<and>
     (\<forall>i < length (mb_covered b). mb_covered b ! i \<noteq> None \<longrightarrow> mb_packNames b ! i \<in> set done') \<and>
     (\<forall>e \<in> set (present (mb_covered b) @ mb_siblings b). idx_complete (pe_idx e) \<and> mb_idxByPack b (pp_path (pe_pack e)) \<noteq> None) \<and>
     mset hs = H + mset (pack_paths (present (mb_covered b) @ mb_siblings b))"

lemma mset_midx_close_opened:
  "mset (midx_close_opened b hs) = mset hs - mset (pack_paths (present (mb_covered b) @ mb_siblings b))"
  by (simp add: midx_close_opened_def mset_close_opened pack_paths_def add.commute)

lemma set_present: "mset (present xs) = add_mset e (mset (present ys)) \<Longrightarrow> set (present xs) = insert e (set (present ys))"
  using set_mset_mset by (metis set_mset_add_mset_insert)

lemma midx_opening_place:
  assumes "midx_opening os openReader packDir a H done' b hs" "open_pair os openReader packDir a name hs = (Inr e, hs')" "name \<notin> set done'"
  shows "midx_opening os openReader packDir a H (done' @ [name]) (place_pack e name b) hs'"
proof -
  have h: "hs' = pp_path (pe_pack e) # hs" using open_pair_handles [OF assms(2)] by simp
  have c: "idx_complete (pe_idx e)" using open_pair_entry [OF assms(2)] by simp
  note o = assms(1) [unfolded midx_opening_def]
  show ?thesis
  proof (cases "name_index (mb_packNames b) name")
    case None
    then show ?thesis using o h c by (auto simp: midx_opening_def place_pack_def pack_paths_def Let_def)
  next
    case (Some i)
    note i = name_index_Some [OF Some]
    then have n: "mb_covered b ! i = None" "i < length (mb_covered b)" using o assms(3) by auto
    note p = present_update [OF n(2,1), of e]
    have "set (present ((mb_covered b)[i := Some e])) = insert e (set (present (mb_covered b)))" by (rule set_present [OF p])
    moreover have "mset (pack_paths (present ((mb_covered b)[i := Some e]) @ mb_siblings b)) =
        add_mset (pp_path (pe_pack e)) (mset (pack_paths (present (mb_covered b) @ mb_siblings b)))"
      using arg_cong [OF p, of "image_mset (\<lambda>e. pp_path (pe_pack e))"] by (simp add: pack_paths_def)
    ultimately show ?thesis using o h c Some i by (auto simp: midx_opening_def place_pack_def Let_def nth_list_update)
  qed
qed

lemma place_pack_fields [simp]: "mb_packNames (place_pack e name b) = mb_packNames b" "mb_midx (place_pack e name b) = mb_midx b"
  "mb_closed (place_pack e name b) = mb_closed b"
  by (simp_all add: place_pack_def Let_def split: option.splits)

lemma midx_open_loop_result:
  assumes "midx_open_loop os openReader packDir a ents b hs = (r, hs')" "midx_opening os openReader packDir a H done' b hs"
    and "distinct (done' @ map fst ents)"
  shows "case r of
      Inl _ \<Rightarrow> mset hs' = H
    | Inr b' \<Rightarrow> mb_packNames b' = mb_packNames b \<and> mb_midx b' = mb_midx b \<and> mb_closed b' = mb_closed b \<and>
        (\<exists>done''. midx_opening os openReader packDir a H done'' b' hs')"
  using assms
proof (induction ents arbitrary: b hs done')
  case (Cons ent ents)
  show ?case
  proof (cases "is_idx_entry ent")
    case True
    obtain r1 hs1 where o: "open_pair os openReader packDir a (fst ent) hs = (r1, hs1)" by fastforce
    show ?thesis
    proof (cases r1)
      case (Inl err)
      then have "hs1 = hs" using open_pair_handles [OF o] by simp
      then show ?thesis using Cons.prems(1,2) True o Inl by (auto simp: mset_midx_close_opened midx_opening_def)
    next
      case (Inr e)
      have "midx_opening os openReader packDir a H (done' @ [fst ent]) (place_pack e (fst ent) b) hs1"
        using midx_opening_place [OF Cons.prems(2) o [unfolded Inr]] Cons.prems(3) by simp
      moreover have "midx_open_loop os openReader packDir a ents (place_pack e (fst ent) b) hs1 = (r, hs')"
        using Cons.prems(1) True o Inr by simp
      ultimately show ?thesis using Cons.IH [of "place_pack e (fst ent) b" hs1 "done' @ [fst ent]"] Cons.prems(3)
        by (auto split: sum.splits)
    qed
  next
    case False
    show ?thesis by (rule Cons.IH) (use Cons.prems False in auto)
  qed
qed auto

lemma missing_pack_None: "missing_pack names slots = None \<Longrightarrow> length names = length slots \<Longrightarrow> None \<notin> set slots"
  by (induction names slots rule: missing_pack.induct) auto

text \<open>Where the index is, and that a directory lists every name once.\<close>

definition midx_path :: "string \<Rightarrow> string" where
  "midx_path commonDir = Join_path [Join_path [commonDir, ''objects'', ''pack''], ''multi-pack-index'']"

definition distinct_names :: "OS \<Rightarrow> bool" where
  "distinct_names os \<longleftrightarrow> (\<forall>dir ents. os_ReadDir os dir = Inr ents \<longrightarrow> distinct (map fst ents))"

text \<open>What an opened backend guarantees.\<close>

definition midx_backend_ok :: "midxBackend \<Rightarrow> bool" where
  "midx_backend_ok b \<longleftrightarrow> length (mb_covered b) = length (mb_packNames b) \<and> None \<notin> set (mb_covered b) \<and>
     mset (mb_ordered b) = mset (map pe_pack (present (mb_covered b) @ mb_siblings b)) \<and>
     (\<forall>e \<in> set (present (mb_covered b) @ mb_siblings b). idx_complete (pe_idx e) \<and> mb_idxByPack b (pp_path (pe_pack e)) \<noteq> None)"

lemma openMidxBackend_result:
  assumes "openMidxBackend os openReader commonDir a hs = Some (r, hs')"
    and "distinct_names os"
  shows "case r of
      Inl _ \<Rightarrow> mset hs' = mset hs
    | Inr b \<Rightarrow> mset hs' = mset hs + mset (pack_paths (present (mb_covered b) @ mb_siblings b)) \<and> midx_backend_ok b \<and>
        \<not> mb_closed b \<and> mb_packNames b = PackNames (mb_midx b) \<and>
        OpenMidx (os_ReadFile os) (midx_path commonDir) (Some a) = Some (Inr (mb_midx b))"
proof -
  let ?dir = "Join_path [commonDir, ''objects'', ''pack'']"
  consider (early) err where "r = Inl err" "hs' = hs"
    | (loop) midx ents where "OpenMidx (os_ReadFile os) (midx_path commonDir) (Some a) = Some (Inr midx)"
      "os_ReadDir os ?dir = Inr ents"
    using assms(1) by (auto simp: openMidxBackend_def midx_path_def Let_def split: option.splits sum.splits)
  then show ?thesis
  proof cases
    case loop
    let ?b = "\<lparr>mb_commonDir = commonDir, mb_midx = midx, mb_packNames = PackNames midx, mb_covered = replicate (length (PackNames midx)) None,
                mb_idxByPack = Map.empty, mb_siblings = [], mb_ordered = [], mb_closed = False\<rparr>"
    have "midx_opening os openReader ?dir a (mset hs) [] ?b hs" by (simp add: midx_opening_def pack_paths_def)
    moreover obtain r1 hs1 where l: "midx_open_loop os openReader ?dir a ents ?b hs = (r1, hs1)" by fastforce
    ultimately have res: "case r1 of Inl _ \<Rightarrow> mset hs1 = mset hs
      | Inr b' \<Rightarrow> mb_packNames b' = PackNames midx \<and> mb_midx b' = midx \<and> \<not> mb_closed b' \<and>
          (\<exists>done''. midx_opening os openReader ?dir a (mset hs) done'' b' hs1)"
      using midx_open_loop_result [OF l, of "mset hs" "[]"] assms(2) loop(2) by (simp add: distinct_names_def split: sum.splits)
    show ?thesis
    proof (cases r1)
      case (Inl err)
      then show ?thesis using assms(1) res l loop by (auto simp: openMidxBackend_def midx_path_def Let_def)
    next
      case (Inr b')
      then obtain done'' where o: "midx_opening os openReader ?dir a (mset hs) done'' b' hs1"
        and b: "mb_packNames b' = PackNames midx" "mb_midx b' = midx" "\<not> mb_closed b'" using res by auto
      show ?thesis
      proof (cases "missing_pack (PackNames midx) (mb_covered b')")
        case (Some n)
        then show ?thesis using assms(1) l loop Inr o by (auto simp: openMidxBackend_def midx_path_def Let_def mset_midx_close_opened midx_opening_def)
      next
        case None
        have r: "r = Inr (b'\<lparr>mb_siblings := sort_packs (mb_siblings b'),
            mb_ordered := map pe_pack (sort_packs (present (mb_covered b') @ sort_packs (mb_siblings b')))\<rparr>)" "hs' = hs1"
          using assms(1) l loop Inr None by (simp_all add: openMidxBackend_def midx_path_def Let_def)
        have "length (mb_covered b') = length (mb_packNames b')" using o by (simp add: midx_opening_def)
        then have "None \<notin> set (mb_covered b')" using missing_pack_None [OF None] b(1) by simp
        moreover have "mset (map pe_pack (sort_packs (present (mb_covered b') @ sort_packs (mb_siblings b')))) =
            mset (map pe_pack (present (mb_covered b') @ mb_siblings b'))"
          by (simp add: sort_packs_facts)
        ultimately show ?thesis using r o b loop(1) mset_pack_paths_sort [of "mb_siblings b'"]
          by (simp add: midx_opening_def midx_backend_ok_def sort_packs_facts pack_paths_def)
      qed
    qed
  qed simp
qed

section \<open>The contract\<close>

definition midx_searchable :: "midxBackend \<Rightarrow> bool" where
  "midx_searchable b \<longleftrightarrow> (\<forall>h. wf_hash (mx_algo (mb_midx b)) h \<longrightarrow>
     (\<exists>r. Midx_Find (mb_midx b) h = Some r \<and> (\<forall>i off. r = Some (i, off) \<longrightarrow> unat i < length (mb_covered b))))"

lemma midx_searchable_format:
  assumes "wf_midx a names xs" "mb_midx b = midx_of path a names xs trailer" "length (mb_covered b) = length names"
  shows "midx_searchable b"
  unfolding midx_searchable_def assms(2) midx_of_simps
proof (intro allI impI)
  fix h assume h: "wf_hash a h"
  let ?r = "map_option (\<lambda>x. (word_of_nat (fst x) :: u32, int (ie_off (snd x)))) (midx_entry_of xs h)"
  have "unat i < length (mb_covered b)" if "?r = Some (i, off)" for i off
  proof -
    from that obtain x where x: "midx_entry_of xs h = Some x" "i = word_of_nat (fst x)" by auto
    then have "x \<in> set xs" by (auto simp: midx_entry_of_def dest!: map_of_SomeD)
    then have "fst x < length names" "length names < 2 ^ 32" using assms(1) by (auto simp: wf_midx_def list_all_iff)
    then show ?thesis using x(2) assms(3) by (simp add: unat_of_nat take_bit_nat_eq_self)
  qed
  then show "\<exists>r. Midx_Find (midx_of path a names xs trailer) h = Some r \<and> (\<forall>i off. r = Some (i, off) \<longrightarrow> unat i < length (mb_covered b))"
    using Midx_Find_encode [OF assms(1) h] by blast
qed

lemma midx_slot:
  assumes "midx_backend_ok b" "i < length (mb_covered b)"
  obtains e where "mb_covered b ! i = Some e" "e \<in> set (present (mb_covered b))"
proof -
  obtain e where e: "mb_covered b ! i = Some e" using assms by (metis midx_backend_ok_def not_Some_eq nth_mem)
  have "Some x \<in> set slots \<Longrightarrow> x \<in> set (present slots)" for x slots
    by (induction slots) (auto split: option.splits simp: present_def List.map_filter_def)
  then show thesis using that e assms(2) by (metis nth_mem)
qed

lemma midx_ordered_set: "midx_backend_ok b \<Longrightarrow> set (mb_ordered b) = pe_pack ` set (present (mb_covered b) @ mb_siblings b)"
  unfolding midx_backend_ok_def by (metis (no_types, lifting) list.set_map mset_eq_setD)

lemma midx_lookup_cases:
  assumes "midx_backend_ok b" "midx_searchable b" "wf_hash (mx_algo (mb_midx b)) h"
  obtains (covered) i e off where "Midx_Find (mb_midx b) h = Some (Some (i, off))" "mb_covered b ! unat i = Some e"
      "e \<in> set (present (mb_covered b))" "midxBackend_Lookup b h = Some (Inr (Some (pe_pack e, off)))"
  | (sibling) r where "Midx_Find (mb_midx b) h = Some None" "first_hit (mb_siblings b) h r" "midxBackend_Lookup b h = Some (Inr r)"
proof -
  obtain r where r: "Midx_Find (mb_midx b) h = Some r" "\<And>i off. r = Some (i, off) \<Longrightarrow> unat i < length (mb_covered b)"
    using assms(2,3) by (auto simp: midx_searchable_def)
  show thesis
  proof (cases r)
    case (Some x)
    then obtain i off where x: "r = Some (i, off)" by (cases x) auto
    from midx_slot [OF assms(1) r(2) [OF x]] obtain e where e: "mb_covered b ! unat i = Some e" "e \<in> set (present (mb_covered b))" .
    show thesis using covered [of i off e] r(1) x e r(2) [OF x] by (simp add: midxBackend_Lookup_def)
  next
    case None
    have "\<forall>e \<in> set (mb_siblings b). idx_complete (pe_idx e)" using assms(1) by (simp add: midx_backend_ok_def)
    from scan_packs_total [OF this] obtain s where s: "scan_packs (mb_siblings b) h = Some s" by blast
    show thesis using sibling [of s] r(1) None scan_packs_first [OF s] s by (simp add: midxBackend_Lookup_def)
  qed
qed

interpretation midx: pack_backend "\<lambda>b. midx_backend_ok b \<and> midx_searchable b" "\<lambda>b h. wf_hash (mx_algo (mb_midx b)) h"
    midxBackend_Lookup midxBackend_IdxFor midxBackend_AllPacks
proof (unfold_locales, goal_cases)
  case (1 b h)
  then show ?case using midx_lookup_cases [of b h] by metis
next
  case (2 b h p off)
  then have ok: "midx_backend_ok b" by simp
  from 2 have "(\<exists>i e. unat (i :: u32) < length (mb_covered b) \<and> mb_covered b ! unat i = Some e \<and> p = pe_pack e) \<or>
      scan_packs (mb_siblings b) h = Some (Some (p, off))"
    by (auto simp: midxBackend_Lookup_def split: option.splits if_splits)
  then consider i e where "unat (i :: u32) < length (mb_covered b)" "mb_covered b ! unat i = Some e" "p = pe_pack e"
    | "scan_packs (mb_siblings b) h = Some (Some (p, off))" by blast
  then have "p \<in> pe_pack ` set (present (mb_covered b) @ mb_siblings b)"
  proof cases
    case (1 i e)
    from midx_slot [OF ok 1(1)] obtain e' where "mb_covered b ! unat i = Some e'" "e' \<in> set (present (mb_covered b))" .
    then show ?thesis using 1 by auto
  next
    case 2
    then show ?thesis using first_hit_known [OF scan_packs_first [OF 2]] by auto
  qed
  then show ?case unfolding midxBackend_AllPacks_def midx_ordered_set [OF ok] .
next
  case (3 b p)
  then have "p \<in> pe_pack ` set (present (mb_covered b) @ mb_siblings b)"
    using midx_ordered_set [of b] by (simp add: midxBackend_AllPacks_def)
  then show ?case using 3(1) by (auto simp: midx_backend_ok_def midxBackend_IdxFor_def)
qed

text \<open>The repository of \<open>pack_os\<close>, with a multi-pack index over its pack.\<close>

definition midx_xs :: "midx_entry list" where
  "midx_xs = [(0, sample_entry)]"

definition midx_os :: OS where
  "midx_os = pack_os\<lparr>os_ReadFile := (\<lambda>p. Inr (if p = ''/r/objects/pack/multi-pack-index''
       then encode_midx SHA1 [''p.idx''] midx_xs (replicate 20 (CHR 0x00))
       else encode_idx_v2 [sample_entry] (replicate 40 (CHR 0x00)))),
     os_ReadDir := (\<lambda>_. Inr [(''multi-pack-index'', False), (''p.idx'', False), (''p.pack'', False)])\<rparr>"

definition sample_midx_backend :: midxBackend where
  "sample_midx_backend = \<lparr>mb_commonDir = ''/r'',
     mb_midx = midx_of ''/r/objects/pack/multi-pack-index'' SHA1 [''p.idx''] midx_xs (replicate 20 (CHR 0x00)),
     mb_packNames = [''p.idx''], mb_covered = [Some sample_pair],
     mb_idxByPack = [''/r/objects/pack/p.pack'' \<mapsto> pe_idx sample_pair], mb_siblings = [], mb_ordered = [sample_ptr], mb_closed = False\<rparr>"

lemma wf_sample_midx: "wf_midx SHA1 [''p.idx''] midx_xs"
proof -
  have "length (encode_fan (map ie_oid (midx_es midx_xs))) = 1024" by simp
  then show ?thesis
    by (simp add: wf_midx_def wf_index_def midx_es_def midx_xs_def wf_hash_def midx_bodies_def encode_names_def encode_oidl_def
        encode_ooff_def encode_loff_def large_def sample_entry_def)
qed

lemma midx_os_files:
  "midx_path ''/r'' = ''/r/objects/pack/multi-pack-index''"
  "os_ReadFile midx_os (midx_path ''/r'') = Inr (encode_midx SHA1 [''p.idx''] midx_xs (replicate 20 (CHR 0x00)))"
  "distinct_names midx_os"
proof -
  show p: "midx_path ''/r'' = ''/r/objects/pack/multi-pack-index''" by code_simp
  show "os_ReadFile midx_os (midx_path ''/r'') = Inr (encode_midx SHA1 [''p.idx''] midx_xs (replicate 20 (CHR 0x00)))"
    by (simp add: p midx_os_def pack_os_def)
  show "distinct_names midx_os" by (simp add: distinct_names_def midx_os_def)
qed

lemma sample_midx_opens:
  "openMidxBackend midx_os pack_reader ''/r'' SHA1 [] = Some (Inr sample_midx_backend, [''/r/objects/pack/p.pack''])"
proof -
  have paths: "Join_path [''/r'', ''objects'', ''pack''] = ''/r/objects/pack''"
    "Join_path [''/r/objects/pack'', ''p.idx''] = ''/r/objects/pack/p.idx''"
    "Join_path [''/r/objects/pack'', ''multi-pack-index''] = ''/r/objects/pack/multi-pack-index''"
    "TrimSuffix ''/r/objects/pack/p.idx'' ''.idx'' = ''/r/objects/pack/p''"
    "is_idx_entry (''p.idx'', False)" "\<not> is_idx_entry (''p.pack'', False)" "\<not> is_idx_entry (''multi-pack-index'', False)" by code_simp+
  have idx: "OpenIdx (os_ReadFile midx_os) ''/r/objects/pack/p.idx'' (Some SHA1) =
      Inr (idx_v2 ''/r/objects/pack/p.idx'' SHA1 [sample_entry] (replicate 40 (CHR 0x00)))"
    by (rule OpenIdx_v2 [OF wf_sample_index]) (simp_all add: midx_os_def)
  have "OpenPack (\<lambda>_. Inr (file_reader sample_pack)) path (Some SHA1) = Inr (pp_pack sample_ptr)" for path
    unfolding sample_pack_def sample_ptr_def by (simp add: OpenPack_file)
  then have pack: "OpenPack pack_reader path (Some SHA1) = Inr (pp_pack sample_ptr)" for path
    by (simp add: OpenPack_def pack_reader_def)
  have pair: "open_pair midx_os pack_reader ''/r/objects/pack'' SHA1 ''p.idx'' hs = (Inr sample_pair, ''/r/objects/pack/p.pack'' # hs)" for hs
    unfolding open_pair_def Let_def paths idx sum.case pack
    by (simp add: midx_os_def pack_os_def sample_pair_def sample_ptr_def del: append_Cons)
  have open': "OpenMidx (os_ReadFile midx_os) ''/r/objects/pack/multi-pack-index'' (Some SHA1) =
      Some (Inr (midx_of ''/r/objects/pack/multi-pack-index'' SHA1 [''p.idx''] midx_xs (replicate 20 (CHR 0x00))))"
    by (rule OpenMidx_encode [OF wf_sample_midx]) (use midx_os_files(1,2) in simp_all)
  have names: "PackNames (midx_of path SHA1 [''p.idx''] midx_xs t) = [''p.idx'']" for path t by (simp add: PackNames_def)
  have dir: "os_ReadDir midx_os path = Inr [(''multi-pack-index'', False), (''p.idx'', False), (''p.pack'', False)]" for path
    by (simp add: midx_os_def)
  have slot: "name_index [''p.idx''] ''p.idx'' = Some 0" by code_simp
  show ?thesis unfolding openMidxBackend_def Let_def paths open' option.case sum.case names dir
    using paths(5-7) pair slot
    by (simp add: place_pack_def sort_packs_def sample_midx_backend_def sample_pair_def sample_ptr_def Let_def)
qed

section \<open>Properties\<close>

text \<open>C34: The backend of a multi-pack index does not leak pack files either: opened or not, what it opened is
  given back, by the failing constructor or by its close.\<close>

theorem midx_backend_handles:
  assumes "distinct_names os" "openMidxBackend os openReader commonDir a hs = Some (r, hs')"
  shows "case r of
      Inl _ \<Rightarrow> mset hs' = mset hs
    | Inr b \<Rightarrow> (case midxBackend_Close perr b hs' of (_, b', hs'') \<Rightarrow>
        mset hs'' = mset hs \<and> snd (snd (midxBackend_Close perr b' hs'')) = hs'')"
  using openMidxBackend_result [OF assms(2,1)]
  by (auto simp: midxBackend_Close_def Let_def mset_midx_close_opened split: sum.splits)

theorem midx_backend_handles_witness:
  "snd (snd (midxBackend_Close (\<lambda>_. None) sample_midx_backend [''/r/objects/pack/p.pack''])) = []"
  using midx_backend_handles [OF midx_os_files(3) sample_midx_opens, of "\<lambda>_. None"] by (simp split: prod.splits)

text \<open>A lookup through a multi-pack index in the format: an id it lists is found in the pack it names, at the offset
  it gives, whatever the other packs say; an id it does not list is looked up in the packs it does not cover,
  youngest first.\<close>

theorem midx_backend_lookup:
  assumes "distinct_names os" "openMidxBackend os openReader commonDir a hs = Some (Inr b, hs')"
    and "os_ReadFile os (midx_path commonDir) = Inr (encode_midx a names xs trailer)"
    and "wf_midx a names xs" "length trailer = Algo_Size a" "wf_hash a h"
  shows "case midx_entry_of xs h of
      Some x \<Rightarrow> (\<exists>e. mb_covered b ! fst x = Some e \<and>
        midxBackend_Lookup b h = Some (Inr (Some (pe_pack e, int (ie_off (snd x))))))
    | None \<Rightarrow> (\<exists>r. first_hit (mb_siblings b) h r \<and> midxBackend_Lookup b h = Some (Inr r))"
proof -
  note res = openMidxBackend_result [OF assms(2,1), simplified]
  have m: "mb_midx b = midx_of (midx_path commonDir) a names xs trailer"
    using res OpenMidx_encode [where fs = "os_ReadFile os" and path = "midx_path commonDir", OF assms(4,5,3)] by simp
  then have len: "length (mb_covered b) = length names" using res by (simp add: midx_backend_ok_def PackNames_def)
  have ok: "midx_backend_ok b" "midx_searchable b" "wf_hash (mx_algo (mb_midx b)) h"
    using res midx_searchable_format [OF assms(4) m len] assms(6) m by simp_all
  have find: "Midx_Find (mb_midx b) h = Some (map_option (\<lambda>x. (word_of_nat (fst x), int (ie_off (snd x)))) (midx_entry_of xs h))"
    unfolding m by (rule Midx_Find_encode [OF assms(4,6)])
  show ?thesis
  proof (cases "midx_entry_of xs h")
    case (Some x)
    then have "x \<in> set xs" by (auto simp: midx_entry_of_def dest!: map_of_SomeD)
    then have "fst x < length names" "length names < 2 ^ 32" using assms(4) by (auto simp: wf_midx_def list_all_iff)
    then have "unat (word_of_nat (fst x) :: u32) = fst x" by (simp add: unat_of_nat take_bit_nat_eq_self)
    then show ?thesis using midx_lookup_cases [OF ok] find Some by fastforce
  next
    case None
    show ?thesis by (rule midx_lookup_cases [OF ok]) (use find None in auto)
  qed
qed

theorem midx_backend_lookup_witness:
  "midxBackend_Lookup sample_midx_backend (replicate 20 (CHR 0x10)) = Some (Inr (Some (sample_ptr, 12)))"
proof -
  have "midx_entry_of midx_xs (replicate 20 (CHR 0x10)) = Some (0, sample_entry)"
    by (simp add: midx_entry_of_def midx_xs_def sample_entry_def)
  with midx_backend_lookup [OF midx_os_files(3) sample_midx_opens midx_os_files(2) wf_sample_midx, of "replicate 20 (CHR 0x10)"]
  show ?thesis by (simp add: wf_hash_def sample_midx_backend_def sample_pair_def sample_entry_def)
qed

end
