(* ===== verification/Pack_Body.thy ===== *)
theory Pack_Body
  imports Pack_File
begin

text \<open>
  What is read behind the headers of a pack: the sizes at the head of a delta
  (\<open>src/internal/objfmt/pack_delta.go\<close>) and the trailing checksum (\<open>pack_verify.go\<close>).

  Inflating and hashing belong to the standard library. \<open>zlib s\<close> is what a zlib reader over \<open>s\<close> gives: an
  error for a bad stream header, or the bytes it yields before its end, with the error it ends in if that is
  not the end of the stream. \<open>hash a s\<close> is the digest. Whether the pool has a reader to reset is \<open>pooled\<close>.
\<close>

section \<open>Delta headers\<close>

function readDeltaVarint_loop :: "string \<Rightarrow> u64 \<Rightarrow> nat \<Rightarrow> nat \<Rightarrow> go_error + int \<times> nat" where
  "readDeltaVarint_loop buf v shift used =
     (if used < length buf then
        let c = buf ! used;
            v = v OR push_bit shift (byte_word c AND 0x7F);
            used = used + 1
        in if (byte_word c :: u64) AND 0x80 = 0 then Inr (sint v, used)
           else
             let shift = shift + 7 in
             if 64 \<le> shift then Inl (New ''objfmt: delta varint overflow'')
             else readDeltaVarint_loop buf v shift used
      else if used = 0 then Inl (New ''objfmt: empty delta varint'')
      else Inl (New ''objfmt: delta varint truncated''))"
  by pat_completeness auto
termination by (relation "measure (\<lambda>(buf, v, shift, used). length buf - used)") auto

declare readDeltaVarint_loop.simps [simp del]

definition readDeltaVarint :: "string \<Rightarrow> go_error + int \<times> nat" where
  "readDeltaVarint buf = readDeltaVarint_loop buf 0 0 0"

text \<open>\<open>io.ReadFull\<close> of \<open>n\<close> bytes from a reader that yields \<open>out\<close> and then ends in \<open>e\<close>.\<close>

definition ReadFull :: "nat \<Rightarrow> string \<times> go_error option \<Rightarrow> string \<times> go_error option" where
  "ReadFull n st = (case st of (out, e) \<Rightarrow>
     if n \<le> length out then (take n out, None)
     else (out, Some (case e of
         None \<Rightarrow> if out = [] then io_EOF else io_ErrUnexpectedEOF
       | Some err \<Rightarrow> err)))"

text \<open>\<open>io.NewSectionReader\<close>: the bytes from an offset to the end of the pack.\<close>

definition pack_section :: "Pack \<Rightarrow> int \<Rightarrow> string" where
  "pack_section p at = fst (pr_ReadAt (pk_r p) at (nat (pr_Len (pk_r p) - at)))"

definition ReadDeltaHeader ::
  "(string \<Rightarrow> go_error + string \<times> go_error option) \<Rightarrow> bool \<Rightarrow> Pack \<Rightarrow> int \<Rightarrow> go_error + int \<times> int" where
  "ReadDeltaHeader zlib pooled p bodyAt =
     (if bodyAt < 0 \<or> pr_Len (pk_r p) \<le> bodyAt then
        Inl (New (''objfmt: delta body offset '' @ itoa bodyAt @ '' out of range''))
      else (case zlib (pack_section p bodyAt) of
          Inl err \<Rightarrow> Inl (Wrapf (if pooled then ''objfmt: delta zlib reset: '' else ''objfmt: delta zlib init: '') err [])
        | Inr st \<Rightarrow> (case ReadFull 64 st of (buf, err) \<Rightarrow>
            if err \<noteq> None \<and> \<not> errors_Is (the err) io_ErrUnexpectedEOF \<and> \<not> errors_Is (the err) io_EOF then
              Inl (Wrapf ''objfmt: read delta header: '' (the err) [])
            else (case readDeltaVarint buf of
                Inl err \<Rightarrow> Inl (Wrapf ''objfmt: parse source size: '' err [])
              | Inr (src, advance) \<Rightarrow> (case readDeltaVarint (drop advance buf) of
                  Inl err \<Rightarrow> Inl (Wrapf ''objfmt: parse target size: '' err [])
                | Inr (tgt, _) \<Rightarrow> Inr (src, tgt))))))"

section \<open>Ranges and the checksum\<close>

text \<open>The loop that reads the bytes of a range in chunks, with the errors its callers make of a failed and of an
  empty read.\<close>

function read_range ::
  "(int \<Rightarrow> go_error \<Rightarrow> go_error) \<Rightarrow> (int \<Rightarrow> go_error) \<Rightarrow> int \<Rightarrow> packReader \<Rightarrow> int \<Rightarrow> int \<Rightarrow> string \<Rightarrow> go_error + string" where
  "read_range failed zero chunk r off end acc =
     (if off < end then
        (case pr_ReadAt r off (nat (min chunk (end - off))) of (got, err) \<Rightarrow>
          if err \<noteq> None \<and> \<not> errors_Is (the err) io_EOF then Inl (failed off (the err))
          else if length got = 0 then Inl (zero off)
          else read_range failed zero chunk r (off + int (length got)) end (acc @ got))
      else Inr acc)"
  by pat_completeness auto
termination by (relation "measure (\<lambda>(failed, zero, chunk, r, off, end, acc). nat (end - off))") auto

declare read_range.simps [simp del]

definition Pack_VerifyChecksum :: "(Algo \<Rightarrow> string \<Rightarrow> Hash) \<Rightarrow> Pack \<Rightarrow> go_error option" where
  "Pack_VerifyChecksum hash p =
     (let hashLen = int (Algo_Size (pk_algo p)); totalLen = pr_Len (pk_r p) in
      if totalLen < hashLen + 12 then Some (Wrapf ''objfmt: pack file too short for trailer: '' objfmt_ErrShortFile [])
      else
        let bodyEnd = totalLen - hashLen in
        case read_range (\<lambda>off err. Wrapf (''objfmt: read at '' @ itoa off @ '': '') err [])
            (\<lambda>off. New (''objfmt: zero-byte read at '' @ itoa off)) 1048576 (pk_r p) 0 bodyEnd [] of
          Inl err \<Rightarrow> Some err
        | Inr body \<Rightarrow> (case pr_ReadAt (pk_r p) bodyEnd (nat hashLen) of
            (_, Some err) \<Rightarrow> Some (Wrapf ''objfmt: read trailer: '' err [])
          | (want, None) \<Rightarrow>
              if hash (pk_algo p) body \<noteq> want then Some (Wrapf ''objfmt: pack trailer mismatch: '' ErrChecksumMismatch [])
              else None))"

section \<open>Lemmas\<close>

lemma delta_loop_encode:
  assumes "length pre = used" "unat acc < 2 ^ shift" "shift mod 7 = 0" "0 < v \<or> shift = 0"
    and "unat acc + v * 2 ^ shift < 2 ^ 63"
  shows "readDeltaVarint_loop (pre @ encode_le7 v @ rest) acc shift used =
    Inr (int (unat acc + v * 2 ^ shift), used + length (encode_le7 v))"
  using assms
proof (induction v arbitrary: pre acc shift used rule: encode_le7.induct)
  case (1 v)
  have shift: "shift \<le> 56"
  proof (cases "shift = 0")
    case False
    then have "1 * 2 ^ shift \<le> v * 2 ^ shift" using 1(5) by (intro mult_right_mono) simp_all
    then have "(2 :: nat) ^ shift < 2 ^ 63" using 1(6) by linarith
    then have "shift < 63" using power_less_imp_less_exp [of "2 :: nat" shift 63] by simp
    with 1(4) show ?thesis by presburger
  qed simp
  define c :: char where "c = (if v < 128 then char_of v else char_of (128 + v mod 128))"
  define suf where "suf = (if v < 128 then [] else encode_le7 (v div 128))"
  have e: "encode_le7 v = c # suf" by (subst encode_le7.simps) (simp add: c_def suf_def)
  have c: "byte_val c mod 128 = v mod 128" "cont c \<longleftrightarrow> 128 \<le> v"
    by (simp_all add: c_def Reftable_Varint.more_def mod_less)
  let ?buf = "pre @ encode_le7 v @ rest" and ?x = "v mod 128"
  have nth: "?buf ! used = c" "used < length ?buf" using 1(2) by (auto simp: nth_append e)
  let ?acc = "acc OR push_bit shift (byte_word c AND 0x7F)"
  have acc: "unat ?acc = unat acc + ?x * 2 ^ shift" "unat ?acc < 2 ^ (shift + 7)"
    using or_shift [of acc shift ?x "byte_word c AND 0x7F"] 1(3) shift by (simp_all add: and_0x7F c(1))
  show ?case
  proof (cases "v < 128")
    case True
    then have u: "unat ?acc = unat acc + v * 2 ^ shift" using acc(1) by (simp add: mod_less)
    then have "unat ?acc < 2 ^ 63" using 1(6) by simp
    from sint_small [OF this] have "sint ?acc = int (unat acc + v * 2 ^ shift)" unfolding u .
    then show ?thesis
      using nth c(2) True
      by (subst readDeltaVarint_loop.simps) (simp add: Let_def and_0x80 e suf_def del: of_nat_add of_nat_mult of_nat_power)
  next
    case False
    have split: "v * 2 ^ shift = ?x * 2 ^ shift + v div 128 * 2 ^ (shift + 7)"
      using groups_split [of ?x shift "v div 128"] by (simp only: mod_div_mult_eq)
    have step: "readDeltaVarint_loop ?buf acc shift used = readDeltaVarint_loop ?buf ?acc (shift + 7) (used + 1)"
      using nth c(2) False shift by (subst readDeltaVarint_loop.simps) (simp add: Let_def and_0x80)
    have "readDeltaVarint_loop ((pre @ [c]) @ encode_le7 (v div 128) @ rest) ?acc (shift + 7) (used + 1) =
        Inr (int (unat ?acc + v div 128 * 2 ^ (shift + 7)), used + 1 + length (encode_le7 (v div 128)))"
    proof (rule 1(1))
      show "\<not> v < 128" by (rule False)
      show "length (pre @ [c]) = used + 1" using 1(2) by simp
      show "unat ?acc < 2 ^ (shift + 7)" by (rule acc(2))
      show "(shift + 7) mod 7 = 0" using 1(4) by simp
      show "0 < v div 128 \<or> shift + 7 = 0" using False by (simp add: div_greater_zero_iff)
      show "unat ?acc + v div 128 * 2 ^ (shift + 7) < 2 ^ 63" using 1(6) split acc(1) by linarith
    qed
    moreover have "unat ?acc + v div 128 * 2 ^ (shift + 7) = unat acc + v * 2 ^ shift" using acc(1) split by simp
    ultimately have "readDeltaVarint_loop ((pre @ [c]) @ encode_le7 (v div 128) @ rest) ?acc (shift + 7) (used + 1) =
        Inr (int (unat acc + v * 2 ^ shift), used + 1 + length (encode_le7 (v div 128)))" by (simp only:)
    then show ?thesis using step False
      by (simp add: e suf_def del: of_nat_add of_nat_mult of_nat_power)
  qed
qed

lemma readDeltaVarint_encode:
  "v < 2 ^ 63 \<Longrightarrow> readDeltaVarint (encode_le7 v @ rest) = Inr (int v, length (encode_le7 v))"
  using delta_loop_encode [of "[]" 0 0 0 v rest] by (simp add: readDeltaVarint_def)

text \<open>The guard lets a tenth byte through: what it adds is the sign bit, and the rest of it is lost.\<close>

lemma readDeltaVarint_overflows:
  "readDeltaVarint [CHR 0x80, CHR 0x80, CHR 0x80, CHR 0x80, CHR 0x80, CHR 0x80, CHR 0x80, CHR 0x80, CHR 0x80, CHR 0x01] = Inr (- (2 ^ 63), 10)"
  "readDeltaVarint [CHR 0x80, CHR 0x80, CHR 0x80, CHR 0x80, CHR 0x80, CHR 0x80, CHR 0x80, CHR 0x80, CHR 0x80, CHR 0x02] = Inr (0, 10)"
  by (simp_all add: readDeltaVarint_def readDeltaVarint_loop.simps byte_word_def Let_def)

text \<open>A range of a file is read whole, whatever the size of the chunks.\<close>

context reader_at
begin

lemma read_range_all:
  assumes "0 \<le> off" "off \<le> end" "end \<le> int (length f)" "0 < chunk"
  shows "read_range failed zero chunk r off end acc = Inr (acc @ take (nat (end - off)) (drop (nat off) f))"
  using assms
proof (induction "nat (end - off)" arbitrary: off acc rule: less_induct)
  case less
  show ?case
  proof (cases "off < end")
    case True
    define w where "w = nat (min chunk (end - off))"
    have w: "0 < w" "int w \<le> end - off" using True less.prems(4) by (simp_all add: w_def min_def)
    let ?got = "take w (drop (nat off) f)"
    have got: "length ?got = w" using w(2) less.prems(1,3) by simp
    have "off < int (length f)" using True less.prems(3) by simp
    moreover have "\<not> length f - nat off < w" using w(2) less.prems(1,3) by linarith
    ultimately have read: "pr_ReadAt r off w = (?got, None)" using ReadAt [OF less.prems(1), of w] by simp
    have next_off: "nat (off + int w) = w + nat off" using less.prems(1) by simp
    have "nat (end - off) = w + nat (end - (off + int w))" using w(2) by linarith
    then have whole: "take (nat (end - off)) (drop (nat off) f) =
        ?got @ take (nat (end - (off + int w))) (drop (nat (off + int w)) f)"
      unfolding next_off by (simp only: take_add drop_drop)
    have "read_range failed zero chunk r (off + int w) end (acc @ ?got) =
        Inr ((acc @ ?got) @ take (nat (end - (off + int w))) (drop (nat (off + int w)) f))"
      using w True less.prems by (intro less.hyps) simp_all
    then show ?thesis
      using True w(1) got read by (subst read_range.simps) (simp only: if_True prod.case w_def [symmetric] whole append_assoc, simp)
  next
    case False
    then show ?thesis using less.prems(2) by (subst read_range.simps) simp
  qed
qed

lemma VerifyChecksum_file:
  assumes "pk_r p = r" "12 + Algo_Size (pk_algo p) \<le> length f"
  defines "n \<equiv> length f - Algo_Size (pk_algo p)"
  shows "Pack_VerifyChecksum hash p = None \<longleftrightarrow> hash (pk_algo p) (take n f) = drop n f"
proof -
  let ?a = "pk_algo p"
  have len: "pr_Len (pk_r p) = int (length f)" by (simp add: assms(1) Len)
  have n: "int (length f) - int (Algo_Size ?a) = int n" "n < length f" "length f - n = Algo_Size ?a"
    using assms(2) by (cases ?a; simp add: n_def)+
  have body: "read_range failed zero 1048576 r 0 (int n) [] = Inr (take n f)" for failed zero
    using read_range_all [of 0 "int n" 1048576 failed zero "[]"] n(2) by simp
  have "pr_ReadAt r (int n) (Algo_Size ?a) = (drop n f, None)"
    using ReadAt [of "int n" "Algo_Size ?a"] n(2,3) by simp
  moreover have "\<not> int (length f) < int (Algo_Size ?a) + 12" using assms(2) by simp
  ultimately show ?thesis
    unfolding Pack_VerifyChecksum_def len Let_def n(1) unfolding assms(1) body by simp
qed

lemma pack_section_file: "pk_r p = r \<Longrightarrow> 0 \<le> at \<Longrightarrow> at < int (length f) \<Longrightarrow> pack_section p at = drop (nat at) f"
  using ReadAt [of at] by (simp add: pack_section_def Len)

end

text \<open>A pack verifies exactly when its last bytes are the digest of all the bytes before them, whatever the
  digest and however the reading is split into chunks.\<close>

lemma pack_checksum:
  assumes "12 + Algo_Size a \<le> length f"
  shows "Pack_VerifyChecksum hash \<lparr>pk_r = file_reader f, pk_algo = a, pk_ver = v, pk_nr = n\<rparr> = None \<longleftrightarrow>
    hash a (take (length f - Algo_Size a) f) = drop (length f - Algo_Size a) f"
  using fileReader.VerifyChecksum_file [of "\<lparr>pk_r = file_reader f, pk_algo = a, pk_ver = v, pk_nr = n\<rparr>" f] assms by simp

section \<open>Properties\<close>

text \<open>The sizes of a delta round trip: where the zlib stream at a position of a pack yields two sizes in the
  format of a delta and then anything, cleanly ended or not, reading the delta header there gives the two sizes.\<close>

theorem delta_header_round_trip:
  assumes "zlib (drop (nat at) f) = Inr (encode_le7 src @ encode_le7 tgt @ ops, e)" "0 \<le> at" "at < int (length f)"
    and "src < 2 ^ 63" "tgt < 2 ^ 63" "e \<noteq> None \<longrightarrow> 64 \<le> length ops"
  shows "ReadDeltaHeader zlib pooled \<lparr>pk_r = file_reader f, pk_algo = a, pk_ver = v, pk_nr = n\<rparr> at = Inr (int src, int tgt)"
proof -
  let ?p = "\<lparr>pk_r = file_reader f, pk_algo = a, pk_ver = v, pk_nr = n\<rparr>" and ?out = "encode_le7 src @ encode_le7 tgt @ ops"
  have "m < 128 ^ Suc 8" if "m < 2 ^ 63" for m :: nat using that by simp
  then have fits: "length (encode_le7 src @ encode_le7 tgt) \<le> 64"
    using length_encode_le7 [of src 8] length_encode_le7 [of tgt 8] assms(4,5) by simp
  define tl where "tl = take (64 - length (encode_le7 src @ encode_le7 tgt)) ops"
  have "take 64 ?out = encode_le7 src @ encode_le7 tgt @ tl" using fits by (simp add: tl_def)
  moreover have "ReadFull 64 (?out, e) = (take 64 ?out, None) \<or>
      ReadFull 64 (?out, e) = (take 64 ?out, Some io_EOF) \<or> ReadFull 64 (?out, e) = (take 64 ?out, Some io_ErrUnexpectedEOF)"
    using assms(6) by (cases e) (auto simp: ReadFull_def)
  ultimately obtain err where full: "ReadFull 64 (?out, e) = (encode_le7 src @ encode_le7 tgt @ tl, err)"
    "err = None \<or> err = Some io_EOF \<or> err = Some io_ErrUnexpectedEOF" by metis
  have sec: "zlib (pack_section ?p at) = Inr (?out, e)"
    using fileReader.pack_section_file [of ?p f at] assms(1-3) by simp
  have "readDeltaVarint (encode_le7 src @ encode_le7 tgt @ tl) = Inr (int src, length (encode_le7 src))"
    by (rule readDeltaVarint_encode [OF assms(4)])
  moreover have "readDeltaVarint (encode_le7 tgt @ tl) = Inr (int tgt, length (encode_le7 tgt))"
    by (rule readDeltaVarint_encode [OF assms(5)])
  moreover have "\<not> (at < 0 \<or> pr_Len (pk_r ?p) \<le> at)" using assms(2,3) by (simp add: fileReader.Len)
  ultimately show ?thesis
    unfolding ReadDeltaHeader_def sec using full by auto
qed

theorem delta_header_round_trip_witness:
  "let zlib = (\<lambda>s. if s = ''body'' then Inr ([CHR 0x05, CHR 0x07, CHR 0x90], None) else Inl io_EOF)
   in ReadDeltaHeader zlib True \<lparr>pk_r = file_reader ''xxbody'', pk_algo = SHA1, pk_ver = 2, pk_nr = 1\<rparr> 2 = Inr (5, 7)"
proof -
  let ?zlib = "\<lambda>s. if s = ''body'' then Inr ([CHR 0x05, CHR 0x07, CHR 0x90], None) else Inl io_EOF"
  have c: "(char_of (5 :: nat) :: char) = CHR 0x05" "(char_of (7 :: nat) :: char) = CHR 0x07" by code_simp+
  have e: "encode_le7 5 = [CHR 0x05]" "encode_le7 7 = [CHR 0x07]" using c by (simp_all add: encode_le7.simps)
  have "?zlib (drop (nat 2) ''xxbody'') = Inr (encode_le7 5 @ encode_le7 7 @ [CHR 0x90], None)"
    unfolding e by simp
  from delta_header_round_trip [where zlib = ?zlib and at = 2 and f = "''xxbody''" and a = SHA1 and v = 2 and n = 1 and pooled = True,
      OF this] show ?thesis by (simp add: Let_def)
qed

end
