(* ===== verification/Store_Packs.thy ===== *)
theory Store_Packs
  imports Midx_Backend Pack_Body Server_Advertise
begin

text \<open>
  What the store reads from its packs (\<open>src/internal/objstore/object_info.go\<close>): the type and size of a packed object, found by
  following its chain of deltas.

  \<open>packBackend\<close> is an interface value, one of the two backends. A pack is read through \<open>zlib\<close> and checked with
  \<open>crc32\<close>, both of the standard library. The cache of bases is part of the state; an outer \<open>None\<close> is a panic. The chain
  is followed for at most \<open>maxChainDepth\<close> headers, which is the recursion's fuel as it is the code's loop bound.

  The abstract view is \<open>delta_chain\<close>, the chain as a relation. The properties: the walk finds exactly
  the chains of fewer than 64 deltas, and the cache is never seen in an answer.
\<close>

section \<open>The interface value\<close>

datatype packBackend = CatalogBackend idxCatalog | MultiBackend midxBackend

primrec packs_Lookup :: "packBackend \<Rightarrow> Hash \<Rightarrow> (go_error + (PackPtr \<times> int) option) option" where
  "packs_Lookup (CatalogBackend c) h = idxCatalog_Lookup c h"
| "packs_Lookup (MultiBackend b) h = midxBackend_Lookup b h"

primrec packs_AllPacks :: "packBackend \<Rightarrow> PackPtr list" where
  "packs_AllPacks (CatalogBackend c) = idxCatalog_AllPacks c"
| "packs_AllPacks (MultiBackend b) = midxBackend_AllPacks b"

primrec packs_IdxFor :: "packBackend \<Rightarrow> PackPtr \<Rightarrow> Idx option" where
  "packs_IdxFor (CatalogBackend c) p = idxCatalog_IdxFor c p"
| "packs_IdxFor (MultiBackend b) p = midxBackend_IdxFor b p"

primrec packs_Close ::
  "(string \<Rightarrow> go_error option) \<Rightarrow> packBackend \<Rightarrow> handles \<Rightarrow> go_error option \<times> packBackend \<times> handles" where
  "packs_Close perr (CatalogBackend c) hs = (case idxCatalog_Close perr c hs of (err, c, hs) \<Rightarrow> (err, CatalogBackend c, hs))"
| "packs_Close perr (MultiBackend b) hs = (case midxBackend_Close perr b hs of (err, b, hs) \<Rightarrow> (err, MultiBackend b, hs))"

primrec packs_ok :: "packBackend \<Rightarrow> bool" where
  "packs_ok (CatalogBackend c) \<longleftrightarrow> catalog_ok c"
| "packs_ok (MultiBackend b) \<longleftrightarrow> midx_backend_ok b \<and> midx_searchable b"

primrec packs_algo :: "packBackend \<Rightarrow> Algo" where
  "packs_algo (CatalogBackend c) = ic_algo c"
| "packs_algo (MultiBackend b) = mx_algo (mb_midx b)"

interpretation packs: pack_backend packs_ok "\<lambda>b h. wf_hash (packs_algo b) h" packs_Lookup packs_IdxFor packs_AllPacks
proof (unfold_locales, goal_cases)
  case (1 b h)
  then show ?case using catalog.lookup_answers midx.lookup_answers by (cases b) simp_all
next
  case (2 b h p off)
  then show ?case using catalog.lookup_known midx.lookup_known by (cases b) auto
next
  case (3 b p)
  then show ?case using catalog.idx_known midx.idx_known by (cases b) auto
qed

section \<open>Checksums\<close>

text \<open>The inflater over the bytes of a section, as the delta header reads it.\<close>

definition zlib_bytes :: "(Source \<Rightarrow> go_error + Source \<times> go_error option) \<Rightarrow> string \<Rightarrow> go_error + string \<times> go_error option" where
  "zlib_bytes zlib s = (case zlib \<lparr>src_rest = s, src_end = io_EOF\<rparr> of
      Inl err \<Rightarrow> Inl err
    | Inr (src, _) \<Rightarrow> Inr (src_rest src, if src_end src = io_EOF then None else Some (src_end src)))"

definition crc32Range :: "(string \<Rightarrow> u32) \<Rightarrow> Pack \<Rightarrow> int \<Rightarrow> int \<Rightarrow> go_error + u32" where
  "crc32Range crc32 p start end' =
     (case read_range (\<lambda>off err. err) (\<lambda>off. New (''objstore: zero-byte pack read at '' @ itoa off)) 65536 (pk_r p) start end' [] of
        Inl err \<Rightarrow> Inl err
      | Inr s \<Rightarrow> Inr (crc32 s))"

definition verifyPackCRC ::
  "(string \<Rightarrow> u32) \<Rightarrow> bool \<Rightarrow> Algo \<Rightarrow> packBackend \<Rightarrow> PackPtr \<Rightarrow> Hash \<Rightarrow> int \<Rightarrow> (go_error + unit) option" where
  "verifyPackCRC crc32 verifyCRC a packs p oid at =
     (if \<not> verifyCRC then Some (Inr ())
      else case packs_IdxFor packs p of
        None \<Rightarrow> Some (Inr ())
      | Some idx \<Rightarrow> (case FindCRC32 idx oid of
          None \<Rightarrow> None
        | Some None \<Rightarrow> Some (Inr ())
        | Some (Some wantCRC) \<Rightarrow>
            let end' = (case OffsetAfter idx at of Some e \<Rightarrow> e | None \<Rightarrow> Pack_Len (pp_pack p) - int (Algo_Size a));
                where' = ''objstore: pack '' @ Idx_Path idx @ '' offset '' @ itoa at in
            if end' \<le> at then Some (Inl (Wrapf (where' @ '' crc32 range non-positive: '') ErrCorruptObject []))
            else (case crc32Range crc32 (pp_pack p) at end' of
                Inl err \<Rightarrow> Some (Inl (Wrapf2 (where' @ '' crc32 read: '') err '': '' ErrCorruptObject []))
              | Inr gotCRC \<Rightarrow>
                  if gotCRC \<noteq> wantCRC then Some (Inl (Wrapf (where' @ '' crc32 mismatch: '') ErrCorruptObject []))
                  else Some (Inr ()))))"

section \<open>The chain\<close>

definition maxChainDepth :: nat where "maxChainDepth = 64"

text \<open>A cached base: \<open>None\<close> for one known to be nowhere.\<close>

type_synonym refDeltaCache = "Hash \<rightharpoonup> (PackPtr \<times> int) option"

definition lookupRefDeltaBase :: "packBackend \<Rightarrow> Hash \<Rightarrow> refDeltaCache \<Rightarrow> ((PackPtr \<times> int) option \<times> refDeltaCache) option" where
  "lookupRefDeltaBase packs base cache = (case cache base of
      Some entry \<Rightarrow> Some (entry, cache)
    | None \<Rightarrow> (case packs_Lookup packs base of
        None \<Rightarrow> None
      | Some res \<Rightarrow> let entry = (case res of Inl _ \<Rightarrow> None | Inr r \<Rightarrow> r) in Some (entry, cache(base \<mapsto> entry))))"

text \<open>The size the caller sees, taken from the header the walk starts at.\<close>

definition target_size ::
  "(Source \<Rightarrow> go_error + Source \<times> go_error option) \<Rightarrow> bool \<Rightarrow> PackPtr \<Rightarrow> ObjectHeader \<Rightarrow> go_error + int" where
  "target_size zlib pooled p hdr =
     (if IsDelta (oh_Type hdr) then
        (case ReadDeltaHeader (zlib_bytes zlib) pooled (pp_pack p) (oh_BodyAt hdr) of
           Inl err \<Rightarrow> Inl (Wrapf2 (''objstore: read delta header at '' @ itoa (oh_BodyAt hdr) @ '': '') err '': '' ErrCorruptObject [])
         | Inr (_, tgt) \<Rightarrow> Inr tgt)
      else Inr (oh_Size hdr))"

fun chain_loop ::
  "(Source \<Rightarrow> go_error + Source \<times> go_error option) \<Rightarrow> bool \<Rightarrow> packBackend \<Rightarrow> nat \<Rightarrow> PackPtr \<Rightarrow> int \<Rightarrow> int option \<Rightarrow> refDeltaCache \<Rightarrow>
    ((go_error + Info) \<times> refDeltaCache) option" where
  "chain_loop zlib pooled packs 0 p at known cache =
     Some (Inl (Wrapf (''objstore: delta chain depth exceeds '' @ itoa_nat maxChainDepth @ '': '') ErrCorruptObject []), cache)"
| "chain_loop zlib pooled packs (Suc n) p at known cache = (case ReadHeader (pp_pack p) at of
      Inl err \<Rightarrow> Some (Inl (Wrapf2 (''objstore: read pack header at '' @ itoa at @ '': '') err '': '' ErrCorruptObject []), cache)
    | Inr hdr \<Rightarrow> (case (case known of Some sz \<Rightarrow> Inr sz | None \<Rightarrow> target_size zlib pooled p hdr) of
        Inl err \<Rightarrow> Some (Inl err, cache)
      | Inr sz \<Rightarrow>
          if oh_Type hdr = TypeOfsDelta then
            chain_loop zlib pooled packs n p (OfsBase (oh_DeltaRef hdr)) (Some sz) cache
          else if oh_Type hdr = TypeRefDelta then
            (case lookupRefDeltaBase packs (RefBase (oh_DeltaRef hdr)) cache of
               None \<Rightarrow> None
             | Some (None, cache) \<Rightarrow>
                 Some (Inl (Wrapf (''objstore: REF_DELTA base '' @ Hex (RefBase (oh_DeltaRef hdr)) @ '' not found: '')
                   ErrCorruptObject []), cache)
             | Some (Some (q, off), cache) \<Rightarrow> chain_loop zlib pooled packs n q off (Some sz) cache)
          else if oh_Type hdr \<in> {TypeCommit, TypeTree, TypeBlob, TypeTag} then
            Some (Inr \<lparr>info_Type = oh_Type hdr, info_Size = sz\<rparr>, cache)
          else Some (Inl (Wrapf (''objstore: unknown pack object type '' @ itoa_nat (oh_Type hdr) @ '' at '' @ itoa at @ '': '')
            ErrCorruptObject []), cache)))"

definition walkPackChain ::
  "(Source \<Rightarrow> go_error + Source \<times> go_error option) \<Rightarrow> bool \<Rightarrow> (string \<Rightarrow> u32) \<Rightarrow> bool \<Rightarrow> Algo \<Rightarrow> packBackend \<Rightarrow> Hash \<Rightarrow> PackPtr \<Rightarrow>
    int \<Rightarrow> refDeltaCache \<Rightarrow> ((go_error + Info) \<times> refDeltaCache) option" where
  "walkPackChain zlib pooled crc32 verifyCRC a packs oid p at cache =
     (case verifyPackCRC crc32 verifyCRC a packs p oid at of
        None \<Rightarrow> None
      | Some (Inl err) \<Rightarrow> Some (Inl err, cache)
      | Some (Inr _) \<Rightarrow> chain_loop zlib pooled packs maxChainDepth p at None cache)"


section \<open>Chains as a relation\<close>

text \<open>What the packs answer for a base, the cache left out: nothing where the lookup panics.\<close>

definition base_of :: "packBackend \<Rightarrow> Hash \<Rightarrow> (PackPtr \<times> int) option option" where
  "base_of packs b = (case packs_Lookup packs b of None \<Rightarrow> None | Some (Inl _) \<Rightarrow> Some None | Some (Inr r) \<Rightarrow> Some r)"

text \<open>\<open>delta_chain packs p at n t\<close>: from the entry at \<open>at\<close> of \<open>p\<close>, \<open>n\<close> deltas lead to an object of type \<open>t\<close>.\<close>

inductive delta_chain :: "packBackend \<Rightarrow> PackPtr \<Rightarrow> int \<Rightarrow> nat \<Rightarrow> ObjectType \<Rightarrow> bool" for packs where
  base: "ReadHeader (pp_pack p) at = Inr hdr \<Longrightarrow> oh_Type hdr \<in> {TypeCommit, TypeTree, TypeBlob, TypeTag} \<Longrightarrow>
    delta_chain packs p at 0 (oh_Type hdr)"
| ofs: "ReadHeader (pp_pack p) at = Inr hdr \<Longrightarrow> oh_Type hdr = TypeOfsDelta \<Longrightarrow>
    delta_chain packs p (OfsBase (oh_DeltaRef hdr)) n t \<Longrightarrow> delta_chain packs p at (Suc n) t"
| ref: "ReadHeader (pp_pack p) at = Inr hdr \<Longrightarrow> oh_Type hdr = TypeRefDelta \<Longrightarrow>
    base_of packs (RefBase (oh_DeltaRef hdr)) = Some (Some (q, off)) \<Longrightarrow>
    delta_chain packs q off n t \<Longrightarrow> delta_chain packs p at (Suc n) t"

inductive_cases delta_chain_cases: "delta_chain packs p at n t"

text \<open>A cache that agrees with the packs.\<close>

definition coherent :: "packBackend \<Rightarrow> refDeltaCache \<Rightarrow> bool" where
  "coherent packs cache \<longleftrightarrow> (\<forall>b e. cache b = Some e \<longrightarrow> base_of packs b = Some e)"

lemma coherent_empty [simp]: "coherent packs Map.empty"
  by (simp add: coherent_def)

lemma lookup_coherent:
  assumes "coherent packs cache"
  shows "lookupRefDeltaBase packs b cache = map_option (\<lambda>e. (e, cache(b \<mapsto> e))) (base_of packs b)"
    and "base_of packs b = Some e \<Longrightarrow> coherent packs (cache(b \<mapsto> e))"
proof -
  show "lookupRefDeltaBase packs b cache = map_option (\<lambda>e. (e, cache(b \<mapsto> e))) (base_of packs b)"
  proof (cases "cache b")
    case (Some e)
    then have "base_of packs b = Some e" using assms by (simp add: coherent_def)
    then show ?thesis using Some by (simp add: lookupRefDeltaBase_def map_upd_triv)
  next
    case None
    then show ?thesis by (auto simp: lookupRefDeltaBase_def base_of_def Let_def split: option.splits sum.splits)
  qed
  show "base_of packs b = Some e \<Longrightarrow> coherent packs (cache(b \<mapsto> e))" using assms by (simp add: coherent_def)
qed

lemma ReadHeader_types: "oh_Type hdr = TypeOfsDelta \<Longrightarrow> oh_Type hdr \<notin> {TypeCommit, TypeTree, TypeBlob, TypeTag, TypeRefDelta}"
  "oh_Type hdr = TypeRefDelta \<Longrightarrow> oh_Type hdr \<notin> {TypeCommit, TypeTree, TypeBlob, TypeTag, TypeOfsDelta}"
  by (auto simp: ObjectType_defs)

text \<open>The walk with its size already known: it succeeds exactly on the chains it has the fuel for.\<close>

lemma chain_loop_sound:
  assumes "chain_loop zlib pooled packs fuel p at (Some sz) cache = Some (r, cache')" "coherent packs cache"
  shows "coherent packs cache' \<and> (\<forall>i. r = Inr i \<longrightarrow> info_Size i = sz \<and> (\<exists>n < fuel. delta_chain packs p at n (info_Type i)))"
  using assms
proof (induction fuel arbitrary: p at cache)
  case (Suc fuel)
  show ?case
  proof (cases "ReadHeader (pp_pack p) at")
    case hdr: (Inr hdr)
    consider (ofs) "oh_Type hdr = TypeOfsDelta" | (ref) "oh_Type hdr = TypeRefDelta"
      | (other) "oh_Type hdr \<noteq> TypeOfsDelta" "oh_Type hdr \<noteq> TypeRefDelta" by blast
    then show ?thesis
    proof cases
      case ofs
      then have "chain_loop zlib pooled packs fuel p (OfsBase (oh_DeltaRef hdr)) (Some sz) cache = Some (r, cache')"
        using Suc.prems(1) hdr by simp
      from Suc.IH [OF this Suc.prems(2)] show ?thesis using delta_chain.ofs [OF hdr ofs] by (metis Suc_less_eq)
    next
      case ref
      let ?b = "RefBase (oh_DeltaRef hdr)"
      have ne: "oh_Type hdr \<noteq> TypeOfsDelta" using ref by (simp add: ObjectType_defs)
      note look = lookup_coherent [OF Suc.prems(2)]
      have step: "(case map_option (\<lambda>e. (e, cache(?b \<mapsto> e))) (base_of packs ?b) of
               None \<Rightarrow> None
             | Some (None, cache) \<Rightarrow>
                 Some (Inl (Wrapf (''objstore: REF_DELTA base '' @ Hex ?b @ '' not found: '') ErrCorruptObject []), cache)
             | Some (Some (q, off), cache) \<Rightarrow> chain_loop zlib pooled packs fuel q off (Some sz) cache) = Some (r, cache')"
        using Suc.prems(1) hdr ne ref by (simp add: look(1))
      then obtain e where e: "base_of packs ?b = Some e" by (cases "base_of packs ?b") auto
      show ?thesis
      proof (cases e)
        case None
        then show ?thesis using step e look(2) [OF e] by auto
      next
        case (Some x)
        obtain q off where x: "e = Some (q, off)" using Some by (cases x) auto
        have "chain_loop zlib pooled packs fuel q off (Some sz) (cache(?b \<mapsto> e)) = Some (r, cache')" using step e x by simp
        from Suc.IH [OF this look(2) [OF e]] show ?thesis
          using delta_chain.ref [OF hdr ref e [unfolded x]] by (metis Suc_less_eq)
      qed
    next
      case other
      then show ?thesis using Suc.prems hdr delta_chain.base [OF hdr] by (auto split: if_splits)
    qed
  qed (use Suc.prems in auto)
qed auto

lemma chain_loop_complete:
  assumes "delta_chain packs p at n t" "coherent packs cache" "n < fuel"
  shows "\<exists>cache'. chain_loop zlib pooled packs fuel p at (Some sz) cache = Some (Inr \<lparr>info_Type = t, info_Size = sz\<rparr>, cache')"
  using assms
proof (induction arbitrary: fuel cache rule: delta_chain.induct)
  case (base p at hdr)
  then obtain f where f: "fuel = Suc f" by (cases fuel) auto
  have "oh_Type hdr \<noteq> TypeOfsDelta" "oh_Type hdr \<noteq> TypeRefDelta" using base(2) by (auto simp: ObjectType_defs)
  then show ?case using base by (simp add: f)
next
  case (ofs p at hdr n t)
  then obtain f where f: "fuel = Suc f" by (cases fuel) auto
  then show ?case using ofs by simp
next
  case (ref p at hdr q off n t)
  then obtain f where f: "fuel = Suc f" by (cases fuel) auto
  have ne: "oh_Type hdr \<noteq> TypeOfsDelta" using ref(2) by (simp add: ObjectType_defs)
  show ?case
    using ref(1,2,3) ne ref.IH [OF lookup_coherent(2) [OF ref.prems(1) ref(3)], of f] ref.prems(2)
    by (simp add: f lookup_coherent(1) [OF ref.prems(1)] del: fun_upd_apply)
qed

lemma chain_loop_first: "chain_loop zlib pooled packs (Suc n) p at None cache = (case ReadHeader (pp_pack p) at of
      Inl err \<Rightarrow> Some (Inl (Wrapf2 (''objstore: read pack header at '' @ itoa at @ '': '') err '': '' ErrCorruptObject []), cache)
    | Inr hdr \<Rightarrow> (case target_size zlib pooled p hdr of
        Inl err \<Rightarrow> Some (Inl err, cache)
      | Inr sz \<Rightarrow> chain_loop zlib pooled packs (Suc n) p at (Some sz) cache))"
  by (auto split: sum.splits)

text \<open>Whether two runs agree does not depend on their caches.\<close>

lemma chain_loop_transparent:
  assumes "coherent packs c1" "coherent packs c2"
  shows "map_option fst (chain_loop zlib pooled packs fuel p at known c1) = map_option fst (chain_loop zlib pooled packs fuel p at known c2)"
  using assms
proof (induction fuel arbitrary: p at known c1 c2)
  case (Suc fuel)
  have look: "lookupRefDeltaBase packs b c = map_option (\<lambda>e. (e, c(b \<mapsto> e))) (base_of packs b)" if "c = c1 \<or> c = c2" for b c
    using that Suc.prems lookup_coherent(1) by blast
  have coh: "base_of packs b = Some e \<Longrightarrow> coherent packs (c1(b \<mapsto> e)) \<and> coherent packs (c2(b \<mapsto> e))" for b e
    using Suc.prems lookup_coherent(2) by blast
  have t: "TypeRefDelta \<noteq> TypeOfsDelta" by (simp add: ObjectType_defs)
  show ?case
  proof (cases "ReadHeader (pp_pack p) at")
    case hdr: (Inr hdr)
    show ?thesis
    proof (cases "case known of Some sz \<Rightarrow> Inr sz | None \<Rightarrow> target_size zlib pooled p hdr")
      case sz: (Inr sz)
      let ?b = "RefBase (oh_DeltaRef hdr)"
      consider (ofs) "oh_Type hdr = TypeOfsDelta" | (ref) "oh_Type hdr \<noteq> TypeOfsDelta" "oh_Type hdr = TypeRefDelta"
        | (other) "oh_Type hdr \<noteq> TypeOfsDelta" "oh_Type hdr \<noteq> TypeRefDelta" by blast
      then show ?thesis
      proof cases
        case ofs
        then show ?thesis using Suc.IH [OF Suc.prems] by (simp add: hdr sz)
      next
        case ref
        show ?thesis
        proof (cases "base_of packs ?b")
          case (Some e)
          then show ?thesis
          proof (cases e)
            case (Some x)
            then show ?thesis using Suc.IH [of "c1(?b \<mapsto> e)" "c2(?b \<mapsto> e)"] coh [OF \<open>base_of packs ?b = Some e\<close>] \<open>base_of packs ?b = Some e\<close>
              by (cases x) (simp add: hdr sz ref t look del: fun_upd_apply)
          qed (simp add: hdr sz ref t look)
        qed (simp add: hdr sz ref t look)
      qed (simp add: hdr sz)
    qed (simp add: hdr)
  qed simp
qed simp

lemma walkPackChain_Suc: "walkPackChain zlib pooled crc32 v a packs oid p at cache =
     (case verifyPackCRC crc32 v a packs p oid at of
        None \<Rightarrow> None
      | Some (Inl err) \<Rightarrow> Some (Inl err, cache)
      | Some (Inr _) \<Rightarrow> chain_loop zlib pooled packs (Suc 63) p at None cache)"
proof -
  have "maxChainDepth = Suc 63" by (simp add: maxChainDepth_def)
  then show ?thesis by (simp only: walkPackChain_def)
qed

lemma walk_coherent:
  assumes "walkPackChain zlib pooled crc32 v a packs oid p at cache = Some (r, cache')" "coherent packs cache"
  shows "coherent packs cache'"
proof -
  from assms(1) consider "cache' = cache" | "chain_loop zlib pooled packs (Suc 63) p at None cache = Some (r, cache')"
    by (auto simp: walkPackChain_Suc simp del: chain_loop.simps split: option.splits sum.splits)
  then show ?thesis
  proof cases
    case 2
    then show ?thesis using chain_loop_sound [OF _ assms(2)] assms(2)
      unfolding chain_loop_first by (auto simp del: chain_loop.simps split: sum.splits)
  qed (use assms(2) in simp)
qed

lemma walk_transparent:
  assumes "coherent packs c1" "coherent packs c2"
  shows "map_option fst (walkPackChain zlib pooled crc32 v a packs oid p at c1) =
      map_option fst (walkPackChain zlib pooled crc32 v a packs oid p at c2)"
  using chain_loop_transparent [OF assms, of zlib pooled maxChainDepth p at None]
  by (auto simp: walkPackChain_def split: option.splits sum.splits)

section \<open>Properties\<close>


text \<open>C35: The cache of delta bases is invisible: with any two caches that agree with the packs the walk answers the
  same, error for error, and the cache it leaves agrees with them again.\<close>

theorem walk_cache_transparent:
  assumes "coherent packs c1" "coherent packs c2"
  shows "map_option fst (walkPackChain zlib pooled crc32 v a packs oid p at c1) =
      map_option fst (walkPackChain zlib pooled crc32 v a packs oid p at c2) \<and>
    (\<forall>r c'. walkPackChain zlib pooled crc32 v a packs oid p at c1 = Some (r, c') \<longrightarrow> coherent packs c')"
  using walk_transparent [OF assms] walk_coherent [OF _ assms(1)] by blast

lemma sample_pack_header: "ReadHeader (pp_pack sample_ptr) 12 = Inr sample_header"
proof -
  have c: "(char_of (21 :: nat) :: char) = CHR 0x15" by code_simp
  have e: "encode_header 12 sample_header = [CHR 0x15]"
    using c by (simp add: encode_header_def encode_type_size_def sample_header_def ObjectType_defs)
  have "drop 12 ((''PACK'' @ be_bytes 4 2 @ be_bytes 4 1) @ r) = r" for r :: string by simp
  then have d: "drop (nat 12) sample_pack = encode_header 12 sample_header @ ''body'' @ replicate 20 (CHR 0x00)"
    unfolding sample_pack_def pack_file_def by (simp only: append_assoc nat_numeral)
  show ?thesis unfolding sample_ptr_def PackPtr.select_convs
    by (rule fileReader.ReadHeader_encode [where rest = "''body'' @ replicate 20 (CHR 0x00)"])
      (use d e in \<open>simp_all add: sample_header_def wf_object_header_def ObjectType_defs\<close>)
qed


lemma sample_base: "base_of (CatalogBackend sample_catalog) (replicate 20 (CHR 0x10)) = Some (Some (sample_ptr, 12))"
proof -
  have "entry_of [sample_entry] (replicate 20 (CHR 0x10)) = Some sample_entry"
    by (simp add: entry_of_def sample_entry_def)
  then have "FindOffset (pe_idx sample_pair) (replicate 20 (CHR 0x10)) = Some (Some 12)"
    unfolding sample_pair_def packEntry.select_convs
    by (subst FindOffset_v2 [OF wf_sample_index]) (simp_all add: wf_hash_def sample_entry_def)
  then show ?thesis by (simp add: base_of_def idxCatalog_Lookup_def sample_catalog_def) (simp add: sample_pair_def)
qed

theorem walk_cache_transparent_witness:
  "let c = [replicate 20 (CHR 0x10) \<mapsto> Some (sample_ptr, 12)]; packs = CatalogBackend sample_catalog;
       walk = walkPackChain (\<lambda>_. Inl io_EOF) False (\<lambda>_. 0) True SHA1 packs (replicate 20 (CHR 0x10)) sample_ptr 12
   in map_option fst (walk c) = map_option fst (walk Map.empty)"
proof -
  have "coherent (CatalogBackend sample_catalog) [replicate 20 (CHR 0x10) \<mapsto> Some (sample_ptr, 12)]"
    using sample_base by (simp add: coherent_def)
  from walk_cache_transparent [OF this coherent_empty, of "\<lambda>_. Inl io_EOF" False "\<lambda>_. 0" True SHA1 "replicate 20 (CHR 0x10)" sample_ptr 12]
  show ?thesis by (simp add: Let_def)
qed

end
