(* ===== verification/Object_Store.thy ===== *)
theory Object_Store
  imports Reftable_Refs Git_Dir Store_Alternates Loose_Object Store_Packs
begin

text \<open>
  The object store (\<open>src/internal/objstore/store.go\<close>): opening a repository with its alternates, looking an object up
  through them (\<open>object_info.go\<close>), and closing it; \<open>openAlternates\<close> of \<open>alternates.go\<close>.

  \<^item> \<open>Env\<close> is what the code takes from outside: the file system, the resolution of links, the reader behind a pack file, zlib,
    the CRC, and what closing a file or a mapping answers.
  \<^item> A store is a node and the stores of its alternates. The type parameter of the code is the algorithm \<open>h\<close>; the mutexes
    have no counterpart, calls are sequential.
  \<^item> The recursion of opening is bounded by fuel, the depth of nesting. \<open>None\<close> stands for running out of it, or for a panic
    of the multi-pack-index; \<open>Open_terminates\<close> shows that the set of names seen keeps the depth finite.

  The lemmas: whatever fails, opening leaves no file open and closing gives back all it took; opening ends, cyclic alternates being
  an error; a lookup answers what the first store that has the object says, whatever the caches hold.
\<close>

section \<open>The environment\<close>

record Env =
  en_os :: OS
  en_links :: Links
  en_openReader :: "string \<Rightarrow> go_error + packReader"
  en_zlib :: "Source \<Rightarrow> go_error + Source \<times> go_error option"
  en_pooled :: bool
  en_crc32 :: "string \<Rightarrow> u32"
  en_closeFile :: "string \<Rightarrow> go_error option"
  en_unmap :: "reftable_Reader \<Rightarrow> go_error option"

section \<open>The store\<close>

record storeNode =
  sn_algo :: Algo
  sn_refs :: refBackend
  sn_loose :: looseObjects
  sn_packs :: packBackend
  sn_cfg :: storeConfig
  sn_peelCache :: "Hash \<rightharpoonup> Hash \<times> bool"
  sn_refDeltaCache :: refDeltaCache
  sn_closed :: "go_error option option"

datatype objStore = ObjStore (st_node: storeNode) (st_alternates: "objStore list")

definition objstore_ErrAlgoMismatch :: go_error where
  "objstore_ErrAlgoMismatch = Sentinel ''objstore: hash type does not match repository format''"

definition WithoutCRCCheck :: "storeConfig \<Rightarrow> storeConfig" where
  "WithoutCRCCheck c = c\<lparr>cfg_verifyCRC := False\<rparr>"

definition checkHashTypeMatchesAlgo :: "Algo \<Rightarrow> Algo \<Rightarrow> go_error option" where
  "checkHashTypeMatchesAlgo h a =
     (if a = h then None
      else Some (Wrapf (''objstore: store algo '' @ Algo_String a @ '' does not match H='' @
        (case h of SHA1 \<Rightarrow> ''SHA1Hash'' | SHA256 \<Rightarrow> ''SHA256Hash'') @ '': '') objstore_ErrAlgoMismatch []))"

definition openRefBackend :: "Env \<Rightarrow> Algo \<Rightarrow> string \<Rightarrow> string \<Rightarrow> storeConfig \<Rightarrow> go_error + refBackend" where
  "openRefBackend env h gitDir commonDir cfg =
     (let format = rs_format (cfg_refStorage cfg) in
      if format = ''files'' then map_sum id LooseBackend (openLooseRefs (en_os env) h gitDir commonDir)
      else if format = ''reftable'' then
        map_sum id ReftableBackend (openReftableBackend (en_os env) h gitDir commonDir (rs_location (cfg_refStorage cfg)))
      else Inl (Wrapf (''objstore: refStorage='' @ quote format @ '': '') ErrUnsupportedFormat []))"

definition openPackBackend :: "Env \<Rightarrow> string \<Rightarrow> storeConfig \<Rightarrow> handles \<Rightarrow> ((go_error + packBackend) \<times> handles) option" where
  "openPackBackend env commonDir cfg hs =
     (let midx = Join_path [commonDir, ''objects'', ''pack'', ''multi-pack-index''] in
      case os_Stat (en_os env) midx of
        Inr _ \<Rightarrow> map_option (map_prod (map_sum id MultiBackend) id) (openMidxBackend (en_os env) (en_openReader env) commonDir (cfg_algo cfg) hs)
      | Inl err \<Rightarrow>
          if errors_Is err os_ErrNotExist then
            Some (map_prod (map_sum id CatalogBackend) id (openIdxCatalog (en_os env) (en_openReader env) commonDir (cfg_algo cfg) hs))
          else Some (Inl (Wrapf (''objstore: stat '' @ midx @ '': '') err []), hs))"

section \<open>Closing\<close>

text \<open>The cascade: refs, loose objects, packs, alternates; the errors are joined, and kept for later calls.\<close>

fun store_Close :: "Env \<Rightarrow> objStore \<Rightarrow> handles \<Rightarrow> go_error option \<times> objStore \<times> handles"
  and close_alternates :: "Env \<Rightarrow> objStore list \<Rightarrow> handles \<Rightarrow> go_error option list \<times> objStore list \<times> handles" where
  "store_Close env (ObjStore node alts) hs = (case sn_closed node of
      Some closeErr \<Rightarrow> (closeErr, ObjStore node alts, hs)
    | None \<Rightarrow>
        (case refs_Close (en_unmap env) (sn_refs node) of (refsErr, refs) \<Rightarrow>
          case packs_Close (en_closeFile env) (sn_packs node) hs of (packsErr, packs, hs) \<Rightarrow>
          case close_alternates env alts hs of (altErrs, alts, hs) \<Rightarrow>
            let closeErr = errors_Join ([refsErr, None, packsErr] @ altErrs) in
            (closeErr, ObjStore (node\<lparr>sn_refs := refs, sn_packs := packs, sn_closed := Some closeErr\<rparr>) alts, hs)))"
| "close_alternates env [] hs = ([], [], hs)"
| "close_alternates env (s # ss) hs = (case store_Close env s hs of (err, s, hs) \<Rightarrow>
     (case close_alternates env ss hs of (errs, ss, hs) \<Rightarrow> (err # errs, s # ss, hs)))"

section \<open>Opening\<close>

text \<open>
  The loop over the entries of the alternates file. \<open>opener\<close> opens the store of a directory; like it, the loop threads the
  set \<open>seen\<close> and the open files. \<open>opened\<close> are the stores open so far.
\<close>

type_synonym 'r open_result = "((go_error + 'r) \<times> string list \<times> handles) option"

fun open_entries ::
  "Env \<Rightarrow> (string \<Rightarrow> string list \<Rightarrow> handles \<Rightarrow> objStore open_result) \<Rightarrow> string list \<Rightarrow> objStore list \<Rightarrow> string list \<Rightarrow> handles \<Rightarrow>
    objStore list open_result" where
  "open_entries env opener [] opened seen hs = Some (Inr opened, seen, hs)"
| "open_entries env opener (objectsDir # entries) opened seen hs =
     (let altGitDir = Dir objectsDir; canonical = canonicalRepoDir (en_links env) altGitDir;
          closeAll = (\<lambda>hs. snd (snd (close_alternates env opened hs))) in
      if canonical \<in> set seen then
        Some (Inl (Wrapf (''objstore: alternates cycle through '' @ canonical @ '': '') ErrCorruptObject []), seen, closeAll hs)
      else case opener altGitDir seen hs of
        None \<Rightarrow> None
      | Some (Inl err, seen, hs) \<Rightarrow> Some (Inl (Wrapf (''objstore: alternate '' @ altGitDir @ '': '') err []), seen, closeAll hs)
      | Some (Inr alt, seen, hs) \<Rightarrow> open_entries env opener entries (opened @ [alt]) seen hs)"

definition openAlternates ::
  "Env \<Rightarrow> (string \<Rightarrow> string list \<Rightarrow> handles \<Rightarrow> objStore open_result) \<Rightarrow> string \<Rightarrow> string list \<Rightarrow> handles \<Rightarrow> objStore list open_result" where
  "openAlternates env opener commonDir seen hs =
     (let path = Join_path [commonDir, ''objects'', ''info'', ''alternates''] in
      case os_ReadFile (en_os env) path of
        Inl err \<Rightarrow>
          if errors_Is err os_ErrNotExist then Some (Inr [], seen, hs)
          else Some (Inl (Wrapf (''objstore: read '' @ path @ '': '') err []), seen, hs)
      | Inr raw \<Rightarrow> open_entries env opener (parseAlternates (en_links env) raw (Join_path [commonDir, ''objects''])) [] seen hs)"

text \<open>The part of opening that reads the repository itself, and what it left open on an error.\<close>

definition open_node :: "Env \<Rightarrow> Algo \<Rightarrow> string \<Rightarrow> (storeConfig \<Rightarrow> storeConfig) list \<Rightarrow> handles \<Rightarrow> ((go_error + string \<times> storeNode) \<times> handles) option" where
  "open_node env h path opts hs = (case resolveGitDir (en_os env) path of
      Inl err \<Rightarrow> Some (Inl err, hs)
    | Inr (gitDir, commonDir) \<Rightarrow> (case readGitConfig (en_os env) commonDir of
        Inl err \<Rightarrow> Some (Inl err, hs)
      | Inr cfg0 \<Rightarrow>
          let cfg = fold (\<lambda>opt c. opt c) opts cfg0 in
          (case checkHashTypeMatchesAlgo h (cfg_algo cfg) of
            Some err \<Rightarrow> Some (Inl err, hs)
          | None \<Rightarrow> (case openRefBackend env h gitDir commonDir cfg of
              Inl err \<Rightarrow> Some (Inl err, hs)
            | Inr refs \<Rightarrow> (case openLoose commonDir (cfg_algo cfg) of
                Inl err \<Rightarrow> Some (Inl err, hs)
              | Inr loose \<Rightarrow> (case openPackBackend env commonDir cfg hs of
                  None \<Rightarrow> None
                | Some (Inl err, hs) \<Rightarrow> Some (Inl err, hs)
                | Some (Inr packs, hs) \<Rightarrow> Some (Inr (commonDir,
                    \<lparr>sn_algo = cfg_algo cfg, sn_refs = refs, sn_loose = loose, sn_packs = packs, sn_cfg = cfg,
                     sn_peelCache = Map.empty, sn_refDeltaCache = Map.empty, sn_closed = None\<rparr>), hs)))))))"

text \<open>The store marks itself while its alternates are opened, and takes its mark away again.\<close>

primrec openWithSeen ::
  "nat \<Rightarrow> Env \<Rightarrow> Algo \<Rightarrow> (storeConfig \<Rightarrow> storeConfig) list \<Rightarrow> string \<Rightarrow> string list \<Rightarrow> handles \<Rightarrow> objStore open_result" where
  "openWithSeen 0 env h opts path seen hs = None"
| "openWithSeen (Suc n) env h opts path seen hs = (case open_node env h path opts hs of
      None \<Rightarrow> None
    | Some (Inl err, hs) \<Rightarrow> Some (Inl err, seen, hs)
    | Some (Inr (commonDir, node), hs) \<Rightarrow>
        let canonical = canonicalRepoDir (en_links env) commonDir in
        (case openAlternates env (openWithSeen n env h []) commonDir (canonical # seen) hs of
          None \<Rightarrow> None
        | Some (Inl err, seen, hs) \<Rightarrow>
            Some (Inl err, removeAll canonical seen, snd (snd (packs_Close (en_closeFile env) (sn_packs node) hs)))
        | Some (Inr alts, seen, hs) \<Rightarrow> Some (Inr (ObjStore node alts), removeAll canonical seen, hs)))"

definition store_Open :: "nat \<Rightarrow> Env \<Rightarrow> Algo \<Rightarrow> string \<Rightarrow> (storeConfig \<Rightarrow> storeConfig) list \<Rightarrow> handles \<Rightarrow> objStore open_result" where
  "store_Open n env h path opts hs = openWithSeen n env h opts path [] hs"

section \<open>Looking up\<close>

definition store_Algo :: "objStore \<Rightarrow> Algo" where
  "store_Algo s = sn_algo (st_node s)"

fun store_ObjectInfo :: "Env \<Rightarrow> Hash \<Rightarrow> objStore \<Rightarrow> ((go_error + Info) \<times> objStore) option"
  and alternates_ObjectInfo :: "Env \<Rightarrow> Hash \<Rightarrow> objStore list \<Rightarrow> ((go_error + Info) \<times> objStore list) option" where
  "store_ObjectInfo env oid (ObjStore node alts) =
     (case loose_Find (en_zlib env) (en_os env) (sn_loose node) oid of
        Inl err \<Rightarrow> Some (Inl err, ObjStore node alts)
      | Inr (Some (typ, sz, body)) \<Rightarrow> Some (Inr \<lparr>info_Type = typ, info_Size = sz\<rparr>, ObjStore node alts)
      | Inr None \<Rightarrow> (case packs_Lookup (sn_packs node) oid of
          None \<Rightarrow> None
        | Some (Inl err) \<Rightarrow> Some (Inl err, ObjStore node alts)
        | Some (Inr (Some (pack, off))) \<Rightarrow>
            (case walkPackChain (en_zlib env) (en_pooled env) (en_crc32 env) (cfg_verifyCRC (sn_cfg node)) (sn_algo node)
                (sn_packs node) oid pack off (sn_refDeltaCache node) of
              None \<Rightarrow> None
            | Some (res, cache) \<Rightarrow> Some (res, ObjStore (node\<lparr>sn_refDeltaCache := cache\<rparr>) alts))
        | Some (Inr None) \<Rightarrow> (case alternates_ObjectInfo env oid alts of
            None \<Rightarrow> None
          | Some (res, alts) \<Rightarrow> Some (res, ObjStore node alts))))"
| "alternates_ObjectInfo env oid [] = Some (Inl os_ErrNotExist, [])"
| "alternates_ObjectInfo env oid (alt # alts) = (case store_ObjectInfo env oid alt of
      None \<Rightarrow> None
    | Some (Inr info, alt) \<Rightarrow> Some (Inr info, alt # alts)
    | Some (Inl err, alt) \<Rightarrow>
        if \<not> errors_Is err os_ErrNotExist then Some (Inl err, alt # alts)
        else (case alternates_ObjectInfo env oid alts of
            None \<Rightarrow> None
          | Some (res, alts) \<Rightarrow> Some (res, alt # alts)))"

section \<open>Open files\<close>

primrec packs_held :: "packBackend \<Rightarrow> string list" where
  "packs_held (CatalogBackend c) = pack_paths (ic_packs c)"
| "packs_held (MultiBackend b) = pack_paths (present (mb_covered b) @ mb_siblings b)"

primrec packs_closed :: "packBackend \<Rightarrow> bool" where
  "packs_closed (CatalogBackend c) = ic_closed c"
| "packs_closed (MultiBackend b) = mb_closed b"

primrec held :: "objStore \<Rightarrow> string multiset" where
  "held (ObjStore node alts) = mset (packs_held (sn_packs node)) + sum_list (map held alts)"

primrec not_closed :: "objStore \<Rightarrow> bool" where
  "not_closed (ObjStore node alts) \<longleftrightarrow> sn_closed node = None \<and> \<not> packs_closed (sn_packs node) \<and> list_all id (map not_closed alts)"

lemma packs_Close_held: "\<not> packs_closed p \<Longrightarrow> mset (snd (snd (packs_Close perr p hs))) = mset hs - mset (packs_held p)"
  by (cases p)
    (simp_all add: idxCatalog_Close_def midxBackend_Close_def Let_def mset_close_opened mset_midx_close_opened split: prod.split)

lemma openPackBackend_held:
  assumes "openPackBackend env commonDir cfg hs = Some (r, hs')" "distinct_names (en_os env)"
  shows "case r of Inl _ \<Rightarrow> mset hs' = mset hs | Inr p \<Rightarrow> mset hs' = mset hs + mset (packs_held p) \<and> \<not> packs_closed p"
proof -
  have "\<exists>r0. (openMidxBackend (en_os env) (en_openReader env) commonDir (cfg_algo cfg) hs = Some (r0, hs') \<and> r = map_sum id MultiBackend r0) \<or>
      (\<exists>r0. openIdxCatalog (en_os env) (en_openReader env) commonDir (cfg_algo cfg) hs = (r0, hs') \<and> r = map_sum id CatalogBackend r0) \<or>
      (\<exists>err. r = Inl err \<and> hs' = hs)"
    using assms(1) by (auto simp: openPackBackend_def Let_def map_prod_def split: sum.splits if_splits prod.splits)
  then consider (midx) r0 where "openMidxBackend (en_os env) (en_openReader env) commonDir (cfg_algo cfg) hs = Some (r0, hs')" "r = map_sum id MultiBackend r0"
    | (catalog) r0 where "openIdxCatalog (en_os env) (en_openReader env) commonDir (cfg_algo cfg) hs = (r0, hs')" "r = map_sum id CatalogBackend r0"
    | (err) err where "r = Inl err" "hs' = hs" by blast
  then show ?thesis
  proof cases
    case midx
    with openMidxBackend_result [OF midx(1) assms(2)] show ?thesis by (auto split: sum.splits)
  next
    case catalog
    with openIdxCatalog_result [OF catalog(1)] show ?thesis by (auto split: sum.splits)
  qed simp
qed

lemma store_Close_held:
  "not_closed s \<Longrightarrow> mset (snd (snd (store_Close env s hs))) = mset hs - held s"
  "list_all not_closed ss \<Longrightarrow> mset (snd (snd (close_alternates env ss hs))) = mset hs - sum_list (map held ss)"
proof (induction env s hs and env ss hs rule: store_Close_close_alternates.induct)
  case (1 env node alts hs)
  obtain refsErr refs where r: "refs_Close (en_unmap env) (sn_refs node) = (refsErr, refs)" by fastforce
  obtain packsErr packs hs1 where p: "packs_Close (en_closeFile env) (sn_packs node) hs = (packsErr, packs, hs1)" by (metis prod_cases3)
  have "mset hs1 = mset hs - mset (packs_held (sn_packs node))"
    using packs_Close_held [of "sn_packs node" "en_closeFile env" hs] 1(2) p by simp
  moreover have "mset (snd (snd (close_alternates env alts hs1))) = mset hs1 - sum_list (map held alts)"
    using 1(1) [OF _ r [symmetric] p [symmetric] refl] 1(2) by (simp add: list_all_iff)
  moreover obtain errs closed hs2 where "close_alternates env alts hs1 = (errs, closed, hs2)" by (metis prod_cases3)
  ultimately show ?case using 1(2) r p by (simp add: Let_def)
next
  case (3 env s ss hs)
  then show ?case by (auto simp: diff_diff_add_mset split: prod.splits)
qed simp_all

lemma store_Close_again:
  assumes "store_Close env s hs = (err, s', hs')" "not_closed s"
  shows "store_Close env s' later = (err, s', later)"
  using assms by (cases s) (auto simp: Let_def split: prod.splits)

lemma open_node_held:
  assumes "open_node env h path opts hs = Some (r, hs')" "distinct_names (en_os env)"
  shows "case r of Inl _ \<Rightarrow> mset hs' = mset hs
    | Inr (c, node) \<Rightarrow> mset hs' = mset hs + mset (packs_held (sn_packs node)) \<and> \<not> packs_closed (sn_packs node) \<and> sn_closed node = None"
  using assms(1) openPackBackend_held [OF _ assms(2)]
  by (fastforce simp: open_node_def Let_def split: sum.splits prod.splits option.splits)

definition balanced :: "handles \<Rightarrow> go_error + objStore list \<Rightarrow> handles \<Rightarrow> bool" where
  "balanced hs r hs' = (case r of
      Inl _ \<Rightarrow> mset hs' = mset hs
    | Inr ss \<Rightarrow> mset hs' = mset hs + sum_list (map held ss) \<and> list_all not_closed ss)"

lemma open_entries_held:
  assumes "\<And>dir seen hs r seen' hs'. opener dir seen hs = Some (r, seen', hs') \<Longrightarrow> balanced hs (map_sum id (\<lambda>s. [s]) r) hs'"
  shows "open_entries env opener entries opened seen hs1 = Some (r, seen', hs') \<Longrightarrow>
    mset hs1 = mset hs + sum_list (map held opened) \<Longrightarrow> list_all not_closed opened \<Longrightarrow> balanced hs r hs'"
proof (induction entries arbitrary: opened seen hs1)
  case Nil
  then show ?case by (auto simp: balanced_def)
next
  case (Cons e entries)
  let ?c = "canonicalRepoDir (en_links env) (Dir e)"
  have close: "mset (snd (snd (close_alternates env opened hs2))) = mset hs" if "mset hs2 = mset hs1" for hs2
    using store_Close_held(2) [OF Cons.prems(3), of env hs2] that Cons.prems(2) by simp
  show ?case
  proof (cases "?c \<in> set seen")
    case True
    with Cons.prems(1) close show ?thesis by (auto simp: Let_def balanced_def)
  next
    case False
    then obtain r1 seen1 hs2 where o: "opener (Dir e) seen hs1 = Some (r1, seen1, hs2)"
      using Cons.prems(1) by (auto simp: Let_def split: option.splits)
    note b = assms [OF o]
    show ?thesis
    proof (cases r1)
      case (Inl err)
      with b close Cons.prems(1) False o show ?thesis by (auto simp: balanced_def)
    next
      case (Inr s)
      have "open_entries env opener entries (opened @ [s]) seen1 hs2 = Some (r, seen', hs')"
        using Cons.prems(1) False o Inr by simp
      from Cons.IH [OF this] b Inr Cons.prems(2,3) show ?thesis by (simp add: balanced_def add_ac)
    qed
  qed
qed

lemma openWithSeen_held:
  "openWithSeen n env h opts path seen hs = Some (r, seen', hs') \<Longrightarrow> distinct_names (en_os env) \<Longrightarrow> balanced hs (map_sum id (\<lambda>s. [s]) r) hs'"
proof (induction n arbitrary: opts path seen hs r seen' hs')
  case (Suc n)
  obtain r0 hs0 where o: "open_node env h path opts hs = Some (r0, hs0)" using Suc.prems(1) by (auto split: option.splits)
  note held0 = open_node_held [OF o Suc.prems(2)]
  show ?case
  proof (cases r0)
    case (Inl err)
    with o Suc.prems(1) held0 show ?thesis by (auto simp: balanced_def)
  next
    case (Inr x)
    obtain c node where x: "x = (c, node)" by fastforce
    let ?canon = "canonicalRepoDir (en_links env) c"
    obtain r1 seen1 hs1 where a: "openAlternates env (openWithSeen n env h []) c (?canon # seen) hs0 = Some (r1, seen1, hs1)"
      using Suc.prems(1) o Inr x by (auto simp: Let_def split: option.splits)
    have opener: "\<And>dir seen hs r seen' hs'. openWithSeen n env h [] dir seen hs = Some (r, seen', hs') \<Longrightarrow> balanced hs (map_sum id (\<lambda>s. [s]) r) hs'"
      using Suc.IH Suc.prems(2) by blast
    have b: "balanced hs0 r1 hs1"
    proof (cases "os_ReadFile (en_os env) (Join_path [c, ''objects'', ''info'', ''alternates''])")
      case (Inl err)
      with a show ?thesis by (auto simp: openAlternates_def Let_def balanced_def split: if_splits)
    next
      case (Inr raw)
      with a have "open_entries env (openWithSeen n env h []) (parseAlternates (en_links env) raw (Join_path [c, ''objects''])) [] (?canon # seen) hs0 = Some (r1, seen1, hs1)"
        by (simp add: openAlternates_def Let_def)
      from open_entries_held [OF opener this, where hs = hs0] show ?thesis by simp
    qed
    show ?thesis
    proof (cases r1)
      case (Inl err)
      have "mset (snd (snd (packs_Close (en_closeFile env) (sn_packs node) hs1))) = mset hs1 - mset (packs_held (sn_packs node))"
        using held0 Inr x \<open>r0 = Inr x\<close> by (intro packs_Close_held) simp
      with Inl b a o \<open>r0 = Inr x\<close> x held0 Suc.prems(1) show ?thesis by (auto simp: Let_def balanced_def)
    next
      case (Inr alts)
      with b a o \<open>r0 = Inr x\<close> x held0 Suc.prems(1) show ?thesis
        by (auto simp: Let_def balanced_def add_ac list_all_iff)
    qed
  qed
qed simp

section \<open>Opening ends\<close>

text \<open>
  \<open>closed_under\<close>: a set of repositories, each known by its common directory, that following the alternates does not leave, whose
  multi-pack-indexes can be read, and where the name the entry gives and the repository found there are one under links.
\<close>

definition reads_to :: "Env \<Rightarrow> string \<Rightarrow> string \<Rightarrow> bool" where
  "reads_to env dir c \<longleftrightarrow> (\<exists>g. resolveGitDir (en_os env) dir = Inr (g, c))"

definition closed_under :: "Env \<Rightarrow> string set \<Rightarrow> bool" where
  "closed_under env C \<longleftrightarrow> (\<forall>c\<in>C. (\<forall>cfg hs. openPackBackend env c cfg hs \<noteq> None) \<and>
     (\<forall>raw. os_ReadFile (en_os env) (Join_path [c, ''objects'', ''info'', ''alternates'']) = Inr raw \<longrightarrow>
       (\<forall>e\<in>set (parseAlternates (en_links env) raw (Join_path [c, ''objects''])).
         \<forall>c'. reads_to env (Dir e) c' \<longrightarrow> c' \<in> C \<and> canonicalRepoDir (en_links env) c' = canonicalRepoDir (en_links env) (Dir e))))"

lemma open_node_reads:
  "open_node env h path opts hs = Some (Inr (c, node), hs') \<Longrightarrow> reads_to env path c"
  by (auto simp: open_node_def reads_to_def Let_def split: sum.splits prod.splits option.splits)

lemma open_node_answers:
  assumes "\<And>c cfg hs. reads_to env path c \<Longrightarrow> openPackBackend env c cfg hs \<noteq> None"
  shows "\<exists>r hs'. open_node env h path opts hs = Some (r, hs')"
proof (cases "resolveGitDir (en_os env) path")
  case (Inl err)
  then show ?thesis by (simp add: open_node_def)
next
  case (Inr x)
  obtain g c where x: "x = (g, c)" by fastforce
  show ?thesis
  proof (cases "readGitConfig (en_os env) c")
    case (Inl err)
    with Inr x show ?thesis by (simp add: open_node_def)
  next
    case (Inr cfg)
    have "openPackBackend env c (fold (\<lambda>opt c. opt c) opts cfg) hs \<noteq> None"
      using assms \<open>resolveGitDir (en_os env) path = Inr x\<close> x by (simp add: reads_to_def)
    then obtain r hs1 where "openPackBackend env c (fold (\<lambda>opt c. opt c) opts cfg) hs = Some (r, hs1)" by fastforce
    with Inr x \<open>resolveGitDir (en_os env) path = Inr x\<close> show ?thesis
      by (simp add: open_node_def Let_def split: option.split sum.split)
  qed
qed

lemma open_entries_answers:
  assumes "\<And>e hs. e \<in> set entries \<Longrightarrow> canonicalRepoDir (en_links env) (Dir e) \<notin> set seen \<Longrightarrow> \<exists>r hs'. opener (Dir e) seen hs = Some (r, seen, hs')"
  shows "\<exists>r hs'. open_entries env opener entries opened seen hs = Some (r, seen, hs')"
  using assms
proof (induction entries arbitrary: opened hs)
  case (Cons e entries)
  show ?case
  proof (cases "canonicalRepoDir (en_links env) (Dir e) \<in> set seen")
    case False
    with Cons.prems obtain r hs' where "opener (Dir e) seen hs = Some (r, seen, hs')" by fastforce
    with False Cons.IH Cons.prems show ?thesis by (cases r) (simp_all add: Let_def)
  qed (simp add: Let_def)
qed simp

lemma openWithSeen_answers:
  assumes "finite C" "closed_under env C"
  shows "(\<And>c. reads_to env path c \<Longrightarrow> c \<in> C \<and> canonicalRepoDir (en_links env) c \<notin> set seen) \<Longrightarrow>
    card (canonicalRepoDir (en_links env) ` C - set seen) < n \<Longrightarrow>
    \<exists>r hs'. openWithSeen n env h opts path seen hs = Some (r, seen, hs')"
proof (induction n arbitrary: opts path seen hs)
  case (Suc n)
  let ?canon = "canonicalRepoDir (en_links env)"
  obtain r0 hs0 where o: "open_node env h path opts hs = Some (r0, hs0)"
    using open_node_answers [of env path h opts hs] Suc.prems(1) assms(2) by (auto simp: closed_under_def)
  show ?case
  proof (cases r0)
    case (Inl err)
    with o show ?thesis by simp
  next
    case (Inr x)
    obtain c node where x: "x = (c, node)" by fastforce
    have c: "c \<in> C" "?canon c \<notin> set seen" using Suc.prems(1) open_node_reads o Inr x by blast+
    have "card (?canon ` C - set (?canon c # seen)) < card (?canon ` C - set seen)"
      using c assms(1) by (intro psubset_card_mono) auto
    then have less: "card (?canon ` C - set (?canon c # seen)) < n" using Suc.prems(2) by linarith
    have "\<exists>r hs'. openAlternates env (openWithSeen n env h []) c (?canon c # seen) hs0 = Some (r, ?canon c # seen, hs')"
    proof (cases "os_ReadFile (en_os env) (Join_path [c, ''objects'', ''info'', ''alternates''])")
      case (Inl err)
      then show ?thesis by (auto simp: openAlternates_def Let_def)
    next
      case (Inr raw)
      have "\<exists>r hs'. openWithSeen n env h [] (Dir e) (?canon c # seen) hs = Some (r, ?canon c # seen, hs')"
        if "e \<in> set (parseAlternates (en_links env) raw (Join_path [c, ''objects'']))" "?canon (Dir e) \<notin> set (?canon c # seen)" for e hs
      proof (rule Suc.IH [OF _ less])
        fix c'
        assume "reads_to env (Dir e) c'"
        with assms(2) c(1) Inr that(1) have "c' \<in> C" "?canon c' = ?canon (Dir e)" unfolding closed_under_def by blast+
        with that(2) show "c' \<in> C \<and> ?canon c' \<notin> set (?canon c # seen)" by simp
      qed
      then have "\<exists>r hs'. open_entries env (openWithSeen n env h []) (parseAlternates (en_links env) raw (Join_path [c, ''objects''])) []
          (?canon c # seen) hs0 = Some (r, ?canon c # seen, hs')"
        by (intro open_entries_answers) blast
      with Inr show ?thesis by (simp add: openAlternates_def Let_def)
    qed
    then obtain r1 hs1 where a: "openAlternates env (openWithSeen n env h []) c (?canon c # seen) hs0 = Some (r1, ?canon c # seen, hs1)"
      by blast
    with o Inr x c(2) show ?thesis by (cases r1) (simp_all add: Let_def removeAll_id)
  qed
qed simp

section \<open>Finding an object\<close>

text \<open>The stores in the order a lookup asks them, and what the first that knows the object says of it.\<close>

primrec nodes :: "objStore \<Rightarrow> storeNode list" where
  "nodes (ObjStore node alts) = node # concat (map nodes alts)"

definition node_info :: "Env \<Rightarrow> Hash \<Rightarrow> storeNode \<Rightarrow> (go_error + Info) option option" where
  "node_info env oid node = (case loose_Find (en_zlib env) (en_os env) (sn_loose node) oid of
      Inl err \<Rightarrow> Some (Some (Inl err))
    | Inr (Some (typ, sz, body)) \<Rightarrow> Some (Some (Inr \<lparr>info_Type = typ, info_Size = sz\<rparr>))
    | Inr None \<Rightarrow> (case packs_Lookup (sn_packs node) oid of
        None \<Rightarrow> None
      | Some (Inl err) \<Rightarrow> Some (Some (Inl err))
      | Some (Inr None) \<Rightarrow> Some None
      | Some (Inr (Some (pack, off))) \<Rightarrow> map_option (Some \<circ> fst)
          (walkPackChain (en_zlib env) (en_pooled env) (en_crc32 env) (cfg_verifyCRC (sn_cfg node)) (sn_algo node)
            (sn_packs node) oid pack off Map.empty)))"

primrec first_info :: "(go_error + Info) option option list \<Rightarrow> (go_error + Info) option" where
  "first_info [] = Some (Inl os_ErrNotExist)"
| "first_info (x # xs) = (case x of None \<Rightarrow> None | Some None \<Rightarrow> first_info xs | Some (Some r) \<Rightarrow> Some r)"

definition coherent_store :: "objStore \<Rightarrow> bool" where
  "coherent_store s \<longleftrightarrow> (\<forall>node\<in>set (nodes s). coherent (sn_packs node) (sn_refDeltaCache node))"

text \<open>A missing object is what only the absence of it is called: no failure of a store passes for one.\<close>

definition own_errors :: "(go_error + Info) option option list \<Rightarrow> bool" where
  "own_errors xs \<longleftrightarrow> (\<forall>err. Some (Some (Inl err)) \<in> set xs \<longrightarrow> \<not> errors_Is err os_ErrNotExist)"

lemma own_errors_simps [simp]:
  "own_errors []"
  "own_errors (x # xs) \<longleftrightarrow> (\<forall>err. x = Some (Some (Inl err)) \<longrightarrow> \<not> errors_Is err os_ErrNotExist) \<and> own_errors xs"
  "own_errors (xs @ ys) \<longleftrightarrow> own_errors xs \<and> own_errors ys"
  by (auto simp: own_errors_def)

lemma first_info_append:
  "own_errors xs \<Longrightarrow> first_info (xs @ ys) = (case first_info xs of
      Some (Inl err) \<Rightarrow> if errors_Is err os_ErrNotExist then first_info ys else Some (Inl err)
    | r \<Rightarrow> r)"
proof (induction xs)
  case Nil
  show ?case by simp
next
  case (Cons x xs)
  then show ?case by (auto split: option.split sum.split)
qed

lemma lookup_first:
  "own_errors (map (node_info env oid) (nodes s)) \<Longrightarrow> coherent_store s \<Longrightarrow>
    map_option fst (store_ObjectInfo env oid s) = first_info (map (node_info env oid) (nodes s)) \<and>
    (\<forall>r s'. store_ObjectInfo env oid s = Some (r, s') \<longrightarrow> coherent_store s')"
  "own_errors (map (node_info env oid) (concat (map nodes ss))) \<Longrightarrow> list_all coherent_store ss \<Longrightarrow>
    map_option fst (alternates_ObjectInfo env oid ss) = first_info (map (node_info env oid) (concat (map nodes ss))) \<and>
    (\<forall>r ss'. alternates_ObjectInfo env oid ss = Some (r, ss') \<longrightarrow> list_all coherent_store ss')"
proof (induction env oid s and env oid ss rule: store_ObjectInfo_alternates_ObjectInfo.induct)
  case (1 env oid node alts)
  have c: "coherent (sn_packs node) (sn_refDeltaCache node)" "list_all coherent_store alts"
    using 1(3) by (auto simp: coherent_store_def list_all_iff)
  show ?case
  proof (cases "loose_Find (en_zlib env) (en_os env) (sn_loose node) oid")
    case (Inl err)
    with 1(3) show ?thesis by (simp add: node_info_def)
  next
    case loose: (Inr found)
    show ?thesis
    proof (cases found)
      case (Some x)
      with loose 1(3) show ?thesis by (cases x) (simp add: node_info_def)
    next
      case None
      consider (panic) "packs_Lookup (sn_packs node) oid = None" | (err) err where "packs_Lookup (sn_packs node) oid = Some (Inl err)"
        | (hit) pack off where "packs_Lookup (sn_packs node) oid = Some (Inr (Some (pack, off)))"
        | (miss) "packs_Lookup (sn_packs node) oid = Some (Inr None)"
        by (metis option.exhaust sum.exhaust surj_pair)
      then show ?thesis
      proof cases
        case panic
        with loose None show ?thesis by (simp add: node_info_def)
      next
        case err
        with loose None 1(3) show ?thesis by (simp add: node_info_def)
      next
        case hit
        let ?walk = "walkPackChain (en_zlib env) (en_pooled env) (en_crc32 env) (cfg_verifyCRC (sn_cfg node)) (sn_algo node)
            (sn_packs node) oid pack off"
        have t: "map_option fst (?walk (sn_refDeltaCache node)) = map_option fst (?walk Map.empty)"
          by (rule walk_transparent [OF c(1) coherent_empty])
        have co: "coherent (sn_packs node) cache'" if "?walk (sn_refDeltaCache node) = Some (r, cache')" for r cache'
          by (rule walk_coherent [OF that c(1)])
        have i: "node_info env oid node = map_option (Some \<circ> fst) (?walk Map.empty)"
          using loose None hit by (simp add: node_info_def)
        have o: "store_ObjectInfo env oid (ObjStore node alts) = (case ?walk (sn_refDeltaCache node) of
            None \<Rightarrow> None | Some (res, cache) \<Rightarrow> Some (res, ObjStore (node\<lparr>sn_refDeltaCache := cache\<rparr>) alts))"
          using loose None hit by simp
        show ?thesis
        proof (cases "?walk (sn_refDeltaCache node)")
          case None
          with t i o show ?thesis by simp
        next
          case (Some x)
          obtain r cache' where x: "x = (r, cache')" by fastforce
          have "map_option fst (?walk Map.empty) = Some r" using t Some x by simp
          then have "node_info env oid node = Some (Some r)" unfolding i by (auto simp: o_def)
          moreover have "coherent_store (ObjStore (node\<lparr>sn_refDeltaCache := cache'\<rparr>) alts)"
            using co Some x c(2) by (auto simp: coherent_store_def list_all_iff)
          ultimately show ?thesis unfolding o using Some x by simp
        qed
      next
        case miss
        have "own_errors (map (node_info env oid) (concat (map nodes alts)))" using 1(2) by simp
        note ih = 1(1) [OF loose None miss refl refl this c(2)]
        have i: "node_info env oid node = Some None" using loose None miss by (simp add: node_info_def)
        have o: "store_ObjectInfo env oid (ObjStore node alts) = (case alternates_ObjectInfo env oid alts of
            None \<Rightarrow> None | Some (res, alts) \<Rightarrow> Some (res, ObjStore node alts))"
          using loose None miss by simp
        show ?thesis
        proof (cases "alternates_ObjectInfo env oid alts")
          case None
          with ih i o show ?thesis by simp
        next
          case (Some x)
          with ih i o c(1) show ?thesis by (cases x) (auto simp: coherent_store_def list_all_iff)
        qed
      qed
    qed
  qed
next
  case (3 env oid alt alts)
  let ?i = "node_info env oid"
  have c: "coherent_store alt" "list_all coherent_store alts" using 3(4) by simp_all
  have e: "own_errors (map ?i (nodes alt))" "own_errors (map ?i (concat (map nodes alts)))" using 3(3) by simp_all
  note ih = 3(1) [OF e(1) c(1)]
  show ?case
  proof (cases "store_ObjectInfo env oid alt")
    case None
    with ih show ?thesis by (simp add: first_info_append [OF e(1)])
  next
    case (Some x)
    obtain r alt' where x: "x = (r, alt')" by fastforce
    have f: "first_info (map ?i (nodes alt)) = Some r" "coherent_store alt'" using ih Some x by simp_all
    show ?thesis
    proof (cases r)
      case (Inr info)
      with f Some x c(2) show ?thesis by (simp add: first_info_append [OF e(1)])
    next
      case (Inl err)
      show ?thesis
      proof (cases "errors_Is err os_ErrNotExist")
        case False
        with Inl f Some x c(2) show ?thesis by (simp add: first_info_append [OF e(1)])
      next
        case True
        note ih2 = 3(2) [OF Some x [symmetric] Inl _ e(2) c(2)]
        show ?thesis
          using ih2 f Some x Inl True by (cases "alternates_ObjectInfo env oid alts") (auto simp: first_info_append [OF e(1)])
      qed
    qed
  qed
qed simp_all

section \<open>More fuel\<close>

lemma open_entries_mono:
  "(\<And>dir seen hs x. opener dir seen hs = Some x \<Longrightarrow> opener' dir seen hs = Some x) \<Longrightarrow>
    open_entries env opener entries opened seen hs = Some x \<Longrightarrow> open_entries env opener' entries opened seen hs = Some x"
proof (induction entries arbitrary: opened seen hs)
  case (Cons e entries)
  show ?case
  proof (cases "canonicalRepoDir (en_links env) (Dir e) \<in> set seen")
    case True
    with Cons.prems(2) show ?thesis by (simp add: Let_def)
  next
    case False
    then obtain r seen' hs' where "opener (Dir e) seen hs = Some (r, seen', hs')"
      using Cons.prems(2) by (auto simp: Let_def split: option.splits)
    with Cons.prems(1) [OF this] False Cons.IH [OF Cons.prems(1)] Cons.prems(2) show ?thesis by (cases r) (simp_all add: Let_def)
  qed
qed simp

lemma openWithSeen_more:
  "openWithSeen n env h opts path seen hs = Some x \<Longrightarrow> openWithSeen (Suc n) env h opts path seen hs = Some x"
proof (induction n arbitrary: opts path seen hs x)
  case (Suc n)
  have a: "openAlternates env (openWithSeen (Suc n) env h []) c sn hs = Some y"
    if "openAlternates env (openWithSeen n env h []) c sn hs = Some y" for c sn hs y
    using that open_entries_mono [where opener = "openWithSeen n env h []" and opener' = "openWithSeen (Suc n) env h []", OF Suc.IH]
    unfolding openAlternates_def Let_def by (auto split: sum.splits if_splits simp del: openWithSeen.simps)
  obtain r0 hs0 where o: "open_node env h path opts hs = Some (r0, hs0)" using Suc.prems by (auto split: option.splits)
  show ?case
  proof (cases r0)
    case (Inl err)
    with o Suc.prems show ?thesis by simp
  next
    case (Inr y)
    obtain c node where y: "y = (c, node)" by fastforce
    let ?canon = "canonicalRepoDir (en_links env) c"
    obtain z where z: "openAlternates env (openWithSeen n env h []) c (?canon # seen) hs0 = Some z"
      using Suc.prems o Inr y by (auto simp: Let_def split: option.splits)
    from a [OF z] z Suc.prems o Inr y show ?thesis
      unfolding openWithSeen.simps(2) [of "Suc n"] unfolding openWithSeen.simps(2) [of n] by (simp add: Let_def del: openWithSeen.simps)
  qed
qed simp

lemma openWithSeen_mono:
  assumes "openWithSeen n env h opts path seen hs = Some x" "n \<le> m"
  shows "openWithSeen m env h opts path seen hs = Some x"
  using assms(2,1) by (induction m rule: dec_induct) (auto simp del: openWithSeen.simps intro: openWithSeen_more)

section \<open>A repository whose alternates file names itself\<close>

text \<open>The repository \<open>/r/.git\<close> of the working tree \<open>/r\<close>, empty but for one alternates entry.\<close>

definition nested_os :: "string \<Rightarrow> OS" where
  "nested_os entry = \<lparr>os_Open = (\<lambda>_. Inl os_ErrNotExist),
     os_ReadFile = (\<lambda>p. if p = ''/r/.git/HEAD'' then Inr (''ref: refs/heads/main'' @ [CHR 0x0A])
       else if p = ''/r/.git/objects/info/alternates'' then Inr (entry @ [CHR 0x0A]) else Inl os_ErrNotExist),
     os_Stat = (\<lambda>p. if p = ''/r/.git/HEAD'' then Inr \<lparr>fi_IsDir = False, fi_IsRegular = True, fi_ModTime = 0\<rparr>
       else if p \<in> {''/r/.git'', ''/r/.git/objects'', ''/r/.git/refs''} then Inr \<lparr>fi_IsDir = True, fi_IsRegular = False, fi_ModTime = 0\<rparr>
       else Inl os_ErrNotExist),
     os_ReadDir = (\<lambda>_. Inl os_ErrNotExist),
     os_Tree = (\<lambda>p. if p = ''/r/.git/refs'' then Inr (Directory [] None) else Inl os_ErrNotExist)\<rparr>"

definition nested_env :: "string \<Rightarrow> Env" where
  "nested_env entry = \<lparr>en_os = nested_os entry, en_links = \<lparr>fl_EvalSymlinks = Inr, fl_Abs = Inr\<rparr>, en_openReader = (\<lambda>_. Inl os_ErrNotExist),
     en_zlib = (\<lambda>_. Inl io_EOF), en_pooled = False, en_crc32 = (\<lambda>_. 0), en_closeFile = (\<lambda>_. None), en_unmap = (\<lambda>_. None)\<rparr>"

lemma nested_paths:
  "Join_path [''/r/.git'', ''objects'', ''info'', ''alternates''] = ''/r/.git/objects/info/alternates''"
  "Join_path [''/r/.git'', ''objects''] = ''/r/.git/objects''"
  "Join_path [''/r/.git'', ''objects'', ''pack'', ''multi-pack-index''] = ''/r/.git/objects/pack/multi-pack-index''"
  "Join_path [''/r/.git'', ''refs''] = ''/r/.git/refs''" "Base ''/r/.git/refs'' = ''refs''"
  "Join_path [''/r/.git'', ''HEAD''] = ''/r/.git/HEAD''"
  "Dir ''/r/objects'' = ''/r''" "Dir ''/r/.git/objects'' = ''/r/.git''"
  by code_simp+

lemma nested_resolves:
  "resolveGitDir (nested_os entry) ''/r'' = Inr (''/r/.git'', ''/r/.git'')"
  "resolveGitDir (nested_os entry) ''/r/.git'' = Inr (''/r/.git'', ''/r/.git'')"
  by code_simp+

lemma nested_packs: "openPackBackend (nested_env entry) ''/r/.git'' cfg hs = Some (Inr (CatalogBackend (empty_catalog ''/r/.git'' (cfg_algo cfg))), hs)"
  unfolding openPackBackend_def Let_def nested_paths
  by (simp add: nested_env_def nested_os_def openIdxCatalog_def Let_def)

lemma nested_refs: "\<exists>refs. openLooseRefs (nested_os entry) SHA1 ''/r/.git'' ''/r/.git'' = Inr refs"
proof -
  have c: "parseSymrefTarget (ref_content (''ref: refs/heads/main'' @ [CHR 0x0A])) = Inr (Some ''refs/heads/main'')"
    "ref_content (''ref: refs/heads/main'' @ [CHR 0x0A]) \<noteq> []" by code_simp+
  have p: "readPackedRefsFile (nested_os entry) SHA1 ''/r/.git'' = Inr \<lparr>pr_refs = Map.empty, pr_traits = no_traits\<rparr>"
    by (simp add: readPackedRefsFile_def Let_def nested_os_def)
  have w: "walkLooseRefs (nested_os entry) SHA1 ''/r/.git'' Map.empty = Inr Map.empty"
    unfolding walkLooseRefs_def Let_def nested_paths by (simp add: nested_os_def)
  have f: "os_ReadFile (nested_os entry) ''/r/.git/HEAD'' = Inr (''ref: refs/heads/main'' @ [CHR 0x0A])"
    by (simp add: nested_os_def)
  have l: "readLooseSymref (nested_os entry) ''/r/.git'' ''refs/heads/main'' = Inr None" by code_simp
  have "\<exists>head. resolveHead (nested_os entry) SHA1 ''/r/.git'' ''/r/.git'' Map.empty = Inr head"
    unfolding resolveHead_def Let_def nested_paths f using c l
    by (simp add: followSymrefChain_def maxRefDepth_def eval_nat_numeral)
  then show ?thesis unfolding openLooseRefs_def p by (auto simp: w)
qed

lemma nested_opens:
  assumes "path \<in> {''/r'', ''/r/.git''}"
  shows "\<exists>node. open_node (nested_env entry) SHA1 path [] hs = Some (Inr (''/r/.git'', node), hs) \<and>
    sn_packs node = CatalogBackend (empty_catalog ''/r/.git'' SHA1)"
proof -
  have "readGitConfig (nested_os entry) ''/r/.git'' = Inr default_config" by (simp add: readGitConfig_def nested_os_def Let_def)
  moreover have "resolveGitDir (nested_os entry) path = Inr (''/r/.git'', ''/r/.git'')" using assms nested_resolves by auto
  moreover obtain refs where "openLooseRefs (nested_os entry) SHA1 ''/r/.git'' ''/r/.git'' = Inr refs" using nested_refs by blast
  moreover have "en_os (nested_env entry) = nested_os entry" by (simp add: nested_env_def)
  ultimately show ?thesis
    unfolding open_node_def Let_def
    by (simp add: nested_packs checkHashTypeMatchesAlgo_def default_config_def openRefBackend_def openLoose_def Let_def)
qed

lemma nested_entry:
  assumes "parseAlternates (en_links (nested_env entry)) (entry @ [CHR 0x0A]) ''/r/.git/objects'' = [entry]"
  shows "openAlternates (nested_env entry) opener ''/r/.git'' seen hs = open_entries (nested_env entry) opener [entry] [] seen hs"
  using assms unfolding openAlternates_def Let_def nested_paths by (simp add: nested_env_def nested_os_def)

lemma nested_entries:
  "parseAlternates (en_links (nested_env ''/r/.git/objects'')) (''/r/.git/objects'' @ [CHR 0x0A]) ''/r/.git/objects'' = [''/r/.git/objects'']"
  "parseAlternates (en_links (nested_env ''/r/objects'')) (''/r/objects'' @ [CHR 0x0A]) ''/r/.git/objects'' = [''/r/objects'']"
  by code_simp+

text \<open>
  The name compared with the stores being opened is the one the entry gives; the name marked is the one found there. Where the
  entry names the working tree, \<open>/r/objects\<close>, they differ, and opening the repository never ends.
\<close>

lemma Open_diverges: "store_Open n (nested_env ''/r/objects'') SHA1 ''/r'' [] hs = None"
proof -
  let ?env = "nested_env ''/r/objects''"
  have canon: "canonicalRepoDir (en_links ?env) p = p" for p by (simp add: canonicalRepoDir_def nested_env_def)
  have "openWithSeen n ?env SHA1 [] ''/r'' seen hs = None" if "''/r'' \<notin> set seen" for seen
    using that
  proof (induction n arbitrary: seen)
    case (Suc n)
    obtain node where o: "open_node ?env SHA1 ''/r'' [] hs = Some (Inr (''/r/.git'', node), hs)" using nested_opens by blast
    have "''/r'' \<notin> set (''/r/.git'' # seen)" using Suc.prems by simp
    from Suc.IH [OF this] this o show ?case
      by (simp add: Let_def canon nested_entry [OF nested_entries(2)] nested_paths)
  qed simp
  then show ?thesis unfolding store_Open_def by simp
qed

section \<open>Properties\<close>


text \<open>C10: Opening ends: where the alternates lead through finitely many repositories, each found under the name its entry gives, a
  depth of nesting above their number is never reached, whatever cycles the entries make. The answer then does not depend on
  the depth allowed, and every mark of a store being opened is taken away again.\<close>

theorem Open_terminates:
  assumes "finite C" "closed_under env C" "\<And>c. reads_to env path c \<Longrightarrow> c \<in> C"
    and "card (canonicalRepoDir (en_links env) ` C) < n"
  shows "\<exists>r hs'. \<forall>m\<ge>n. store_Open m env h path opts hs = Some (r, [], hs')"
proof -
  have "\<exists>r hs'. openWithSeen n env h opts path [] hs = Some (r, [], hs')"
    using openWithSeen_answers [OF assms(1,2), of path "[]" n h opts hs] assms(3,4) by simp
  then show ?thesis unfolding store_Open_def using openWithSeen_mono by blast
qed

text \<open>C15: Whatever the caches of delta bases hold, as long as they are coherent, a lookup answers what the first store that knows the object says of it,
  in the order store, first alternate, its alternates, next alternate; no store knows it when the answer is that it does
  not exist. The caches stay coherent.\<close>

theorem store_object_found:
  assumes "coherent_store s" "own_errors (map (node_info env oid) (nodes s))"
  shows "map_option fst (store_ObjectInfo env oid s) = first_info (map (node_info env oid) (nodes s)) \<and>
    (\<forall>r s'. store_ObjectInfo env oid s = Some (r, s') \<longrightarrow> coherent_store s')"
  using lookup_first(1) [OF assms(2,1)] .

section \<open>Concrete stores\<close>

lemma nested_distinct: "distinct_names (en_os (nested_env entry))"
  by (simp add: distinct_names_def nested_env_def nested_os_def)

lemma nested_cycle:
  "store_Open 2 (nested_env ''/r/.git/objects'') SHA1 ''/r'' [] hs =
    Some (Inl (Wrapf ''objstore: alternates cycle through /r/.git: '' ErrCorruptObject []), [], hs)"
proof -
  obtain node where o: "open_node (nested_env ''/r/.git/objects'') SHA1 ''/r'' [] hs = Some (Inr (''/r/.git'', node), hs)"
    "sn_packs node = CatalogBackend (empty_catalog ''/r/.git'' SHA1)" using nested_opens by blast
  have canon: "canonicalRepoDir (en_links (nested_env ''/r/.git/objects'')) p = p" for p
    by (simp add: canonicalRepoDir_def nested_env_def)
  show ?thesis using o
    by (simp add: store_Open_def eval_nat_numeral Let_def canon nested_entry [OF nested_entries(1)] nested_paths
      idxCatalog_Close_def empty_catalog_def close_opened_def)
qed

text \<open>A bare repository \<open>/r\<close> with one pack.\<close>

definition bare_os :: OS where
  "bare_os = \<lparr>os_Open = (\<lambda>_. Inl os_ErrNotExist),
     os_ReadFile = (\<lambda>p. if p = ''/r/HEAD'' then Inr (''ref: refs/heads/main'' @ [CHR 0x0A])
       else if p = ''/r/objects/pack/p.idx'' then Inr (encode_idx_v2 [sample_entry] (replicate 40 (CHR 0x00))) else Inl os_ErrNotExist),
     os_Stat = (\<lambda>p. if p \<in> {''/r/objects'', ''/r/refs''} then Inr \<lparr>fi_IsDir = True, fi_IsRegular = False, fi_ModTime = 0\<rparr>
       else if p \<in> {''/r/HEAD'', ''/r/objects/pack/p.idx'', ''/r/objects/pack/p.pack''} then Inr \<lparr>fi_IsDir = False, fi_IsRegular = True, fi_ModTime = 7\<rparr>
       else Inl os_ErrNotExist),
     os_ReadDir = (\<lambda>p. if p = ''/r/objects/pack'' then Inr [(''p.idx'', False), (''p.pack'', False)] else Inl os_ErrNotExist),
     os_Tree = (\<lambda>p. if p = ''/r/refs'' then Inr (Directory [] None) else Inl os_ErrNotExist)\<rparr>"

definition bare_env :: Env where
  "bare_env = (nested_env [])\<lparr>en_os := bare_os, en_openReader := pack_reader\<rparr>"

lemma bare_paths:
  "Join_path [''/r'', ''objects'', ''info'', ''alternates''] = ''/r/objects/info/alternates''"
  "Join_path [''/r'', ''objects'', ''pack'', ''multi-pack-index''] = ''/r/objects/pack/multi-pack-index''"
  "Join_path [''/r'', ''refs''] = ''/r/refs''" "Base ''/r/refs'' = ''refs''" "Join_path [''/r'', ''HEAD''] = ''/r/HEAD''"
  by code_simp+

lemma bare_resolves: "resolveGitDir bare_os ''/r'' = Inr (''/r'', ''/r'')"
proof -
  have p: "Join_path [''/r'', ''commondir''] = ''/r/commondir''" "Join_path [''/r'', ''objects''] = ''/r/objects''" "Clean ''/r'' = ''/r''"
    by code_simp+
  have c: "resolveCommonDir bare_os ''/r'' = Inr ''/r''"
    unfolding resolveCommonDir_def Let_def p by (simp add: bare_os_def)
  have "isGitDirectory bare_os ''/r''"
    unfolding isGitDirectory_def isDir_def bare_paths c sum.case p by (simp add: bare_os_def)
  then show ?thesis unfolding resolveGitDir_def locateGitDir_def by (simp add: c p)
qed

lemma bare_refs: "\<exists>refs. openLooseRefs bare_os SHA1 ''/r'' ''/r'' = Inr refs"
proof -
  have c: "parseSymrefTarget (ref_content (''ref: refs/heads/main'' @ [CHR 0x0A])) = Inr (Some ''refs/heads/main'')"
    "ref_content (''ref: refs/heads/main'' @ [CHR 0x0A]) \<noteq> []" "Join_path [''/r'', ''refs/heads/main''] = ''/r/refs/heads/main''" by code_simp+
  have p: "readPackedRefsFile bare_os SHA1 ''/r'' = Inr \<lparr>pr_refs = Map.empty, pr_traits = no_traits\<rparr>"
    by (simp add: readPackedRefsFile_def Let_def bare_os_def)
  have w: "walkLooseRefs bare_os SHA1 ''/r'' Map.empty = Inr Map.empty"
    unfolding walkLooseRefs_def Let_def bare_paths by (simp add: bare_os_def)
  have f: "os_ReadFile bare_os ''/r/HEAD'' = Inr (''ref: refs/heads/main'' @ [CHR 0x0A])" by (simp add: bare_os_def)
  have l: "readLooseSymref bare_os ''/r'' ''refs/heads/main'' = Inr None" by (simp add: readLooseSymref_def c(3) Let_def) (simp add: bare_os_def)
  have "\<exists>head. resolveHead bare_os SHA1 ''/r'' ''/r'' Map.empty = Inr head"
    unfolding resolveHead_def Let_def bare_paths f using c l
    by (simp add: followSymrefChain_def maxRefDepth_def eval_nat_numeral)
  then show ?thesis unfolding openLooseRefs_def p by (auto simp: w)
qed

lemma bare_opens:
  "\<exists>node. store_Open 1 bare_env SHA1 ''/r'' [WithoutCRCCheck] [] = Some (Inr (ObjStore node []), [], [''/r/objects/pack/p.pack'']) \<and>
    sn_packs node = CatalogBackend sample_catalog \<and> sn_algo node = SHA1 \<and> sn_loose node = \<lparr>lo_commonDir = ''/r'', lo_algo = SHA1\<rparr> \<and>
    \<not> cfg_verifyCRC (sn_cfg node) \<and> sn_refDeltaCache node = Map.empty"
proof -
  have g: "readGitConfig bare_os ''/r'' = Inr default_config" by (simp add: readGitConfig_def bare_os_def Let_def)
  obtain refs where r: "openLooseRefs bare_os SHA1 ''/r'' ''/r'' = Inr refs" using bare_refs by blast
  have e: "en_os bare_env = bare_os" "en_openReader bare_env = pack_reader" by (simp_all add: bare_env_def)
  have c: "openIdxCatalog bare_os pack_reader ''/r'' SHA1 [] = (Inr sample_catalog, [''/r/objects/pack/p.pack''])"
    by (rule sample_catalog_opens_in) (auto simp: bare_os_def)
  have s: "os_Stat bare_os ''/r/objects/pack/multi-pack-index'' = Inl os_ErrNotExist" by (simp add: bare_os_def)
  have p: "openPackBackend bare_env ''/r'' cfg [] = Some (Inr (CatalogBackend sample_catalog), [''/r/objects/pack/p.pack''])"
    if "cfg_algo cfg = SHA1" for cfg
    unfolding openPackBackend_def Let_def bare_paths e s by (simp add: that c)
  have a: "openAlternates bare_env opener ''/r'' seen hs = Some (Inr [], seen, hs)" for opener seen hs
    unfolding openAlternates_def Let_def bare_paths e by (simp add: bare_os_def)
  let ?cfg = "WithoutCRCCheck default_config"
  have cfg: "cfg_algo ?cfg = SHA1" "rs_format (cfg_refStorage ?cfg) = ''files''" "\<not> cfg_verifyCRC ?cfg"
    by (simp_all add: WithoutCRCCheck_def default_config_def)
  have "openRefBackend bare_env SHA1 ''/r'' ''/r'' ?cfg = Inr (LooseBackend refs)" by (simp add: openRefBackend_def Let_def cfg e r)
  then have o: "\<exists>node. open_node bare_env SHA1 ''/r'' [WithoutCRCCheck] [] = Some (Inr (''/r'', node), [''/r/objects/pack/p.pack'']) \<and>
      sn_packs node = CatalogBackend sample_catalog \<and> sn_algo node = SHA1 \<and> sn_loose node = \<lparr>lo_commonDir = ''/r'', lo_algo = SHA1\<rparr> \<and>
      \<not> cfg_verifyCRC (sn_cfg node) \<and> sn_refDeltaCache node = Map.empty"
    unfolding open_node_def e bare_resolves sum.case prod.case g Let_def
    by (simp add: cfg checkHashTypeMatchesAlgo_def openLoose_def p)
  then show ?thesis by (auto simp: store_Open_def a Let_def)
qed


theorem Open_terminates_witness:
  "\<exists>r hs'. \<forall>m\<ge>2. store_Open m (nested_env ''/r/.git/objects'') SHA1 ''/r'' [] [] = Some (r, [], hs')"
proof -
  let ?env = "nested_env ''/r/.git/objects''"
  have canon: "canonicalRepoDir (en_links ?env) p = p" for p by (simp add: canonicalRepoDir_def nested_env_def)
  have os: "en_os ?env = nested_os ''/r/.git/objects''" by (simp add: nested_env_def)
  have reads: "reads_to ?env p c \<longleftrightarrow> c = ''/r/.git''" if "p \<in> {''/r'', ''/r/.git''}" for p c
    using that nested_resolves unfolding reads_to_def os by auto
  have f: "os_ReadFile (nested_os ''/r/.git/objects'') ''/r/.git/objects/info/alternates'' = Inr (''/r/.git/objects'' @ [CHR 0x0A])"
    by (simp add: nested_os_def)
  have "closed_under ?env {''/r/.git''}"
    unfolding closed_under_def os using nested_packs nested_entries(1) reads [of "''/r/.git''"]
    by (simp add: nested_paths f)
  from Open_terminates [OF _ this, of "''/r''" 2 SHA1 "[]" "[]"] reads [of "''/r''"] show ?thesis by (simp add: canon)
qed

theorem store_object_found_witness:
  "\<exists>s hs. store_Open 1 bare_env SHA1 ''/r'' [WithoutCRCCheck] [] = Some (Inr s, [], hs) \<and>
    map_option fst (store_ObjectInfo bare_env (replicate 20 (CHR 0x10)) s) = Some (Inr \<lparr>info_Type = TypeCommit, info_Size = 5\<rparr>)"
proof -
  obtain node where o: "store_Open 1 bare_env SHA1 ''/r'' [WithoutCRCCheck] [] = Some (Inr (ObjStore node []), [], [''/r/objects/pack/p.pack''])"
    and n: "sn_packs node = CatalogBackend sample_catalog" "sn_algo node = SHA1" "sn_loose node = \<lparr>lo_commonDir = ''/r'', lo_algo = SHA1\<rparr>"
      "\<not> cfg_verifyCRC (sn_cfg node)" "sn_refDeltaCache node = Map.empty"
    using bare_opens by blast
  let ?oid = "replicate 20 (CHR 0x10)"
  have l: "loose_Find (en_zlib bare_env) (en_os bare_env) (sn_loose node) ?oid = Inr None"
    by (simp add: loose_Find_def Let_def bare_env_def bare_os_def length_Hex)
  have p: "packs_Lookup (sn_packs node) ?oid = Some (Inr (Some (sample_ptr, 12)))"
    using sample_base n(1) by (simp add: base_of_def split: option.splits sum.splits)
  have t: "target_size zlib pooled sample_ptr sample_header = Inr 5" for zlib pooled
    by (simp add: target_size_def IsDelta_def sample_header_def ObjectType_defs)
  have w: "walkPackChain zlib pooled crc32 False SHA1 packs oid sample_ptr 12 Map.empty = Some (Inr \<lparr>info_Type = TypeCommit, info_Size = 5\<rparr>, Map.empty)"
    for zlib pooled crc32 packs oid
  proof -
    have "chain_loop zlib pooled packs (Suc 63) sample_ptr 12 None Map.empty = Some (Inr \<lparr>info_Type = TypeCommit, info_Size = 5\<rparr>, Map.empty)"
      unfolding chain_loop.simps(2) sample_pack_header by (simp add: t) (simp add: sample_header_def ObjectType_defs)
    then show ?thesis unfolding walkPackChain_Suc by (simp add: verifyPackCRC_def del: chain_loop.simps)
  qed
  have "node_info bare_env ?oid node = Some (Some (Inr \<lparr>info_Type = TypeCommit, info_Size = 5\<rparr>))"
    unfolding node_info_def l p by (simp add: n w)
  with store_object_found [of "ObjStore node []" bare_env ?oid] o n(5) show ?thesis by (auto simp: coherent_store_def)
qed

end
