(* ===== verification/Spec2Isabelle.thy ===== *)
theory Spec2Isabelle
  imports Conversation Reftable_Stack Reftable_Seek Object_Store
begin

text \<open>
  A verification library of \<open>go-ls-remote\<close>.
\<close>

section \<open>Client and server together\<close>

text \<open>The bytes the command loop answers to the bytes of a connection, and its error.\<close>

definition serve_bytes :: "Store \<Rightarrow> string \<Rightarrow> go_error option \<times> string" where
  "serve_bytes store input =
     (case ServeCommandLoop (\<lambda>_. None) (NewReader (source_of input)) (NewWriter empty_sink) store of
        (err, w, _, _) \<Rightarrow> (err, snk_out (wr_dst w)))"

definition written :: "go_error option \<times> Writer \<Rightarrow> string" where
  "written res = snk_out (wr_dst (snd res))"

lemma echo_lines_caps: "list_all cap_line (echo_lines caps ua)"
  by (auto simp: echo_lines_def cap_line_def commandPrefix_def split: list.splits)

lemma serve_bytes_request:
  assumes "can_answer store head refs q" "list_all cap_line caps"
    and "list_all wf_packet (request_frame (request_name q) caps (request_lines q))"
  shows "serve_bytes store (stream (request_frame (request_name q) caps (request_lines q))) =
    (None, stream (answer store head refs q))"
proof -
  let ?ps = "request_frame (request_name q) caps (request_lines q)"
  have "pending (NewReader (source_of (stream ?ps))) = (?ps, io_EOF)" using assms(3) by (rule pending_NewReader)
  then obtain r' where "ServeCommandLoop (\<lambda>_. None) (NewReader (source_of (stream ?ps))) (NewWriter empty_sink) store =
      (None, send (answer store head refs q) (NewWriter empty_sink), r', command_events (request_name q) None)"
    using command_loop_run [of "NewWriter empty_sink" caps store head refs "[q]" io_EOF
        "NewReader (source_of (stream ?ps))" 0 "[]"] assms(1,2)
    by (auto simp: ServeCommandLoop_def simp del: stream_simps)
  then show ?thesis by (simp add: serve_bytes_def)
qed

lemma fits_ls_refs_lines:
  "list_all fits_line (map (\<lambda>p. ''ref-prefix '' @ p) (ra_Prefixes args)) \<Longrightarrow> list_all fits_line (ls_refs_lines args u)"
  by (simp add: ls_refs_lines_def fits_line_consts del: append.simps)

section \<open>Properties\<close>

text \<open>Listing refs end to end: the client encodes its \<open>ls-refs\<close> request for what the server advertised,
  the server's command loop answers the bytes without an error, and the client decodes from the answer
  exactly the store's refs that the prefixes select, HEAD first and then in name order, with the peeled
  ids and symrefs it asked for.\<close>

theorem ls_refs_end_to_end:
  assumes "answerable store head refs args"
    and "list_all fits_line (echo_lines (v2_caps store opts) ua)"
    and "list_all fits_line (map (\<lambda>p. ''ref-prefix '' @ p) (ra_Prefixes args))"
  shows "\<exists>out. serve_bytes store (written (fst (EncodeLSRefs (NewWriter empty_sink) args (v2_caps store opts) ua))) =
      (None, out) \<and>
    fst (DecodeLSRefs collect (NewReader (source_of out)) []) =
      map (\<lambda>r. (r, None)) (ls_refs_answer store head refs args)"
proof -
  let ?q = "LsRefs args True" and ?caps = "echo_lines (v2_caps store opts) ua"
  let ?req = "request_frame (request_name ?q) ?caps (request_lines ?q)"
  have eff: "effective_args args True = args" by (simp add: effective_args_def)
  have sent: "written (fst (EncodeLSRefs (NewWriter empty_sink) args (v2_caps store opts) ua)) = stream ?req"
    unfolding EncodeLSRefs_send [OF unbounded_NewWriter assms(2,3)] written_def
    by (simp only: fst_conv snd_conv send_simps NewWriter_out append.simps(1) v2_caps_unborn request_name.simps request_lines.simps)
  have "fits_line (''command='' @ request_name ?q)" by (simp add: fits_line_def MaxPayload_def)
  then have "list_all wf_packet ?req"
    using assms(2) fits_ls_refs_lines [OF assms(3), of True] by (intro wf_request_frame) simp
  moreover have "can_answer store head refs ?q" using assms(1) by (simp add: eff)
  ultimately have out: "serve_bytes store (stream ?req) = (None, stream (answer store head refs ?q))"
    using echo_lines_caps by (intro serve_bytes_request)
  let ?refs = "ls_refs_answer store head refs args"
  have ans: "answer store head refs ?q = map (\<lambda>r. line_packet (v2_ref_line r)) ?refs @ flush_packet # []"
    by (simp add: eff)
  from assms(1) have "list_all wf_packet (answer store head refs ?q)"
    unfolding ans answerable_def by (auto simp: list_all_iff fits_line_def)
  then have "pending (NewReader (source_of (stream (answer store head refs ?q)))) = (answer store head refs ?q, io_EOF)"
    by (rule pending_NewReader)
  from DecodeLSRefs_items [OF this, of collect "[]"] have "fst (DecodeLSRefs collect (NewReader (source_of (stream (answer store head refs ?q)))) []) =
      map (\<lambda>r. (r, None)) ?refs"
    unfolding ans ls_refs_items_refs [OF wf_ls_refs_answer [OF assms(1)]] feed_collect append.simps(1) .
  with sent out show ?thesis by metis
qed

theorem ls_refs_end_to_end_witness:
  "let head = \<lparr>hd_Symref = ''refs/heads/m'', hd_OID = [CHR 0xA1], hd_Unborn = False\<rparr>;
       ref = \<lparr>re_Name = ''refs/heads/m'', re_OID = [CHR 0xA1], re_Peeled = [], re_PeelKnown = True\<rparr>;
       store = \<lparr>st_Algo = SHA1, st_Head = Inr head, st_IterRefs = [Inr ref],
         st_Peel = (\<lambda>_. Inr ([], False)), st_ObjectInfo = (\<lambda>_. Inl os_ErrNotExist)\<rparr>;
       args = \<lparr>ra_Prefixes = [''refs/''], ra_Peel = True, ra_Symrefs = True, ra_Unborn = False\<rparr>
   in \<exists>out. serve_bytes store (written (fst (EncodeLSRefs (NewWriter empty_sink) args
        (v2_caps store \<lparr>opt_Agent = [], opt_PreferredProtocol = ProtocolV2\<rparr>) ''me''))) = (None, out) \<and>
      fst (DecodeLSRefs collect (NewReader (source_of out)) []) =
        [(\<lparr>ref_OID = ''a1'', ref_Name = ''refs/heads/m'', ref_Peeled = [], ref_Symref = [], ref_Unborn = False\<rparr>, None)]"
proof -
  define head where "head = \<lparr>hd_Symref = ''refs/heads/m'', hd_OID = [CHR 0xA1], hd_Unborn = False\<rparr>"
  define ref where "ref = \<lparr>re_Name = ''refs/heads/m'', re_OID = [CHR 0xA1], re_Peeled = [], re_PeelKnown = True\<rparr>"
  define store where "store = \<lparr>st_Algo = SHA1, st_Head = Inr head, st_IterRefs = [Inr ref],
    st_Peel = (\<lambda>_. Inr ([], False)), st_ObjectInfo = (\<lambda>_. Inl os_ErrNotExist)\<rparr>"
  define args where "args = \<lparr>ra_Prefixes = [''refs/''], ra_Peel = True, ra_Symrefs = True, ra_Unborn = False\<rparr>"
  define opts where "opts = \<lparr>opt_Agent = [], opt_PreferredProtocol = ProtocolV2\<rparr>"
  have hex: "Hex [CHR 0xA1] = ''a1''" by (simp add: hex_digits_def)
  have peel: "refPeel store ref = Inr ([], False)" by (simp add: refPeel_def ref_def)
  have ans: "ls_refs_answer store head [ref] args =
      [\<lparr>ref_OID = ''a1'', ref_Name = ''refs/heads/m'', ref_Peeled = [], ref_Symref = [], ref_Unborn = False\<rparr>]"
    unfolding ls_refs_answer_def ref_answer_def
    by (simp add: head_answer_def ref_answer_def peel peel_for_def args_def refMatch_def)
      (simp add: ref_def hex del: Hex_simps)
  have "no_space ''refs/heads/m''" by (rule no_space_ascii) (simp add: is_ascii_space_def)
  then have "answerable store head [ref] args"
    unfolding answerable_def ans
    by (simp add: store_def head_def refPeel_def ref_def del: no_space.simps)
      (simp add: v2_ref_line_def v2_ref_tokens_def fits_line_def MaxPayload_def del: no_space.simps)
  moreover have "list_all fits_line (echo_lines (v2_caps store opts) ''me'')"
    by (simp add: echo_lines_def v2_caps_def fits_line_def MaxPayload_def store_def opts_def)
  moreover have "list_all fits_line (map (\<lambda>p. ''ref-prefix '' @ p) (ra_Prefixes args))"
    by (simp add: fits_line_def MaxPayload_def args_def)
  ultimately show ?thesis
    using ls_refs_end_to_end [of store head "[ref]" args opts "''me''"]
    unfolding Let_def ans head_def [symmetric] ref_def [symmetric] store_def [symmetric] args_def [symmetric] opts_def [symmetric]
    by simp
qed

text \<open>C14: Asking for object sizes end to end: for ids the store can resolve the client gets back exactly the
  sizes of the objects the store has, in the order asked, and no row for an object it does not have.\<close>

theorem object_info_end_to_end:
  assumes "list_all (resolvable store) oids" "list_all (list_all is_lower_hex) oids"
    and "list_all fits_line (echo_lines (v2_caps store opts) ua)"
  shows "\<exists>out. serve_bytes store (written (EncodeObjectInfo (NewWriter empty_sink) oids \<lparr>oa_Size = True\<rparr>
        (v2_caps store opts) ua)) = (None, out) \<and>
    fst (DecodeObjectInfo (NewReader (source_of out))) =
      Inr (concat (map (\<lambda>oid. case snd (info_row store oid) of
        None \<Rightarrow> [] | Some n \<Rightarrow> [\<lparr>oi_OID = oid, oi_Size = n\<rparr>]) oids))"
proof -
  let ?q = "ObjectInfo \<lparr>oa_Size = True\<rparr> oids" and ?caps = "echo_lines (v2_caps store opts) ua"
  let ?req = "request_frame (request_name ?q) ?caps (request_lines ?q)"
  let ?rows = "map (info_row store) oids"
  have len: "length oid = 40 \<or> length oid = 64" if "oid \<in> set oids" for oid
    using that assms(1) resolvable_length [of store oid] by (simp add: list_all_iff)
  have oids: "list_all fits_line (map (\<lambda>oid. ''oid '' @ oid) oids)"
    using len by (fastforce simp: list_all_iff fits_line_def MaxPayload_def)
  have sent: "written (EncodeObjectInfo (NewWriter empty_sink) oids \<lparr>oa_Size = True\<rparr> (v2_caps store opts) ua) = stream ?req"
    unfolding EncodeObjectInfo_send [OF unbounded_NewWriter assms(3) oids] written_def
    by (simp only: fst_conv snd_conv send_simps NewWriter_out append.simps(1) request_name.simps request_lines.simps)
  have "fits_line (''command='' @ request_name ?q)" by (simp add: fits_line_def MaxPayload_def)
  then have "list_all wf_packet ?req"
    using assms(3) oids by (intro wf_request_frame) (simp add: object_info_lines_def del: append.simps)
  moreover have "can_answer store head refs ?q" for head refs using assms(1) by simp
  ultimately have out: "serve_bytes store (stream ?req) = (None, stream (object_info_response True ?rows))"
    using echo_lines_caps serve_bytes_request [of store undefined undefined ?q ?caps] by simp
  have "list_all wf_packet (object_info_response True ?rows)"
    using assms(1) fits_info_row by (fastforce simp: object_info_response_def list_all_iff fits_line_def MaxPayload_def)
  then have p: "pending (NewReader (source_of (stream (object_info_response True ?rows)))) =
      (object_info_response True ?rows @ [], io_EOF)" by (simp del: stream_simps)
  have wf: "list_all wf_object_row ?rows"
    using assms(1,2) by (simp add: list_all_iff wf_info_row)
  have "object_info_rows True ?rows = concat (map (\<lambda>oid. case snd (info_row store oid) of
      None \<Rightarrow> [] | Some n \<Rightarrow> [\<lparr>oi_OID = oid, oi_Size = n\<rparr>]) oids)"
    by (simp add: object_info_rows_def info_row_def comp_def)
  with sent out decode_object_info_response [OF wf p] show ?thesis by (metis fst_conv)
qed

theorem object_info_end_to_end_witness:
  "let a = replicate 40 (CHR ''a''); b = replicate 40 (CHR ''b'');
       store = \<lparr>st_Algo = SHA1, st_Head = Inl io_EOF, st_IterRefs = [], st_Peel = (\<lambda>_. Inl io_EOF),
         st_ObjectInfo = (\<lambda>h. if h = replicate 20 (CHR 0xAA) then Inr \<lparr>info_Type = TypeBlob, info_Size = 7\<rparr> else Inl os_ErrNotExist)\<rparr>
   in \<exists>out. serve_bytes store (written (EncodeObjectInfo (NewWriter empty_sink) [b, a] \<lparr>oa_Size = True\<rparr>
        (v2_caps store \<lparr>opt_Agent = [], opt_PreferredProtocol = ProtocolV2\<rparr>) [])) = (None, out) \<and>
      fst (DecodeObjectInfo (NewReader (source_of out))) = Inr [\<lparr>oi_OID = a, oi_Size = 7\<rparr>]"
proof -
  let ?a = "replicate 40 (CHR ''a'')" and ?b = "replicate 40 (CHR ''b'')"
  define store where "store = \<lparr>st_Algo = SHA1, st_Head = Inl io_EOF, st_IterRefs = [], st_Peel = (\<lambda>_. Inl io_EOF),
    st_ObjectInfo = (\<lambda>h. if h = replicate 20 (CHR 0xAA) then Inr \<lparr>info_Type = TypeBlob, info_Size = 7\<rparr> else Inl os_ErrNotExist)\<rparr>"
  define opts where "opts = \<lparr>opt_Agent = [], opt_PreferredProtocol = ProtocolV2\<rparr>"
  have "Hex (replicate n (CHR 0xAA)) = replicate (2 * n) (CHR ''a'')" "Hex (replicate n (CHR 0xBB)) = replicate (2 * n) (CHR ''b'')" for n
    by (induction n) (simp_all add: hex_digits_def)
  from this [of 20] have h: "Hex (replicate 20 (CHR 0xAA)) = ?a" "Hex (replicate 20 (CHR 0xBB)) = ?b" by simp_all
  have p: "ParseHexAs SHA1 ?a = Inr (replicate 20 (CHR 0xAA))" "ParseHexAs SHA1 ?b = Inr (replicate 20 (CHR 0xBB))"
    unfolding h [symmetric] by (rule ParseHexAs_Hex, simp add: wf_hash_def)+
  have f: "st_Algo store = SHA1" "st_ObjectInfo store (replicate 20 (CHR 0xAA)) = Inr \<lparr>info_Type = TypeBlob, info_Size = 7\<rparr>"
    "st_ObjectInfo store (replicate 20 (CHR 0xBB)) = Inl os_ErrNotExist"
    by (simp_all add: store_def numeral_eq_Suc)
  have "list_all (resolvable store) [?b, ?a]" by (simp add: resolvable_def f p del: replicate.simps)
  moreover have "list_all (list_all is_lower_hex) [?b, ?a]"
    by (simp add: list_all_iff is_lower_hex_def less_eq_char_def)
  moreover have "list_all fits_line (echo_lines (v2_caps store opts) [])"
    by (simp add: echo_lines_def v2_caps_def fits_line_def MaxPayload_def f opts_def DefaultUserAgent_def)
  moreover have "info_row store ?b = (?b, None)" "info_row store ?a = (?a, Some 7)"
    by (simp_all add: info_row_def f p del: replicate.simps)
  ultimately show ?thesis
    using object_info_end_to_end [of store "[?b, ?a]" opts "[]"]
    unfolding Let_def store_def [symmetric] opts_def [symmetric] by simp
qed

end
